(* ===== verification/Prelude.thy ===== *)
theory Prelude
  imports Main "HOL-Library.Word"
begin

text \<open>
  Shared vocabulary of the development: the error numbers the kernel returns, the
  outcome of a computation that may also panic, the machine-integer operations of the
  Rust core library that the modelled code calls, and generic lemmas on words, lists and
  byte encodings that the component theories share.
\<close>

unbundle bit_operations_syntax

section \<open>Collections of rewrite rules\<close>

named_theorems outcome_simps \<open>unfolding of the outcome combinators\<close>
named_theorems bit_ext_simps \<open>bit-level characterisations of the word operations\<close>

section \<open>Errors and outcomes\<close>

text \<open>The members of \<^verbatim>\<open>axerrno::LinuxError\<close> the modelled code returns.\<close>

datatype errno =
    E2BIG | EACCES | EAGAIN | EBADF | EBUSY | EEXIST | EFAULT | EFBIG | EIDRM | EINTR
  | EINVAL | EMFILE | ENOENT | ENOMEM | EOPNOTSUPP

type_synonym 'a res = "errno + 'a"

text \<open>
  A Rust computation either returns \<open>Ok\<close>, returns \<open>Err\<close>, or panics (an index out of
  range, a failed \<open>unwrap\<close>). The kernel is built in release mode, so integer arithmetic
  wraps instead of panicking.
\<close>

datatype ('e, 'a) outcome = Ok 'a | Err 'e | Panic

fun bind_outcome :: "('e, 'a) outcome \<Rightarrow> ('a \<Rightarrow> ('e, 'b) outcome) \<Rightarrow> ('e, 'b) outcome" where
  "bind_outcome (Ok x) f = f x"
| "bind_outcome (Err e) f = Err e"
| "bind_outcome Panic f = Panic"

fun map_err :: "('e \<Rightarrow> 'f) \<Rightarrow> ('e, 'a) outcome \<Rightarrow> ('f, 'a) outcome" where
  "map_err g (Ok x) = Ok x"
| "map_err g (Err e) = Err (g e)"
| "map_err g Panic = Panic"

lemma bind_outcome_eq_Ok [outcome_simps]:
  "bind_outcome m f = Ok y \<longleftrightarrow> (\<exists>x. m = Ok x \<and> f x = Ok y)"
  by (cases m) auto

lemma bind_outcome_eq_Err [outcome_simps]:
  "bind_outcome m f = Err e \<longleftrightarrow> m = Err e \<or> (\<exists>x. m = Ok x \<and> f x = Err e)"
  by (cases m) auto

lemma bind_outcome_eq_Panic [outcome_simps]:
  "bind_outcome m f = Panic \<longleftrightarrow> m = Panic \<or> (\<exists>x. m = Ok x \<and> f x = Panic)"
  by (cases m) auto

text \<open>
  \<open>yields E P r\<close>: the computation does not panic, its errors satisfy \<open>E\<close> and its result satisfies
  \<open>P\<close>. The rules below let the safety proofs follow the structure of the code.
\<close>

definition yields :: "('e \<Rightarrow> bool) \<Rightarrow> ('a \<Rightarrow> bool) \<Rightarrow> ('e, 'a) outcome \<Rightarrow> bool" where
  "yields E P r = (case r of Ok x \<Rightarrow> P x | Err e \<Rightarrow> E e | Panic \<Rightarrow> False)"

lemma yields_simps [simp]:
  "yields E P (Ok x) = P x" "yields E P (Err e) = E e" "yields E P Panic = False"
  by (simp_all add: yields_def)

lemma yields_bind:
  assumes "yields E Q r" and "\<And>x. r = Ok x \<Longrightarrow> Q x \<Longrightarrow> yields E P (f x)"
  shows "yields E P (bind_outcome r f)"
  using assms by (cases r) auto

lemma yields_map_err:
  assumes "yields (\<lambda>_. True) P r" and "\<And>e. E (g e)"
  shows "yields E P (map_err g r)"
  using assms by (cases r) auto

lemma yields_mono:
  assumes "yields E P r" and "\<And>x. r = Ok x \<Longrightarrow> P x \<Longrightarrow> Q x" and "\<And>e. E e \<Longrightarrow> F e"
  shows "yields F Q r"
  using assms by (cases r) auto

lemma yields_Ok_iff: "yields E P r \<Longrightarrow> r = Ok x \<Longrightarrow> P x"
  by simp

section \<open>Machine integers\<close>

abbreviation usize_max :: nat where
  "usize_max \<equiv> 18446744073709551615"

definition saturating_add :: "nat \<Rightarrow> nat \<Rightarrow> nat" where
  "saturating_add a b = min (a + b) usize_max"

definition saturating_mul :: "nat \<Rightarrow> nat \<Rightarrow> nat" where
  "saturating_mul a b = min (a * b) usize_max"

section \<open>Bit masks of 64 descriptors\<close>

text \<open>\<^verbatim>\<open>u64::trailing_zeros\<close>: the index of the lowest set bit, 64 for the zero word.\<close>

definition trailing_zeros :: "64 word \<Rightarrow> nat" where
  "trailing_zeros w = length (takeWhile (\<lambda>i. \<not> bit w i) [0..<64])"

definition count_ones :: "64 word \<Rightarrow> nat" where
  "count_ones w = length (filter (bit w) [0..<64])"

definition bits_of :: "64 word \<Rightarrow> nat list" where
  "bits_of w = filter (bit w) [0..<64]"

lemma set_bits_of [simp]: "set (bits_of w) = {i. bit w i}"
proof -
  have "bit w i \<Longrightarrow> i < 64" for i
    using bit_imp_le_length [of w i] by simp
  then show ?thesis by (auto simp: bits_of_def)
qed

lemma bit_less_64: "bit (w :: 64 word) i \<Longrightarrow> i < 64"
  using bit_imp_le_length [of w i] by simp

lemma sorted_bits_of: "sorted_wrt (<) (bits_of w)"
  unfolding bits_of_def by (rule sorted_wrt_filter) simp

lemma distinct_bits_of [simp]: "distinct (bits_of w)"
  by (simp add: bits_of_def)

lemma length_bits_of: "length (bits_of w) = count_ones w"
  by (simp add: bits_of_def count_ones_def)

lemma bits_of_empty_iff [simp]: "bits_of w = [] \<longleftrightarrow> w = 0"
proof
  assume "bits_of w = []"
  then have "set (bits_of w) = {}" by (simp only: list.set)
  then have "\<not> bit w i" for i by auto
  then show "w = 0" by (simp add: bit_eq_iff)
qed (simp add: bits_of_def)

lemma takeWhile_filter_hd:
  assumes "filter P xs \<noteq> []"
  shows "xs = takeWhile (\<lambda>x. \<not> P x) xs @ hd (filter P xs) # tl (dropWhile (\<lambda>x. \<not> P x) xs)"
    and "tl (filter P xs) = filter P (tl (dropWhile (\<lambda>x. \<not> P x) xs))"
  using assms by (induction xs) auto

lemma trailing_zeros_hd:
  assumes "w \<noteq> 0"
  shows "trailing_zeros w = hd (bits_of w)"
proof -
  let ?P = "bit w"
  have ne: "filter ?P [0..<64] \<noteq> []"
    using assms bits_of_empty_iff [of w] by (simp add: bits_of_def)
  let ?k = "length (takeWhile (\<lambda>x. \<not> ?P x) [0..<64])"
  have eq: "[0..<64] = takeWhile (\<lambda>x. \<not> ?P x) [0..<64] @
      hd (filter ?P [0..<64]) # tl (dropWhile (\<lambda>x. \<not> ?P x) [0..<64])"
    by (rule takeWhile_filter_hd(1) [OF ne])
  have "?k < length [0..<64]"
    by (subst (2) eq) simp
  then have "?k < 64" by simp
  moreover have "[0..<64] ! ?k = hd (filter ?P [0..<64])"
    by (subst (1) eq) (simp add: nth_append)
  ultimately show ?thesis
    by (simp add: trailing_zeros_def bits_of_def)
qed

lemma bit_trailing_zeros: "w \<noteq> 0 \<Longrightarrow> bit w (trailing_zeros w)"
  using hd_in_set [of "bits_of w"] by (auto simp: trailing_zeros_hd)

lemma trailing_zeros_less: "w \<noteq> 0 \<Longrightarrow> trailing_zeros w < 64"
  using bit_less_64 bit_trailing_zeros by blast

lemma trailing_zeros_least: "w \<noteq> 0 \<Longrightarrow> i < trailing_zeros w \<Longrightarrow> \<not> bit w i"
  using sorted_bits_of [of w]
  by (cases "bits_of w") (auto simp: trailing_zeros_hd set_eq_iff dest!: arg_cong [where f = set],
      metis order_less_asym list.set_intros(1) mem_Collect_eq set_ConsD set_bits_of not_less_iff_gr_or_eq)


lemma trailing_zeros_upper: "bit w i \<Longrightarrow> trailing_zeros w \<le> i"
  by (metis bit_0_eq bot_apply bot_bool_def not_le trailing_zeros_least)

text \<open>
  The idiom \<^verbatim>\<open>while pending != 0 { let b = pending.trailing_zeros(); pending &= !(1 << b); .. }\<close>:
  the body runs once for every set bit, lowest first. Clearing the bit \<open>w & !(1 << b)\<close> is HOL's \<^const>\<open>unset_bit\<close>.
\<close>

lemma clear_bit_less:
  fixes w :: "64 word"
  assumes "bit w b"
  shows "unat (unset_bit b w) < unat w"
proof -
  let ?v = "unset_bit b w"
  have "b < 64" using assms by (rule bit_less_64)
  then have "\<not> bit ?v b"
    by (simp add: bit_simps)
  with assms have "?v \<noteq> w" by metis
  moreover have "?v \<le> w"
    unfolding unset_bit_eq_and_not by (rule word_and_le2)
  ultimately have "?v < w" by (simp add: order.strict_iff_order)
  then show ?thesis by (simp add: word_less_nat_alt)
qed

function for_each_bit :: "(nat \<Rightarrow> 's \<Rightarrow> 's) \<Rightarrow> 64 word \<Rightarrow> 's \<Rightarrow> 's" where
  "for_each_bit f w s =
     (if w = 0 then s
      else let b = trailing_zeros w
           in for_each_bit f (unset_bit b w) (f b s))"
  by pat_completeness auto
termination
  by (relation "measure (\<lambda>(f, w, s). unat w)")
    (auto intro: clear_bit_less bit_trailing_zeros)

declare for_each_bit.simps [simp del]

lemma bits_of_clear_lowest:
  assumes "w \<noteq> 0"
  shows "bits_of (unset_bit (trailing_zeros w) w) = tl (bits_of w)"
proof -
  let ?b = "trailing_zeros w"
  have b: "?b < 64" using assms by (rule trailing_zeros_less)
  obtain rest where cons: "bits_of w = ?b # rest"
    using assms trailing_zeros_hd [of w] by (cases "bits_of w") auto
  have "bits_of (unset_bit ?b w) = filter (\<lambda>i. bit w i \<and> i \<noteq> ?b) [0..<64]"
    unfolding bits_of_def by (rule filter_cong) (use b in \<open>auto simp: bit_simps\<close>)
  also have "\<dots> = filter (\<lambda>i. i \<noteq> ?b) (bits_of w)"
    by (simp add: bits_of_def conj_commute)
  also have "\<dots> = rest"
    using distinct_bits_of [of w] unfolding cons by (auto intro: filter_True)
  finally show ?thesis using cons by simp
qed

lemma for_each_bit_fold: "for_each_bit f w s = fold f (bits_of w) s"
proof (induction f w s rule: for_each_bit.induct)
  case (1 f w s)
  show ?case
  proof (cases "w = 0")
    case True
    then show ?thesis by (simp add: for_each_bit.simps bits_of_def)
  next
    case False
    then obtain rest where cons: "bits_of w = trailing_zeros w # rest"
      using trailing_zeros_hd [of w] by (cases "bits_of w") auto
    from False have "for_each_bit f w s =
        for_each_bit f (unset_bit (trailing_zeros w) w) (f (trailing_zeros w) s)"
      by (simp add: for_each_bit.simps [of f w s] Let_def)
    also have "\<dots> = fold f rest (f (trailing_zeros w) s)"
      using "1" [OF False refl] False cons by (simp add: bits_of_clear_lowest)
    finally show ?thesis by (simp add: cons)
  qed
qed

section \<open>Loops over index ranges\<close>

text \<open>The invariant rule for \<^verbatim>\<open>for i in m..n\<close>.\<close>

lemma fold_upt_invariant:
  assumes "Q m s" and "\<And>k s. m \<le> k \<Longrightarrow> k < n \<Longrightarrow> Q k s \<Longrightarrow> Q (Suc k) (f k s)" and "m \<le> n"
  shows "Q n (fold f [m..<n] s)"
  using assms(3,2)
proof (induction n rule: dec_induct)
  case base
  then show ?case using assms(1) by simp
next
  case (step n)
  then show ?case by simp
qed

lemma fold_idle: "(\<And>x. x \<in> set xs \<Longrightarrow> f x s = s) \<Longrightarrow> fold f xs s = s"
  by (induction xs) auto

lemma upt_split: "i \<le> j \<Longrightarrow> j \<le> k \<Longrightarrow> [i..<k] = [i..<j] @ [j..<k]"
  by (intro nth_equalityI) (auto simp: nth_append)

end
