(* ===== verification/Bytes.thy ===== *)
theory Bytes
  imports Prelude
begin

text \<open>
  Byte strings: the native-endian (little-endian on the supported RISC-V and LoongArch targets)
  encodings of machine integers, \<open>checked_add_signed\<close>, and range copies on byte vectors.
\<close>

type_synonym byte = "8 word"

lemma word_of_unat [simp]: "(of_nat (unat w) :: 'a::len word) = w"
  by (simp add: word_unat_eq_iff unat_of_nat)

section \<open>Integer encodings\<close>

fun from_bytes :: "byte list \<Rightarrow> 64 word" where
  "from_bytes [] = 0"
| "from_bytes (b # bs) = ucast b OR push_bit 8 (from_bytes bs)"

definition u64_to_bytes :: "64 word \<Rightarrow> byte list" where
  "u64_to_bytes w = map (\<lambda>i. ucast (drop_bit (8 * i) w)) [0..<8]"

definition u32_to_bytes :: "32 word \<Rightarrow> byte list" where
  "u32_to_bytes w = map (\<lambda>i. ucast (drop_bit (8 * i) w)) [0..<4]"

definition u32_from_bytes :: "byte list \<Rightarrow> 32 word" where
  "u32_from_bytes bs = ucast (from_bytes bs)"

lemma length_u64_to_bytes [simp]: "length (u64_to_bytes w) = 8"
  by (simp add: u64_to_bytes_def)

lemma length_u32_to_bytes [simp]: "length (u32_to_bytes w) = 4"
  by (simp add: u32_to_bytes_def)

lemma bit_from_bytes:
  "bit (from_bytes bs) n \<longleftrightarrow> n < 64 \<and> n div 8 < length bs \<and> bit (bs ! (n div 8)) (n mod 8)"
proof (induction bs arbitrary: n)
  case Nil
  then show ?case by simp
next
  case (Cons b bs)
  show ?case
  proof (cases "n < 8")
    case True
    then show ?thesis by (simp add: bit_simps)
  next
    case False
    have "\<not> bit b n" using False bit_imp_le_length [of b n] by auto
    moreover have "n div 8 = Suc ((n - 8) div 8)" "n mod 8 = (n - 8) mod 8"
      using False by (simp_all add: le_div_geq le_mod_geq)
    ultimately show ?thesis
      using False by (auto simp: bit_simps Cons.IH)
  qed
qed

lemma from_bytes_u64 [simp]: "from_bytes (u64_to_bytes w) = w"
proof (rule bit_word_eqI)
  fix n assume n: "n < LENGTH(64)"
  then have "n div 8 < 8" by simp
  then show "bit (from_bytes (u64_to_bytes w)) n = bit w n"
    using n by (simp add: bit_from_bytes u64_to_bytes_def bit_simps nth_map)
qed

lemma u32_from_to_bytes [simp]: "u32_from_bytes (u32_to_bytes w) = w"
proof (rule bit_word_eqI)
  fix n assume n: "n < LENGTH(32)"
  then have "n div 8 < 4" by simp
  then show "bit (u32_from_bytes (u32_to_bytes w)) n = bit w n"
    using n by (simp add: u32_from_bytes_def bit_from_bytes u32_to_bytes_def bit_simps nth_map)
qed

lemma u32_to_from_bytes:
  assumes "length bs = 4"
  shows "u32_to_bytes (u32_from_bytes bs) = bs"
proof (rule nth_equalityI)
  show "length (u32_to_bytes (u32_from_bytes bs)) = length bs" using assms by simp
  fix i assume "i < length (u32_to_bytes (u32_from_bytes bs))"
  then have i: "i < 4" by simp
  show "u32_to_bytes (u32_from_bytes bs) ! i = bs ! i"
  proof (rule bit_word_eqI)
    fix n assume n: "n < LENGTH(8)"
    then have "(8 * i + n) div 8 = i" "(8 * i + n) mod 8 = n" "8 * i + n < 32" using i by auto
    then show "bit (u32_to_bytes (u32_from_bytes bs) ! i) n = bit (bs ! i) n"
      using i n assms
      by (simp add: u32_to_bytes_def u32_from_bytes_def bit_simps bit_from_bytes)
  qed
qed

section \<open>Offsets\<close>

text \<open>\<open>usize::checked_add_signed\<close> and the wrapping 32-bit signed arithmetic of the verifier.\<close>

definition checked_add_signed :: "64 word \<Rightarrow> int \<Rightarrow> 64 word option" where
  "checked_add_signed a d =
     (let r = uint a + d in if 0 \<le> r \<and> r < 2 ^ 64 then Some (word_of_int r) else None)"

lemma uint_word_of_int_id: "0 \<le> r \<Longrightarrow> r < 2 ^ 64 \<Longrightarrow> uint (word_of_int r :: 64 word) = r"
  by (simp add: uint_word_of_int)

lemma checked_add_signed_Some:
  assumes "0 \<le> uint a + d" and "uint a + d < 2 ^ 64"
  obtains r where "checked_add_signed a d = Some r" and "uint r = uint a + d"
  using assms uint_word_of_int_id [OF assms] that unfolding checked_add_signed_def Let_def by metis

definition wrap_i32 :: "int \<Rightarrow> int" where
  "wrap_i32 x = signed_take_bit 31 x"

lemma wrap_i32_id: "- (2 ^ 31) \<le> x \<Longrightarrow> x < 2 ^ 31 \<Longrightarrow> wrap_i32 x = x"
  by (simp add: wrap_i32_def signed_take_bit_int_eq_self)

lemma wrap_i32_bounds: "- (2 ^ 31) \<le> wrap_i32 x" "wrap_i32 x < 2 ^ 31"
  unfolding wrap_i32_def
  using signed_take_bit_int_greater_eq_minus_exp [of 31 x] signed_take_bit_int_less_exp [of 31 x]
  by simp_all

lemma wrap_i32_mod: "wrap_i32 x mod 2 ^ 32 = x mod 2 ^ 32"
proof -
  have "take_bit 32 (wrap_i32 x) = take_bit 32 x"
    unfolding wrap_i32_def by (rule take_bit_signed_take_bit) simp
  then show ?thesis by (simp add: take_bit_eq_mod)
qed

text \<open>
  A wrapped sum that lands in a small window did not wrap, when both operands are small enough.
\<close>

lemma wrap_i32_window:
  assumes "\<bar>a\<bar> \<le> 2 ^ 20" and "\<bar>d\<bar> \<le> 2 ^ 31" and "\<bar>wrap_i32 (a + d)\<bar> \<le> 2 ^ 20"
  shows "wrap_i32 (a + d) = a + d"
proof -
  have "(2::int) ^ 32 dvd wrap_i32 (a + d) - (a + d)"
    using wrap_i32_mod [of "a + d"] by (simp only: mod_eq_dvd_iff)
  then obtain k where k: "wrap_i32 (a + d) - (a + d) = 2 ^ 32 * k" by (elim dvdE)
  have "\<bar>wrap_i32 (a + d) - (a + d)\<bar> < 2 ^ 32"
    using assms by (simp add: abs_le_iff abs_less_iff)
  then have "k = 0" using k by (cases "k = 0") auto
  then show ?thesis using k by simp
qed

section \<open>Copying ranges\<close>

text \<open>\<open>v[start..start + len].copy_from_slice(bytes)\<close> and the slice \<open>v[start..start + len]\<close>.\<close>

definition slice :: "'a list \<Rightarrow> nat \<Rightarrow> nat \<Rightarrow> 'a list" where
  "slice v start len = take len (drop start v)"

definition splice :: "'a list \<Rightarrow> nat \<Rightarrow> 'a list \<Rightarrow> 'a list" where
  "splice v start bytes = take start v @ bytes @ drop (start + length bytes) v"

lemma length_slice [simp]: "start + len \<le> length v \<Longrightarrow> length (slice v start len) = len"
  by (simp add: slice_def)

lemma nth_slice: "i < len \<Longrightarrow> start + len \<le> length v \<Longrightarrow> slice v start len ! i = v ! (start + i)"
  by (simp add: slice_def)

lemma length_splice [simp]:
  "start + length bytes \<le> length v \<Longrightarrow> length (splice v start bytes) = length v"
  by (simp add: splice_def)

lemma nth_splice:
  assumes "start + length bytes \<le> length v" and "i < length v"
  shows "splice v start bytes ! i =
    (if start \<le> i \<and> i < start + length bytes then bytes ! (i - start) else v ! i)"
  using assms by (auto simp: splice_def nth_append min_def)

lemma slice_splice:
  "start + length bytes \<le> length v \<Longrightarrow> slice (splice v start bytes) start (length bytes) = bytes"
  by (simp add: slice_def splice_def)

lemma slice_splice_other:
  assumes "s + length bytes \<le> length v" and "t + n \<le> length v" and "t + n \<le> s \<or> s + length bytes \<le> t"
  shows "slice (splice v s bytes) t n = slice v t n"
  using assms by (intro nth_equalityI) (auto simp: nth_slice nth_splice)

end
