(* ===== verification/Fd_Table.thy ===== *)
theory Fd_Table
  imports Prelude
begin

text \<open>
  The descriptor table of a process (\<^verbatim>\<open>pulse_core/src/fd_table/table.rs\<close>) and the
  process-level operations over it (\<^verbatim>\<open>pulse_core/src/task/process/fd.rs\<close>). The table is an
  array of 64-slot chunks with one occupancy word per chunk; \<^verbatim>\<open>Arc\<close> sharing between forked
  tables is copy-on-write, so a table is modelled by its value. The theorems show that
  the chunked table refines a finite map from descriptors to entries, that the occupancy
  words and the counter always agree with the slots, that allocation returns the lowest
  free descriptor, and what the range operations really remove.
\<close>

section \<open>Entries and flags\<close>

abbreviation (input) FD_LIMIT :: nat where "FD_LIMIT \<equiv> 1048576"
abbreviation (input) FD_CHUNK_SIZE :: nat where "FD_CHUNK_SIZE \<equiv> 64"

abbreviation (input) CLOEXEC :: "32 word" where "CLOEXEC \<equiv> 1"
abbreviation (input) NONBLOCK :: "32 word" where "NONBLOCK \<equiv> 2"
abbreviation (input) PATH :: "32 word" where "PATH \<equiv> 4"

record 'o fd_entry =
  fobject :: 'o
  flags :: "32 word"
  open_file_description :: nat

definition flags_contains :: "32 word \<Rightarrow> 32 word \<Rightarrow> bool" where
  "flags_contains f c \<longleftrightarrow> f AND c = c"

definition flags_set :: "32 word \<Rightarrow> 32 word \<Rightarrow> bool \<Rightarrow> 32 word" where
  "flags_set f c b = (if b then f OR c else f AND NOT c)"

text \<open>\<open>FdEntry::duplicate\<close> shares the object and the open file description.\<close>

definition duplicate :: "'o fd_entry \<Rightarrow> 32 word \<Rightarrow> 'o fd_entry" where
  "duplicate e fl = e\<lparr>flags := fl\<rparr>"

section \<open>Storage\<close>

type_synonym 'o fd_chunk = "'o fd_entry option list"

record 'o fd_storage =
  chunks :: "'o fd_chunk option list"
  open_fds :: "64 word list"
  count :: nat

definition fd_chunk_default :: "'o fd_chunk" where
  "fd_chunk_default = replicate FD_CHUNK_SIZE None"

definition fd_new :: "'o fd_storage" where
  "fd_new = \<lparr>chunks = [], open_fds = [], count = 0\<rparr>"

definition fd_range_mask :: "nat \<Rightarrow> nat \<Rightarrow> 64 word" where
  "fd_range_mask first_bit last_bit =
     (let from_first = push_bit first_bit (- 1);
          through_last = (if last_bit + 1 = FD_CHUNK_SIZE then - 1
                          else push_bit (last_bit + 1) 1 - 1)
      in from_first AND through_last)"

definition clone_for_fork :: "'o fd_storage \<Rightarrow> 'o fd_storage" where
  "clone_for_fork t = t"

definition drain_all :: "'o fd_storage \<Rightarrow> 'o fd_storage \<times> 'o fd_storage" where
  "drain_all t = (t, fd_new)"

definition entries_snapshot :: "'o fd_storage \<Rightarrow> 'o fd_entry list" where
  "entries_snapshot t =
     List.map_filter id (concat (List.map_filter id (chunks t)))"

definition fd_get :: "'o fd_storage \<Rightarrow> nat \<Rightarrow> 'o fd_entry option" where
  "fd_get t fd =
     (let chunk_idx = fd div FD_CHUNK_SIZE; bit_idx = fd mod FD_CHUNK_SIZE
      in if chunk_idx < length (chunks t) then
           (case chunks t ! chunk_idx of
              None \<Rightarrow> None
            | Some es \<Rightarrow> (if bit_idx < length es then es ! bit_idx else None))
         else None)"

definition get_entry_cloned :: "'o fd_storage \<Rightarrow> nat \<Rightarrow> 'o fd_entry res" where
  "get_entry_cloned t fd = (case fd_get t fd of None \<Rightarrow> Inl EBADF | Some e \<Rightarrow> Inr e)"

definition get_object :: "'o fd_storage \<Rightarrow> nat \<Rightarrow> 'o res" where
  "get_object t fd = (case fd_get t fd of None \<Rightarrow> Inl EBADF | Some e \<Rightarrow> Inr (fobject e))"

text \<open>
  \<open>Vec::try_reserve\<close> on a vector of length \<open>len\<close> and capacity \<open>cap\<close>: nothing to do when the room is there,
  otherwise the allocator \<open>alloc\<close>, a parameter, gives the new capacity or fails. \<open>objects_snapshot\<close> reserves the
  upper bound of the iterator's size hint, if it has one, and then grows the vector only when it is full.
\<close>

type_synonym allocator = "nat \<Rightarrow> nat \<Rightarrow> nat \<Rightarrow> nat option"

definition try_reserve :: "allocator \<Rightarrow> nat \<Rightarrow> nat \<Rightarrow> nat \<Rightarrow> nat option" where
  "try_reserve alloc len cap additional = (if additional \<le> cap - len then Some cap else alloc len cap additional)"

fun snapshot_fds ::
  "allocator \<Rightarrow> 'o fd_storage \<Rightarrow> 'o option list \<Rightarrow> nat \<Rightarrow> nat list \<Rightarrow> 'o option list res" where
  "snapshot_fds alloc t objects cap [] = Inr objects"
| "snapshot_fds alloc t objects cap (fd # fds) =
     (case if length objects = cap then try_reserve alloc (length objects) cap 1 else Some cap of
        None \<Rightarrow> Inl ENOMEM
      | Some cap' \<Rightarrow> snapshot_fds alloc t (objects @ [map_option fobject (fd_get t fd)]) cap' fds)"

definition objects_snapshot ::
  "allocator \<Rightarrow> 'o fd_storage \<Rightarrow> nat option \<Rightarrow> nat list \<Rightarrow> 'o option list res" where
  "objects_snapshot alloc t upper fds =
     (case case upper of Some u \<Rightarrow> try_reserve alloc 0 0 u | None \<Rightarrow> Some 0 of
        None \<Rightarrow> Inl ENOMEM
      | Some cap \<Rightarrow> snapshot_fds alloc t [] cap fds)"

text \<open>
  \<open>get_mut\<close> hands out a mutable reference to the entry; the model applies the caller's
  update \<open>f\<close> to it.
\<close>

definition fd_modify ::
  "'o fd_storage \<Rightarrow> nat \<Rightarrow> ('o fd_entry \<Rightarrow> 'o fd_entry) \<Rightarrow> 'o fd_storage option" where
  "fd_modify t fd f =
     (let chunk_idx = fd div FD_CHUNK_SIZE; bit_idx = fd mod FD_CHUNK_SIZE
      in case fd_get t fd of
           None \<Rightarrow> None
         | Some e \<Rightarrow>
             (case chunks t ! chunk_idx of
                None \<Rightarrow> None
              | Some es \<Rightarrow>
                  Some (t\<lparr>chunks := (chunks t)[chunk_idx := Some (es[bit_idx := Some (f e)])]\<rparr>)))"

section \<open>Insertion\<close>

text \<open>
  The doubling loop of \<open>insert_at\<close>. It is entered with a positive length and an index
  below \<^term>\<open>FD_LIMIT div FD_CHUNK_SIZE\<close>; outside that range, where the source would not
  make progress, the model stops.
\<close>

function grow_chunks :: "nat \<Rightarrow> nat \<Rightarrow> nat" where
  "grow_chunks len chunk_idx =
     (if len \<le> chunk_idx \<and> 0 < len \<and> len < usize_max
      then grow_chunks (saturating_mul len 2) chunk_idx else len)"
  by pat_completeness auto
termination
  by (relation "measure (\<lambda>(len, chunk_idx). chunk_idx + 1 - len)") (auto simp: saturating_mul_def)

declare grow_chunks.simps [simp del]

definition max_chunks :: nat where
  "max_chunks = (FD_LIMIT + FD_CHUNK_SIZE - 1) div FD_CHUNK_SIZE"

definition resize_chunks :: "'o fd_storage \<Rightarrow> nat \<Rightarrow> 'o fd_storage res" where
  "resize_chunks t chunk_idx =
     (if length (chunks t) \<le> chunk_idx then
        (let new_len = min (grow_chunks (max 1 (length (chunks t))) chunk_idx) max_chunks
         in if new_len \<le> chunk_idx then Inl EMFILE
            else Inr (t\<lparr>chunks := chunks t @ replicate (new_len - length (chunks t)) None,
                       open_fds := open_fds t @ replicate (new_len - length (open_fds t)) 0\<rparr>))
      else Inr t)"

definition insert_at :: "'o fd_storage \<Rightarrow> nat \<Rightarrow> 'o fd_entry \<Rightarrow> 'o fd_storage res" where
  "insert_at t fd e =
     (if FD_LIMIT \<le> fd then Inl EBADF
      else
        (let chunk_idx = fd div FD_CHUNK_SIZE; bit_idx = fd mod FD_CHUNK_SIZE
         in case resize_chunks t chunk_idx of
              Inl err \<Rightarrow> Inl err
            | Inr t1 \<Rightarrow>
                (let es = (case chunks t1 ! chunk_idx of None \<Rightarrow> fd_chunk_default | Some es \<Rightarrow> es);
                     t2 = (if es ! bit_idx = None
                           then t1\<lparr>count := saturating_add (count t1) 1,
                                   open_fds := (open_fds t1)
                                     [chunk_idx := set_bit bit_idx (open_fds t1 ! chunk_idx)]\<rparr>
                           else t1)
                 in Inr (t2\<lparr>chunks := (chunks t2)[chunk_idx := Some (es[bit_idx := Some e])]\<rparr>))))"

fun scan_words :: "64 word list \<Rightarrow> nat \<Rightarrow> nat \<Rightarrow> nat \<Rightarrow> nat option" where
  "scan_words [] word_idx min_word min_bit = None"
| "scan_words (w # ws) word_idx min_word min_bit =
     (let word = (if word_idx = min_word then w OR (push_bit min_bit 1 - 1) else w)
      in if word \<noteq> - 1 then
           (let fd = word_idx * FD_CHUNK_SIZE + trailing_zeros (NOT word)
            in if fd < FD_LIMIT then Some fd else None)
         else scan_words ws (Suc word_idx) min_word min_bit)"

definition next_available_fd :: "'o fd_storage \<Rightarrow> nat \<Rightarrow> nat res" where
  "next_available_fd t min_fd =
     (let min_word = min_fd div FD_CHUNK_SIZE;
          found_fd = (if min_word < length (open_fds t)
                      then scan_words (drop min_word (open_fds t)) min_word min_word
                             (min_fd mod FD_CHUNK_SIZE)
                      else None)
      in case found_fd of
           Some fd \<Rightarrow> Inr fd
         | None \<Rightarrow>
             (let current_cap = length (chunks t) * FD_CHUNK_SIZE;
                  next_fd = max min_fd current_cap
              in if FD_LIMIT \<le> next_fd then Inl EMFILE else Inr next_fd))"

definition insert_from ::
  "'o fd_storage \<Rightarrow> nat \<Rightarrow> 'o fd_entry \<Rightarrow> ('o fd_storage \<times> nat) res" where
  "insert_from t min_fd e =
     (case next_available_fd t min_fd of
        Inl err \<Rightarrow> Inl err
      | Inr fd \<Rightarrow> (case insert_at t fd e of Inl err \<Rightarrow> Inl err | Inr t' \<Rightarrow> Inr (t', fd)))"

definition insert_next :: "'o fd_storage \<Rightarrow> 'o fd_entry \<Rightarrow> ('o fd_storage \<times> nat) res" where
  "insert_next t e = insert_from t 0 e"

section \<open>Removal and range operations\<close>

definition fd_remove :: "'o fd_storage \<Rightarrow> nat \<Rightarrow> 'o fd_storage \<times> 'o fd_entry option" where
  "fd_remove t fd =
     (let chunk_idx = fd div FD_CHUNK_SIZE; bit_idx = fd mod FD_CHUNK_SIZE
      in if length (chunks t) \<le> chunk_idx then (t, None)
         else case chunks t ! chunk_idx of
                None \<Rightarrow> (t, None)
              | Some es \<Rightarrow>
                  (case es ! bit_idx of
                     None \<Rightarrow> (t, None)
                   | Some e \<Rightarrow>
                       (t\<lparr>chunks := (chunks t)[chunk_idx := Some (es[bit_idx := None])],
                         count := count t - 1,
                         open_fds := (if chunk_idx < length (open_fds t)
                                      then (open_fds t)
                                        [chunk_idx := unset_bit bit_idx (open_fds t ! chunk_idx)]
                                      else open_fds t)\<rparr>, Some e)))"

definition remove_or_err :: "'o fd_storage \<Rightarrow> nat \<Rightarrow> ('o fd_storage \<times> 'o fd_entry) res" where
  "remove_or_err t fd =
     (case fd_remove t fd of (t', None) \<Rightarrow> Inl EBADF | (t', Some e) \<Rightarrow> Inr (t', e))"

definition slot_cloexec :: "'o fd_entry option \<Rightarrow> bool" where
  "slot_cloexec slot = (case slot of None \<Rightarrow> False | Some e \<Rightarrow> flags_contains (flags e) CLOEXEC)"

definition chunk_cloexec :: "'o fd_chunk option \<Rightarrow> bool" where
  "chunk_cloexec c = (case c of None \<Rightarrow> False | Some es \<Rightarrow> list_ex slot_cloexec es)"

text \<open>One slot of the inner loop of \<open>take_cloexec_on_exec\<close>.\<close>

definition take_cloexec_slot ::
  "nat \<Rightarrow> nat \<Rightarrow> 'o fd_storage \<times> 'o fd_entry list \<Rightarrow> 'o fd_storage \<times> 'o fd_entry list" where
  "take_cloexec_slot chunk_idx bit_idx s =
     (case s of (t, removed) \<Rightarrow>
       (case chunks t ! chunk_idx of
          None \<Rightarrow> (t, removed)
        | Some es \<Rightarrow>
            (case es ! bit_idx of
               None \<Rightarrow> (t, removed)
             | Some e \<Rightarrow>
                 if flags_contains (flags e) CLOEXEC then
                   (t\<lparr>chunks := (chunks t)[chunk_idx := Some (es[bit_idx := None])],
                     count := count t - 1,
                     open_fds := (if chunk_idx < length (open_fds t)
                                  then (open_fds t)
                                    [chunk_idx := unset_bit bit_idx (open_fds t ! chunk_idx)]
                                  else open_fds t)\<rparr>, removed @ [e])
                 else (t, removed))))"

definition take_cloexec_chunk ::
  "nat \<Rightarrow> 'o fd_storage \<times> 'o fd_entry list \<Rightarrow> 'o fd_storage \<times> 'o fd_entry list" where
  "take_cloexec_chunk chunk_idx s =
     (if chunk_cloexec (chunks (fst s) ! chunk_idx)
      then fold (take_cloexec_slot chunk_idx) [0..<FD_CHUNK_SIZE] s else s)"

definition take_cloexec_on_exec :: "'o fd_storage \<Rightarrow> 'o fd_storage \<times> 'o fd_entry list" where
  "take_cloexec_on_exec t =
     (if \<not> list_ex chunk_cloexec (chunks t) then (t, [])
      else fold take_cloexec_chunk [0..<length (chunks t)] (t, []))"

text \<open>
  The bit bounds that \<open>remove_range\<close> and \<open>set_cloexec_range\<close> use inside one chunk: only the
  first and the last chunk of the (clamped) range are partial.
\<close>

definition range_first_bit :: "nat \<Rightarrow> nat \<Rightarrow> nat \<Rightarrow> nat" where
  "range_first_bit first_chunk first chunk_idx =
     (if chunk_idx = first_chunk then first mod FD_CHUNK_SIZE else 0)"

definition range_last_bit :: "nat \<Rightarrow> nat \<Rightarrow> nat \<Rightarrow> nat" where
  "range_last_bit last_chunk last_fd chunk_idx =
     (if chunk_idx = last_chunk then last_fd mod FD_CHUNK_SIZE else FD_CHUNK_SIZE - 1)"

definition range_pending ::
  "'o fd_storage \<Rightarrow> nat \<Rightarrow> nat \<Rightarrow> nat \<Rightarrow> nat \<Rightarrow> nat \<Rightarrow> 64 word" where
  "range_pending t first_chunk first last_chunk last_fd chunk_idx =
     open_fds t ! chunk_idx AND
     fd_range_mask (range_first_bit first_chunk first chunk_idx)
       (range_last_bit last_chunk last_fd chunk_idx)"

text \<open>The body of the bit loop: \<open>chunk.entries[bit_idx].take()\<close>.\<close>

definition take_slot ::
  "nat \<Rightarrow> 'o fd_chunk \<times> 'o fd_entry list \<times> 64 word \<Rightarrow> 'o fd_chunk \<times> 'o fd_entry list \<times> 64 word"
  where
  "take_slot bit_idx s =
     (case s of (es, removed, removed_mask) \<Rightarrow>
       (case es ! bit_idx of
          None \<Rightarrow> (es, removed, removed_mask)
        | Some e \<Rightarrow> (es[bit_idx := None], removed @ [e], set_bit bit_idx removed_mask)))"

definition remove_range_chunk ::
  "nat \<Rightarrow> nat \<Rightarrow> nat \<Rightarrow> nat \<Rightarrow> nat \<Rightarrow> 'o fd_storage \<times> 'o fd_entry list \<Rightarrow>
   'o fd_storage \<times> 'o fd_entry list" where
  "remove_range_chunk first_chunk first last_chunk last_fd chunk_idx s =
     (case s of (t, removed) \<Rightarrow>
       (let pending = range_pending t first_chunk first last_chunk last_fd chunk_idx
        in if pending = 0 then (t, removed)
           else case chunks t ! chunk_idx of
                  None \<Rightarrow> (t, removed)
                | Some es \<Rightarrow>
                    (case for_each_bit take_slot pending (es, removed, 0) of
                       (es', removed', removed_mask) \<Rightarrow>
                         (let t1 = t\<lparr>chunks := (chunks t)[chunk_idx := Some es']\<rparr>
                          in if removed_mask \<noteq> 0
                             then (t1\<lparr>open_fds := (open_fds t1)
                                       [chunk_idx := open_fds t1 ! chunk_idx AND NOT removed_mask],
                                     count := count t1 - count_ones removed_mask\<rparr>, removed')
                             else (t1, removed')))))"

definition remove_range ::
  "'o fd_storage \<Rightarrow> nat \<Rightarrow> nat \<Rightarrow> 'o fd_storage \<times> 'o fd_entry list" where
  "remove_range t first last0 =
     (if last0 < first \<or> FD_LIMIT \<le> first \<or> chunks t = [] then (t, [])
      else
        (let last_fd = min last0 (FD_LIMIT - 1);
             first_chunk = first div FD_CHUNK_SIZE
         in if length (chunks t) \<le> first_chunk then (t, [])
            else
              (let last_chunk = min (last_fd div FD_CHUNK_SIZE) (length (chunks t) - 1);
                   idxs = [first_chunk..<Suc last_chunk]
               in if \<not> list_ex
                       (\<lambda>c. range_pending t first_chunk first last_chunk last_fd c \<noteq> 0) idxs
                  then (t, [])
                  else fold (remove_range_chunk first_chunk first last_chunk last_fd) idxs (t, []))))"

definition set_slot_cloexec :: "nat \<Rightarrow> 'o fd_chunk \<Rightarrow> 'o fd_chunk" where
  "set_slot_cloexec bit_idx es =
     (case es ! bit_idx of
        None \<Rightarrow> es
      | Some e \<Rightarrow> es[bit_idx := Some (e\<lparr>flags := flags e OR CLOEXEC\<rparr>)])"

definition set_cloexec_chunk ::
  "nat \<Rightarrow> nat \<Rightarrow> nat \<Rightarrow> nat \<Rightarrow> nat \<Rightarrow> 'o fd_storage \<Rightarrow> 'o fd_storage" where
  "set_cloexec_chunk first_chunk first last_chunk last_fd chunk_idx t =
     (let pending = range_pending t first_chunk first last_chunk last_fd chunk_idx
      in if pending = 0 then t
         else case chunks t ! chunk_idx of
                None \<Rightarrow> t
              | Some es \<Rightarrow>
                  t\<lparr>chunks := (chunks t)
                     [chunk_idx := Some (for_each_bit set_slot_cloexec pending es)]\<rparr>)"

definition chunk_needs_cloexec :: "'o fd_storage \<Rightarrow> 64 word \<Rightarrow> nat \<Rightarrow> bool" where
  "chunk_needs_cloexec t pending chunk_idx =
     (case chunks t ! chunk_idx of
        None \<Rightarrow> False
      | Some es \<Rightarrow> list_ex (\<lambda>b. case es ! b of None \<Rightarrow> False
                                 | Some e \<Rightarrow> \<not> flags_contains (flags e) CLOEXEC) (bits_of pending))"

definition set_cloexec_range :: "'o fd_storage \<Rightarrow> nat \<Rightarrow> nat \<Rightarrow> 'o fd_storage" where
  "set_cloexec_range t first last0 =
     (if last0 < first \<or> FD_LIMIT \<le> first \<or> chunks t = [] then t
      else
        (let last_fd = min last0 (FD_LIMIT - 1);
             first_chunk = first div FD_CHUNK_SIZE
         in if length (chunks t) \<le> first_chunk then t
            else
              (let last_chunk = min (last_fd div FD_CHUNK_SIZE) (length (chunks t) - 1);
                   idxs = [first_chunk..<Suc last_chunk]
               in if \<not> list_ex
                       (\<lambda>c. chunk_needs_cloexec t
                          (range_pending t first_chunk first last_chunk last_fd c) c) idxs
                  then t
                  else fold (set_cloexec_chunk first_chunk first last_chunk last_fd) idxs t)))"

definition fd_len :: "'o fd_storage \<Rightarrow> nat" where
  "fd_len t = count t"

definition fd_is_empty :: "'o fd_storage \<Rightarrow> bool" where
  "fd_is_empty t \<longleftrightarrow> count t = 0"

section \<open>Well-formed tables\<close>

definition chunk_count :: "'o fd_chunk option \<Rightarrow> nat" where
  "chunk_count c = (case c of None \<Rightarrow> 0 | Some es \<Rightarrow> length (filter (\<lambda>s. s \<noteq> None) es))"

definition chunk_ok :: "'o fd_chunk option \<Rightarrow> 64 word \<Rightarrow> bool" where
  "chunk_ok c w =
     (case c of
        None \<Rightarrow> w = 0
      | Some es \<Rightarrow> length es = FD_CHUNK_SIZE \<and> (\<forall>b<FD_CHUNK_SIZE. bit w b \<longleftrightarrow> es ! b \<noteq> None))"

definition fd_wf :: "'o fd_storage \<Rightarrow> bool" where
  "fd_wf t \<longleftrightarrow>
     length (open_fds t) = length (chunks t) \<and> length (chunks t) \<le> max_chunks \<and>
     (\<forall>c<length (chunks t). chunk_ok (chunks t ! c) (open_fds t ! c)) \<and>
     count t = sum_list (map chunk_count (chunks t))"

lemma max_chunks_val: "max_chunks = 16384"
  by (simp add: max_chunks_def)

lemma chunk_ok_Some [simp]:
  "chunk_ok (Some es) w \<longleftrightarrow>
     length es = FD_CHUNK_SIZE \<and> (\<forall>b<FD_CHUNK_SIZE. bit w b \<longleftrightarrow> es ! b \<noteq> None)"
  by (simp add: chunk_ok_def)

lemma chunk_ok_None [simp]: "chunk_ok None w \<longleftrightarrow> w = 0"
  by (simp add: chunk_ok_def)

lemma chunk_count_le:
  assumes "chunk_ok c w"
  shows "chunk_count c \<le> FD_CHUNK_SIZE"
proof (cases c)
  case None
  then show ?thesis by (simp add: chunk_count_def)
next
  case (Some es)
  then show ?thesis
    using assms length_filter_le [of "\<lambda>s. s \<noteq> None" es] by (simp add: chunk_count_def)
qed

lemma sum_list_le_mult:
  fixes xs :: "nat list"
  shows "\<forall>x\<in>set xs. x \<le> k \<Longrightarrow> sum_list xs \<le> k * length xs"
  by (induction xs) auto

lemma fd_wf_count_le:
  assumes "fd_wf t"
  shows "count t \<le> FD_LIMIT"
proof -
  have "\<forall>x\<in>set (map chunk_count (chunks t)). x \<le> FD_CHUNK_SIZE"
    using assms chunk_count_le by (fastforce simp: fd_wf_def in_set_conv_nth)
  then have "sum_list (map chunk_count (chunks t)) \<le> FD_CHUNK_SIZE * length (chunks t)"
    using sum_list_le_mult by fastforce
  then show ?thesis using assms by (simp add: fd_wf_def max_chunks_val)
qed

lemma chunk_count_le_count:
  assumes "fd_wf t" and "c < length (chunks t)"
  shows "chunk_count (chunks t ! c) \<le> count t"
proof -
  have "map chunk_count (chunks t) ! c \<le> sum_list (map chunk_count (chunks t))"
    using assms(2) by (intro elem_le_sum_list) simp
  then show ?thesis using assms by (simp add: fd_wf_def)
qed

lemma length_filter_update:
  "b < length es \<Longrightarrow>
   length (filter P (es[b := x])) + (if P (es ! b) then 1 else 0) =
   length (filter P es) + (if P x then 1 else 0)"
proof (induction es arbitrary: b)
  case Nil
  then show ?case by simp
next
  case (Cons e es)
  then show ?case
  proof (cases b)
    case 0
    then show ?thesis by simp
  next
    case (Suc b')
    then show ?thesis using Cons.IH [of b'] Cons.prems by auto
  qed
qed

text \<open>
  Every operation rewrites one chunk and its occupancy word. The two lemmas below reduce
  the invariant and the abstraction of such a rewrite to the chunk itself.
\<close>

lemma fd_wf_chunk_update:
  assumes wf: "fd_wf t" and c: "c < length (chunks t)" and ok: "chunk_ok (Some es) w"
    and "chunks t' = (chunks t)[c := Some es]" and "open_fds t' = (open_fds t)[c := w]"
    and cnt: "count t' + chunk_count (chunks t ! c) = count t + chunk_count (Some es)"
  shows "fd_wf t'"
proof -
  let ?m = "map chunk_count (chunks t)"
  have le: "?m ! c \<le> sum_list ?m"
    using c by (intro elem_le_sum_list) simp
  have "sum_list (?m[c := chunk_count (Some es)]) = sum_list ?m + chunk_count (Some es) - ?m ! c"
    using c by (simp add: sum_list_update)
  then have "count t' = sum_list (map chunk_count (chunks t'))"
    using cnt wf c le assms(4) by (simp add: fd_wf_def map_update)
  then show ?thesis
    using wf ok c assms(4,5) by (auto simp: fd_wf_def nth_list_update)
qed

lemma fd_get_chunk_update:
  assumes "c < length (chunks t)" and "length es = FD_CHUNK_SIZE"
    and "chunks t' = (chunks t)[c := Some es]"
  shows "fd_get t' fd =
    (if fd div FD_CHUNK_SIZE = c then es ! (fd mod FD_CHUNK_SIZE) else fd_get t fd)"
  using assms by (auto simp: fd_get_def Let_def nth_list_update split: option.splits)

lemma fd_wf_chunkD:
  assumes "fd_wf t" and "c < length (chunks t)"
  shows "chunk_ok (chunks t ! c) (open_fds t ! c)" and "c < length (open_fds t)"
    and "c < max_chunks" and "length (open_fds t) = length (chunks t)"
  using assms by (auto simp: fd_wf_def)

lemma fd_get_bit:
  assumes "fd_wf t" and "c < length (chunks t)" and "b < FD_CHUNK_SIZE"
  shows "bit (open_fds t ! c) b \<longleftrightarrow> fd_get t (c * FD_CHUNK_SIZE + b) \<noteq> None"
  using fd_wf_chunkD(1) [OF assms(1,2)] assms(2,3)
  by (auto simp: fd_get_def Let_def div_mult_self3 split: option.splits)

lemma fd_get_limit: "fd_wf t \<Longrightarrow> fd_get t fd \<noteq> None \<Longrightarrow> fd < FD_LIMIT"
  by (auto simp: fd_get_def Let_def fd_wf_def max_chunks_val split: if_splits)

lemma fd_get_chunk_Some:
  assumes "fd_wf t" and "fd_get t fd = Some e"
  obtains es where "fd div FD_CHUNK_SIZE < length (chunks t)"
    and "chunks t ! (fd div FD_CHUNK_SIZE) = Some es" and "length es = FD_CHUNK_SIZE"
    and "es ! (fd mod FD_CHUNK_SIZE) = Some e"
    and "\<forall>b<FD_CHUNK_SIZE. bit (open_fds t ! (fd div FD_CHUNK_SIZE)) b \<longleftrightarrow> es ! b \<noteq> None"
proof -
  have c: "fd div FD_CHUNK_SIZE < length (chunks t)"
    using assms(2) by (auto simp: fd_get_def Let_def split: if_splits)
  then obtain es where es: "chunks t ! (fd div FD_CHUNK_SIZE) = Some es"
    using assms(2) by (auto simp: fd_get_def Let_def split: option.splits)
  then show ?thesis
    using that [OF c es] fd_wf_chunkD(1) [OF assms(1) c] assms(2) c
    by (auto simp: fd_get_def Let_def)
qed

section \<open>Insertion and allocation\<close>

lemma grow_chunks_gt:
  "0 < len \<Longrightarrow> chunk_idx < usize_max \<Longrightarrow> chunk_idx < grow_chunks len chunk_idx"
proof (induction len chunk_idx rule: grow_chunks.induct)
  case (1 len chunk_idx)
  show ?case
  proof (cases "len \<le> chunk_idx")
    case True
    with "1.prems" have rec: "len \<le> chunk_idx \<and> 0 < len \<and> len < usize_max" by simp
    moreover from rec have "0 < saturating_mul len 2" by (simp add: saturating_mul_def)
    ultimately show ?thesis
      using "1.IH" "1.prems"(2) by (simp add: grow_chunks.simps [of len chunk_idx])
  next
    case False
    then show ?thesis by (simp add: grow_chunks.simps [of len chunk_idx])
  qed
qed

lemma resize_chunks_ok:
  assumes wf: "fd_wf t" and c: "c < max_chunks"
  obtains t1 where "resize_chunks t c = Inr t1" and "fd_wf t1" and "c < length (chunks t1)"
    and "fd_get t1 = fd_get t" and "count t1 = count t"
proof (cases "length (chunks t) \<le> c")
  case False
  then show ?thesis using wf that by (simp add: resize_chunks_def)
next
  case True
  define n where "n = min (grow_chunks (max 1 (length (chunks t))) c) max_chunks"
  define t1 where "t1 = t\<lparr>chunks := chunks t @ replicate (n - length (chunks t)) None,
     open_fds := open_fds t @ replicate (n - length (open_fds t)) 0\<rparr>"
  have n: "c < n"
    using c grow_chunks_gt [of "max 1 (length (chunks t))" c] by (simp add: n_def max_chunks_val)
  then have "resize_chunks t c = Inr t1"
    using True by (auto simp: resize_chunks_def n_def t1_def Let_def)
  moreover have "length (chunks t1) = n" and "length (open_fds t1) = n"
    using True n wf by (auto simp: t1_def fd_wf_def)
  moreover have "fd_wf t1"
    using wf True n
    by (auto simp: fd_wf_def t1_def nth_append chunk_count_def sum_list_replicate n_def)
  moreover have "fd_get t1 = fd_get t"
    by (rule ext) (auto simp: fd_get_def t1_def Let_def nth_append)
  ultimately show ?thesis
    using that n by (simp add: t1_def)
qed

lemma chunk_count_insert:
  "b < length es \<Longrightarrow> chunk_count (Some (es[b := Some e])) =
     chunk_count (Some es) + (if es ! b = None then 1 else 0)"
  using length_filter_update [of b es "\<lambda>s. s \<noteq> None" "Some e"]
  by (auto simp: chunk_count_def split: if_splits)

lemma chunk_count_clear:
  "b < length es \<Longrightarrow> chunk_count (Some (es[b := None])) + (if es ! b = None then 0 else 1) =
     chunk_count (Some es)"
  using length_filter_update [of b es "\<lambda>s. s \<noteq> None" None]
  by (auto simp: chunk_count_def split: if_splits)

lemma fd_div_mod_eq: "fd div (64::nat) = fd' div 64 \<Longrightarrow> fd mod 64 = fd' mod 64 \<Longrightarrow> fd = fd'"
  by (metis div_mult_mod_eq)

lemma insert_at_correct:
  assumes wf: "fd_wf t" and fd: "fd < FD_LIMIT"
  obtains t' where "insert_at t fd e = Inr t'" and "fd_wf t'"
    and "fd_get t' = (fd_get t)(fd \<mapsto> e)"
    and "count t' = count t + (if fd_get t fd = None then 1 else 0)"
proof -
  let ?c = "fd div FD_CHUNK_SIZE" and ?b = "fd mod FD_CHUNK_SIZE"
  have "?c < max_chunks" using fd by (simp add: max_chunks_val)
  then obtain t1 where rs: "resize_chunks t ?c = Inr t1" and wf1: "fd_wf t1"
    and c1: "?c < length (chunks t1)" and get1: "fd_get t1 = fd_get t" and cnt1: "count t1 = count t"
    using resize_chunks_ok [OF wf] by metis
  define es where "es = (case chunks t1 ! ?c of None \<Rightarrow> fd_chunk_default | Some es \<Rightarrow> es)"
  define w where "w = open_fds t1 ! ?c"
  have ok: "length es = FD_CHUNK_SIZE" "\<And>b. b < FD_CHUNK_SIZE \<Longrightarrow> bit w b \<longleftrightarrow> es ! b \<noteq> None"
    and cc: "chunk_count (chunks t1 ! ?c) = chunk_count (Some es)"
    using fd_wf_chunkD(1) [OF wf1 c1]
    by (auto simp: es_def w_def fd_chunk_default_def chunk_count_def split: option.splits)
  have in_chunk: "fd_get t x = es ! (x mod FD_CHUNK_SIZE)" if "x div FD_CHUNK_SIZE = ?c" for x
    using that c1 ok(1) get1 [THEN fun_cong, of x, symmetric]
    by (auto simp: fd_get_def es_def Let_def fd_chunk_default_def split: option.splits)
  have at: "fd_get t fd = es ! ?b" by (rule in_chunk) simp
  define t2 where "t2 = (if es ! ?b = None
     then t1\<lparr>count := saturating_add (count t1) 1,
             open_fds := (open_fds t1)[?c := set_bit ?b (open_fds t1 ! ?c)]\<rparr> else t1)"
  define t' where "t' = t2\<lparr>chunks := (chunks t2)[?c := Some (es[?b := Some e])]\<rparr>"
  have cnt2: "saturating_add (count t) (Suc 0) = Suc (count t)"
    using fd_wf_count_le [OF wf] by (simp add: saturating_add_def)
  have "insert_at t fd e = Inr t'"
    using fd rs by (simp add: insert_at_def Let_def t'_def t2_def es_def)
  moreover have ch: "chunks t' = (chunks t1)[?c := Some (es[?b := Some e])]"
    by (simp add: t'_def t2_def)
  moreover have op: "open_fds t' = (open_fds t1)[?c := (if es ! ?b = None then set_bit ?b w else w)]"
    by (simp add: t'_def t2_def w_def)
  moreover have cn: "count t' = count t + (if fd_get t fd = None then 1 else 0)"
    using cnt2 by (simp add: t'_def t2_def at cnt1)
  moreover have "fd_wf t'"
  proof (rule fd_wf_chunk_update [OF wf1 c1 _ ch op])
    show "chunk_ok (Some (es[?b := Some e])) (if es ! ?b = None then set_bit ?b w else w)"
      using ok by (auto simp: nth_list_update bit_simps)
    show "count t' + chunk_count (chunks t1 ! ?c) =
        count t1 + chunk_count (Some (es[?b := Some e]))"
      using cn cc ok(1) by (simp add: chunk_count_insert at cnt1)
  qed
  moreover have "fd_get t' = (fd_get t)(fd \<mapsto> e)"
    using fd_get_chunk_update [OF c1 _ ch] ok(1) get1 in_chunk fd_div_mod_eq [of _ fd]
    by (auto simp: fun_eq_iff nth_list_update)
  ultimately show ?thesis using that by blast
qed

text \<open>
  \<open>scan_words\<close> over the occupancy words of the descriptors from \<open>word_idx * 64\<close> on finds the
  lowest descriptor for which \<open>P\<close> (is open) fails.
\<close>

definition scan_from :: "nat \<Rightarrow> nat \<Rightarrow> nat \<Rightarrow> nat" where
  "scan_from word_idx min_word min_bit =
     word_idx * FD_CHUNK_SIZE + (if word_idx = min_word then min_bit else 0)"

definition scan_word :: "64 word \<Rightarrow> nat \<Rightarrow> nat \<Rightarrow> nat \<Rightarrow> 64 word" where
  "scan_word w word_idx min_word min_bit =
     (if word_idx = min_word then w OR (push_bit min_bit 1 - 1) else w)"

lemma bit_low_mask: "bit (2 ^ m - 1 :: 64 word) b \<longleftrightarrow> b < m \<and> b < 64"
  by (auto simp: bit_mask_iff simp flip: mask_eq_exp_minus_1)

lemma bit_scan_word:
  "b < 64 \<Longrightarrow> bit (scan_word w i mw mb) b \<longleftrightarrow> bit w b \<or> i = mw \<and> b < mb"
  by (auto simp: scan_word_def bit_simps bit_low_mask)

lemma scan_word_full:
  assumes "scan_word w i mw mb = - 1" and P: "\<And>b. b < 64 \<Longrightarrow> bit w b \<longleftrightarrow> P (i * 64 + b)"
    and "scan_from i mw mb \<le> x" and "x < Suc i * 64"
  shows "P x"
proof -
  let ?b = "x - i * 64"
  have b: "?b < 64" "x = i * 64 + ?b" "i = mw \<Longrightarrow> mb \<le> ?b"
    using assms(3,4) by (auto simp: scan_from_def split: if_splits)
  have "bit (scan_word w i mw mb) ?b" using assms(1) b(1) by simp
  then have "bit w ?b" using bit_scan_word [OF b(1)] b(3) by auto
  then show "P x" using P [OF b(1)] b(2) by simp
qed

lemma scan_word_found:
  assumes "scan_word w i mw mb \<noteq> - 1" and P: "\<And>b. b < 64 \<Longrightarrow> bit w b \<longleftrightarrow> P (i * 64 + b)"
  defines "k \<equiv> trailing_zeros (NOT (scan_word w i mw mb))"
  shows "k < 64" and "scan_from i mw mb \<le> i * 64 + k" and "\<not> P (i * 64 + k)"
    and "\<And>x. scan_from i mw mb \<le> x \<Longrightarrow> x < i * 64 + k \<Longrightarrow> P x"
proof -
  let ?v = "NOT (scan_word w i mw mb)"
  have ne: "?v \<noteq> 0" using assms(1) by (metis bit.compl_zero bit.double_compl)
  show k: "k < 64" using ne by (simp add: k_def trailing_zeros_less)
  have "\<not> bit (scan_word w i mw mb) k"
    using bit_trailing_zeros [OF ne] k by (simp add: k_def bit_simps)
  then show "scan_from i mw mb \<le> i * 64 + k" "\<not> P (i * 64 + k)"
    using bit_scan_word [OF k] P [OF k] by (auto simp: scan_from_def)
  fix x assume x: "scan_from i mw mb \<le> x" "x < i * 64 + k"
  let ?b = "x - i * 64"
  have b: "?b < 64" "?b < k" "x = i * 64 + ?b" "i = mw \<Longrightarrow> mb \<le> ?b"
    using x k by (auto simp: scan_from_def split: if_splits)
  have "bit (scan_word w i mw mb) ?b"
    using trailing_zeros_least [OF ne] b(1,2) by (simp add: k_def bit_simps)
  then show "P x" using bit_scan_word [OF b(1)] P [OF b(1)] b(3,4) by auto
qed

lemma scan_words_Cons:
  "scan_words (w # ws) i mw mb =
     (if scan_word w i mw mb \<noteq> - 1 then
        (let fd = i * FD_CHUNK_SIZE + trailing_zeros (NOT (scan_word w i mw mb))
         in if fd < FD_LIMIT then Some fd else None)
      else scan_words ws (Suc i) mw mb)"
  by (simp add: scan_word_def Let_def)

lemma scan_words_correct:
  assumes "\<And>k b. k < length ws \<Longrightarrow> b < 64 \<Longrightarrow> bit (ws ! k) b \<longleftrightarrow> P ((i + k) * 64 + b)"
    and "mw \<le> i" and "(i + length ws) * 64 \<le> FD_LIMIT" and "mb < 64"
  shows "case scan_words ws i mw mb of
      Some fd \<Rightarrow> scan_from i mw mb \<le> fd \<and> fd < FD_LIMIT \<and> \<not> P fd \<and>
        (\<forall>x. scan_from i mw mb \<le> x \<longrightarrow> x < fd \<longrightarrow> P x)
    | None \<Rightarrow> \<forall>x. scan_from i mw mb \<le> x \<longrightarrow> x < (i + length ws) * 64 \<longrightarrow> P x"
  using assms
proof (induction ws arbitrary: i)
  case Nil
  then show ?case by (auto simp: scan_from_def)
next
  case (Cons w ws)
  have P: "bit w b \<longleftrightarrow> P (i * 64 + b)" if "b < 64" for b
    using Cons.prems(1) [of 0 b] that by simp
  show ?case
  proof (cases "scan_word w i mw mb = - 1")
    case False
    note found = scan_word_found [OF False P]
    have "i * 64 + trailing_zeros (NOT (scan_word w i mw mb)) < FD_LIMIT"
      using found(1) Cons.prems(3) by simp
    then show ?thesis
      using found(2-4) False by (simp add: scan_words_Cons Let_def del: scan_words.simps)
  next
    case True
    have full: "P x" if "scan_from i mw mb \<le> x" "x < Suc i * 64" for x
      using scan_word_full [OF True P that] .
    have next_from: "scan_from (Suc i) mw mb = Suc i * 64"
      using Cons.prems(2) by (simp add: scan_from_def)
    have IH: "case scan_words ws (Suc i) mw mb of
        Some fd \<Rightarrow> Suc i * 64 \<le> fd \<and> fd < FD_LIMIT \<and> \<not> P fd \<and>
          (\<forall>x. Suc i * 64 \<le> x \<longrightarrow> x < fd \<longrightarrow> P x)
      | None \<Rightarrow> \<forall>x. Suc i * 64 \<le> x \<longrightarrow> x < (Suc i + length ws) * 64 \<longrightarrow> P x"
      unfolding next_from [symmetric]
    proof (rule Cons.IH)
      show "bit (ws ! k) b \<longleftrightarrow> P ((Suc i + k) * 64 + b)" if "k < length ws" "b < 64" for k b
        using Cons.prems(1) [of "Suc k" b] that by simp
    qed (use Cons.prems in auto)
    have split: "scan_from i mw mb \<le> x \<Longrightarrow> x < Suc i * 64 \<or> Suc i * 64 \<le> x" for x by linarith
    show ?thesis
    proof (cases "scan_words ws (Suc i) mw mb")
      case None
      then show ?thesis
        using IH True full split by (auto simp: scan_words_Cons simp del: scan_words.simps)
    next
      case (Some fd)
      then have fd: "Suc i * 64 \<le> fd" "fd < FD_LIMIT" "\<not> P fd"
        "\<And>x. Suc i * 64 \<le> x \<Longrightarrow> x < fd \<Longrightarrow> P x"
        using IH by auto
      have "P x" if "scan_from i mw mb \<le> x" "x < fd" for x
        using full fd(4) split that by blast
      moreover have "scan_from i mw mb \<le> fd"
        using fd(1) Cons.prems(4) by (simp add: scan_from_def)
      ultimately show ?thesis
        using Some True fd by (simp add: scan_words_Cons del: scan_words.simps)
    qed
  qed
qed

lemma next_available_fd_cases:
  assumes wf: "fd_wf t"
  shows "case next_available_fd t m of
      Inr fd \<Rightarrow> m \<le> fd \<and> fd < FD_LIMIT \<and> fd_get t fd = None \<and>
        (\<forall>x. m \<le> x \<longrightarrow> x < fd \<longrightarrow> fd_get t x \<noteq> None)
    | Inl e \<Rightarrow> e = EMFILE \<and> (\<forall>x. m \<le> x \<longrightarrow> x < FD_LIMIT \<longrightarrow> fd_get t x \<noteq> None)"
proof -
  let ?mw = "m div 64" and ?n = "length (chunks t)"
  let ?P = "\<lambda>fd. fd_get t fd \<noteq> None"
  let ?scan = "if ?mw < length (open_fds t)
    then scan_words (drop ?mw (open_fds t)) ?mw ?mw (m mod 64) else None"
  have len: "length (open_fds t) = ?n" and cap: "?n * 64 \<le> FD_LIMIT"
    using wf by (auto simp: fd_wf_def max_chunks_val)
  have beyond: "fd_get t fd = None" if "?n * 64 \<le> fd" for fd
  proof -
    have "\<not> fd div 64 < ?n" using that by (simp add: div_less_iff_less_mult)
    then show ?thesis by (simp add: fd_get_def)
  qed
  have start: "scan_from ?mw ?mw (m mod 64) = m" by (simp add: scan_from_def)
  have scan: "case ?scan of
      Some fd \<Rightarrow> m \<le> fd \<and> fd < FD_LIMIT \<and> \<not> ?P fd \<and> (\<forall>x. m \<le> x \<longrightarrow> x < fd \<longrightarrow> ?P x)
    | None \<Rightarrow> \<forall>x. m \<le> x \<longrightarrow> x < ?n * 64 \<longrightarrow> ?P x"
  proof (cases "?mw < length (open_fds t)")
    case True
    have "case scan_words (drop ?mw (open_fds t)) ?mw ?mw (m mod 64) of
      Some fd \<Rightarrow> scan_from ?mw ?mw (m mod 64) \<le> fd \<and> fd < FD_LIMIT \<and> \<not> ?P fd \<and>
        (\<forall>x. scan_from ?mw ?mw (m mod 64) \<le> x \<longrightarrow> x < fd \<longrightarrow> ?P x)
    | None \<Rightarrow> \<forall>x. scan_from ?mw ?mw (m mod 64) \<le> x \<longrightarrow>
        x < (?mw + length (drop ?mw (open_fds t))) * 64 \<longrightarrow> ?P x"
    proof (rule scan_words_correct)
      show "bit (drop ?mw (open_fds t) ! k) b \<longleftrightarrow> ?P ((?mw + k) * 64 + b)"
        if "k < length (drop ?mw (open_fds t))" "b < 64" for k b
        using that fd_get_bit [OF wf, of "?mw + k" b] len by simp
    qed (use True len cap in auto)
    moreover have "(?mw + length (drop ?mw (open_fds t))) * 64 = ?n * 64"
      using True len by simp
    ultimately show ?thesis using True unfolding start by (simp split: option.splits)
  next
    case False
    then have "?n * 64 \<le> m" using len by (simp add: not_less less_eq_div_iff_mult_less_eq)
    then show ?thesis using False by auto
  qed
  show ?thesis
  proof (cases ?scan)
    case (Some fd)
    then show ?thesis using scan by (simp add: next_available_fd_def Let_def)
  next
    case None
    then show ?thesis
      using scan beyond by (auto simp: next_available_fd_def Let_def max_def not_le not_less)
  qed
qed

section \<open>Removal\<close>

lemma fd_remove_correct:
  assumes wf: "fd_wf t"
  shows "snd (fd_remove t fd) = fd_get t fd" and "fd_wf (fst (fd_remove t fd))"
    and "fd_get (fst (fd_remove t fd)) = (fd_get t)(fd := None)"
    and "count (fst (fd_remove t fd)) = count t - (if fd_get t fd = None then 0 else 1)"
proof -
  let ?c = "fd div FD_CHUNK_SIZE" and ?b = "fd mod FD_CHUNK_SIZE"
  have "snd (fd_remove t fd) = fd_get t fd \<and> fd_wf (fst (fd_remove t fd)) \<and>
    fd_get (fst (fd_remove t fd)) = (fd_get t)(fd := None) \<and>
    count (fst (fd_remove t fd)) = count t - (if fd_get t fd = None then 0 else 1)"
  proof (cases "fd_get t fd")
    case None
    then have "fd_remove t fd = (t, None)"
      using fd_wf_chunkD(1) [OF wf, of ?c]
      by (auto simp: fd_remove_def fd_get_def Let_def split: option.splits if_splits)
    then show ?thesis using wf None by auto
  next
    case (Some e)
    then obtain es where c: "?c < length (chunks t)" and es: "chunks t ! ?c = Some es"
      and len: "length es = FD_CHUNK_SIZE" and slot: "es ! ?b = Some e"
      and bits: "\<forall>b<FD_CHUNK_SIZE. bit (open_fds t ! ?c) b \<longleftrightarrow> es ! b \<noteq> None"
      by (rule fd_get_chunk_Some [OF wf])
    define t' where "t' = t\<lparr>chunks := (chunks t)[?c := Some (es[?b := None])], count := count t - 1,
      open_fds := (open_fds t)[?c := unset_bit ?b (open_fds t ! ?c)]\<rparr>"
    have rem: "fd_remove t fd = (t', Some e)"
      using c es slot fd_wf_chunkD(2) [OF wf c] by (simp add: fd_remove_def Let_def t'_def)
    have one: "1 \<le> count t"
      using chunk_count_le_count [OF wf c] chunk_count_clear [of ?b es] len slot es by simp
    have ch: "chunks t' = (chunks t)[?c := Some (es[?b := None])]" by (simp add: t'_def)
    have "fd_wf t'"
    proof (rule fd_wf_chunk_update [OF wf c _ ch])
      show "chunk_ok (Some (es[?b := None])) (unset_bit ?b (open_fds t ! ?c))"
        using len bits by (auto simp: nth_list_update bit_simps)
      show "count t' + chunk_count (chunks t ! ?c) = count t + chunk_count (Some (es[?b := None]))"
        using one chunk_count_clear [of ?b es] len slot es by (simp add: t'_def)
    qed (simp add: t'_def)
    moreover have "fd_get t x = es ! (x mod FD_CHUNK_SIZE)" if "x div FD_CHUNK_SIZE = ?c" for x
      using that c es len by (simp add: fd_get_def Let_def)
    then have "fd_get t' = (fd_get t)(fd := None)"
      using fd_get_chunk_update [OF c _ ch] len fd_div_mod_eq [of _ fd]
      by (auto simp: fun_eq_iff nth_list_update)
    ultimately show ?thesis using rem Some by (simp add: t'_def)
  qed
  then show "snd (fd_remove t fd) = fd_get t fd" and "fd_wf (fst (fd_remove t fd))"
    and "fd_get (fst (fd_remove t fd)) = (fd_get t)(fd := None)"
    and "count (fst (fd_remove t fd)) = count t - (if fd_get t fd = None then 0 else 1)"
    by blast+
qed

text \<open>The bits of a range mask, and what a range pass sees of one chunk.\<close>

lemma bit_fd_range_mask:
  assumes "l < 64" and "i < 64"
  shows "bit (fd_range_mask f l) i \<longleftrightarrow> f \<le> i \<and> i \<le> l"
proof -
  have "bit (2 ^ (l + 1) - 1 :: 64 word) i \<longleftrightarrow> i \<le> l"
    using assms by (simp only: bit_low_mask) auto
  then show ?thesis
    using assms by (auto simp: fd_range_mask_def Let_def bit_simps)
qed

text \<open>
  The inclusive upper end the range operations act on: the clamp of the chunk index to the
  allocated chunks does not touch the bit index, which stays the one of the requested end.
\<close>

definition effective_last :: "'o fd_storage \<Rightarrow> nat \<Rightarrow> nat" where
  "effective_last t last0 =
     (let last_fd = min last0 (FD_LIMIT - 1)
      in if last_fd div FD_CHUNK_SIZE < length (chunks t) then last_fd
         else (length (chunks t) - 1) * FD_CHUNK_SIZE + last_fd mod FD_CHUNK_SIZE)"

definition in_range_chunk :: "nat \<Rightarrow> nat \<Rightarrow> nat \<Rightarrow> nat \<Rightarrow> nat \<Rightarrow> nat \<Rightarrow> bool" where
  "in_range_chunk first_chunk first last_chunk last_fd c b \<longleftrightarrow>
     range_first_bit first_chunk first c \<le> b \<and> b \<le> range_last_bit last_chunk last_fd c"

lemma bit_range_pending:
  assumes "fd_wf t" and "c < length (chunks t)" and "b < 64"
  shows "bit (range_pending t fc f lc l c) b \<longleftrightarrow>
    fd_get t (c * 64 + b) \<noteq> None \<and> in_range_chunk fc f lc l c b"
proof -
  have "range_last_bit lc l c < 64" by (simp add: range_last_bit_def)
  then show ?thesis
    using assms fd_get_bit [OF assms]
    by (simp add: range_pending_def in_range_chunk_def bit_and_iff bit_fd_range_mask)
qed

lemma filter_upt_range:
  assumes "l < n"
  shows "filter (\<lambda>b. f \<le> b \<and> b \<le> l) [0..<n] = [f..<Suc l]"
proof (cases "f \<le> Suc l")
  case True
  have "[0..<n] = [0..<f] @ [f..<Suc l] @ [Suc l..<n]"
    using assms True by (intro nth_equalityI) (auto simp: nth_append simp del: upt_Suc)
  then show ?thesis by (auto simp: filter_empty_conv intro: filter_True)
next
  case False
  then show ?thesis by (auto simp: filter_empty_conv)
qed

lemma map_filter_append [simp]: "List.map_filter f (xs @ ys) = List.map_filter f xs @ List.map_filter f ys"
  by (simp add: List.map_filter_def)

lemma map_filter_filter: "List.map_filter f (filter (\<lambda>x. f x \<noteq> None) xs) = List.map_filter f xs"
  by (simp add: List.map_filter_def)

lemma map_filter_map: "List.map_filter f (map g xs) = List.map_filter (f \<circ> g) xs"
  by (simp add: List.map_filter_def filter_map o_def)

lemma map_filter_cong: "(\<And>x. x \<in> set xs \<Longrightarrow> f x = g x) \<Longrightarrow> List.map_filter f xs = List.map_filter g xs"
  by (induction xs) (auto simp: List.map_filter_def)

lemma fold_take_slot:
  assumes "distinct bs" and "\<forall>b\<in>set bs. b < length es"
  shows "fold take_slot bs (es, rem, m) = (es', rem', m') \<Longrightarrow>
    length es' = length es \<and>
    (\<forall>b<length es. es' ! b = (if b \<in> set bs then None else es ! b)) \<and>
    rem' = rem @ List.map_filter (\<lambda>b. es ! b) bs \<and>
    (\<forall>b<64. bit m' b \<longleftrightarrow> bit m b \<or> b \<in> set bs \<and> es ! b \<noteq> None) \<and>
    chunk_count (Some es') + length (List.map_filter (\<lambda>b. es ! b) bs) = chunk_count (Some es)"
  using assms
proof (induction bs arbitrary: es rem m)
  case Nil
  then show ?case by (simp add: List.map_filter_def)
next
  case (Cons b bs)
  have b: "b < length es" using Cons.prems by simp
  show ?case
  proof (cases "es ! b")
    case None
    then have "take_slot b (es, rem, m) = (es, rem, m)" by (simp add: take_slot_def)
    with Cons.prems have "fold take_slot bs (es, rem, m) = (es', rem', m')" by simp
    from Cons.IH [OF this] Cons.prems None show ?thesis
      by (auto simp: List.map_filter_def)
  next
    case (Some e)
    then have "take_slot b (es, rem, m) = (es[b := None], rem @ [e], set_bit b m)"
      by (simp add: take_slot_def)
    with Cons.prems have "fold take_slot bs (es[b := None], rem @ [e], set_bit b m) = (es', rem', m')"
      by simp
    note IH = Cons.IH [OF this]
    have same: "List.map_filter (\<lambda>x. es[b := None] ! x) bs = List.map_filter (\<lambda>x. es ! x) bs"
      using Cons.prems by (intro map_filter_cong) (auto simp: nth_list_update)
    have "chunk_count (Some (es[b := None])) + 1 = chunk_count (Some es)"
      using chunk_count_clear [OF b] Some by simp
    then show ?thesis
      using IH Cons.prems Some b same
      by (auto simp: List.map_filter_simps(1) nth_list_update bit_simps)
  qed
qed

lemma sorted_bits_of_range_pending:
  assumes "fd_wf t" and "c < length (chunks t)"
    and a_def: "a = range_first_bit fc f c" and z_def: "z = range_last_bit lc l c"
  shows "bits_of (range_pending t fc f lc l c) =
    filter (\<lambda>b. fd_get t (c * 64 + b) \<noteq> None) [a..<Suc z]"
proof -
  have "z < 64" by (simp add: z_def range_last_bit_def)
  have "bits_of (range_pending t fc f lc l c) =
      filter (\<lambda>b. fd_get t (c * 64 + b) \<noteq> None \<and> a \<le> b \<and> b \<le> z) [0..<64]"
    unfolding bits_of_def
    by (rule filter_cong)
      (simp_all add: bit_range_pending [OF assms(1,2)] in_range_chunk_def a_def z_def)
  also have "\<dots> = filter (\<lambda>b. fd_get t (c * 64 + b) \<noteq> None) (filter (\<lambda>b. a \<le> b \<and> b \<le> z) [0..<64])"
    by (simp add: conj_ac)
  finally show ?thesis unfolding filter_upt_range [OF \<open>z < 64\<close>] .
qed

text \<open>
  A range pass looks, in chunk \<open>c\<close>, at the descriptors of the window \<open>[c * 64 + a .. c * 64 + z]\<close>.
  Rewriting the pending slots of the chunk by \<open>F\<close> is rewriting the map on that window.
\<close>

definition window_map :: "('v option \<Rightarrow> 'v option) \<Rightarrow> nat \<Rightarrow> nat \<Rightarrow> (nat \<rightharpoonup> 'v) \<Rightarrow> (nat \<rightharpoonup> 'v)" where
  "window_map F lo hi g = (\<lambda>fd. if lo \<le> fd \<and> fd \<le> hi then F (g fd) else g fd)"

lemma window_pending_zero:
  assumes wf: "fd_wf t" and c: "c < length (chunks t)" and F: "F None = None"
    and zero: "range_pending t fc f lc l c = 0"
  shows "window_map F (c * 64 + range_first_bit fc f c) (c * 64 + range_last_bit lc l c) (fd_get t) =
    fd_get t"
proof -
  have "fd_get t fd = None"
    if "c * 64 + range_first_bit fc f c \<le> fd" "fd \<le> c * 64 + range_last_bit lc l c" for fd
  proof -
    have "range_last_bit lc l c < 64" by (simp add: range_last_bit_def)
    then have "fd - c * 64 < 64" "c * 64 + (fd - c * 64) = fd"
      "in_range_chunk fc f lc l c (fd - c * 64)"
      using that by (auto simp: in_range_chunk_def)
    then show ?thesis
      using zero bit_range_pending [OF wf c, of "fd - c * 64" fc f lc l] by simp
  qed
  then show ?thesis using F by (auto simp: window_map_def fun_eq_iff)
qed

lemma window_rewrite:
  assumes wf: "fd_wf t" and c: "c < length (chunks t)" and F: "F None = None"
    and es: "chunks t ! c = Some es" and len: "length es' = 64"
    and es': "\<forall>b<64. es' ! b = (if bit (range_pending t fc f lc l c) b then F (es ! b) else es ! b)"
    and ch: "chunks t' = (chunks t)[c := Some es']"
  shows "fd_get t' =
    window_map F (c * 64 + range_first_bit fc f c) (c * 64 + range_last_bit lc l c) (fd_get t)"
proof
  fix fd
  let ?b = "fd mod 64" and ?w = "in_range_chunk fc f lc l c (fd mod 64)"
  have b: "?b < 64" by simp
  have z64: "range_last_bit lc l c < 64" by (simp add: range_last_bit_def)
  have get: "fd_get t' fd = (if fd div 64 = c then es' ! ?b else fd_get t fd)"
    using fd_get_chunk_update [OF c len ch] .
  show "fd_get t' fd = window_map F (c * 64 + range_first_bit fc f c)
      (c * 64 + range_last_bit lc l c) (fd_get t) fd"
  proof (cases "fd div 64 = c")
    case True
    then have fd: "fd = c * 64 + ?b" by (metis div_mult_mod_eq)
    have len_es: "length es = 64" using fd_wf_chunkD(1) [OF wf c] es by simp
    have at: "fd_get t fd = es ! ?b"
      using True c es len_es by (simp add: fd_get_def Let_def)
    have "bit (range_pending t fc f lc l c) ?b \<longleftrightarrow> fd_get t fd \<noteq> None \<and> ?w"
      using bit_range_pending [OF wf c b, of fc f lc l] fd by metis
    then have "es' ! ?b = (if ?w then F (fd_get t fd) else fd_get t fd)"
      using es' b at F by auto
    moreover have "c * 64 + range_first_bit fc f c \<le> fd \<and> fd \<le> c * 64 + range_last_bit lc l c \<longleftrightarrow> ?w"
      unfolding in_range_chunk_def using fd by linarith
    ultimately show ?thesis using get True by (simp add: window_map_def)
  next
    case False
    then have "\<not> (c * 64 + range_first_bit fc f c \<le> fd \<and> fd \<le> c * 64 + range_last_bit lc l c)"
      using z64 div_nat_eqI [of 64 c fd] by fastforce
    then show ?thesis using get False by (auto simp: window_map_def)
  qed
qed

lemma range_pending_slots:
  assumes wf: "fd_wf t" and c: "c < length (chunks t)" and ne: "range_pending t fc f lc l c \<noteq> 0"
  obtains es where "chunks t ! c = Some es" and "length es = 64"
    and "\<forall>b<64. bit (open_fds t ! c) b \<longleftrightarrow> es ! b \<noteq> None"
    and "\<forall>b. bit (range_pending t fc f lc l c) b \<longrightarrow> b < 64 \<and> es ! b \<noteq> None"
    and "\<forall>b<64. fd_get t (c * 64 + b) = es ! b"
proof -
  let ?p = "range_pending t fc f lc l c"
  obtain b0 where "bit ?p b0" using ne bit_trailing_zeros by blast
  then obtain es where es: "chunks t ! c = Some es"
    using fd_wf_chunkD(1) [OF wf c] by (cases "chunks t ! c") (auto simp: range_pending_def)
  have len: "length es = 64" and occ: "\<forall>b<64. bit (open_fds t ! c) b \<longleftrightarrow> es ! b \<noteq> None"
    using fd_wf_chunkD(1) [OF wf c] es by auto
  have "\<forall>b. bit ?p b \<longrightarrow> b < 64 \<and> es ! b \<noteq> None"
    using bit_less_64 occ by (auto simp: range_pending_def bit_simps)
  moreover have "\<forall>b<64. fd_get t (c * 64 + b) = es ! b"
    using c es len by (simp add: fd_get_def Let_def)
  ultimately show ?thesis using that es len occ by blast
qed

lemma map_filter_window:
  assumes wf: "fd_wf t" and c: "c < length (chunks t)"
  shows "List.map_filter (fd_get t)
      [c * 64 + range_first_bit fc f c..<Suc (c * 64 + range_last_bit lc l c)] =
    List.map_filter (\<lambda>b. fd_get t (c * 64 + b)) (bits_of (range_pending t fc f lc l c))"
proof -
  have upt: "[c * 64 + a..<Suc (c * 64 + z)] = map (\<lambda>b. c * 64 + b) [a..<Suc z]" for a z
    by (intro nth_equalityI) (auto simp del: upt_Suc)
  show ?thesis
    unfolding upt sorted_bits_of_range_pending [OF wf c refl refl] map_filter_filter map_filter_map
    by (simp add: o_def)
qed

text \<open>
  One chunk of \<open>remove_range\<close>: exactly the open descriptors of the window are removed, and they
  are returned in ascending order.
\<close>

lemma remove_range_chunk_run:
  fixes fc f lc l :: nat
  assumes wf: "fd_wf t" and c: "c < length (chunks t)"
    and ne: "range_pending t fc f lc l c \<noteq> 0"
  defines "p \<equiv> range_pending t fc f lc l c"
  obtains es es' where "chunks t ! c = Some es" and "length es' = 64"
    and "\<forall>b<64. es' ! b = (if bit p b then None else es ! b)"
    and "chunk_count (Some es') + count_ones p = chunk_count (Some es)"
    and "remove_range_chunk fc f lc l c (t, rem) =
      (t\<lparr>chunks := (chunks t)[c := Some es'], open_fds := (open_fds t)[c := open_fds t ! c AND NOT p],
         count := count t - count_ones p\<rparr>,
       rem @ List.map_filter (\<lambda>b. fd_get t (c * 64 + b)) (bits_of p))"
proof -
  obtain es where es: "chunks t ! c = Some es" and len: "length es = 64"
    and pend: "\<forall>b. bit p b \<longrightarrow> b < 64 \<and> es ! b \<noteq> None" and g: "\<forall>b<64. fd_get t (c * 64 + b) = es ! b"
    using range_pending_slots [OF wf c ne] unfolding p_def by metis
  obtain es' rem' m' where f: "for_each_bit take_slot p (es, rem, 0) = (es', rem', m')"
    by (cases "for_each_bit take_slot p (es, rem, 0)") auto
  have "\<forall>b\<in>set (bits_of p). b < length es" using pend len by simp
  from fold_take_slot [OF distinct_bits_of this f [unfolded for_each_bit_fold]]
  have fts: "length es' = 64" "\<forall>b<64. es' ! b = (if bit p b then None else es ! b)"
    "rem' = rem @ List.map_filter (\<lambda>b. es ! b) (bits_of p)"
    "\<forall>b<64. bit m' b \<longleftrightarrow> bit p b \<and> es ! b \<noteq> None"
    "chunk_count (Some es') + length (List.map_filter (\<lambda>b. es ! b) (bits_of p)) =
       chunk_count (Some es)"
    using len by auto
  have m': "m' = p" by (rule bit_word_eqI) (use fts(4) pend in auto)
  have "filter (\<lambda>b. es ! b \<noteq> None) (bits_of p) = bits_of p"
    using pend by (intro filter_True) auto
  then have "length (List.map_filter (\<lambda>b. es ! b) (bits_of p)) = count_ones p"
    by (simp add: List.map_filter_def length_bits_of)
  moreover have "List.map_filter (\<lambda>b. es ! b) (bits_of p) =
      List.map_filter (\<lambda>b. fd_get t (c * 64 + b)) (bits_of p)"
    by (rule map_filter_cong) (use g pend in auto)
  moreover have "remove_range_chunk fc f lc l c (t, rem) =
      (t\<lparr>chunks := (chunks t)[c := Some es'], open_fds := (open_fds t)[c := open_fds t ! c AND NOT p],
         count := count t - count_ones p\<rparr>, rem')"
    using ne es f m' by (simp add: remove_range_chunk_def Let_def p_def)
  ultimately show ?thesis using that es fts by simp
qed

lemma remove_range_chunk_step:
  fixes fc f lc l :: nat
  assumes wf: "fd_wf t" and c: "c < length (chunks t)"
  defines "lo \<equiv> c * 64 + range_first_bit fc f c" and "hi \<equiv> c * 64 + range_last_bit lc l c"
  obtains t' where
    "remove_range_chunk fc f lc l c (t, rem) = (t', rem @ List.map_filter (fd_get t) [lo..<Suc hi])"
    and "fd_wf t'" and "length (chunks t') = length (chunks t)"
    and "fd_get t' = window_map (\<lambda>_. None) lo hi (fd_get t)"
proof (cases "range_pending t fc f lc l c = 0")
  case True
  then have "remove_range_chunk fc f lc l c (t, rem) = (t, rem)"
    by (simp add: remove_range_chunk_def Let_def)
  moreover have "List.map_filter (fd_get t) [lo..<Suc hi] = []"
    unfolding lo_def hi_def map_filter_window [OF wf c] True
    by (simp add: List.map_filter_def bits_of_def)
  ultimately show ?thesis
    using that [of t] wf window_pending_zero [OF wf c, of "\<lambda>_. None", OF refl True]
    by (simp add: lo_def hi_def)
next
  case False
  let ?p = "range_pending t fc f lc l c"
  obtain es es' where es: "chunks t ! c = Some es" and len: "length es' = 64"
    and upd: "\<forall>b<64. es' ! b = (if bit ?p b then None else es ! b)"
    and cnt: "chunk_count (Some es') + count_ones ?p = chunk_count (Some es)"
    and run: "remove_range_chunk fc f lc l c (t, rem) =
      (t\<lparr>chunks := (chunks t)[c := Some es'], open_fds := (open_fds t)[c := open_fds t ! c AND NOT ?p],
         count := count t - count_ones ?p\<rparr>,
       rem @ List.map_filter (\<lambda>b. fd_get t (c * 64 + b)) (bits_of ?p))"
    by (rule remove_range_chunk_run [OF wf c False])
  define t' where "t' = t\<lparr>chunks := (chunks t)[c := Some es'],
    open_fds := (open_fds t)[c := open_fds t ! c AND NOT ?p], count := count t - count_ones ?p\<rparr>"
  have ch: "chunks t' = (chunks t)[c := Some es']" by (simp add: t'_def)
  have occ: "chunk_ok (Some es) (open_fds t ! c)" using fd_wf_chunkD(1) [OF wf c] es by simp
  have "fd_wf t'"
  proof (rule fd_wf_chunk_update [OF wf c _ ch])
    show "chunk_ok (Some es') (open_fds t ! c AND NOT ?p)"
      using upd len occ by (auto simp: bit_simps)
    show "count t' + chunk_count (chunks t ! c) = count t + chunk_count (Some es')"
      using cnt chunk_count_le_count [OF wf c] es by (simp add: t'_def)
  qed (simp add: t'_def)
  moreover have "fd_get t' = window_map (\<lambda>_. None) lo hi (fd_get t)"
    unfolding lo_def hi_def by (rule window_rewrite [OF wf c refl es len upd ch])
  ultimately show ?thesis
    using that [of t'] run map_filter_window [OF wf c, of fc f lc l] ch
    by (simp add: t'_def lo_def hi_def)
qed

text \<open>
  The chunk windows of a range operation are contiguous: \<open>range_bound k\<close> is the first descriptor
  not yet handled before chunk \<open>k\<close>.
\<close>

definition range_bound :: "nat \<Rightarrow> nat \<Rightarrow> nat \<Rightarrow> nat \<Rightarrow> nat" where
  "range_bound first last_chunk last_fd k =
     (if k = first div 64 then first
      else if k = Suc last_chunk then Suc (last_chunk * 64 + last_fd mod 64) else k * 64)"

lemma range_bound_window:
  assumes "first div 64 \<le> k" and "k \<le> lc"
  shows "k * 64 + range_first_bit (first div 64) first k = range_bound first lc l k"
    and "Suc (k * 64 + range_last_bit lc l k) = range_bound first lc l (Suc k)"
    and "k \<noteq> first div 64 \<Longrightarrow> range_bound first lc l k \<le> range_bound first lc l (Suc k)"
    and "first div 64 < k \<Longrightarrow> first \<le> range_bound first lc l k"
  using assms by (auto simp: range_bound_def range_first_bit_def range_last_bit_def)

lemma range_bound_last:
  assumes "first div 64 \<le> k" and "k \<le> lc"
  shows "k * 64 + range_last_bit lc l k = range_bound first lc l (Suc k) - 1"
  unfolding range_bound_window(2) [OF assms, symmetric] by simp

lemma range_bound_Suc_pred:
  assumes "first div 64 \<le> k" and "k \<le> lc"
  shows "Suc (range_bound first lc l (Suc k) - 1) = range_bound first lc l (Suc k)"
  unfolding range_bound_window(2) [OF assms, symmetric] by simp

lemma range_bound_upt:
  assumes "first div 64 \<le> k" and "k \<le> lc"
  shows "[first..<range_bound first lc l (Suc k)] =
    [first..<range_bound first lc l k] @ [range_bound first lc l k..<range_bound first lc l (Suc k)]"
proof (cases "k = first div 64")
  case True
  then show ?thesis by (simp add: range_bound_def)
next
  case False
  then show ?thesis
    using range_bound_window(3,4) [OF assms] assms(1) by (intro upt_split) auto
qed

text \<open>A window rewrite extends the part of the map rewritten so far.\<close>

lemma range_bound_window_map:
  fixes l :: nat
  assumes k: "first div 64 \<le> k" "k \<le> lc" and F: "F None = None"
  defines "B \<equiv> range_bound first lc l"
  shows "window_map F (B k) (B (Suc k) - 1)
      (\<lambda>fd. if first \<le> fd \<and> fd < B k then F (g fd) else g fd) =
    (\<lambda>fd. if first \<le> fd \<and> fd < B (Suc k) then F (g fd) else g fd)"
proof
  fix fd
  have pos: "B k \<le> fd \<and> fd \<le> B (Suc k) - 1 \<longleftrightarrow> B k \<le> fd \<and> fd < B (Suc k)"
    using range_bound_window(2) [OF k, of l] unfolding B_def by auto
  show "window_map F (B k) (B (Suc k) - 1)
      (\<lambda>fd. if first \<le> fd \<and> fd < B k then F (g fd) else g fd) fd =
    (if first \<le> fd \<and> fd < B (Suc k) then F (g fd) else g fd)"
  proof (cases "k = first div 64")
    case True
    then have "B k = first" by (simp add: B_def range_bound_def)
    then show ?thesis using pos by (auto simp: window_map_def)
  next
    case False
    then have "first \<le> B k" "B k \<le> B (Suc k)"
      using range_bound_window(3,4) [OF k] k(1) by (auto simp: B_def)
    then show ?thesis using pos by (auto simp: window_map_def)
  qed
qed

definition remove_range_inv ::
  "'o fd_storage \<Rightarrow> nat \<Rightarrow> nat \<Rightarrow> nat \<Rightarrow> nat \<Rightarrow> 'o fd_storage \<times> 'o fd_entry list \<Rightarrow> bool" where
  "remove_range_inv t first lc l k s \<longleftrightarrow>
     fd_wf (fst s) \<and> length (chunks (fst s)) = length (chunks t) \<and>
     snd s = List.map_filter (fd_get t) [first..<range_bound first lc l k] \<and>
     fd_get (fst s) =
       (\<lambda>fd. if first \<le> fd \<and> fd < range_bound first lc l k then None else fd_get t fd)"

lemma remove_range_inv_step:
  assumes k: "first div 64 \<le> k" "k \<le> lc" "lc < length (chunks t)"
    and inv: "remove_range_inv t first lc l k s"
  shows "remove_range_inv t first lc l (Suc k)
           (remove_range_chunk (first div 64) first lc l k s)"
proof -
  obtain u rem where s: "s = (u, rem)" by (cases s)
  let ?B = "range_bound first lc l"
  have wf: "fd_wf u" and len: "length (chunks u) = length (chunks t)"
    and rem: "rem = List.map_filter (fd_get t) [first..<?B k]"
    and get: "fd_get u = (\<lambda>fd. if first \<le> fd \<and> fd < ?B k then None else fd_get t fd)"
    using inv by (auto simp: remove_range_inv_def s)
  have "k < length (chunks u)" using k len by simp
  with wf obtain u' where run: "remove_range_chunk (first div 64) first lc l k (u, rem) =
       (u', rem @ List.map_filter (fd_get u) [?B k..<?B (Suc k)])"
    and wf': "fd_wf u'" and len': "length (chunks u') = length (chunks u)"
    and get': "fd_get u' = window_map (\<lambda>_. None) (?B k) (?B (Suc k) - 1) (fd_get u)"
    by (rule remove_range_chunk_step [of u k "first div 64" first lc l rem,
          unfolded range_bound_window(1) [OF k(1,2), of l] range_bound_window(2) [OF k(1,2)]
            range_bound_last [OF k(1,2)] range_bound_Suc_pred [OF k(1,2)]])
  have "List.map_filter (fd_get u) [?B k..<?B (Suc k)] =
      List.map_filter (fd_get t) [?B k..<?B (Suc k)]"
    by (rule map_filter_cong) (simp add: get)
  moreover have "[first..<?B (Suc k)] = [first..<?B k] @ [?B k..<?B (Suc k)]"
    by (rule range_bound_upt [OF k(1,2)])
  moreover have "fd_get u' = (\<lambda>fd. if first \<le> fd \<and> fd < ?B (Suc k) then None else fd_get t fd)"
    unfolding get' get by (rule range_bound_window_map [OF k(1,2), where F = "\<lambda>_. None", OF refl])
  ultimately show ?thesis
    using run wf' len' rem len by (simp add: remove_range_inv_def s)
qed

lemma remove_range_fold:
  assumes "fd_wf t" and "first \<le> last0" and "first < FD_LIMIT"
    and "first div 64 < length (chunks t)"
  defines "l \<equiv> min last0 (FD_LIMIT - 1)"
  defines "lc \<equiv> min (l div 64) (length (chunks t) - 1)"
  shows "remove_range t first last0 =
    fold (remove_range_chunk (first div 64) first lc l) [first div 64..<Suc lc] (t, [])"
proof -
  let ?idle = "\<forall>c\<in>set [first div 64..<Suc lc]. range_pending t (first div 64) first lc l c = 0"
  have "fold (remove_range_chunk (first div 64) first lc l) [first div 64..<Suc lc] (t, []) = (t, [])"
    if ?idle
    by (rule fold_idle) (use that in \<open>auto simp: remove_range_chunk_def Let_def simp del: upt_Suc\<close>)
  moreover have "chunks t \<noteq> []" using assms(4) by auto
  ultimately show ?thesis
    using assms(2-4) unfolding l_def lc_def
    by (auto simp: remove_range_def Let_def list_ex_iff simp del: upt_Suc)
qed

lemma effective_last_eq:
  fixes last0 :: nat
  assumes "chunks t \<noteq> []"
  defines "l \<equiv> min last0 (FD_LIMIT - 1)"
  shows "effective_last t last0 = min (l div 64) (length (chunks t) - 1) * 64 + l mod 64"
proof -
  have "min (l div 64) (length (chunks t) - 1) =
      (if l div 64 < length (chunks t) then l div 64 else length (chunks t) - 1)"
    using assms(1) by (cases "chunks t") (auto simp: min_def)
  then show ?thesis
    by (simp add: effective_last_def Let_def l_def)
qed

lemma range_chunk_bounds:
  assumes "first \<le> last0" "first < FD_LIMIT" "first div 64 < length (chunks t)"
    and l: "l = min last0 (FD_LIMIT - 1)" and lc: "lc = min (l div 64) (length (chunks t) - 1)"
  shows "first div 64 \<le> lc" and "lc < length (chunks t)"
    and "range_bound first lc l (Suc lc) = Suc (effective_last t last0)"
    and "range_bound first lc l (first div 64) = first"
proof -
  have "first \<le> l" using assms by simp
  then show fl: "first div 64 \<le> lc" and "lc < length (chunks t)"
    using assms(3) by (auto simp: lc div_le_mono)
  have "chunks t \<noteq> []" using assms(3) by auto
  then have "effective_last t last0 = lc * 64 + l mod 64"
    unfolding lc l by (rule effective_last_eq)
  then show "range_bound first lc l (Suc lc) = Suc (effective_last t last0)"
    using fl by (simp add: range_bound_def)
qed (simp add: range_bound_def)

lemma remove_range_effect:
  assumes wf: "fd_wf t" and le: "first \<le> last0" "first < FD_LIMIT"
    and fc: "first div 64 < length (chunks t)"
  shows "fd_wf (fst (remove_range t first last0))"
    and "snd (remove_range t first last0) =
      List.map_filter (fd_get t) [first..<Suc (effective_last t last0)]"
    and "fd_get (fst (remove_range t first last0)) =
      (\<lambda>fd. if first \<le> fd \<and> fd \<le> effective_last t last0 then None else fd_get t fd)"
proof -
  define l where "l = min last0 (FD_LIMIT - 1)"
  define lc where "lc = min (l div 64) (length (chunks t) - 1)"
  note b = range_chunk_bounds [OF le fc l_def lc_def]
  have "remove_range_inv t first lc l (first div 64) (t, [])"
    using wf by (auto simp: remove_range_inv_def b(4) List.map_filter_def fun_eq_iff)
  then have "remove_range_inv t first lc l (Suc lc)
      (fold (remove_range_chunk (first div 64) first lc l) [first div 64..<Suc lc] (t, []))"
    by (rule fold_upt_invariant) (use b in \<open>auto intro!: remove_range_inv_step\<close>)
  then have inv: "remove_range_inv t first lc l (Suc lc) (remove_range t first last0)"
    using remove_range_fold [OF wf le fc] by (simp add: l_def lc_def)
  show "fd_wf (fst (remove_range t first last0))"
    and "snd (remove_range t first last0) =
      List.map_filter (fd_get t) [first..<Suc (effective_last t last0)]"
    and "fd_get (fst (remove_range t first last0)) =
      (\<lambda>fd. if first \<le> fd \<and> fd \<le> effective_last t last0 then None else fd_get t fd)"
    using inv unfolding remove_range_inv_def b(3) by (auto simp: fun_eq_iff less_Suc_eq_le)
qed

section \<open>Marking a range close-on-exec\<close>

definition mark_cloexec :: "'o fd_entry \<Rightarrow> 'o fd_entry" where
  "mark_cloexec e = e\<lparr>flags := flags e OR CLOEXEC\<rparr>"

lemma flags_contains_mark [simp]: "flags_contains (flags (mark_cloexec e)) CLOEXEC"
  by (simp add: flags_contains_def mark_cloexec_def bit_eq_iff bit_simps)

lemma or_absorb_mask: "x AND m = m \<Longrightarrow> x OR m = (x :: 32 word)"
proof -
  have "x OR (x AND m) = x" by (rule bit_word_eqI) (auto simp: bit_simps)
  then show "x AND m = m \<Longrightarrow> x OR m = x" by simp
qed

lemma mark_cloexec_idem: "flags_contains (flags e) CLOEXEC \<Longrightarrow> mark_cloexec e = e"
  using or_absorb_mask [of "flags e" CLOEXEC] by (simp add: mark_cloexec_def flags_contains_def)

lemma set_slot_cloexec_eq:
  "b < length es \<Longrightarrow> set_slot_cloexec b es = es[b := map_option mark_cloexec (es ! b)]"
  using list_update_id [of es b]
  by (cases "es ! b") (simp_all add: set_slot_cloexec_def mark_cloexec_def)

lemma fold_set_slot_cloexec:
  assumes "distinct bs" and "\<forall>b\<in>set bs. b < length es"
  shows "length (fold set_slot_cloexec bs es) = length es \<and>
    (\<forall>b<length es. fold set_slot_cloexec bs es ! b =
       (if b \<in> set bs then map_option mark_cloexec (es ! b) else es ! b))"
  using assms
proof (induction bs arbitrary: es)
  case Nil
  then show ?case by simp
next
  case (Cons b bs)
  let ?es = "es[b := map_option mark_cloexec (es ! b)]"
  have "fold set_slot_cloexec (b # bs) es = fold set_slot_cloexec bs ?es"
    using Cons.prems by (simp add: set_slot_cloexec_eq)
  moreover have "length (fold set_slot_cloexec bs ?es) = length ?es \<and>
    (\<forall>x<length ?es. fold set_slot_cloexec bs ?es ! x =
       (if x \<in> set bs then map_option mark_cloexec (?es ! x) else ?es ! x))"
    using Cons.prems by (intro Cons.IH) auto
  ultimately show ?case using Cons.prems by (auto simp: nth_list_update)
qed

lemma set_cloexec_chunk_step:
  fixes fc f lc l :: nat
  assumes wf: "fd_wf t" and c: "c < length (chunks t)"
  defines "lo \<equiv> c * 64 + range_first_bit fc f c" and "hi \<equiv> c * 64 + range_last_bit lc l c"
    and "t' \<equiv> set_cloexec_chunk fc f lc l c t"
  shows "fd_wf t'" and "length (chunks t') = length (chunks t)"
    and "fd_get t' = window_map (map_option mark_cloexec) lo hi (fd_get t)"
proof -
  let ?p = "range_pending t fc f lc l c"
  have "fd_wf t' \<and> length (chunks t') = length (chunks t) \<and>
    fd_get t' = window_map (map_option mark_cloexec) lo hi (fd_get t)"
  proof (cases "?p = 0")
    case True
    then have "t' = t" by (simp add: t'_def set_cloexec_chunk_def)
    then show ?thesis
      using wf window_pending_zero [OF wf c _ True, of "map_option mark_cloexec"]
      by (simp add: lo_def hi_def)
  next
    case False
    obtain es where es: "chunks t ! c = Some es" and len: "length es = 64"
      and occ: "\<forall>b<64. bit (open_fds t ! c) b \<longleftrightarrow> es ! b \<noteq> None"
      and pend: "\<forall>b. bit ?p b \<longrightarrow> b < 64 \<and> es ! b \<noteq> None"
      by (rule range_pending_slots [OF wf c False])
    define es' where "es' = for_each_bit set_slot_cloexec ?p es"
    have len': "length es' = 64"
      and upd: "\<forall>b<64. es' ! b = (if bit ?p b then map_option mark_cloexec (es ! b) else es ! b)"
      using fold_set_slot_cloexec [OF distinct_bits_of, of ?p es] pend len
      by (auto simp: es'_def for_each_bit_fold)
    have t': "t' = t\<lparr>chunks := (chunks t)[c := Some es']\<rparr>"
      using False es by (simp add: t'_def set_cloexec_chunk_def Let_def es'_def)
    have ch: "chunks t' = (chunks t)[c := Some es']" by (simp add: t')
    have iff: "\<forall>b<64. es' ! b \<noteq> None \<longleftrightarrow> es ! b \<noteq> None" using upd by auto
    have "fd_wf t'"
    proof (rule fd_wf_chunk_update [OF wf c _ ch])
      show "chunk_ok (Some es') (open_fds t ! c)" using occ len' iff by auto
      show "open_fds t' = (open_fds t)[c := open_fds t ! c]" by (simp add: t')
      have "chunk_count (Some es') = chunk_count (Some es)"
        using iff len len' by (simp add: chunk_count_def length_filter_conv_card) metis
      then show "count t' + chunk_count (chunks t ! c) = count t + chunk_count (Some es')"
        using es by (simp add: t')
    qed
    then show ?thesis
      using window_rewrite [OF wf c _ es len' upd ch] ch by (simp add: lo_def hi_def)
  qed
  then show "fd_wf t'" and "length (chunks t') = length (chunks t)"
    and "fd_get t' = window_map (map_option mark_cloexec) lo hi (fd_get t)" by auto
qed

lemma set_cloexec_chunk_idle:
  assumes wf: "fd_wf t" and c: "c < length (chunks t)"
    and "\<not> chunk_needs_cloexec t (range_pending t fc f lc l c) c"
  shows "set_cloexec_chunk fc f lc l c t = t"
proof (cases "range_pending t fc f lc l c = 0")
  case False
  let ?p = "range_pending t fc f lc l c"
  obtain es where es: "chunks t ! c = Some es" and len: "length es = 64"
    and pend: "\<forall>b. bit ?p b \<longrightarrow> b < 64 \<and> es ! b \<noteq> None"
    by (rule range_pending_slots [OF wf c False])
  have "\<forall>b. bit ?p b \<longrightarrow> map_option mark_cloexec (es ! b) = es ! b"
    using assms(3) es pend mark_cloexec_idem
    by (fastforce simp: chunk_needs_cloexec_def list_ex_iff split: option.splits)
  then have "for_each_bit set_slot_cloexec ?p es = es"
    using fold_set_slot_cloexec [OF distinct_bits_of, of ?p es] pend len
    by (auto simp: for_each_bit_fold intro!: nth_equalityI)
  then show ?thesis
    using es list_update_id [of "chunks t" c] by (simp add: set_cloexec_chunk_def Let_def)
qed (simp add: set_cloexec_chunk_def)

definition set_cloexec_inv ::
  "'o fd_storage \<Rightarrow> nat \<Rightarrow> nat \<Rightarrow> nat \<Rightarrow> nat \<Rightarrow> 'o fd_storage \<Rightarrow> bool" where
  "set_cloexec_inv t first lc l k u \<longleftrightarrow>
     fd_wf u \<and> length (chunks u) = length (chunks t) \<and>
     fd_get u = (\<lambda>fd. if first \<le> fd \<and> fd < range_bound first lc l k
                        then map_option mark_cloexec (fd_get t fd) else fd_get t fd)"

lemma set_cloexec_inv_step:
  assumes k: "first div 64 \<le> k" "k \<le> lc" "lc < length (chunks t)"
    and inv: "set_cloexec_inv t first lc l k u"
  shows "set_cloexec_inv t first lc l (Suc k) (set_cloexec_chunk (first div 64) first lc l k u)"
proof -
  let ?B = "range_bound first lc l"
  have wf: "fd_wf u" and len: "length (chunks u) = length (chunks t)"
    and get: "fd_get u = (\<lambda>fd. if first \<le> fd \<and> fd < ?B k
      then map_option mark_cloexec (fd_get t fd) else fd_get t fd)"
    using inv by (auto simp: set_cloexec_inv_def)
  have "k < length (chunks u)" using k len by simp
  note step = set_cloexec_chunk_step [OF wf this, of "first div 64" first lc l,
      unfolded range_bound_window(1) [OF k(1,2), of l] range_bound_last [OF k(1,2)]]
  show ?thesis
    unfolding set_cloexec_inv_def step(3) unfolding get
    using step(1,2) len range_bound_window_map [OF k(1,2), of "map_option mark_cloexec" l "fd_get t"]
    by simp
qed

lemma set_cloexec_range_effect:
  assumes wf: "fd_wf t" and le: "first \<le> last0" "first < FD_LIMIT"
    and fc: "first div 64 < length (chunks t)"
  shows "fd_wf (set_cloexec_range t first last0)"
    and "fd_get (set_cloexec_range t first last0) =
      (\<lambda>fd. if first \<le> fd \<and> fd \<le> effective_last t last0
             then map_option mark_cloexec (fd_get t fd) else fd_get t fd)"
proof -
  define l where "l = min last0 (FD_LIMIT - 1)"
  define lc where "lc = min (l div 64) (length (chunks t) - 1)"
  let ?fold = "fold (set_cloexec_chunk (first div 64) first lc l) [first div 64..<Suc lc] t"
  note b = range_chunk_bounds [OF le fc l_def lc_def]
  have "set_cloexec_range t first last0 = ?fold"
  proof (cases "list_ex (\<lambda>c. chunk_needs_cloexec t (range_pending t (first div 64) first lc l c) c)
      [first div 64..<Suc lc]")
    case False
    then have "?fold = t"
      by (intro fold_idle set_cloexec_chunk_idle [OF wf]) (use b(2) in \<open>auto simp: list_ex_iff simp del: upt_Suc\<close>)
    then show ?thesis
      using False le fc by (auto simp: set_cloexec_range_def Let_def l_def lc_def simp del: upt_Suc)
  next
    case True
    then show ?thesis
      using le fc by (auto simp: set_cloexec_range_def Let_def l_def lc_def simp del: upt_Suc)
  qed
  moreover have "set_cloexec_inv t first lc l (first div 64) t"
    using wf by (auto simp: set_cloexec_inv_def b(4) fun_eq_iff)
  then have "set_cloexec_inv t first lc l (Suc lc) ?fold"
    by (rule fold_upt_invariant) (use b in \<open>auto intro!: set_cloexec_inv_step\<close>)
  ultimately show "fd_wf (set_cloexec_range t first last0)"
    and "fd_get (set_cloexec_range t first last0) =
      (\<lambda>fd. if first \<le> fd \<and> fd \<le> effective_last t last0
             then map_option mark_cloexec (fd_get t fd) else fd_get t fd)"
    unfolding set_cloexec_inv_def b(3) by (auto simp: fun_eq_iff less_Suc_eq_le)
qed

section \<open>Dropping close-on-exec descriptors\<close>

text \<open>
  One slot of \<open>take_cloexec_on_exec\<close> is a conditional \<^const>\<open>fd_remove\<close>, so the pass over all chunks is
  a pass over all descriptors below the capacity.
\<close>

definition take_cloexec_fd ::
  "nat \<Rightarrow> 'o fd_storage \<times> 'o fd_entry list \<Rightarrow> 'o fd_storage \<times> 'o fd_entry list" where
  "take_cloexec_fd fd s =
     (case s of (t, removed) \<Rightarrow>
       (case fd_get t fd of
          None \<Rightarrow> (t, removed)
        | Some e \<Rightarrow> if flags_contains (flags e) CLOEXEC then (fst (fd_remove t fd), removed @ [e])
                    else (t, removed)))"

lemma take_cloexec_slot_eq:
  assumes wf: "fd_wf t" and c: "c < length (chunks t)" and b: "b < 64"
  shows "take_cloexec_slot c b (t, rem) = take_cloexec_fd (c * 64 + b) (t, rem)"
proof (cases "chunks t ! c")
  case None
  then show ?thesis
    using b by (simp add: take_cloexec_slot_def take_cloexec_fd_def fd_get_def)
next
  case (Some es)
  then have "length es = 64" using fd_wf_chunkD(1) [OF wf c] by simp
  then show ?thesis
    using b c Some
    by (auto simp: take_cloexec_slot_def take_cloexec_fd_def fd_get_def fd_remove_def Let_def
        split: option.splits)
qed

lemma take_cloexec_chunk_fold:
  assumes wf: "fd_wf (fst s)" and c: "c < length (chunks (fst s))"
  shows "take_cloexec_chunk c s = fold (take_cloexec_slot c) [0..<64] s"
proof (cases "chunk_cloexec (chunks (fst s) ! c)")
  case True
  then show ?thesis by (simp add: take_cloexec_chunk_def)
next
  case False
  have "take_cloexec_slot c b s = s" if "b < 64" for b
  proof (cases "chunks (fst s) ! c")
    case None
    then show ?thesis by (cases s) (simp add: take_cloexec_slot_def)
  next
    case (Some es)
    then have "\<not> slot_cloexec (es ! b)"
      using False that fd_wf_chunkD(1) [OF wf c] by (auto simp: chunk_cloexec_def list_ex_iff)
    then show ?thesis
      using Some by (cases s) (auto simp: take_cloexec_slot_def slot_cloexec_def split: option.splits)
  qed
  then have "fold (take_cloexec_slot c) [0..<64] s = s" by (intro fold_idle) simp
  then show ?thesis using False by (simp add: take_cloexec_chunk_def)
qed

definition cloexec_inv :: "'o fd_storage \<Rightarrow> nat \<Rightarrow> 'o fd_storage \<times> 'o fd_entry list \<Rightarrow> bool" where
  "cloexec_inv t k s \<longleftrightarrow>
     fd_wf (fst s) \<and> length (chunks (fst s)) = length (chunks t) \<and>
     snd s = filter (\<lambda>e. flags_contains (flags e) CLOEXEC) (List.map_filter (fd_get t) [0..<k]) \<and>
     fd_get (fst s) = (\<lambda>fd. if fd < k \<and> slot_cloexec (fd_get t fd) then None else fd_get t fd)"

lemma fd_remove_length [simp]: "length (chunks (fst (fd_remove t fd))) = length (chunks t)"
  by (simp add: fd_remove_def Let_def split: option.splits)

lemma cloexec_inv_fd:
  assumes "cloexec_inv t k s"
  shows "cloexec_inv t (Suc k) (take_cloexec_fd k s)"
proof -
  obtain u rem where s: "s = (u, rem)" by (cases s)
  have wf: "fd_wf u" and len: "length (chunks u) = length (chunks t)"
    and rem: "rem = filter (\<lambda>e. flags_contains (flags e) CLOEXEC) (List.map_filter (fd_get t) [0..<k])"
    and get: "fd_get u = (\<lambda>fd. if fd < k \<and> slot_cloexec (fd_get t fd) then None else fd_get t fd)"
    using assms by (auto simp: cloexec_inv_def s)
  have k: "fd_get u k = fd_get t k" by (simp add: get)
  show ?thesis
  proof (cases "slot_cloexec (fd_get t k)")
    case True
    then obtain e where e: "fd_get t k = Some e" "flags_contains (flags e) CLOEXEC"
      by (auto simp: slot_cloexec_def split: option.splits)
    then have "take_cloexec_fd k s = (fst (fd_remove u k), rem @ [e])"
      by (simp add: take_cloexec_fd_def s k)
    moreover have "fd_get (fst (fd_remove u k)) =
        (\<lambda>fd. if fd < Suc k \<and> slot_cloexec (fd_get t fd) then None else fd_get t fd)"
      using True by (auto simp: fd_remove_correct(3) [OF wf] get fun_eq_iff less_Suc_eq)
    ultimately show ?thesis
      using e fd_remove_correct(2) [OF wf, of k] len
      by (simp add: cloexec_inv_def rem List.map_filter_def)
  next
    case False
    then have "take_cloexec_fd k s = s"
      by (auto simp: take_cloexec_fd_def s k slot_cloexec_def split: option.splits)
    then show ?thesis
      using False wf len get
      by (auto simp: cloexec_inv_def s rem List.map_filter_def slot_cloexec_def fun_eq_iff less_Suc_eq
          split: option.splits)
  qed
qed

lemma cloexec_inv_chunk:
  assumes c: "c < length (chunks t)" and inv: "cloexec_inv t (c * 64) s"
  shows "cloexec_inv t (Suc c * 64) (take_cloexec_chunk c s)"
proof -
  have slot: "cloexec_inv t (c * 64 + Suc b) (take_cloexec_slot c b s')"
    if "b < 64" "cloexec_inv t (c * 64 + b) s'" for b s'
  proof -
    have "take_cloexec_slot c b s' = take_cloexec_fd (c * 64 + b) s'"
      using take_cloexec_slot_eq [of "fst s'" c b "snd s'"] that c by (simp add: cloexec_inv_def)
    then show ?thesis using cloexec_inv_fd [OF that(2)] by simp
  qed
  have "cloexec_inv t (c * 64 + 64) (fold (take_cloexec_slot c) [0..<64] s)"
    by (rule fold_upt_invariant [where Q = "\<lambda>b. cloexec_inv t (c * 64 + b)"])
      (use inv slot in auto)
  moreover have "take_cloexec_chunk c s = fold (take_cloexec_slot c) [0..<64] s"
    by (rule take_cloexec_chunk_fold) (use inv c in \<open>auto simp: cloexec_inv_def\<close>)
  ultimately show ?thesis by (simp add: add.commute)
qed

lemma take_cloexec_on_exec_inv:
  assumes wf: "fd_wf t"
  shows "cloexec_inv t (length (chunks t) * 64) (take_cloexec_on_exec t)"
proof -
  have "cloexec_inv t 0 (t, [])"
    using wf by (simp add: cloexec_inv_def List.map_filter_def)
  then have inv: "cloexec_inv t (length (chunks t) * 64) (fold take_cloexec_chunk [0..<length (chunks t)] (t, []))"
    by (intro fold_upt_invariant [where Q = "\<lambda>c. cloexec_inv t (c * 64)"])
      (auto dest: cloexec_inv_chunk)
  moreover have "fold take_cloexec_chunk [0..<length (chunks t)] (t, []) = (t, [])"
    if "\<not> list_ex chunk_cloexec (chunks t)"
    using that by (intro fold_idle) (auto simp: take_cloexec_chunk_def list_ex_iff)
  ultimately show ?thesis
    by (cases "list_ex chunk_cloexec (chunks t)") (auto simp: take_cloexec_on_exec_def)
qed

section \<open>Snapshots and the descriptor count\<close>

definition chunk_slots :: "'o fd_chunk option \<Rightarrow> 'o fd_chunk" where
  "chunk_slots c = (case c of None \<Rightarrow> fd_chunk_default | Some es \<Rightarrow> es)"

lemma concat_uniform:
  assumes "\<forall>xs\<in>set xss. length xs = (64::nat)"
  shows "concat xss = map (\<lambda>i. (xss ! (i div 64)) ! (i mod 64)) [0..<length xss * 64]"
  using assms
proof (induction xss rule: rev_induct)
  case (snoc xs xss)
  have "map (\<lambda>i. ((xss @ [xs]) ! (i div 64)) ! (i mod 64)) [length xss * 64..<length xss * 64 + 64] = xs"
    using snoc.prems by (intro nth_equalityI) (auto simp: nth_append)
  moreover have "map (\<lambda>i. ((xss @ [xs]) ! (i div 64)) ! (i mod 64)) [0..<length xss * 64] =
      map (\<lambda>i. (xss ! (i div 64)) ! (i mod 64)) [0..<length xss * 64]"
    by (intro map_cong) (auto simp: nth_append less_mult_imp_div_less)
  moreover have "[0..<length (xss @ [xs]) * 64] = [0..<length xss * 64] @ [length xss * 64..<length xss * 64 + 64]"
    using upt_split [of 0 "length xss * 64" "length xss * 64 + 64"] by (simp add: add.commute)
  ultimately show ?case using snoc by simp
qed simp

lemma fd_get_beyond: "length (chunks t) * 64 \<le> fd \<Longrightarrow> fd_get t fd = None"
  by (auto simp: fd_get_def Let_def less_mult_imp_div_less dest: div_le_mono [of _ _ 64])

lemma map_filter_concat_slots:
  "List.map_filter id (concat (List.map_filter id cs)) = List.map_filter id (concat (map chunk_slots cs))"
  by (induction cs)
    (auto simp: List.map_filter_def chunk_slots_def fd_chunk_default_def split: option.splits)

lemma entries_snapshot_eq:
  assumes wf: "fd_wf t"
  shows "entries_snapshot t = List.map_filter (fd_get t) [0..<length (chunks t) * 64]"
proof -
  have len: "length (chunk_slots (chunks t ! c)) = 64" if "c < length (chunks t)" for c
    using fd_wf_chunkD(1) [OF wf that]
    by (auto simp: chunk_slots_def fd_chunk_default_def split: option.splits)
  have "map (\<lambda>i. (map chunk_slots (chunks t) ! (i div 64)) ! (i mod 64)) [0..<length (chunks t) * 64] =
      map (fd_get t) [0..<length (chunks t) * 64]"
  proof (rule map_cong [OF refl])
    fix i assume "i \<in> set [0..<length (chunks t) * 64]"
    then have "i div 64 < length (chunks t)" by (simp add: less_mult_imp_div_less)
    then show "(map chunk_slots (chunks t) ! (i div 64)) ! (i mod 64) = fd_get t i"
      using len [of "i div 64"]
      by (auto simp: fd_get_def chunk_slots_def fd_chunk_default_def Let_def split: option.splits)
  qed
  moreover have "\<forall>xs\<in>set (map chunk_slots (chunks t)). length xs = 64"
    using len by (auto simp: in_set_conv_nth)
  ultimately have "concat (map chunk_slots (chunks t)) = map (fd_get t) [0..<length (chunks t) * 64]"
    using concat_uniform [of "map chunk_slots (chunks t)"] by simp
  then show ?thesis
    by (simp add: entries_snapshot_def map_filter_concat_slots map_filter_map)
qed

lemma count_snapshot:
  assumes "fd_wf t"
  shows "count t = length (entries_snapshot t)"
proof -
  have "sum_list (map chunk_count cs) = length (List.map_filter id (concat (List.map_filter id cs)))"
    for cs :: "'a fd_chunk option list"
    by (induction cs) (auto simp: List.map_filter_def chunk_count_def split: option.splits)
  then show ?thesis using assms by (simp add: fd_wf_def entries_snapshot_def)
qed

lemma fd_get_dom:
  "dom (fd_get t) = {fd. fd < length (chunks t) * 64 \<and> fd_get t fd \<noteq> None}"
  using fd_get_beyond [of t] by (auto simp: dom_def) (metis option.distinct(1) not_le)

lemma count_card:
  assumes "fd_wf t"
  shows "count t = card (dom (fd_get t))"
proof -
  have "length (List.map_filter (fd_get t) [0..<n]) = card {fd. fd < n \<and> fd_get t fd \<noteq> None}" for n
    by (simp add: List.map_filter_def length_filter_conv_card)
      (rule arg_cong [of _ _ card], auto)
  then show ?thesis
    using count_snapshot [OF assms] entries_snapshot_eq [OF assms] by (simp add: fd_get_dom)
qed

text \<open>
  A snapshot of objects holds, in order, the object of every requested descriptor; it fails only with \<open>ENOMEM\<close>,
  and not at all once the reservation of a correct upper bound has succeeded.
\<close>

lemma snapshot_fds_result:
  "snapshot_fds alloc t objects cap fds = Inl ENOMEM \<or>
   snapshot_fds alloc t objects cap fds = Inr (objects @ map (\<lambda>fd. map_option fobject (fd_get t fd)) fds)"
proof (induction fds arbitrary: objects cap)
  case (Cons fd fds)
  show ?case
  proof (cases "if length objects = cap then try_reserve alloc (length objects) cap 1 else Some cap")
    case (Some c)
    then show ?thesis using Cons [of "objects @ [map_option fobject (fd_get t fd)]" c] by (simp del: One_nat_def)
  qed (simp del: One_nat_def)
qed simp

lemma snapshot_fds_room:
  "length objects + length fds \<le> cap \<Longrightarrow>
    snapshot_fds alloc t objects cap fds = Inr (objects @ map (\<lambda>fd. map_option fobject (fd_get t fd)) fds)"
  by (induction fds arbitrary: objects) auto

lemma objects_snapshot_result:
  "objects_snapshot alloc t upper fds = Inl ENOMEM \<or>
   objects_snapshot alloc t upper fds = Inr (map (\<lambda>fd. map_option fobject (fd_get t fd)) fds)"
  using snapshot_fds_result [where objects = "[]" and t = t and fds = fds and alloc = alloc]
  by (auto simp: objects_snapshot_def split: option.split)

lemma objects_snapshot_reserved:
  assumes "length fds \<le> u" and "try_reserve alloc 0 0 u = Some cap" and "u \<le> cap"
  shows "objects_snapshot alloc t (Some u) fds = Inr (map (\<lambda>fd. map_option fobject (fd_get t fd)) fds)"
  using assms by (simp add: objects_snapshot_def snapshot_fds_room)

section \<open>Reachable tables\<close>

lemma fd_modify_correct:
  assumes wf: "fd_wf t" and m: "fd_modify t fd f = Some t'"
  shows "fd_wf t'" and "fd_get t' = (fd_get t)(fd := map_option f (fd_get t fd))"
proof -
  let ?c = "fd div FD_CHUNK_SIZE" and ?b = "fd mod FD_CHUNK_SIZE"
  obtain e es where e: "fd_get t fd = Some e" and es: "chunks t ! ?c = Some es"
    and t': "t' = t\<lparr>chunks := (chunks t)[?c := Some (es[?b := Some (f e)])]\<rparr>"
    using m by (auto simp: fd_modify_def Let_def split: option.splits)
  have c: "?c < length (chunks t)" using e by (auto simp: fd_get_def Let_def split: if_splits)
  have ok: "chunk_ok (Some es) (open_fds t ! ?c)" using fd_wf_chunkD(1) [OF wf c] es by simp
  then have len: "length es = 64" by simp
  have eb: "es ! ?b = Some e" using e c es len by (simp add: fd_get_def Let_def)
  have cnt: "chunk_count (Some (es[?b := Some (f e)])) = chunk_count (Some es)"
    using eb len length_filter_update [of ?b es "\<lambda>s. s \<noteq> None" "Some (f e)"] by (simp add: chunk_count_def)
  show "fd_wf t'"
    by (rule fd_wf_chunk_update [OF wf c, where w = "open_fds t ! ?c" and es = "es[?b := Some (f e)]"])
      (use ok eb cnt es in \<open>auto simp: t' nth_list_update\<close>)
  have "fd_get t' x = (if x div 64 = ?c then es[?b := Some (f e)] ! (x mod 64) else fd_get t x)" for x
    by (rule fd_get_chunk_update [OF c]) (simp_all add: t' len)
  moreover have "fd_get t x = es ! (x mod 64)" if "x div 64 = ?c" for x
    using that c es len by (simp add: fd_get_def Let_def)
  ultimately show "fd_get t' = (fd_get t)(fd := map_option f (fd_get t fd))"
    using e len fd_div_mod_eq [of _ fd] by (auto simp: fun_eq_iff nth_list_update)
qed

text \<open>Every operation of the table that changes it.\<close>

inductive fd_step :: "'o fd_storage \<Rightarrow> 'o fd_storage \<Rightarrow> bool" where
  step_insert_at: "insert_at t fd e = Inr t' \<Longrightarrow> fd_step t t'"
| step_insert_from: "insert_from t min_fd e = Inr (t', fd) \<Longrightarrow> fd_step t t'"
| step_insert_next: "insert_next t e = Inr (t', fd) \<Longrightarrow> fd_step t t'"
| step_get_mut: "fd_modify t fd f = Some t' \<Longrightarrow> fd_step t t'"
| step_remove: "fd_remove t fd = (t', removed) \<Longrightarrow> fd_step t t'"
| step_remove_or_err: "remove_or_err t fd = Inr (t', e) \<Longrightarrow> fd_step t t'"
| step_take_cloexec: "take_cloexec_on_exec t = (t', removed_list) \<Longrightarrow> fd_step t t'"
| step_remove_range: "remove_range t first last0 = (t', removed_list) \<Longrightarrow> fd_step t t'"
| step_set_cloexec: "fd_step t (set_cloexec_range t first last0)"
| step_drain: "drain_all t = (drained, t') \<Longrightarrow> fd_step t t'"
| step_fork: "fd_step t (clone_for_fork t)"

inductive fd_reachable :: "'o fd_storage \<Rightarrow> bool" where
  fd_start: "fd_reachable fd_new"
| fd_next: "fd_reachable t \<Longrightarrow> fd_step t t' \<Longrightarrow> fd_reachable t'"

section \<open>The table as a descriptor map\<close>

text \<open>
  What the callers of the table rely on: \<open>get\<close> reads a finite map from descriptors to entries,
  \<open>ins\<close> allocates the lowest free descriptor from a minimum on, \<open>rem\<close> removes one.
\<close>

locale descriptor_map =
  fixes inv :: "'s \<Rightarrow> bool" and get :: "'s \<Rightarrow> nat \<Rightarrow> 'e option"
    and ins :: "'s \<Rightarrow> nat \<Rightarrow> 'e \<Rightarrow> ('s \<times> nat) res" and rem :: "'s \<Rightarrow> nat \<Rightarrow> 's \<times> 'e option"
  assumes ins_inv: "inv s \<Longrightarrow> ins s m e = Inr (s', fd) \<Longrightarrow> inv s'"
    and ins_free: "inv s \<Longrightarrow> ins s m e = Inr (s', fd) \<Longrightarrow> m \<le> fd \<and> get s fd = None"
    and ins_least: "inv s \<Longrightarrow> ins s m e = Inr (s', fd) \<Longrightarrow> m \<le> x \<Longrightarrow> x < fd \<Longrightarrow> get s x \<noteq> None"
    and ins_get: "inv s \<Longrightarrow> ins s m e = Inr (s', fd) \<Longrightarrow> get s' = (get s)(fd \<mapsto> e)"
    and rem_inv: "inv s \<Longrightarrow> inv (fst (rem s fd))"
    and rem_get: "inv s \<Longrightarrow> get (fst (rem s fd)) = (get s)(fd := None)"
    and rem_ret: "inv s \<Longrightarrow> snd (rem s fd) = get s fd"
begin

lemma ins_rem:
  assumes "inv s" and "ins s m e = Inr (s', fd)"
  shows "get (fst (rem s' fd)) = get s" and "snd (rem s' fd) = Some e" and "inv (fst (rem s' fd))"
  using ins_free [OF assms] rem_get [OF ins_inv [OF assms]] rem_ret [OF ins_inv [OF assms]]
    rem_inv [OF ins_inv [OF assms]] ins_get [OF assms]
  by (auto simp: fun_eq_iff)

lemma rem_ins_reuse:
  assumes "inv s" and "ins (fst (rem s fd)) m e = Inr (s', fd')" and "m \<le> fd"
  shows "fd' \<le> fd"
proof (rule ccontr)
  assume "\<not> fd' \<le> fd"
  then have "get (fst (rem s fd)) fd \<noteq> None"
    using ins_least [OF rem_inv [OF assms(1)] assms(2)] assms(3) by simp
  then show False using rem_get [OF assms(1)] by simp
qed

lemma ins_keeps:
  assumes "inv s" and "ins s m e = Inr (s', fd)" and "get s x \<noteq> None"
  shows "x \<noteq> fd" and "get s' x = get s x"
  using ins_free [OF assms(1,2)] ins_get [OF assms(1,2)] assms(3) by auto

end

lemma insert_from_cases:
  assumes wf: "fd_wf t"
  shows "case insert_from t m e of
      Inr (t', fd) \<Rightarrow> fd_wf t' \<and> m \<le> fd \<and> fd < FD_LIMIT \<and> fd_get t fd = None \<and>
        (\<forall>x. m \<le> x \<longrightarrow> x < fd \<longrightarrow> fd_get t x \<noteq> None) \<and>
        fd_get t' = (fd_get t)(fd \<mapsto> e) \<and> count t' = count t + 1
    | Inl err \<Rightarrow> err = EMFILE \<and> (\<forall>x. m \<le> x \<longrightarrow> x < FD_LIMIT \<longrightarrow> fd_get t x \<noteq> None)"
proof (cases "next_available_fd t m")
  case (Inl err)
  then show ?thesis using next_available_fd_cases [OF wf, of m] by (simp add: insert_from_def)
next
  case (Inr fd)
  then have fd: "m \<le> fd" "fd < FD_LIMIT" "fd_get t fd = None"
    "\<forall>x. m \<le> x \<longrightarrow> x < fd \<longrightarrow> fd_get t x \<noteq> None"
    using next_available_fd_cases [OF wf, of m] by auto
  then obtain t' where "insert_at t fd e = Inr t'" and "fd_wf t'"
    and "fd_get t' = (fd_get t)(fd \<mapsto> e)"
    and "count t' = count t + (if fd_get t fd = None then 1 else 0)"
    using insert_at_correct [OF wf] by metis
  then show ?thesis using Inr fd by (simp add: insert_from_def)
qed

lemma insert_from_Inr:
  assumes "fd_wf t" and "insert_from t m e = Inr (t', fd)"
  shows "fd_wf t'" "m \<le> fd" "fd < FD_LIMIT" "fd_get t fd = None"
    "\<And>x. m \<le> x \<Longrightarrow> x < fd \<Longrightarrow> fd_get t x \<noteq> None"
    "fd_get t' = (fd_get t)(fd \<mapsto> e)" "count t' = count t + 1"
  using insert_from_cases [OF assms(1), of m e] unfolding assms(2) by auto

interpretation fdm: descriptor_map fd_wf fd_get insert_from fd_remove
  by unfold_locales (simp_all add: insert_from_Inr fd_remove_correct)

section \<open>Properties\<close>

lemma fd_wf_new [simp]: "fd_wf fd_new" and fd_get_new [simp]: "fd_get fd_new = (\<lambda>_. None)"
  by (auto simp: fd_wf_def fd_new_def fd_get_def fun_eq_iff)

text \<open>
  C23: descriptor allocation. On a well-formed table \<open>insert_from\<close> returns the lowest descriptor that
  is free from \<open>min_fd\<close> on, binds exactly that one, increments the count and keeps the table
  well-formed; it fails, with \<open>EMFILE\<close>, only when every descriptor from \<open>min_fd\<close> up to the limit is
  in use.
\<close>

theorem insert_from_lowest_free:
  assumes "fd_wf t"
  shows "case insert_from t m e of
      Inr (t', fd) \<Rightarrow> fd_wf t' \<and> m \<le> fd \<and> fd < FD_LIMIT \<and> fd_get t fd = None \<and>
        (\<forall>x. m \<le> x \<longrightarrow> x < fd \<longrightarrow> fd_get t x \<noteq> None) \<and>
        fd_get t' = (fd_get t)(fd \<mapsto> e) \<and> count t' = count t + 1
    | Inl err \<Rightarrow> err = EMFILE \<and> (\<forall>x. m \<le> x \<longrightarrow> x < FD_LIMIT \<longrightarrow> fd_get t x \<noteq> None)"
  using assms by (rule insert_from_cases)

definition example_entry :: "nat fd_entry" where
  "example_entry = \<lparr>fobject = 7, flags = 0, open_file_description = 1\<rparr>"

definition example_table :: "nat fd_storage" where
  "example_table =
     \<lparr>chunks = [Some (replicate 3 (Some example_entry) @ [None] @ replicate 60 (Some example_entry))],
      open_fds = [- 1 - 8], count = 63\<rparr>"

lemma example_slots:
  "b < 64 \<Longrightarrow> (replicate 3 (Some example_entry) @ [None] @ replicate 60 (Some example_entry)) ! b =
    (if b = 3 then None else Some example_entry)"
  by (auto simp: nth_append nth_Cons split: nat.splits)

lemma example_table_get:
  "fd_get example_table fd = (if fd < 64 \<and> fd \<noteq> 3 then Some example_entry else None)"
  using example_slots [of "fd mod 64"] by (auto simp: fd_get_def Let_def example_table_def)

lemma example_table_wf: "fd_wf example_table"
proof -
  have "bit (- 1 - 8 :: 64 word) b \<longleftrightarrow> b \<noteq> 3" if "b < 64" for b
  proof -
    have "(- 1 - 8 :: 64 word) = NOT (2 ^ 3)" by simp
    then show ?thesis using that by (simp only: bit_not_iff bit_2_iff bit_exp_iff) auto
  qed
  then show ?thesis
    using example_slots by (simp add: fd_wf_def example_table_def chunk_count_def max_chunks_val)
qed

theorem insert_from_lowest_free_witness:
  "fd_wf example_table \<and>
   (case insert_from example_table 0 example_entry of
      Inr (t', fd) \<Rightarrow> fd_wf t' \<and> fd_get example_table fd = None \<and> fd_get t' fd = Some example_entry
    | Inl err \<Rightarrow> err = EMFILE)"
  using insert_from_lowest_free [OF example_table_wf, of 0 example_entry] example_table_wf
  by (auto split: sum.splits)

text \<open>
  The range passes are exact for a range whose end lies in an allocated chunk, or ends on a chunk
  boundary (as the \<open>close_range(first, ~0)\<close> of the C library does).
\<close>

definition range_covered :: "'o fd_storage \<Rightarrow> nat \<Rightarrow> bool" where
  "range_covered t last0 \<longleftrightarrow>
     (let l = min last0 (FD_LIMIT - 1) in l div 64 < length (chunks t) \<or> l mod 64 = 63)"

lemma effective_last_covered:
  assumes "fd_wf t" and "range_covered t last0" and "fd_get t fd \<noteq> None"
  shows "fd \<le> effective_last t last0 \<longleftrightarrow> fd \<le> last0"
    and "fd \<le> last0 \<longleftrightarrow> fd \<le> min last0 (FD_LIMIT - 1)"
proof -
  let ?l = "min last0 (FD_LIMIT - 1)" and ?n = "length (chunks t)"
  have fd: "fd < FD_LIMIT" "fd < ?n * 64"
    using fd_get_limit [OF assms(1,3)] fd_get_beyond [of t fd] assms(3) not_le by auto
  then show lim: "fd \<le> last0 \<longleftrightarrow> fd \<le> ?l" by auto
  show "fd \<le> effective_last t last0 \<longleftrightarrow> fd \<le> last0"
  proof (cases "?l div 64 < ?n")
    case True
    then have "effective_last t last0 = ?l" by (simp add: effective_last_def Let_def)
    then show ?thesis using lim by simp
  next
    case False
    then have "?l mod 64 = 63" using assms(2) unfolding range_covered_def Let_def by blast
    moreover have "?n * 64 \<le> ?l"
      using False by (meson div_less_iff_less_mult not_le zero_less_numeral)
    moreover have "effective_last t last0 = (?n - 1) * 64 + ?l mod 64"
      using False unfolding effective_last_def Let_def by simp
    ultimately show ?thesis using fd lim by simp
  qed
qed

lemma map_filter_upt_cut:
  assumes "\<And>fd. f fd \<noteq> None \<Longrightarrow> fd < a \<longleftrightarrow> fd < (b::nat)"
  shows "List.map_filter f [m..<a] = List.map_filter f [m..<b]"
proof -
  have "List.map_filter f [m..<j] = List.map_filter f [m..<i]"
    if "i \<le> j" "\<And>fd. f fd \<noteq> None \<Longrightarrow> fd < i \<longleftrightarrow> fd < j" for i j
  proof (cases "m \<le> i")
    case True
    have "filter (\<lambda>x. f x \<noteq> None) [i..<j] = []" using that(2) by (fastforce simp: filter_empty_conv)
    then show ?thesis
      using upt_split [OF True that(1)] by (simp add: List.map_filter_def)
  next
    case False
    have "filter (\<lambda>x. f x \<noteq> None) [m..<j] = []"
      using that(2) False by (fastforce simp: filter_empty_conv)
    then show ?thesis using False by (simp add: List.map_filter_def)
  qed
  from this [of a b] this [of b a] show ?thesis using assms by (metis nle_le)
qed

lemma remove_range_degenerate:
  assumes "last0 < first \<or> FD_LIMIT \<le> first \<or> length (chunks t) \<le> first div 64"
  shows "remove_range t first last0 = (t, [])" and "set_cloexec_range t first last0 = t"
  using assms by (auto simp: remove_range_def set_cloexec_range_def Let_def)

lemma degenerate_get:
  assumes "fd_wf t" and "last0 < first \<or> FD_LIMIT \<le> first \<or> length (chunks t) \<le> first div 64"
    and "first \<le> fd" and "fd \<le> last0"
  shows "fd_get t fd = None"
proof -
  have "length (chunks t) * 64 \<le> fd" if "length (chunks t) \<le> first div 64"
    using that assms(3) by (meson div_le_mono div_less_iff_less_mult le_trans not_le zero_less_numeral)
  then show ?thesis
    using assms fd_get_limit [OF assms(1)] fd_get_beyond [of t fd] by fastforce
qed

text \<open>
  C24: \<open>remove_range\<close> (the core of \<open>close_range\<close>) on a covered range removes exactly the open
  descriptors of \<open>[first, last]\<close>, returns their entries in ascending order and keeps the table, its
  occupancy bitmap and its count consistent.
\<close>

theorem remove_range_exact:
  assumes "fd_wf t" and "range_covered t last0"
  shows "fd_wf (fst (remove_range t first last0)) \<and>
    fd_get (fst (remove_range t first last0)) =
      (\<lambda>fd. if first \<le> fd \<and> fd \<le> last0 then None else fd_get t fd) \<and>
    snd (remove_range t first last0) =
      List.map_filter (fd_get t) [first..<Suc (min last0 (FD_LIMIT - 1))]"
proof (cases "last0 < first \<or> FD_LIMIT \<le> first \<or> length (chunks t) \<le> first div 64")
  case True
  have "List.map_filter (fd_get t) [first..<Suc (min last0 (FD_LIMIT - 1))] = []"
    using degenerate_get [OF assms(1) True]
    by (auto simp: List.map_filter_def filter_empty_conv simp del: upt_Suc)
  then show ?thesis
    using remove_range_degenerate(1) [OF True] degenerate_get [OF assms(1) True] assms(1)
    by (auto simp: fun_eq_iff simp del: upt_Suc)
next
  case False
  then have nd: "first \<le> last0" "first < FD_LIMIT" "first div 64 < length (chunks t)" by auto
  note eff = remove_range_effect [OF assms(1) nd]
  note cov = effective_last_covered [OF assms]
  have "fd_get (fst (remove_range t first last0)) fd =
      (if first \<le> fd \<and> fd \<le> last0 then None else fd_get t fd)" for fd
    unfolding eff(3) using cov(1) [of fd] by (cases "fd_get t fd") auto
  moreover have "List.map_filter (fd_get t) [first..<Suc (effective_last t last0)] =
      List.map_filter (fd_get t) [first..<Suc (min last0 (FD_LIMIT - 1))]"
    by (rule map_filter_upt_cut) (metis cov less_Suc_eq_le)
  ultimately show ?thesis using eff(1,2) by (simp add: fun_eq_iff del: upt_Suc)
qed

lemma example_covered: "range_covered example_table 5" "range_covered example_table (usize_max)"
  by (simp_all add: range_covered_def example_table_def)

theorem remove_range_exact_witness:
  "fd_wf example_table \<and> range_covered example_table usize_max \<and>
   fd_get (fst (remove_range example_table 3 usize_max)) 40 = None \<and>
   fd_get (fst (remove_range example_table 3 usize_max)) 2 = Some example_entry"
  using conjunct1 [OF conjunct2 [OF remove_range_exact [OF example_table_wf example_covered(2), of 3]]]
    example_table_wf example_covered
  by (simp add: example_table_get)

lemma effective_last_degenerate:
  assumes "fd_wf t" and "last0 < first \<or> FD_LIMIT \<le> first \<or> length (chunks t) \<le> first div 64"
    and "first \<le> fd" and "fd \<le> effective_last t last0"
  shows "fd_get t fd = None"
proof (cases "chunks t = []")
  case True
  then show ?thesis using fd_get_beyond [of t fd] by simp
next
  case False
  let ?l = "min last0 (FD_LIMIT - 1)"
  have "effective_last t last0 \<le> ?l div 64 * 64 + ?l mod 64"
    unfolding effective_last_eq [OF False, of last0] by (intro add_mono mult_right_mono) auto
  then have "fd \<le> last0" using assms(4) div_mult_mod_eq [of ?l 64] by linarith
  then show ?thesis using degenerate_get [OF assms(1-3)] by simp
qed

lemma set_cloexec_range_get:
  assumes wf: "fd_wf t"
  shows "fd_wf (set_cloexec_range t first last0)"
    and "fd_get (set_cloexec_range t first last0) fd =
      (if first \<le> fd \<and> fd \<le> effective_last t last0 then map_option mark_cloexec (fd_get t fd) else fd_get t fd)"
proof -
  have "fd_wf (set_cloexec_range t first last0) \<and> fd_get (set_cloexec_range t first last0) fd =
      (if first \<le> fd \<and> fd \<le> effective_last t last0 then map_option mark_cloexec (fd_get t fd) else fd_get t fd)"
  proof (cases "last0 < first \<or> FD_LIMIT \<le> first \<or> length (chunks t) \<le> first div 64")
    case True
    then show ?thesis
      using remove_range_degenerate(2) [OF True] effective_last_degenerate [OF wf True, of fd] wf by simp
  next
    case False
    then show ?thesis using set_cloexec_range_effect [OF wf, of first last0] by simp
  qed
  then show "fd_wf (set_cloexec_range t first last0)"
    and "fd_get (set_cloexec_range t first last0) fd =
      (if first \<le> fd \<and> fd \<le> effective_last t last0 then map_option mark_cloexec (fd_get t fd) else fd_get t fd)"
    by simp_all
qed

text \<open>
  C37: \<open>set_cloexec_range\<close>, on every table and for every range, sets the close-on-exec flag of exactly the
  open descriptors from \<open>first\<close> to \<open>effective_last\<close>, and changes nothing else. That end is \<open>last\<close> when its chunk
  is allocated; otherwise it is bit \<open>last % 64\<close> of the last allocated chunk. So the open descriptors of
  \<open>[first, last]\<close> are marked when the range is covered, and descriptors of the range above that bit are
  missed when it is not, although the source documents every open descriptor of the range.
\<close>

theorem set_cloexec_range_exact:
  assumes "fd_wf t"
  shows "fd_wf (set_cloexec_range t first last0) \<and>
    fd_get (set_cloexec_range t first last0) =
      (\<lambda>fd. if first \<le> fd \<and> fd \<le> effective_last t last0
             then map_option (\<lambda>e. e\<lparr>flags := flags e OR CLOEXEC\<rparr>) (fd_get t fd) else fd_get t fd) \<and>
    (range_covered t last0 \<longrightarrow>
      fd_get (set_cloexec_range t first last0) =
        (\<lambda>fd. if first \<le> fd \<and> fd \<le> last0
               then map_option (\<lambda>e. e\<lparr>flags := flags e OR CLOEXEC\<rparr>) (fd_get t fd) else fd_get t fd)) \<and>
    (last0 < FD_LIMIT \<and> length (chunks t) \<le> last0 div 64 \<and> (length (chunks t) - 1) * 64 + last0 mod 64 < fd \<longrightarrow>
      fd_get (set_cloexec_range t first last0) fd = fd_get t fd)"
proof -
  note eff = set_cloexec_range_get [OF assms, of first last0]
  have mark: "(\<lambda>e. e\<lparr>flags := flags e OR CLOEXEC\<rparr>) = mark_cloexec"
    by (simp add: mark_cloexec_def fun_eq_iff)
  have "fd_get (set_cloexec_range t first last0) fd = (if first \<le> fd \<and> fd \<le> last0
      then map_option mark_cloexec (fd_get t fd) else fd_get t fd)" if "range_covered t last0" for fd
    unfolding eff(2) using effective_last_covered(1) [OF assms that, of fd] by (cases "fd_get t fd") auto
  moreover have "fd_get (set_cloexec_range t first last0) fd = fd_get t fd"
    if "last0 < FD_LIMIT" "length (chunks t) \<le> last0 div 64" "(length (chunks t) - 1) * 64 + last0 mod 64 < fd"
    using that eff(2) by (simp add: effective_last_def)
  ultimately show ?thesis unfolding mark using eff by (simp add: fun_eq_iff)
qed

theorem set_cloexec_range_exact_witness:
  "fd_wf example_table \<and> range_covered example_table 5 \<and>
   map_option flags (fd_get (set_cloexec_range example_table 2 5) 4) = Some CLOEXEC \<and>
   map_option flags (fd_get (set_cloexec_range example_table 2 5) 6) = Some 0 \<and>
   map_option flags (fd_get (set_cloexec_range example_table 3 100) 36) = Some CLOEXEC \<and>
   map_option flags (fd_get (set_cloexec_range example_table 3 100) 40) = Some 0"
proof -
  have "length (chunks example_table) = 1" by (simp add: example_table_def)
  then show ?thesis
    using set_cloexec_range_exact [OF example_table_wf, of 2 5] set_cloexec_range_exact [OF example_table_wf, of 3 100 40]
      example_table_wf example_covered
    by (simp add: example_table_get example_entry_def effective_last_def)
qed

text \<open>
  C40: when the range ends past the allocated chunks, the end chunk is clamped but the end bit is not:
  the descriptors of the last allocated chunk above \<open>last % 64\<close> survive although they lie inside
  \<open>[first, last]\<close>. The source documents the operation as removing all descriptors of the range.
\<close>

theorem remove_range_clamped_tail:
  assumes "fd_wf t" and "first div 64 < length (chunks t)" and "last0 < FD_LIMIT"
    and "length (chunks t) \<le> last0 div 64" and "(length (chunks t) - 1) * 64 + last0 mod 64 < fd"
  shows "fd_get (fst (remove_range t first last0)) fd = fd_get t fd"
proof (cases "first \<le> last0 \<and> first < FD_LIMIT")
  case True
  have "effective_last t last0 = (length (chunks t) - 1) * 64 + last0 mod 64"
    using assms(3,4) by (simp add: effective_last_def)
  then show ?thesis
    using remove_range_effect(3) [OF assms(1) _ _ assms(2), of last0] True assms(5) by simp
next
  case False
  then have "remove_range t first last0 = (t, [])" by (intro remove_range_degenerate(1)) auto
  then show ?thesis by simp
qed

theorem remove_range_clamped_tail_witness:
  "fd_wf example_table \<and> fd_get (fst (remove_range example_table 3 100)) 40 = Some example_entry"
proof -
  have "length (chunks example_table) = 1" by (simp add: example_table_def)
  then show ?thesis
    using remove_range_clamped_tail [OF example_table_wf, of 3 100 40] example_table_wf
    by (simp add: example_table_get)
qed

text \<open>
  C38: \<open>take_cloexec_on_exec\<close> removes exactly the descriptors whose close-on-exec flag is set, returns
  their entries in ascending order of descriptor, and keeps the table well-formed.
\<close>

theorem take_cloexec_on_exec_exact:
  assumes "fd_wf t"
  shows "fd_wf (fst (take_cloexec_on_exec t)) \<and>
    fd_get (fst (take_cloexec_on_exec t)) =
      (\<lambda>fd. case fd_get t fd of
               Some e \<Rightarrow> if flags_contains (flags e) CLOEXEC then None else Some e | None \<Rightarrow> None) \<and>
    snd (take_cloexec_on_exec t) =
      filter (\<lambda>e. flags_contains (flags e) CLOEXEC) (entries_snapshot t)"
proof -
  note inv = take_cloexec_on_exec_inv [OF assms]
  have "fd_get (fst (take_cloexec_on_exec t)) fd =
      (case fd_get t fd of
         Some e \<Rightarrow> if flags_contains (flags e) CLOEXEC then None else Some e | None \<Rightarrow> None)" for fd
    using inv fd_get_beyond [of t fd]
    by (cases "fd < length (chunks t) * 64")
      (auto simp: cloexec_inv_def slot_cloexec_def split: option.splits)
  then show ?thesis
    using inv entries_snapshot_eq [OF assms] by (simp only: cloexec_inv_def fun_eq_iff) simp
qed

theorem take_cloexec_on_exec_exact_witness:
  "fd_wf (set_cloexec_range example_table 2 5) \<and>
   fd_get (fst (take_cloexec_on_exec (set_cloexec_range example_table 2 5))) 4 = None \<and>
   fd_get (fst (take_cloexec_on_exec (set_cloexec_range example_table 2 5))) 6 = Some example_entry"
proof -
  have nd: "(2::nat) \<le> 5" "(2::nat) < FD_LIMIT" "(2::nat) div 64 < length (chunks example_table)"
    by (simp_all add: example_table_def)
  note eff = set_cloexec_range_effect [OF example_table_wf nd]
  have "effective_last example_table 5 = 5" by (simp add: effective_last_def example_table_def)
  then show ?thesis
    using take_cloexec_on_exec_exact [OF eff(1)] eff
    by (simp add: example_table_get mark_cloexec_def flags_contains_def example_entry_def)
qed

lemma set_cloexec_range_wf: "fd_wf t \<Longrightarrow> fd_wf (set_cloexec_range t first last0)"
  by (rule set_cloexec_range_get)

lemma remove_range_wf:
  assumes "fd_wf t"
  shows "fd_wf (fst (remove_range t first last0))"
proof (cases "last0 < first \<or> FD_LIMIT \<le> first \<or> length (chunks t) \<le> first div 64")
  case True
  then show ?thesis using remove_range_degenerate(1) [OF True] assms by simp
next
  case False
  then show ?thesis using remove_range_effect(1) [OF assms, of first last0] by simp
qed

lemma insert_at_wf:
  assumes "fd_wf t" and "insert_at t fd e = Inr t'"
  shows "fd_wf t'"
proof -
  have "fd < FD_LIMIT" using assms(2) by (auto simp: insert_at_def split: if_splits)
  then obtain t1 where "insert_at t fd e = Inr t1" "fd_wf t1" using insert_at_correct [OF assms(1)] by metis
  then show ?thesis using assms(2) by simp
qed

lemma fd_step_wf:
  assumes "fd_step t t'" and wf: "fd_wf t"
  shows "fd_wf t'"
  using assms(1)
proof (cases rule: fd_step.cases)
  case (step_remove fd removed)
  then show ?thesis using fd_remove_correct(2) [OF wf, of fd] by simp
next
  case (step_remove_or_err fd e)
  then show ?thesis
    using fd_remove_correct(2) [OF wf, of fd] by (auto simp: remove_or_err_def split: prod.splits option.splits)
next
  case (step_take_cloexec removed_list)
  then show ?thesis using take_cloexec_on_exec_inv [OF wf] by (simp add: cloexec_inv_def)
next
  case (step_remove_range first last0 removed_list)
  then show ?thesis using remove_range_wf [OF wf, of first last0] by simp
qed (use wf in \<open>auto simp: insert_next_def drain_all_def clone_for_fork_def
    dest: insert_at_wf insert_from_Inr(1) fd_modify_correct(1) intro: set_cloexec_range_wf\<close>)

lemma fd_reachable_wf: "fd_reachable t \<Longrightarrow> fd_wf t"
  by (induction rule: fd_reachable.induct) (auto dest: fd_step_wf)

text \<open>
  C39: in every table that any sequence of its operations reaches from the empty table, with any descriptors,
  entries, ranges and changes of entries, the occupancy words agree with the slots, the number of open
  descriptors that the table keeps is the number of descriptors that are bound and the length of the snapshot,
  the table says it is empty exactly when none is bound, and there are never more than the limit.
\<close>

theorem fd_count_exact:
  assumes "fd_reachable t"
  shows "(\<forall>fd. fd_get t fd \<noteq> None \<longleftrightarrow> fd div 64 < length (open_fds t) \<and> bit (open_fds t ! (fd div 64)) (fd mod 64)) \<and>
    fd_len t = card (dom (fd_get t)) \<and> fd_len t = length (entries_snapshot t) \<and>
    (fd_is_empty t \<longleftrightarrow> dom (fd_get t) = {}) \<and> fd_len t \<le> FD_LIMIT"
proof -
  note wf = fd_reachable_wf [OF assms]
  have "fd_get t fd \<noteq> None \<longleftrightarrow> fd div 64 < length (open_fds t) \<and> bit (open_fds t ! (fd div 64)) (fd mod 64)" for fd
  proof (cases "fd div 64 < length (chunks t)")
    case True
    then show ?thesis
      using fd_get_bit [OF wf True, of "fd mod 64"] wf by (simp add: fd_wf_def)
  next
    case False
    then have "fd_get t fd = None" by (simp add: fd_get_def Let_def)
    then show ?thesis using False wf by (simp add: fd_wf_def)
  qed
  moreover have "finite (dom (fd_get t))" by (simp add: fd_get_dom)
  ultimately show ?thesis
    using count_card [OF wf] count_snapshot [OF wf] fd_wf_count_le [OF wf]
    by (simp add: fd_len_def fd_is_empty_def card_eq_0_iff)
qed

lemma example_table_run:
  "\<exists>t. fd_reachable t \<and> fd_get t = [70 \<mapsto> example_entry]"
proof -
  obtain t1 where t1: "insert_at fd_new 3 example_entry = Inr t1" "fd_wf t1" "fd_get t1 = [3 \<mapsto> example_entry]"
    using insert_at_correct [OF fd_wf_new, of 3 example_entry] by (auto simp: fun_eq_iff)
  obtain t2 where t2: "insert_at t1 70 example_entry = Inr t2" "fd_wf t2"
    "fd_get t2 = [3 \<mapsto> example_entry, 70 \<mapsto> example_entry]"
    using insert_at_correct [OF t1(2), of 70 example_entry] t1(3) by auto
  let ?t = "fst (fd_remove t2 3)"
  have "fd_reachable ?t"
    using fd_next [OF fd_next [OF fd_next [OF fd_start step_insert_at [OF t1(1)]] step_insert_at [OF t2(1)]]
        step_remove [OF prod.collapse [symmetric]]] .
  moreover have "fd_get ?t = [70 \<mapsto> example_entry]"
    using fd_remove_correct(3) [OF t2(2), of 3] t2(3) by (auto simp: fun_eq_iff)
  ultimately show ?thesis by blast
qed

theorem fd_count_exact_witness:
  "\<exists>t :: nat fd_storage. fd_reachable t \<and> fd_get t 70 = Some example_entry \<and> fd_len t = 1 \<and>
     length (entries_snapshot t) = 1 \<and> \<not> fd_is_empty t"
  using example_table_run fd_count_exact by fastforce

end
