(* ===== verification/Bpf_Insn.thy ===== *)
theory Bpf_Insn
  imports Bytes
begin

text \<open>
  The eBPF instruction encoding of \<open>pulse_core/src/bpf/insn.rs\<close>: the opcode constants, the
  eight-byte instruction and its field decoders.
\<close>

section \<open>Opcodes\<close>

abbreviation (input) BPF_LD :: "8 word" where "BPF_LD \<equiv> 0x00"
abbreviation (input) BPF_LDX :: "8 word" where "BPF_LDX \<equiv> 0x01"
abbreviation (input) BPF_ST :: "8 word" where "BPF_ST \<equiv> 0x02"
abbreviation (input) BPF_STX :: "8 word" where "BPF_STX \<equiv> 0x03"
abbreviation (input) BPF_ALU :: "8 word" where "BPF_ALU \<equiv> 0x04"
abbreviation (input) BPF_JMP :: "8 word" where "BPF_JMP \<equiv> 0x05"
abbreviation (input) BPF_JMP32 :: "8 word" where "BPF_JMP32 \<equiv> 0x06"
abbreviation (input) BPF_ALU64 :: "8 word" where "BPF_ALU64 \<equiv> 0x07"

abbreviation (input) BPF_W :: "8 word" where "BPF_W \<equiv> 0x00"
abbreviation (input) BPF_H :: "8 word" where "BPF_H \<equiv> 0x08"
abbreviation (input) BPF_B :: "8 word" where "BPF_B \<equiv> 0x10"
abbreviation (input) BPF_DW :: "8 word" where "BPF_DW \<equiv> 0x18"

abbreviation (input) BPF_IMM :: "8 word" where "BPF_IMM \<equiv> 0x00"
abbreviation (input) BPF_ABS :: "8 word" where "BPF_ABS \<equiv> 0x20"
abbreviation (input) BPF_IND :: "8 word" where "BPF_IND \<equiv> 0x40"
abbreviation (input) BPF_MEM :: "8 word" where "BPF_MEM \<equiv> 0x60"
abbreviation (input) BPF_LEN :: "8 word" where "BPF_LEN \<equiv> 0x80"
abbreviation (input) BPF_MSH :: "8 word" where "BPF_MSH \<equiv> 0xa0"
abbreviation (input) BPF_ATOMIC :: "8 word" where "BPF_ATOMIC \<equiv> 0xc0"

abbreviation (input) BPF_ADD :: "8 word" where "BPF_ADD \<equiv> 0x00"
abbreviation (input) BPF_SUB :: "8 word" where "BPF_SUB \<equiv> 0x10"
abbreviation (input) BPF_MUL :: "8 word" where "BPF_MUL \<equiv> 0x20"
abbreviation (input) BPF_DIV :: "8 word" where "BPF_DIV \<equiv> 0x30"
abbreviation (input) BPF_OR :: "8 word" where "BPF_OR \<equiv> 0x40"
abbreviation (input) BPF_AND :: "8 word" where "BPF_AND \<equiv> 0x50"
abbreviation (input) BPF_LSH :: "8 word" where "BPF_LSH \<equiv> 0x60"
abbreviation (input) BPF_RSH :: "8 word" where "BPF_RSH \<equiv> 0x70"
abbreviation (input) BPF_NEG :: "8 word" where "BPF_NEG \<equiv> 0x80"
abbreviation (input) BPF_MOD :: "8 word" where "BPF_MOD \<equiv> 0x90"
abbreviation (input) BPF_XOR :: "8 word" where "BPF_XOR \<equiv> 0xa0"
abbreviation (input) BPF_MOV :: "8 word" where "BPF_MOV \<equiv> 0xb0"
abbreviation (input) BPF_ARSH :: "8 word" where "BPF_ARSH \<equiv> 0xc0"
abbreviation (input) BPF_END :: "8 word" where "BPF_END \<equiv> 0xd0"

abbreviation (input) BPF_K :: "8 word" where "BPF_K \<equiv> 0x00"
abbreviation (input) BPF_X :: "8 word" where "BPF_X \<equiv> 0x08"

abbreviation (input) BPF_JA :: "8 word" where "BPF_JA \<equiv> 0x00"
abbreviation (input) BPF_JEQ :: "8 word" where "BPF_JEQ \<equiv> 0x10"
abbreviation (input) BPF_JGT :: "8 word" where "BPF_JGT \<equiv> 0x20"
abbreviation (input) BPF_JGE :: "8 word" where "BPF_JGE \<equiv> 0x30"
abbreviation (input) BPF_JSET :: "8 word" where "BPF_JSET \<equiv> 0x40"
abbreviation (input) BPF_JNE :: "8 word" where "BPF_JNE \<equiv> 0x50"
abbreviation (input) BPF_JSGT :: "8 word" where "BPF_JSGT \<equiv> 0x60"
abbreviation (input) BPF_JSGE :: "8 word" where "BPF_JSGE \<equiv> 0x70"
abbreviation (input) BPF_CALL :: "8 word" where "BPF_CALL \<equiv> 0x80"
abbreviation (input) BPF_EXIT :: "8 word" where "BPF_EXIT \<equiv> 0x90"
abbreviation (input) BPF_JLT :: "8 word" where "BPF_JLT \<equiv> 0xa0"
abbreviation (input) BPF_JLE :: "8 word" where "BPF_JLE \<equiv> 0xb0"
abbreviation (input) BPF_JSLT :: "8 word" where "BPF_JSLT \<equiv> 0xc0"
abbreviation (input) BPF_JSLE :: "8 word" where "BPF_JSLE \<equiv> 0xd0"

abbreviation (input) BPF_PSEUDO_MAP_FD :: "8 word" where "BPF_PSEUDO_MAP_FD \<equiv> 1"

abbreviation (input) BPF_FUNC_MAP_LOOKUP_ELEM :: "32 word" where "BPF_FUNC_MAP_LOOKUP_ELEM \<equiv> 1"
abbreviation (input) BPF_FUNC_MAP_UPDATE_ELEM :: "32 word" where "BPF_FUNC_MAP_UPDATE_ELEM \<equiv> 2"
abbreviation (input) BPF_FUNC_MAP_DELETE_ELEM :: "32 word" where "BPF_FUNC_MAP_DELETE_ELEM \<equiv> 3"
abbreviation (input) BPF_FUNC_KTIME_GET_NS :: "32 word" where "BPF_FUNC_KTIME_GET_NS \<equiv> 5"
abbreviation (input) BPF_FUNC_GET_SMP_PROCESSOR_ID :: "32 word" where "BPF_FUNC_GET_SMP_PROCESSOR_ID \<equiv> 8"
abbreviation (input) BPF_FUNC_PERF_EVENT_OUTPUT :: "32 word" where "BPF_FUNC_PERF_EVENT_OUTPUT \<equiv> 25"
abbreviation (input) BPF_FUNC_RINGBUF_OUTPUT :: "32 word" where "BPF_FUNC_RINGBUF_OUTPUT \<equiv> 130"
abbreviation (input) BPF_FUNC_RINGBUF_RESERVE :: "32 word" where "BPF_FUNC_RINGBUF_RESERVE \<equiv> 131"
abbreviation (input) BPF_FUNC_RINGBUF_SUBMIT :: "32 word" where "BPF_FUNC_RINGBUF_SUBMIT \<equiv> 132"
abbreviation (input) BPF_FUNC_RINGBUF_DISCARD :: "32 word" where "BPF_FUNC_RINGBUF_DISCARD \<equiv> 133"
abbreviation (input) BPF_FUNC_RINGBUF_QUERY :: "32 word" where "BPF_FUNC_RINGBUF_QUERY \<equiv> 134"

section \<open>Instructions\<close>

record bpf_insn =
  code :: "8 word"
  regs_byte :: "8 word"
  insn_off :: "16 word"
  imm :: "32 word"

definition insn_new :: "8 word \<Rightarrow> 8 word \<Rightarrow> 8 word \<Rightarrow> 16 word \<Rightarrow> 32 word \<Rightarrow> bpf_insn" where
  "insn_new c dst src off0 imm0 =
     \<lparr>code = c, regs_byte = push_bit 4 src OR (dst AND 0x0f), insn_off = off0, imm = imm0\<rparr>"

definition dst_reg :: "bpf_insn \<Rightarrow> 8 word" where
  "dst_reg i = regs_byte i AND 0x0f"

definition src_reg :: "bpf_insn \<Rightarrow> 8 word" where
  "src_reg i = drop_bit 4 (regs_byte i) AND 0x0f"

definition insn_class :: "bpf_insn \<Rightarrow> 8 word" where
  "insn_class i = code i AND 0x07"

definition insn_size :: "bpf_insn \<Rightarrow> 8 word" where
  "insn_size i = code i AND 0x18"

definition insn_mode :: "bpf_insn \<Rightarrow> 8 word" where
  "insn_mode i = code i AND 0xe0"

definition insn_op :: "bpf_insn \<Rightarrow> 8 word" where
  "insn_op i = code i AND 0xf0"

definition is_src_reg :: "bpf_insn \<Rightarrow> bool" where
  "is_src_reg i \<longleftrightarrow> code i AND 0x08 = BPF_X"

definition is_src_imm :: "bpf_insn \<Rightarrow> bool" where
  "is_src_imm i \<longleftrightarrow> code i AND 0x08 = BPF_K"

definition is_ld_imm64 :: "bpf_insn \<Rightarrow> bool" where
  "is_ld_imm64 i \<longleftrightarrow> code i = (BPF_LD OR BPF_IMM OR BPF_DW)"

definition is_exit :: "bpf_insn \<Rightarrow> bool" where
  "is_exit i \<longleftrightarrow> code i = (BPF_JMP OR BPF_EXIT)"

definition is_call :: "bpf_insn \<Rightarrow> bool" where
  "is_call i \<longleftrightarrow> code i = (BPF_JMP OR BPF_CALL)"

definition is_ja :: "bpf_insn \<Rightarrow> bool" where
  "is_ja i \<longleftrightarrow> code i = (BPF_JMP OR BPF_JA)"

definition is_jmp :: "bpf_insn \<Rightarrow> bool" where
  "is_jmp i \<longleftrightarrow> insn_class i = BPF_JMP"

definition is_jmp32 :: "bpf_insn \<Rightarrow> bool" where
  "is_jmp32 i \<longleftrightarrow> insn_class i = BPF_JMP32"

definition mem_size_bytes :: "bpf_insn \<Rightarrow> (errno, nat) outcome" where
  "mem_size_bytes i =
     (if insn_size i = BPF_B then Ok 1
      else if insn_size i = BPF_H then Ok 2
      else if insn_size i = BPF_W then Ok 4
      else if insn_size i = BPF_DW then Ok 8
      else Err EINVAL)"

section \<open>Decoding lemmas\<close>

lemma word_and_mask_le:
  fixes w :: "8 word"
  assumes "m = 2 ^ k - 1" and "k \<le> 8"
  shows "unat (w AND m) < 2 ^ k"
proof -
  have "w AND m = take_bit k w"
    using assms by (simp add: take_bit_eq_mask mask_eq_exp_minus_1)
  then show ?thesis by (simp add: unsigned_take_bit_eq)
qed

lemma dst_reg_less: "unat (dst_reg i) < 16"
  using word_and_mask_le [of "0x0f" 4 "regs_byte i"] by (simp add: dst_reg_def)

lemma src_reg_less: "unat (src_reg i) < 16"
  using word_and_mask_le [of "0x0f" 4 "drop_bit 4 (regs_byte i)"] by (simp add: src_reg_def)

lemma is_src_cases: "is_src_reg i \<longleftrightarrow> \<not> is_src_imm i"
proof -
  have "code i AND 8 = (if bit (code i) 3 then 8 else 0)"
  proof (rule bit_word_eqI)
    fix n assume "n < LENGTH(8)"
    have "bit (8 :: 8 word) n \<longleftrightarrow> n = 3"
      using bit_exp_iff [where 'a = "8 word", of 3 n] by auto
    then show "bit (code i AND 8) n = bit (if bit (code i) 3 then 8 else 0 :: 8 word) n"
      by (auto simp: bit_simps)
  qed
  then show ?thesis by (simp add: is_src_reg_def is_src_imm_def)
qed

lemma size_field_cases:
  "insn_size i \<in> {BPF_W, BPF_H, BPF_B, BPF_DW}"
proof -
  have bit3: "bit (8 :: 8 word) n \<longleftrightarrow> n = 3" and bit4: "bit (16 :: 8 word) n \<longleftrightarrow> n = 4" for n
    using bit_exp_iff [where 'a = "8 word", of 3 n] bit_exp_iff [where 'a = "8 word", of 4 n] by auto
  have "bit (24 :: 8 word) n \<longleftrightarrow> n = 3 \<or> n = 4" for n
    using bit_or_iff [of "8 :: 8 word" 16 n] unfolding bit3 bit4 by simp
  then have "insn_size i = (if bit (code i) 3 then 8 else 0) OR (if bit (code i) 4 then 16 else 0)"
    unfolding insn_size_def by (intro bit_word_eqI) (auto simp only: bit_and_iff bit_or_iff bit3 bit4 bit_0_eq bot_apply bot_bool_def split: if_splits)
  then show ?thesis by simp
qed

lemma mem_size_bytes_cases:
  obtains n where "mem_size_bytes i = Ok n" and "n \<in> {1, 2, 4, 8}"
  using size_field_cases [of i] unfolding mem_size_bytes_def by fastforce

lemma is_ld_imm64_class: "is_ld_imm64 i \<Longrightarrow> insn_class i = BPF_LD"
  by (simp add: is_ld_imm64_def insn_class_def)

lemma is_exit_class: "is_exit i \<Longrightarrow> insn_class i = BPF_JMP"
  and is_call_class: "is_call i \<Longrightarrow> insn_class i = BPF_JMP"
  and is_ja_class: "is_ja i \<Longrightarrow> insn_class i = BPF_JMP"
  by (simp_all add: is_exit_def is_call_def is_ja_def insn_class_def)

lemma opcode_disjoint:
  "is_exit i \<Longrightarrow> \<not> is_ld_imm64 i" "is_call i \<Longrightarrow> \<not> is_ld_imm64 i" "is_ja i \<Longrightarrow> \<not> is_ld_imm64 i"
  "is_exit i \<Longrightarrow> \<not> is_ja i" "is_exit i \<Longrightarrow> \<not> is_call i" "is_ja i \<Longrightarrow> \<not> is_call i"
  by (auto simp: is_exit_def is_call_def is_ja_def is_ld_imm64_def)

end
