(* ===== verification/Bpf_Ring_Buffer.thy ===== *)
theory Bpf_Ring_Buffer
  imports Bpf_Insn
begin

text \<open>
  The BPF ring buffer of \<open>pulse_core/src/bpf/ring_buffer.rs\<close>: circular reads and writes on the data
  pages, the producer side \<open>output\<close> and the consumer side \<open>parse_records\<close>. The buffer refines a
  FIFO queue of byte strings, for every pair of (wrapping, 64-bit) positions.
\<close>

section \<open>State\<close>

abbreviation (input) BPF_RINGBUF_BUSY_BIT :: "32 word" where "BPF_RINGBUF_BUSY_BIT \<equiv> 0x80000000"
abbreviation (input) BPF_RINGBUF_DISCARD_BIT :: "32 word" where "BPF_RINGBUF_DISCARD_BIT \<equiv> 0x40000000"
abbreviation (input) BPF_RINGBUF_LEN_MASK :: "32 word" where
  "BPF_RINGBUF_LEN_MASK \<equiv> NOT (BPF_RINGBUF_BUSY_BIT OR BPF_RINGBUF_DISCARD_BIT)"
abbreviation (input) BPF_RINGBUF_HDR_SZ :: nat where "BPF_RINGBUF_HDR_SZ \<equiv> 8"
abbreviation (input) BPF_RINGBUF_PAGE_SIZE :: nat where "BPF_RINGBUF_PAGE_SIZE \<equiv> 4096"
abbreviation (input) BPF_RB_NO_WAKEUP :: "64 word" where "BPF_RB_NO_WAKEUP \<equiv> 1"
abbreviation (input) BPF_RB_FORCE_WAKEUP :: "64 word" where "BPF_RB_FORCE_WAKEUP \<equiv> 2"

text \<open>
  The two control pages hold the positions; \<open>rdata\<close> is the content of the data pages. The wait
  queue and the shared frame handed to \<open>mmap\<close> carry no state that the operations read.
\<close>

record ring_buf =
  data_size :: nat
  rdata :: "byte list"
  consumer_pos :: "64 word"
  producer_pos :: "64 word"
  ringbuf_lost :: "64 word"
  readable_sequence :: "64 word"
  consumer_corrupt_records :: "64 word"
  consumer_discarded_records :: "64 word"

fun is_power_of_two :: "nat \<Rightarrow> bool" where
  "is_power_of_two n = (if n \<le> 1 then n = 1 else even n \<and> is_power_of_two (n div 2))"

declare is_power_of_two.simps [simp del]

text \<open>\<open>alloc_ok\<close> says whether the page allocator had the pages.\<close>

definition ring_new :: "bool \<Rightarrow> nat \<Rightarrow> ring_buf res" where
  "ring_new alloc_ok sz =
     (if sz = 0 \<or> sz mod BPF_RINGBUF_PAGE_SIZE \<noteq> 0 \<or> \<not> is_power_of_two sz then Inl EINVAL
      else if \<not> alloc_ok then Inl ENOMEM
      else Inr \<lparr>data_size = sz, rdata = replicate sz 0, consumer_pos = 0, producer_pos = 0,
                ringbuf_lost = 0, readable_sequence = 0,
                consumer_corrupt_records = 0, consumer_discarded_records = 0\<rparr>)"

definition set_consumer_pos :: "ring_buf \<Rightarrow> 64 word \<Rightarrow> ring_buf" where
  "set_consumer_pos rb v = rb\<lparr>consumer_pos := v\<rparr>"

definition set_producer_pos :: "ring_buf \<Rightarrow> 64 word \<Rightarrow> ring_buf" where
  "set_producer_pos rb v = rb\<lparr>producer_pos := v\<rparr>"

definition is_readable :: "ring_buf \<Rightarrow> bool" where
  "is_readable rb \<longleftrightarrow> producer_pos rb > consumer_pos rb"

definition notify_readable :: "ring_buf \<Rightarrow> ring_buf" where
  "notify_readable rb = rb\<lparr>readable_sequence := readable_sequence rb + 1\<rparr>"

section \<open>Circular copies\<close>

definition split_circular_ranges ::
  "ring_buf \<Rightarrow> nat \<Rightarrow> nat \<Rightarrow> (nat \<times> nat) \<times> (nat \<times> nat) option" where
  "split_circular_ranges rb offset len =
     (let space_to_end = data_size rb - offset
      in if len \<le> space_to_end then ((offset, len), None)
         else ((offset, space_to_end), Some (0, len - space_to_end)))"

definition write_circular :: "ring_buf \<Rightarrow> nat \<Rightarrow> byte list \<Rightarrow> ring_buf" where
  "write_circular rb offset_in_data bytes =
     (case split_circular_ranges rb offset_in_data (length bytes) of
        ((off1, len1), second) \<Rightarrow>
          (let rb1 = rb\<lparr>rdata := splice (rdata rb) off1 (take len1 bytes)\<rparr>
           in case second of
                None \<Rightarrow> rb1
              | Some (off2, len2) \<Rightarrow>
                  rb1\<lparr>rdata := splice (rdata rb1) off2 (take len2 (drop len1 bytes))\<rparr>))"

definition read_circular :: "ring_buf \<Rightarrow> nat \<Rightarrow> nat \<Rightarrow> byte list" where
  "read_circular rb offset_in_data n =
     (case split_circular_ranges rb offset_in_data n of
        ((off1, len1), second) \<Rightarrow>
          slice (rdata rb) off1 len1 @
          (case second of None \<Rightarrow> [] | Some (off2, len2) \<Rightarrow> slice (rdata rb) off2 len2))"

section \<open>Producer\<close>

text \<open>\<open>(BPF_RINGBUF_HDR_SZ + payload_len + 7) & !7\<close>\<close>

definition record_size :: "nat \<Rightarrow> nat" where
  "record_size payload_len = (BPF_RINGBUF_HDR_SZ + payload_len + 7) div 8 * 8"

definition record_header :: "32 word \<Rightarrow> byte list" where
  "record_header w = u32_to_bytes w @ u32_to_bytes 0"

definition ring_output :: "ring_buf \<Rightarrow> byte list \<Rightarrow> 64 word \<Rightarrow> ring_buf \<times> unit res" where
  "ring_output rb data flags0 =
     (if flags0 AND NOT (BPF_RB_NO_WAKEUP OR BPF_RB_FORCE_WAKEUP) \<noteq> 0 then (rb, Inl EINVAL)
      else
        (let payload_len = length data; rec_size = record_size payload_len
         in if rec_size > data_size rb then (rb, Inl E2BIG)
            else
              (let prod_pos = producer_pos rb; cons_pos = consumer_pos rb; used = unat (prod_pos - cons_pos)
               in if used > data_size rb then (rb\<lparr>ringbuf_lost := ringbuf_lost rb + 1\<rparr>, Inl EAGAIN)
                  else if data_size rb - used < rec_size
                  then (rb\<lparr>ringbuf_lost := ringbuf_lost rb + 1\<rparr>, Inl EAGAIN)
                  else
                    (let data_offset = unat prod_pos mod data_size rb;
                         rb1 = write_circular rb data_offset
                                 (record_header (of_nat payload_len OR BPF_RINGBUF_BUSY_BIT));
                         payload_offset = (data_offset + BPF_RINGBUF_HDR_SZ) mod data_size rb;
                         rb2 = write_circular rb1 payload_offset data;
                         pad_len = rec_size - (BPF_RINGBUF_HDR_SZ + payload_len);
                         rb3 = (if pad_len > 0
                                then write_circular rb2
                                       ((payload_offset + payload_len) mod data_size rb)
                                       (replicate pad_len 0)
                                else rb2);
                         rb4 = write_circular rb3 data_offset (record_header (of_nat payload_len));
                         rb5 = set_producer_pos rb4 (prod_pos + of_nat rec_size);
                         rb6 = (if flags0 AND BPF_RB_NO_WAKEUP = 0 \<or> flags0 AND BPF_RB_FORCE_WAKEUP \<noteq> 0
                                then notify_readable rb5 else rb5)
                     in (rb6, Inr ())))))"

section \<open>Consumer\<close>

lemma record_size_bounds: "8 \<le> record_size n" "n + 8 \<le> record_size n" "record_size n < n + 16"
proof -
  have "(n + 15) div 8 * 8 = n + 15 - (n + 15) mod 8" by (simp add: minus_mod_eq_div_mult)
  moreover have "(n + 15) mod 8 < 8" by simp
  ultimately show "8 \<le> record_size n" "n + 8 \<le> record_size n" "record_size n < n + 16"
    by (auto simp: record_size_def algebra_simps)
qed

lemma unat_sub_add:
  fixes a b :: "64 word"
  assumes "n \<le> unat (a - b)"
  shows "unat (a - (b + of_nat n)) = unat (a - b) - n"
proof -
  have "unat (a - b) < 2 ^ 64" by (rule order_less_le_trans [OF unsigned_less]) simp
  then have "n < 2 ^ 64" using assms by simp
  then have n: "unat (of_nat n :: 64 word) = n" by (simp add: unat_of_nat take_bit_nat_eq_self)
  have "a - (b + of_nat n) = (a - b) - of_nat n" by simp
  also have "unat \<dots> = unat (a - b) - n"
    using assms n by (subst unat_sub) (simp_all add: word_le_nat_alt)
  finally show ?thesis .
qed

function parse_loop ::
  "ring_buf \<Rightarrow> 64 word \<Rightarrow> 64 word \<Rightarrow> byte list list \<Rightarrow> ring_buf \<times> byte list list res" where
  "parse_loop rb prod_pos cons_pos records =
     (if unat (prod_pos - cons_pos) < BPF_RINGBUF_HDR_SZ then (rb, Inr records)
      else
        (let offset = unat cons_pos mod data_size rb;
             raw_len = u32_from_bytes (take 4 (read_circular rb offset 8))
         in if raw_len AND BPF_RINGBUF_BUSY_BIT \<noteq> 0 then (rb, Inr records)
            else
              (let payload_len = unat (raw_len AND BPF_RINGBUF_LEN_MASK);
                   rec_size = record_size payload_len
               in if rec_size > unat (prod_pos - cons_pos) \<or> rec_size > data_size rb
                  then (rb\<lparr>consumer_corrupt_records := consumer_corrupt_records rb + 1\<rparr>, Inl EINVAL)
                  else
                    (let discarded = raw_len AND BPF_RINGBUF_DISCARD_BIT \<noteq> 0;
                         rb1 = (if discarded
                                then rb\<lparr>consumer_discarded_records := consumer_discarded_records rb + 1\<rparr>
                                else rb);
                         records1 = (if discarded then records
                                     else records @ [read_circular rb
                                       ((offset + BPF_RINGBUF_HDR_SZ) mod data_size rb) payload_len]);
                         cons1 = cons_pos + of_nat rec_size
                     in parse_loop (set_consumer_pos rb1 cons1) prod_pos cons1 records1))))"
  by pat_completeness auto
termination
proof (relation "measure (\<lambda>(rb, prod_pos, cons_pos, records). unat (prod_pos - cons_pos))", goal_cases)
  case (2 rb prod_pos cons_pos records offset raw_len payload_len rec_size discarded rb1 records1 cons1)
  then have "rec_size \<le> unat (prod_pos - cons_pos)" "8 \<le> rec_size" "8 \<le> unat (prod_pos - cons_pos)"
    using record_size_bounds(1) by auto
  then show ?case using 2 unat_sub_add [of rec_size prod_pos cons_pos] by simp
qed simp

declare parse_loop.simps [simp del]

definition parse_records :: "ring_buf \<Rightarrow> ring_buf \<times> (byte list list \<times> 64 word \<times> 64 word) res" where
  "parse_records rb =
     (let prod_pos = producer_pos rb; cons_pos = consumer_pos rb
      in if unat (prod_pos - cons_pos) > data_size rb
         then (rb\<lparr>consumer_corrupt_records := consumer_corrupt_records rb + 1\<rparr>, Inl EINVAL)
         else case parse_loop rb prod_pos cons_pos [] of
                (rb', Inl e) \<Rightarrow> (rb', Inl e)
              | (rb', Inr records) \<Rightarrow>
                  (rb', Inr (records, consumer_corrupt_records rb', consumer_discarded_records rb')))"

section \<open>The buffer as an array indexed by positions\<close>

definition ring_wf :: "ring_buf \<Rightarrow> bool" where
  "ring_wf rb \<longleftrightarrow> is_power_of_two (data_size rb) \<and> data_size rb mod 4096 = 0 \<and>
     data_size rb \<le> 16777216 \<and> length (rdata rb) = data_size rb"

lemma power_of_two_exists: "is_power_of_two n \<Longrightarrow> \<exists>k. n = 2 ^ k"
proof (induction n rule: is_power_of_two.induct)
  case (1 n)
  show ?case
  proof (cases "n \<le> 1")
    case True
    then have "n = 2 ^ 0" using 1 by (simp add: is_power_of_two.simps)
    then show ?thesis by blast
  next
    case False
    then have n: "even n" "is_power_of_two (n div 2)"
      using 1(2) is_power_of_two.simps [of n] by auto
    then obtain k where "n div 2 = 2 ^ k" using 1(1) [OF False n(2)] by auto
    then have "n = 2 ^ Suc k" using n(1) by auto
    then show ?thesis by blast
  qed
qed

lemma ring_wfD:
  assumes "ring_wf rb"
  shows "0 < data_size rb" and "length (rdata rb) = data_size rb" and "data_size rb \<le> 16777216"
    and "data_size rb dvd 2 ^ 64"
proof -
  obtain k where k: "data_size rb = 2 ^ k"
    using assms power_of_two_exists by (auto simp: ring_wf_def)
  then show "0 < data_size rb" by simp
  show len: "length (rdata rb) = data_size rb" and le: "data_size rb \<le> 16777216"
    using assms by (auto simp: ring_wf_def)
  have "(2::nat) ^ k \<le> 2 ^ 24" using le k by simp
  then have "k \<le> 24" by (simp only: power_increasing_iff)
  then show "data_size rb dvd 2 ^ 64" unfolding k by (intro le_imp_power_dvd) simp
qed

definition rb_at :: "ring_buf \<Rightarrow> nat \<Rightarrow> byte" where
  "rb_at rb p = rdata rb ! (p mod data_size rb)"

lemma write_circular_nth:
  assumes len: "length (rdata rb) = data_size rb" and o: "off < data_size rb"
    and b: "length bytes \<le> data_size rb" and i: "i < data_size rb"
  shows "rdata (write_circular rb off bytes) ! i =
    (if off \<le> i \<and> i < off + length bytes then bytes ! (i - off)
     else if i + data_size rb < off + length bytes then bytes ! (i + data_size rb - off)
     else rdata rb ! i)"
proof (cases "length bytes \<le> data_size rb - off")
  case True
  then have "rdata (write_circular rb off bytes) = splice (rdata rb) off bytes"
    by (simp add: write_circular_def split_circular_ranges_def)
  then show ?thesis using True len o i by (auto simp: nth_splice)
next
  case False
  let ?s = "data_size rb - off"
  have "rdata (write_circular rb off bytes) =
      splice (splice (rdata rb) off (take ?s bytes)) 0 (drop ?s bytes)"
    using False by (simp add: write_circular_def split_circular_ranges_def Let_def)
  moreover have "length (splice (rdata rb) off (take ?s bytes)) = data_size rb"
    using False len o by (simp add: min_def)
  ultimately show ?thesis
    using False len o i b
    by (auto simp: nth_splice min_def nth_append) (simp add: add.commute diff_diff_right)
qed

lemma write_circular_frame [simp]:
  "data_size (write_circular rb off bytes) = data_size rb"
  "consumer_pos (write_circular rb off bytes) = consumer_pos rb"
  "producer_pos (write_circular rb off bytes) = producer_pos rb"
  "ringbuf_lost (write_circular rb off bytes) = ringbuf_lost rb"
  "readable_sequence (write_circular rb off bytes) = readable_sequence rb"
  "consumer_corrupt_records (write_circular rb off bytes) = consumer_corrupt_records rb"
  "consumer_discarded_records (write_circular rb off bytes) = consumer_discarded_records rb"
  by (simp_all add: write_circular_def split_circular_ranges_def Let_def)

lemma write_circular_length:
  assumes "length (rdata rb) = data_size rb" and "off < data_size rb" and "length bytes \<le> data_size rb"
  shows "length (rdata (write_circular rb off bytes)) = data_size rb"
  using assms by (auto simp: write_circular_def split_circular_ranges_def Let_def min_def)

lemma ring_wf_write:
  assumes "ring_wf rb" and "off < data_size rb" and "length bytes \<le> data_size rb"
  shows "ring_wf (write_circular rb off bytes)"
  using assms write_circular_length [of rb off bytes] by (simp add: ring_wf_def)

lemma mod_window:
  fixes d :: nat
  assumes "P \<le> p" and "p < P + d" and "0 < d"
  shows "p mod d = (if P mod d + (p - P) < d then P mod d + (p - P) else P mod d + (p - P) - d)"
proof -
  have "p mod d = (P mod d + (p - P)) mod d" using assms(1) by (metis le_add_diff_inverse mod_add_left_eq)
  moreover have "P mod d + (p - P) < 2 * d"
    using mod_less_divisor [OF assms(3), of P] assms(1,2) by linarith
  ultimately show ?thesis using assms(3) by (simp add: le_mod_geq)
qed

lemma write_circular_shift:
  assumes "length (rdata rb) = data_size rb" and "off < data_size rb"
    and "length bytes \<le> data_size rb" and "k < data_size rb"
    and i: "i = (if off + k < data_size rb then off + k else off + k - data_size rb)"
  shows "rdata (write_circular rb off bytes) ! i = (if k < length bytes then bytes ! k else rdata rb ! i)"
proof -
  have "i < data_size rb" using assms by auto
  note w = write_circular_nth [OF assms(1-3) this]
  show ?thesis
  proof (cases "off + k < data_size rb")
    case True
    then have "i - off = k" "off \<le> i" "i < off + length bytes \<longleftrightarrow> k < length bytes"
      "\<not> i + data_size rb < off + length bytes"
      using i assms(3) by auto
    then show ?thesis using w by simp
  next
    case False
    then have "i + data_size rb - off = k" "\<not> off \<le> i" "i + data_size rb < off + length bytes \<longleftrightarrow> k < length bytes"
      using i assms(2-4) by auto
    then show ?thesis using w by simp
  qed
qed

text \<open>Within a window of one buffer length, a circular write is an ordinary write.\<close>

lemma rb_at_write:
  assumes wf: "ring_wf rb" and "C \<le> P" "P + length bytes \<le> C + data_size rb"
    and "C \<le> p" "p < C + data_size rb" and off: "off = P mod data_size rb"
  shows "rb_at (write_circular rb off bytes) p =
    (if P \<le> p \<and> p < P + length bytes then bytes ! (p - P) else rb_at rb p)"
proof -
  let ?d = "data_size rb"
  note d = ring_wfD [OF wf]
  have off': "off < ?d" using off d(1) by simp
  define q where "q = (if P \<le> p then p else p + ?d)"
  have q: "P \<le> q" "q < P + ?d" "q mod ?d = p mod ?d" using assms by (auto simp: q_def)
  have i: "q mod ?d = (if off + (q - P) < ?d then off + (q - P) else off + (q - P) - ?d)"
    unfolding off by (rule mod_window [OF q(1,2) d(1)])
  have hit: "P \<le> p \<and> p < P + length bytes \<longleftrightarrow> q - P < length bytes" and
    val: "P \<le> p \<Longrightarrow> p - P = q - P"
    using assms by (auto simp: q_def)
  have "rb_at (write_circular rb off bytes) p = rdata (write_circular rb off bytes) ! (q mod ?d)"
    by (simp add: rb_at_def q(3))
  also have "\<dots> = (if q - P < length bytes then bytes ! (q - P) else rdata rb ! (q mod ?d))"
    by (rule write_circular_shift [OF d(2) off' _ _ i]) (use q assms in auto)
  finally show ?thesis using hit val q(3) by (auto simp: rb_at_def)
qed

lemma read_circular_at:
  assumes wf: "ring_wf rb" and "n \<le> data_size rb" and off: "off = P mod data_size rb"
  shows "length (read_circular rb off n) = n"
    and "k < n \<Longrightarrow> read_circular rb off n ! k = rb_at rb (P + k)"
proof -
  let ?d = "data_size rb"
  note d = ring_wfD [OF wf]
  have off': "off < ?d" using off d(1) by simp
  show "length (read_circular rb off n) = n"
    using d off' assms by (auto simp: read_circular_def split_circular_ranges_def Let_def)
  assume k: "k < n"
  have "(P + k) mod ?d = (if off + k < ?d then off + k else off + k - ?d)"
    unfolding off using mod_window [of P "P + k" ?d] k assms d(1) by simp
  moreover have "off + k - ?d = k - (?d - off)" "k < ?d - off \<longleftrightarrow> off + k < ?d" using off' by auto
  moreover have "n \<le> ?d - off \<Longrightarrow> off + k < ?d" using off' k by simp
  ultimately show "read_circular rb off n ! k = rb_at rb (P + k)"
    using d(2) off' k assms(2)
    by (cases "n \<le> ?d - off")
      (simp_all add: read_circular_def split_circular_ranges_def Let_def rb_at_def nth_append nth_slice)
qed

section \<open>The queue a buffer holds\<close>

definition ring_used :: "ring_buf \<Rightarrow> nat" where
  "ring_used rb = unat (producer_pos rb - consumer_pos rb)"

fun stored :: "ring_buf \<Rightarrow> nat \<Rightarrow> byte list list \<Rightarrow> bool" where
  "stored rb p [] = True"
| "stored rb p (d # q) =
     ((\<forall>k<8. rb_at rb (p + k) = record_header (of_nat (length d)) ! k) \<and>
      (\<forall>k<length d. rb_at rb (p + 8 + k) = d ! k) \<and>
      stored rb (p + record_size (length d)) q)"

definition queue_bytes :: "byte list list \<Rightarrow> nat" where
  "queue_bytes q = sum_list (map (\<lambda>d. record_size (length d)) q)"

definition ring_rep :: "ring_buf \<Rightarrow> byte list list \<Rightarrow> bool" where
  "ring_rep rb q \<longleftrightarrow> ring_wf rb \<and> ring_used rb = queue_bytes q \<and> queue_bytes q \<le> data_size rb \<and>
     stored rb (unat (consumer_pos rb)) q"

lemma queue_bytes_simps [simp]:
  "queue_bytes [] = 0" "queue_bytes (d # q) = record_size (length d) + queue_bytes q"
  "queue_bytes (q @ q') = queue_bytes q + queue_bytes q'"
  by (simp_all add: queue_bytes_def)

lemma length_record_header [simp]: "length (record_header w) = 8"
  by (simp add: record_header_def)

lemma stored_append: "stored rb p (q @ q') \<longleftrightarrow> stored rb p q \<and> stored rb (p + queue_bytes q) q'"
  by (induction q arbitrary: p) (auto simp: add.assoc)

lemma stored_cong:
  "stored rb p q \<Longrightarrow> (\<And>i. p \<le> i \<Longrightarrow> i < p + queue_bytes q \<Longrightarrow> rb_at rb' i = rb_at rb i) \<Longrightarrow> stored rb' p q"
proof (induction q arbitrary: p)
  case (Cons d q)
  have b: "length d + 8 \<le> record_size (length d)" using record_size_bounds(2) .
  have "rb_at rb' (p + k) = rb_at rb (p + k)" if "k < 8 + length d" for k
    using Cons.prems(2) [of "p + k"] that b by simp
  moreover have "stored rb' (p + record_size (length d)) q"
    by (rule Cons.IH) (use Cons.prems in auto)
  ultimately show ?case using Cons.prems(1) by (auto simp: add.assoc)
qed simp

lemma pos_mod:
  assumes "ring_wf rb"
  shows "unat (a + of_nat k :: 64 word) mod data_size rb = (unat a + k) mod data_size rb"
proof -
  have "unat (a + of_nat k :: 64 word) = (unat a + k) mod 2 ^ 64"
    by (simp add: unat_word_ariths unat_of_nat take_bit_eq_mod mod_simps)
  then show ?thesis using ring_wfD(4) [OF assms] by (simp add: mod_mod_cancel)
qed

text \<open>The bytes of one record written at position \<open>P\<close>: header, payload, padding, header again.\<close>

definition write_record :: "ring_buf \<Rightarrow> nat \<Rightarrow> byte list \<Rightarrow> ring_buf" where
  "write_record rb data_offset data =
     (let payload_offset = (data_offset + 8) mod data_size rb;
          pad_len = record_size (length data) - (8 + length data);
          rb2 = write_circular
                  (write_circular rb data_offset
                    (record_header (of_nat (length data) OR BPF_RINGBUF_BUSY_BIT))) payload_offset data;
          rb3 = (if pad_len > 0
                 then write_circular rb2 ((payload_offset + length data) mod data_size rb)
                        (replicate pad_len 0)
                 else rb2)
      in write_circular rb3 data_offset (record_header (of_nat (length data))))"

lemma write_record_frame [simp]:
  "data_size (write_record rb off d) = data_size rb"
  "consumer_pos (write_record rb off d) = consumer_pos rb"
  "producer_pos (write_record rb off d) = producer_pos rb"
  "ringbuf_lost (write_record rb off d) = ringbuf_lost rb"
  "readable_sequence (write_record rb off d) = readable_sequence rb"
  "consumer_corrupt_records (write_record rb off d) = consumer_corrupt_records rb"
  "consumer_discarded_records (write_record rb off d) = consumer_discarded_records rb"
  by (simp_all add: write_record_def Let_def)

lemma write_record_at:
  assumes wf: "ring_wf rb" and "C \<le> P" and fit: "P + record_size (length d) \<le> C + data_size rb"
    and off: "off = P mod data_size rb" and "C \<le> p" "p < C + data_size rb"
  shows "ring_wf (write_record rb off d)"
    and "rb_at (write_record rb off d) p =
      (if P \<le> p \<and> p < P + 8 then record_header (of_nat (length d)) ! (p - P)
       else if P + 8 \<le> p \<and> p < P + 8 + length d then d ! (p - (P + 8))
       else if P + 8 + length d \<le> p \<and> p < P + record_size (length d) then 0 else rb_at rb p)"
proof -
  let ?n = "data_size rb" and ?pad = "record_size (length d) - (8 + length d)"
  note sz = record_size_bounds [of "length d"]
  have n: "0 < ?n" using ring_wfD(1) [OF wf] .
  have o2: "(off + 8) mod ?n = (P + 8) mod ?n" and o3: "((off + 8) mod ?n + length d) mod ?n = (P + 8 + length d) mod ?n"
    by (simp_all add: off mod_simps)
  define rb1 where "rb1 = write_circular rb off (record_header (of_nat (length d) OR BPF_RINGBUF_BUSY_BIT))"
  define rb2 where "rb2 = write_circular rb1 ((off + 8) mod ?n) d"
  define rb3 where "rb3 = (if ?pad > 0
    then write_circular rb2 (((off + 8) mod ?n + length d) mod ?n) (replicate ?pad 0) else rb2)"
  define rb4 where "rb4 = write_circular rb3 off (record_header (of_nat (length d)))"
  have ds: "data_size rb1 = ?n" "data_size rb2 = ?n" "data_size rb3 = ?n"
    by (simp_all add: rb1_def rb2_def rb3_def)
  have len8: "8 \<le> ?n" "length d \<le> ?n" "?pad \<le> ?n" using assms sz by linarith+
  have wf1: "ring_wf rb1" unfolding rb1_def by (rule ring_wf_write [OF wf]) (use off n len8 in auto)
  have wf2: "ring_wf rb2" unfolding rb2_def by (rule ring_wf_write [OF wf1]) (use n len8 ds in auto)
  have wf3: "ring_wf rb3" unfolding rb3_def
    using ring_wf_write [OF wf2, of "((off + 8) mod ?n + length d) mod ?n" "replicate ?pad 0"] n len8 ds wf2 by simp
  have wf4: "ring_wf rb4" unfolding rb4_def by (rule ring_wf_write [OF wf3]) (use off n len8 ds in auto)
  have rb4: "write_record rb off d = rb4"
    by (simp add: write_record_def Let_def rb1_def rb2_def rb3_def rb4_def)
  then show "ring_wf (write_record rb off d)" using wf4 by simp
  have at1: "rb_at rb1 p = (if P \<le> p \<and> p < P + 8
      then record_header (of_nat (length d) OR BPF_RINGBUF_BUSY_BIT) ! (p - P) else rb_at rb p)"
    using rb_at_write [OF wf assms(2) _ assms(5,6) off,
        of "record_header (of_nat (length d) OR BPF_RINGBUF_BUSY_BIT)"] fit sz
    by (simp add: rb1_def)
  have at2: "rb_at rb2 p = (if P + 8 \<le> p \<and> p < P + 8 + length d then d ! (p - (P + 8)) else rb_at rb1 p)"
    using rb_at_write [OF wf1, of C "P + 8" d p "(off + 8) mod ?n"] assms sz o2
    by (simp add: rb2_def ds)
  have at3: "rb_at rb3 p = (if P + 8 + length d \<le> p \<and> p < P + record_size (length d) then 0 else rb_at rb2 p)"
  proof (cases "?pad > 0")
    case True
    define z where "z = replicate ?pad (0 :: byte)"
    have z: "length z = ?pad" by (simp add: z_def)
    have zn: "P + 8 + length d \<le> p \<Longrightarrow> p < P + record_size (length d) \<Longrightarrow> z ! (p - (P + 8 + length d)) = 0"
      unfolding z_def by (rule nth_replicate) linarith
    show ?thesis
      using rb_at_write [OF wf2, of C "P + 8 + length d" z p "((off + 8) mod ?n + length d) mod ?n"]
        assms sz o3 True zn
      unfolding rb3_def z_def [symmetric] by (simp add: ds z)
  next
    case False
    then show ?thesis using sz by (auto simp: rb3_def)
  qed
  have "rb_at rb4 p = (if P \<le> p \<and> p < P + 8 then record_header (of_nat (length d)) ! (p - P) else rb_at rb3 p)"
    using rb_at_write [OF wf3, of C P "record_header (of_nat (length d))" p off] assms sz
    by (simp add: rb4_def ds)
  then show "rb_at (write_record rb off d) p =
      (if P \<le> p \<and> p < P + 8 then record_header (of_nat (length d)) ! (p - P)
       else if P + 8 \<le> p \<and> p < P + 8 + length d then d ! (p - (P + 8))
       else if P + 8 + length d \<le> p \<and> p < P + record_size (length d) then 0 else rb_at rb p)"
    unfolding rb4 at3 at2 at1 by auto
qed

lemma ring_output_ok:
  assumes "flags0 AND NOT (BPF_RB_NO_WAKEUP OR BPF_RB_FORCE_WAKEUP) = 0"
    and "ring_used rb + record_size (length d) \<le> data_size rb"
  shows "\<exists>seq. ring_output rb d flags0 =
    ((write_record rb (unat (producer_pos rb) mod data_size rb) d)
       \<lparr>producer_pos := producer_pos rb + of_nat (record_size (length d)), readable_sequence := seq\<rparr>, Inr ())"
proof -
  have "unat (producer_pos rb - consumer_pos rb) \<le> data_size rb"
    "record_size (length d) \<le> data_size rb - unat (producer_pos rb - consumer_pos rb)"
    using assms(2) by (auto simp: ring_used_def)
  then show ?thesis
    using assms(1)
    by (simp add: ring_output_def Let_def write_record_def set_producer_pos_def notify_readable_def)
      (intro conjI impI exI [of _ "readable_sequence rb + 1"] exI [of _ "readable_sequence rb"]; simp)
qed

lemma rb_at_update [simp]:
  "rb_at (rb\<lparr>producer_pos := x\<rparr>) p = rb_at rb p" "rb_at (rb\<lparr>readable_sequence := y\<rparr>) p = rb_at rb p"
  "rb_at (rb\<lparr>consumer_pos := x\<rparr>) p = rb_at rb p" "rb_at (rb\<lparr>consumer_discarded_records := y\<rparr>) p = rb_at rb p"
  "ring_wf (rb\<lparr>producer_pos := x\<rparr>) = ring_wf rb" "ring_wf (rb\<lparr>readable_sequence := y\<rparr>) = ring_wf rb"
  "ring_wf (rb\<lparr>consumer_pos := x\<rparr>) = ring_wf rb"
  by (simp_all add: rb_at_def ring_wf_def)

lemma ring_output_rep:
  assumes rep: "ring_rep rb q" and fl: "flags0 AND NOT (BPF_RB_NO_WAKEUP OR BPF_RB_FORCE_WAKEUP) = 0"
    and fit: "queue_bytes q + record_size (length d) \<le> data_size rb"
  obtains rb' where "ring_output rb d flags0 = (rb', Inr ())" and "ring_rep rb' (q @ [d])"
    and "ringbuf_lost rb' = ringbuf_lost rb" and "data_size rb' = data_size rb"
proof -
  let ?C = "unat (consumer_pos rb)" and ?P = "unat (consumer_pos rb) + queue_bytes q"
  let ?n = "data_size rb" and ?sz = "record_size (length d)"
  have wf: "ring_wf rb" and used: "ring_used rb = queue_bytes q" and st: "stored rb ?C q"
    using rep by (auto simp: ring_rep_def)
  define w where "w = write_record rb (unat (producer_pos rb) mod ?n) d"
  obtain seq where out: "ring_output rb d flags0 =
      (w\<lparr>producer_pos := producer_pos rb + of_nat ?sz, readable_sequence := seq\<rparr>, Inr ())"
    using ring_output_ok [OF fl, of rb d] fit used by (auto simp: w_def)
  define rb' where "rb' = w\<lparr>producer_pos := producer_pos rb + of_nat ?sz, readable_sequence := seq\<rparr>"
  have prod: "producer_pos rb = consumer_pos rb + of_nat (queue_bytes q)"
    using used unfolding ring_used_def by (metis add.commute diff_add_cancel word_of_unat)
  have off: "unat (producer_pos rb) mod ?n = ?P mod ?n"
    unfolding prod by (rule pos_mod [OF wf])
  have "?P + ?sz \<le> ?C + ?n" using fit by simp
  note at = write_record_at [OF wf le_add1 this off]
  have wf': "ring_wf w" unfolding w_def by (rule at(1) [of ?C]) (use ring_wfD(1) [OF wf] in auto)
  have rat: "rb_at rb' p =
      (if ?P \<le> p \<and> p < ?P + 8 then record_header (of_nat (length d)) ! (p - ?P)
       else if ?P + 8 \<le> p \<and> p < ?P + 8 + length d then d ! (p - (?P + 8))
       else if ?P + 8 + length d \<le> p \<and> p < ?P + ?sz then 0 else rb_at rb p)"
    if "?C \<le> p" "p < ?C + ?n" for p
    using at(2) [OF that] by (simp add: rb'_def w_def)
  note sz = record_size_bounds [of "length d"]
  have "stored rb' ?C q"
    by (rule stored_cong [OF st]) (use rat fit sz in auto)
  moreover have "stored rb' (?C + queue_bytes q) [d]"
    using rat fit sz by auto
  moreover have "ring_used rb' = queue_bytes q + ?sz"
  proof -
    have "queue_bytes q + ?sz < 2 ^ 64" using fit ring_wfD(3) [OF wf] by simp
    then have "unat (of_nat (queue_bytes q + ?sz) :: 64 word) = queue_bytes q + ?sz"
      by (simp add: unat_of_nat take_bit_nat_eq_self del: of_nat_add)
    then show ?thesis by (simp add: ring_used_def rb'_def w_def prod add.assoc)
  qed
  ultimately have "ring_rep rb' (q @ [d])"
    using wf' fit by (simp add: ring_rep_def stored_append rb'_def w_def)
  then show ?thesis using that [of rb'] out by (simp add: rb'_def w_def)
qed

lemma small_length_bits:
  assumes "n < 2 ^ 30"
  defines "w \<equiv> of_nat n :: 32 word"
  shows "w AND BPF_RINGBUF_BUSY_BIT = 0" and "w AND BPF_RINGBUF_DISCARD_BIT = 0"
    and "unat (w AND BPF_RINGBUF_LEN_MASK) = n"
proof -
  have w: "take_bit 30 w = w"
    using assms by (simp add: word_unat_eq_iff unat_of_nat unsigned_take_bit_eq take_bit_nat_eq_self)
  have "\<not> bit w i" if "30 \<le> i" for i
    using that w bit_take_bit_iff [of 30 w i] by simp
  moreover have "30 \<le> i" if "bit (0x80000000 :: 32 word) i \<or> bit (0x40000000 :: 32 word) i" for i
    using that bit_exp_iff [where 'a = "32 word", of 31 i] bit_exp_iff [where 'a = "32 word", of 30 i]
      bit_imp_le_length [of "0x80000000 :: 32 word" i] bit_imp_le_length [of "0x40000000 :: 32 word" i]
    by auto
  ultimately show "w AND BPF_RINGBUF_BUSY_BIT = 0" "w AND BPF_RINGBUF_DISCARD_BIT = 0"
    by (auto intro!: bit_word_eqI simp: bit_and_iff)
  have "w AND 0x3fffffff = take_bit 30 w"
    by (simp add: take_bit_eq_mask mask_eq_exp_minus_1)
  moreover have "BPF_RINGBUF_LEN_MASK = 0x3fffffff" by simp
  ultimately have "w AND BPF_RINGBUF_LEN_MASK = w" using w by (simp only:)
  then show "unat (w AND BPF_RINGBUF_LEN_MASK) = n"
    using assms by (simp only:) (simp add: unat_of_nat take_bit_nat_eq_self)
qed

lemma stored_header:
  assumes wf: "ring_wf rb" and st: "stored rb p (d # q)" and fit: "record_size (length d) \<le> data_size rb"
  shows "u32_from_bytes (take 4 (read_circular rb (p mod data_size rb) 8)) = of_nat (length d)"
    and "read_circular rb ((p mod data_size rb + 8) mod data_size rb) (length d) = d"
proof -
  let ?n = "data_size rb"
  note sz = record_size_bounds [of "length d"]
  have "read_circular rb (p mod ?n) 8 = record_header (of_nat (length d))"
    by (intro nth_equalityI)
      (use read_circular_at [OF wf _ refl, where P = p and n = 8] st fit sz in auto)
  then show "u32_from_bytes (take 4 (read_circular rb (p mod ?n) 8)) = of_nat (length d)"
    by (simp add: record_header_def)
  have "(p mod ?n + 8) mod ?n = (p + 8) mod ?n" by (simp add: mod_simps)
  then show "read_circular rb ((p mod ?n + 8) mod ?n) (length d) = d"
    by (intro nth_equalityI)
      (use read_circular_at [OF wf _ refl, where P = "p + 8" and n = "length d"] st fit sz in auto)
qed

lemma stored_mod:
  assumes "ring_wf rb" and "p mod data_size rb = p' mod data_size rb"
  shows "stored rb p q \<longleftrightarrow> stored rb p' q"
  using assms(2)
proof (induction q arbitrary: p p')
  case (Cons d q)
  have eq: "(p + k) mod data_size rb = (p' + k) mod data_size rb" for k
    using Cons.prems by (metis mod_add_left_eq)
  then have "rb_at rb (p + k) = rb_at rb (p' + k)" for k by (simp add: rb_at_def)
  then show ?case using Cons.IH [OF eq [of "record_size (length d)"]] by (simp add: add.assoc)
qed simp

lemma parse_loop_stored:
  assumes "ring_wf rb" and "stored rb (unat cons_pos) q" and "unat (prod_pos - cons_pos) = queue_bytes q"
    and "queue_bytes q \<le> data_size rb" and "consumer_pos rb = cons_pos"
  shows "parse_loop rb prod_pos cons_pos acc = (rb\<lparr>consumer_pos := prod_pos\<rparr>, Inr (acc @ q))"
  using assms
proof (induction q arbitrary: rb cons_pos acc)
  case Nil
  then have "prod_pos = cons_pos" by (simp add: unat_eq_0)
  then show ?case using Nil by (simp add: parse_loop.simps)
next
  case (Cons d q)
  let ?sz = "record_size (length d)" and ?n = "data_size rb"
  note sz = record_size_bounds [of "length d"]
  have fit: "?sz \<le> ?n" using Cons.prems by simp
  have "length d < 2 ^ 30" using fit sz ring_wfD(3) [OF Cons.prems(1)] by simp
  note bits = small_length_bits [OF this]
  note hd = stored_header [OF Cons.prems(1,2) fit]
  let ?rb = "rb\<lparr>consumer_pos := cons_pos + of_nat ?sz\<rparr>"
  have "parse_loop rb prod_pos cons_pos acc =
      parse_loop ?rb prod_pos (cons_pos + of_nat ?sz) (acc @ [d])"
    using Cons.prems(3) sz fit hd bits
    by (subst parse_loop.simps) (simp add: Let_def set_consumer_pos_def)
  also have "\<dots> = (?rb\<lparr>consumer_pos := prod_pos\<rparr>, Inr ((acc @ [d]) @ q))"
  proof (rule Cons.IH)
    have "stored rb (unat cons_pos + ?sz) q" using Cons.prems(2) by simp
    then have "stored rb (unat (cons_pos + of_nat ?sz)) q"
      using stored_mod [OF Cons.prems(1) pos_mod [OF Cons.prems(1)]] by simp
    then show "stored ?rb (unat (cons_pos + of_nat ?sz)) q" by (rule stored_cong) simp
    show "unat (prod_pos - (cons_pos + of_nat ?sz)) = queue_bytes q"
      using unat_sub_add [of ?sz prod_pos cons_pos] Cons.prems(3) by simp
  qed (use Cons.prems in auto)
  finally show ?case by simp
qed

lemma parse_records_rep:
  assumes "ring_rep rb q"
  shows "parse_records rb = (rb\<lparr>consumer_pos := producer_pos rb\<rparr>,
      Inr (q, consumer_corrupt_records rb, consumer_discarded_records rb))"
    and "ring_rep (rb\<lparr>consumer_pos := producer_pos rb\<rparr>) []"
  using assms parse_loop_stored [of rb "consumer_pos rb" q "producer_pos rb" "[]"]
  by (auto simp: ring_rep_def ring_used_def parse_records_def Let_def)

section \<open>The buffer as a bounded FIFO queue\<close>

fun put_all :: "('s \<Rightarrow> 'a \<Rightarrow> 's option) \<Rightarrow> 's \<Rightarrow> 'a list \<Rightarrow> 's option" where
  "put_all put s [] = Some s"
| "put_all put s (x # xs) = (case put s x of None \<Rightarrow> None | Some s' \<Rightarrow> put_all put s' xs)"

locale bounded_queue =
  fixes rep :: "'s \<Rightarrow> 'a list \<Rightarrow> bool" and weight :: "'a list \<Rightarrow> nat" and cap :: "'s \<Rightarrow> nat"
    and put :: "'s \<Rightarrow> 'a \<Rightarrow> 's option" and take_all :: "'s \<Rightarrow> 's \<times> 'a list"
  assumes put_fits: "rep s q \<Longrightarrow> weight (q @ [x]) \<le> cap s \<Longrightarrow> \<exists>s'. put s x = Some s'"
    and put_rep: "rep s q \<Longrightarrow> put s x = Some s' \<Longrightarrow> rep s' (q @ [x])"
    and put_cap: "rep s q \<Longrightarrow> put s x = Some s' \<Longrightarrow> cap s' = cap s"
    and take_rep: "rep s q \<Longrightarrow> rep (fst (take_all s)) [] \<and> snd (take_all s) = q"
    and weight_mono: "weight q \<le> weight (q @ q')"
begin

lemma put_all_rep: "rep s q \<Longrightarrow> put_all put s xs = Some s' \<Longrightarrow> rep s' (q @ xs) \<and> cap s' = cap s"
proof (induction xs arbitrary: s q)
  case (Cons x xs)
  then obtain s1 where s1: "put s x = Some s1" "put_all put s1 xs = Some s'"
    by (auto split: option.splits)
  then show ?case
    using Cons.IH [OF put_rep [OF Cons.prems(1) s1(1)] s1(2)] put_cap [OF Cons.prems(1) s1(1)] by simp
qed simp

lemma put_all_fits: "rep s q \<Longrightarrow> weight (q @ xs) \<le> cap s \<Longrightarrow> \<exists>s'. put_all put s xs = Some s'"
proof (induction xs arbitrary: s q)
  case (Cons x xs)
  have "weight (q @ [x]) \<le> weight ((q @ [x]) @ xs)" by (rule weight_mono)
  then have "weight (q @ [x]) \<le> cap s" using Cons.prems(2) by simp
  then obtain s1 where s1: "put s x = Some s1" using put_fits [OF Cons.prems(1)] by blast
  then show ?case
    using Cons.IH [OF put_rep [OF Cons.prems(1) s1]] put_cap [OF Cons.prems(1) s1] Cons.prems(2)
    by simp
qed simp

lemma fifo:
  assumes "rep s []" and "put_all put s xs = Some s'"
  shows "snd (take_all s') = xs" and "rep (fst (take_all s')) []"
  using put_all_rep [OF assms] take_rep by auto

end

text \<open>
  The interface instance: putting is \<^const>\<open>ring_output\<close> with the default wake-up, taking all is
  \<^const>\<open>parse_records\<close>.
\<close>

definition ring_put :: "ring_buf \<Rightarrow> byte list \<Rightarrow> ring_buf option" where
  "ring_put rb d = (case ring_output rb d 0 of (rb', Inr _) \<Rightarrow> Some rb' | (_, Inl _) \<Rightarrow> None)"

definition ring_take_all :: "ring_buf \<Rightarrow> ring_buf \<times> byte list list" where
  "ring_take_all rb = (case parse_records rb of (rb', Inr (q, _)) \<Rightarrow> (rb', q) | (rb', Inl _) \<Rightarrow> (rb', []))"

lemma ring_output_full:
  assumes rep: "ring_rep rb q" and fl: "flags0 AND NOT (BPF_RB_NO_WAKEUP OR BPF_RB_FORCE_WAKEUP) = 0"
    and "data_size rb < queue_bytes q + record_size (length d)"
  shows "ring_output rb d flags0 =
    (if record_size (length d) > data_size rb then (rb, Inl E2BIG)
     else (rb\<lparr>ringbuf_lost := ringbuf_lost rb + 1\<rparr>, Inl EAGAIN))"
proof -
  have "unat (producer_pos rb - consumer_pos rb) = queue_bytes q" "queue_bytes q \<le> data_size rb"
    using rep by (auto simp: ring_rep_def ring_used_def)
  then show ?thesis using assms(2,3) by (auto simp: ring_output_def Let_def)
qed

lemma ring_put_Some:
  assumes rep: "ring_rep rb q" and put: "ring_put rb d = Some rb'"
  shows "ring_rep rb' (q @ [d])" and "data_size rb' = data_size rb"
proof -
  have "queue_bytes q + record_size (length d) \<le> data_size rb"
  proof (rule ccontr)
    assume "\<not> ?thesis"
    then show False
      using ring_output_full [OF rep, of 0 d] put by (auto simp: ring_put_def split: if_splits)
  qed
  then obtain rb1 where "ring_output rb d 0 = (rb1, Inr ())" and "ring_rep rb1 (q @ [d])"
    and "ringbuf_lost rb1 = ringbuf_lost rb" and "data_size rb1 = data_size rb"
    by (rule ring_output_rep [OF rep, of 0 d, simplified])
  then show "ring_rep rb' (q @ [d])" "data_size rb' = data_size rb"
    using put by (auto simp: ring_put_def)
qed

interpretation rbq: bounded_queue ring_rep queue_bytes data_size ring_put ring_take_all
proof unfold_locales
  fix rb q d
  assume rep: "ring_rep rb q" and "queue_bytes (q @ [d]) \<le> data_size rb"
  then have fit: "queue_bytes q + record_size (length d) \<le> data_size rb" by simp
  show "\<exists>s'. ring_put rb d = Some s'"
    by (rule ring_output_rep [OF rep _ fit, of 0]) (auto simp: ring_put_def)
qed (use ring_put_Some parse_records_rep in \<open>auto simp: ring_take_all_def\<close>)

lemma ring_output_keeps_wf:
  assumes "ring_wf rb"
  shows "ring_wf (fst (ring_output rb d flags0)) \<and>
    data_size (fst (ring_output rb d flags0)) = data_size rb \<and>
    consumer_pos (fst (ring_output rb d flags0)) = consumer_pos rb \<and>
    (\<exists>n\<le>data_size rb. producer_pos (fst (ring_output rb d flags0)) = producer_pos rb + of_nat n)"
proof (cases "flags0 AND NOT (BPF_RB_NO_WAKEUP OR BPF_RB_FORCE_WAKEUP) = 0 \<and>
    ring_used rb + record_size (length d) \<le> data_size rb")
  case True
  let ?w = "write_record rb (unat (producer_pos rb) mod data_size rb) d"
  obtain seq where out: "ring_output rb d flags0 =
      (?w\<lparr>producer_pos := producer_pos rb + of_nat (record_size (length d)), readable_sequence := seq\<rparr>, Inr ())"
    using ring_output_ok True by blast
  have "ring_wf ?w"
    by (rule write_record_at(1) [OF assms le_refl _ refl, of "unat (producer_pos rb)" d "unat (producer_pos rb)"])
      (use True ring_wfD(1) [OF assms] in auto)
  then show ?thesis using True out by (auto intro!: exI [of _ "record_size (length d)"])
next
  case False
  then have "\<exists>n. fst (ring_output rb d flags0) = rb\<lparr>ringbuf_lost := n\<rparr>"
    by (auto simp: ring_output_def Let_def ring_used_def intro: exI [of _ "ringbuf_lost rb"])
  then show ?thesis using assms by (auto simp: ring_wf_def intro!: exI [of _ "0 :: nat"])
qed

section \<open>Properties\<close>

lemma ring_new_rep:
  assumes "ring_new alloc_ok sz = Inr rb" and "sz \<le> 16777216"
  shows "ring_rep rb []"
  using assms by (auto simp: ring_new_def ring_rep_def ring_wf_def ring_used_def split: if_splits)

text \<open>A one-page buffer whose positions are about to wrap around.\<close>

definition example_ring :: ring_buf where
  "example_ring = \<lparr>data_size = 4096, rdata = replicate 4096 0, consumer_pos = - 8, producer_pos = - 8,
     ringbuf_lost = 0, readable_sequence = 0, consumer_corrupt_records = 0,
     consumer_discarded_records = 0\<rparr>"

lemma example_ring_rep: "ring_rep example_ring []"
proof -
  have "is_power_of_two 4096" by (simp add: is_power_of_two.simps)
  then show ?thesis
    by (simp add: ring_rep_def ring_wf_def ring_used_def example_ring_def)
qed

text \<open>
  C25: the producer. On a buffer that holds the records \<open>q\<close>, \<open>output\<close> with valid flags appends the
  record exactly when it fits in the free space, leaving every queued record intact; a record larger
  than the buffer is refused with \<open>E2BIG\<close>, and otherwise a full buffer refuses it with \<open>EAGAIN\<close>,
  changing nothing but the loss counter.
\<close>

theorem ring_output_appends:
  assumes "ring_rep rb q" and "flags0 AND NOT (BPF_RB_NO_WAKEUP OR BPF_RB_FORCE_WAKEUP) = 0"
  shows "if queue_bytes q + record_size (length d) \<le> data_size rb
    then snd (ring_output rb d flags0) = Inr () \<and> ring_rep (fst (ring_output rb d flags0)) (q @ [d])
    else ring_output rb d flags0 =
      (if record_size (length d) > data_size rb then (rb, Inl E2BIG)
       else (rb\<lparr>ringbuf_lost := ringbuf_lost rb + 1\<rparr>, Inl EAGAIN))"
proof (cases "queue_bytes q + record_size (length d) \<le> data_size rb")
  case True
  then obtain rb1 where "ring_output rb d flags0 = (rb1, Inr ())" and "ring_rep rb1 (q @ [d])"
    by (rule ring_output_rep [OF assms])
  then show ?thesis using True by simp
next
  case False
  then show ?thesis using ring_output_full [OF assms, of d] by simp
qed

theorem ring_output_appends_witness:
  "ring_rep example_ring [] \<and> snd (ring_output example_ring [1, 2, 3] 0) = Inr () \<and>
   ring_rep (fst (ring_output example_ring [1, 2, 3] 0)) [[1, 2, 3]]"
  using ring_output_appends [OF example_ring_rep, of 0 "[1, 2, 3]"] example_ring_rep
  by (simp add: record_size_def example_ring_def)

text \<open>
  C17: the ring buffer is a FIFO. Whatever the (wrapping) positions, when a sequence of records is
  output to an empty buffer and all of them are accepted, \<open>parse_records\<close> returns exactly these
  records in order and leaves the buffer empty.
\<close>

theorem ring_fifo:
  assumes "ring_rep rb []" and "put_all ring_put rb ds = Some rb'"
  shows "parse_records rb' = (rb'\<lparr>consumer_pos := producer_pos rb'\<rparr>,
      Inr (ds, consumer_corrupt_records rb', consumer_discarded_records rb')) \<and>
    ring_rep (rb'\<lparr>consumer_pos := producer_pos rb'\<rparr>) []"
  using parse_records_rep [of rb' ds] rbq.put_all_rep [OF assms] by simp

theorem ring_fifo_witness:
  "ring_rep example_ring [] \<and>
   (\<exists>rb'. put_all ring_put example_ring [[1, 2, 3], [4]] = Some rb' \<and>
     snd (parse_records rb') =
       Inr ([[1, 2, 3], [4]], consumer_corrupt_records rb', consumer_discarded_records rb'))"
proof -
  have "queue_bytes ([] @ [[1, 2, 3], [4]]) \<le> data_size example_ring"
    by (simp add: record_size_def example_ring_def)
  then obtain rb' where rb': "put_all ring_put example_ring [[1, 2, 3], [4]] = Some rb'"
    using rbq.put_all_fits [OF example_ring_rep] by blast
  then show ?thesis using ring_fifo [OF example_ring_rep rb'] example_ring_rep by auto
qed

text \<open>
  C26: the consumer position lives in a page that user space maps and may overwrite. For every value of
  the two positions, \<open>output\<close> keeps its writes inside the data pages (the buffer stays well-formed,
  with its size) and never moves the consumer position; the producer position advances by at most
  the size of the buffer.
\<close>

theorem ring_output_memory_safe:
  assumes "ring_wf rb"
  shows "ring_wf (fst (ring_output rb d flags0)) \<and>
    data_size (fst (ring_output rb d flags0)) = data_size rb \<and>
    consumer_pos (fst (ring_output rb d flags0)) = consumer_pos rb \<and>
    (\<exists>n\<le>data_size rb. producer_pos (fst (ring_output rb d flags0)) = producer_pos rb + of_nat n)"
  using assms by (rule ring_output_keeps_wf)

theorem ring_output_memory_safe_witness:
  "ring_wf (example_ring\<lparr>consumer_pos := 77\<rparr>) \<and>
   ring_wf (fst (ring_output (example_ring\<lparr>consumer_pos := 77\<rparr>) [1, 2] 0))"
proof -
  have "ring_wf (example_ring\<lparr>consumer_pos := 77\<rparr>)"
    using example_ring_rep by (simp add: ring_rep_def)
  then show ?thesis using ring_output_memory_safe by blast
qed

end
