(* ===== verification/Bpf_Map.thy ===== *)
theory Bpf_Map
  imports Bpf_Ring_Buffer "HOL-Library.RBT" "HOL-Library.List_Lexorder"
begin

text \<open>
  BPF maps, \<open>pulse_core/src/bpf/map.rs\<close>: validation of the creation attributes, the kernel-wide
  memory budget, the four storage kinds and the element operations. The ordered \<open>BTreeMap\<close> of hash
  maps is a red-black tree over byte strings in lexicographic order; perf-event sinks are opaque.
\<close>

section \<open>Attributes\<close>

abbreviation (input) BPF_MAP_TYPE_HASH :: "32 word" where "BPF_MAP_TYPE_HASH \<equiv> 1"
abbreviation (input) BPF_MAP_TYPE_ARRAY :: "32 word" where "BPF_MAP_TYPE_ARRAY \<equiv> 2"
abbreviation (input) BPF_MAP_TYPE_PERF_EVENT_ARRAY :: "32 word" where
  "BPF_MAP_TYPE_PERF_EVENT_ARRAY \<equiv> 4"
abbreviation (input) BPF_MAP_TYPE_RINGBUF :: "32 word" where "BPF_MAP_TYPE_RINGBUF \<equiv> 27"
abbreviation (input) BPF_MAP_TYPE_LINUX_MAX :: "32 word" where "BPF_MAP_TYPE_LINUX_MAX \<equiv> 33"
abbreviation (input) BPF_F_NO_PREALLOC :: "32 word" where "BPF_F_NO_PREALLOC \<equiv> 1"
abbreviation (input) BPF_F_RDONLY_PROG :: "32 word" where "BPF_F_RDONLY_PROG \<equiv> 128"
abbreviation (input) BPF_F_WRONLY_PROG :: "32 word" where "BPF_F_WRONLY_PROG \<equiv> 256"
abbreviation (input) BPF_ANY :: "64 word" where "BPF_ANY \<equiv> 0"
abbreviation (input) BPF_NOEXIST :: "64 word" where "BPF_NOEXIST \<equiv> 1"
abbreviation (input) BPF_EXIST :: "64 word" where "BPF_EXIST \<equiv> 2"
abbreviation (input) BPF_OBJ_NAME_LEN :: nat where "BPF_OBJ_NAME_LEN \<equiv> 16"
abbreviation (input) BPF_MAP_MAX_KEY_SIZE :: nat where "BPF_MAP_MAX_KEY_SIZE \<equiv> 512"
abbreviation (input) BPF_MAP_MAX_VALUE_SIZE :: nat where "BPF_MAP_MAX_VALUE_SIZE \<equiv> 65536"
abbreviation (input) BPF_MAP_MAX_BYTES :: nat where "BPF_MAP_MAX_BYTES \<equiv> 16777216"
abbreviation (input) BPF_MAP_TOTAL_BYTES :: nat where "BPF_MAP_TOTAL_BYTES \<equiv> 67108864"

datatype bpf_map_type = Hash | Array | PerfEventArray | RingBuf

definition map_type_from_raw :: "32 word \<Rightarrow> bpf_map_type res" where
  "map_type_from_raw raw =
     (if raw = BPF_MAP_TYPE_HASH then Inr Hash
      else if raw = BPF_MAP_TYPE_ARRAY then Inr Array
      else if raw = BPF_MAP_TYPE_PERF_EVENT_ARRAY then Inr PerfEventArray
      else if raw = BPF_MAP_TYPE_RINGBUF then Inr RingBuf
      else if raw = 0 then Inl EINVAL
      else if raw \<le> BPF_MAP_TYPE_LINUX_MAX then Inl EOPNOTSUPP
      else Inl EINVAL)"

fun map_type_as_raw :: "bpf_map_type \<Rightarrow> 32 word" where
  "map_type_as_raw Hash = BPF_MAP_TYPE_HASH"
| "map_type_as_raw Array = BPF_MAP_TYPE_ARRAY"
| "map_type_as_raw PerfEventArray = BPF_MAP_TYPE_PERF_EVENT_ARRAY"
| "map_type_as_raw RingBuf = BPF_MAP_TYPE_RINGBUF"

fun allowed_flags :: "bpf_map_type \<Rightarrow> 32 word" where
  "allowed_flags Hash = BPF_F_NO_PREALLOC OR BPF_F_RDONLY_PROG OR BPF_F_WRONLY_PROG"
| "allowed_flags Array = BPF_F_RDONLY_PROG OR BPF_F_WRONLY_PROG"
| "allowed_flags PerfEventArray = 0"
| "allowed_flags RingBuf = 0"

record map_create_request =
  req_map_type :: "32 word"
  req_key_size :: "32 word"
  req_value_size :: "32 word"
  req_max_entries :: "32 word"
  req_map_flags :: "32 word"
  req_inner_map_fd :: "32 word"
  req_numa_node :: "32 word"
  req_map_name :: "byte list"
  req_map_ifindex :: "32 word"
  req_btf_fd :: "32 word"
  req_btf_key_type_id :: "32 word"
  req_btf_value_type_id :: "32 word"
  req_btf_vmlinux_value_type_id :: "32 word"
  req_map_extra :: "64 word"

record map_spec =
  map_type :: bpf_map_type
  key_size :: "32 word"
  value_size :: "32 word"
  max_entries :: "32 word"
  map_flags :: "32 word"
  spec_name :: "byte list"
  storage_bytes :: nat

definition is_name_byte :: "byte \<Rightarrow> bool" where
  "is_name_byte b \<longleftrightarrow>
     0x30 \<le> b \<and> b \<le> 0x39 \<or> 0x41 \<le> b \<and> b \<le> 0x5a \<or> 0x61 \<le> b \<and> b \<le> 0x7a \<or> b = 0x5f \<or> b = 0x2e"

definition validate_obj_name :: "byte list \<Rightarrow> byte list res" where
  "validate_obj_name raw =
     (let prefix = takeWhile (\<lambda>b. b \<noteq> 0) raw
      in if length prefix = length raw then Inl EINVAL
         else if \<not> list_all is_name_byte prefix then Inl EINVAL
         else Inr (prefix @ replicate (BPF_OBJ_NAME_LEN - length prefix) 0))"

definition map_key_ok :: "bpf_map_type \<Rightarrow> 32 word \<Rightarrow> bool" where
  "map_key_ok ty ks \<longleftrightarrow>
     (case ty of Array \<Rightarrow> ks = 4 | PerfEventArray \<Rightarrow> ks = 4 | Hash \<Rightarrow> ks \<noteq> 0 | RingBuf \<Rightarrow> ks = 0)"

definition map_val_ok :: "bpf_map_type \<Rightarrow> 32 word \<Rightarrow> bool" where
  "map_val_ok ty vs \<longleftrightarrow>
     (case ty of PerfEventArray \<Rightarrow> vs = 4 | RingBuf \<Rightarrow> vs = 0 | _ \<Rightarrow> vs \<noteq> 0)"

definition map_storage_bytes :: "bpf_map_type \<Rightarrow> nat \<Rightarrow> nat \<Rightarrow> nat \<Rightarrow> nat res" where
  "map_storage_bytes ty ks vs entries =
     (if ty = RingBuf then (if entries > BPF_MAP_MAX_BYTES then Inl E2BIG else Inr entries)
      else
        (let entry_bytes = (if ty = Hash then ks + vs else vs)
         in if entry_bytes * entries \<le> usize_max \<and> entry_bytes * entries \<le> BPF_MAP_MAX_BYTES
            then Inr (entry_bytes * entries) else Inl E2BIG))"

definition map_spec_validate :: "map_create_request \<Rightarrow> map_spec res" where
  "map_spec_validate req =
     (if req_inner_map_fd req \<noteq> 0 \<or> req_numa_node req \<noteq> 0 \<or> req_map_extra req \<noteq> 0 \<or>
         req_btf_fd req \<noteq> 0 \<or> req_btf_key_type_id req \<noteq> 0 \<or> req_btf_value_type_id req \<noteq> 0 \<or>
         req_btf_vmlinux_value_type_id req \<noteq> 0 then Inl EINVAL
      else if req_map_ifindex req \<noteq> 0 then Inl EOPNOTSUPP
      else case validate_obj_name (req_map_name req) of Inl e \<Rightarrow> Inl e | Inr nm \<Rightarrow>
           (case map_type_from_raw (req_map_type req) of Inl e \<Rightarrow> Inl e | Inr ty \<Rightarrow>
             (let fl = req_map_flags req; rw = BPF_F_RDONLY_PROG OR BPF_F_WRONLY_PROG
              in if fl AND NOT (allowed_flags ty) \<noteq> 0 \<or> fl AND rw = rw then Inl EINVAL
                 else if \<not> map_key_ok ty (req_key_size req) \<or> \<not> map_val_ok ty (req_value_size req)
                 then Inl EINVAL
                 else if ty \<noteq> RingBuf \<and> (req_value_size req = 0 \<or> req_max_entries req = 0)
                 then Inl EINVAL
                 else if ty = RingBuf \<and> (req_max_entries req = 0 \<or> req_max_entries req mod 4096 \<noteq> 0 \<or>
                           \<not> is_power_of_two (unat (req_max_entries req))) then Inl EINVAL
                 else if unat (req_key_size req) > BPF_MAP_MAX_KEY_SIZE \<or>
                         unat (req_value_size req) > BPF_MAP_MAX_VALUE_SIZE then Inl E2BIG
                 else case map_storage_bytes ty (unat (req_key_size req))
                             (unat (req_value_size req)) (unat (req_max_entries req)) of
                        Inl e \<Rightarrow> Inl e
                      | Inr bytes \<Rightarrow>
                          Inr \<lparr>map_type = ty, key_size = req_key_size req,
                               value_size = req_value_size req, max_entries = req_max_entries req,
                               map_flags = fl, spec_name = nm, storage_bytes = bytes\<rparr>)))"

section \<open>The memory budget\<close>

record budget =
  limit :: nat
  charged :: nat
  live_maps :: nat

definition budget_new :: "nat \<Rightarrow> budget" where
  "budget_new n = \<lparr>limit = n, charged = 0, live_maps = 0\<rparr>"

text \<open>The compare-exchange loop of \<open>charge\<close> is one atomic step.\<close>

definition charge :: "budget \<Rightarrow> nat \<Rightarrow> budget res" where
  "charge b bytes =
     (if charged b + bytes \<le> usize_max \<and> charged b + bytes \<le> limit b
      then Inr (b\<lparr>charged := charged b + bytes, live_maps := live_maps b + 1\<rparr>)
      else Inl ENOMEM)"

definition charge_drop :: "budget \<Rightarrow> nat \<Rightarrow> budget" where
  "charge_drop b bytes = b\<lparr>charged := charged b - bytes, live_maps := live_maps b - 1\<rparr>"

section \<open>Storage\<close>

datatype 's storage =
    SArray "byte list"
  | SHash "(byte list, byte list) rbt"
  | SPerfEventArray "32 word option list" "'s option list"
  | SRingBuf ring_buf

text \<open>\<open>u32::from_ne_bytes(key.try_into()?)\<close>\<close>

definition key_index :: "byte list \<Rightarrow> (errno, nat) outcome" where
  "key_index key = (if length key = 4 then Ok (unat (u32_from_bytes key)) else Err EINVAL)"

text \<open>Slicing and \<open>copy_from_slice\<close> panic when the ranges do not fit.\<close>

definition slice_of :: "byte list \<Rightarrow> nat \<Rightarrow> nat \<Rightarrow> (errno, byte list) outcome" where
  "slice_of v start n = (if start + n \<le> length v then Ok (slice v start n) else Panic)"

definition copy_out :: "nat \<Rightarrow> byte list \<Rightarrow> (errno, byte list) outcome" where
  "copy_out n bytes = (if length bytes = n then Ok bytes else Panic)"

definition splice_at :: "byte list \<Rightarrow> nat \<Rightarrow> byte list \<Rightarrow> (errno, byte list) outcome" where
  "splice_at v start bytes =
     (if start + length bytes \<le> length v then Ok (splice v start bytes) else Panic)"

definition perf_fd :: "32 word option list \<Rightarrow> nat \<Rightarrow> (errno, 32 word) outcome" where
  "perf_fd fds index =
     (if index < length fds then (case fds ! index of Some fd \<Rightarrow> Ok fd | None \<Rightarrow> Err ENOENT)
      else Err ENOENT)"

fun storage_capacity :: "'s storage \<Rightarrow> nat \<Rightarrow> nat \<Rightarrow> nat" where
  "storage_capacity (SArray values) val_size entries = length values div val_size"
| "storage_capacity (SHash _) val_size entries = entries"
| "storage_capacity (SPerfEventArray _ slots) val_size entries = length slots"
| "storage_capacity (SRingBuf rb) val_size entries = data_size rb"

fun storage_lookup ::
  "'s storage \<Rightarrow> byte list \<Rightarrow> nat \<Rightarrow> nat \<Rightarrow> nat \<Rightarrow> (errno, byte list) outcome" where
  "storage_lookup (SArray values) key val_size entries out_len =
     bind_outcome (key_index key) (\<lambda>index.
       if index \<ge> entries then Err ENOENT
       else bind_outcome (slice_of values (index * val_size) val_size) (copy_out out_len))"
| "storage_lookup (SHash t) key val_size entries out_len =
     (case RBT.lookup t key of None \<Rightarrow> Err ENOENT | Some v \<Rightarrow> copy_out out_len v)"
| "storage_lookup (SPerfEventArray fds slots) key val_size entries out_len =
     bind_outcome (key_index key) (\<lambda>index.
       if index \<ge> entries then Err ENOENT
       else bind_outcome (perf_fd fds index) (\<lambda>fd. copy_out out_len (u32_to_bytes fd)))"
| "storage_lookup (SRingBuf rb) key val_size entries out_len = Err EINVAL"

definition storage_read_value ::
  "'s storage \<Rightarrow> byte list \<Rightarrow> nat \<Rightarrow> nat \<Rightarrow> nat \<Rightarrow> nat \<Rightarrow> (errno, byte list) outcome" where
  "storage_read_value st key offset val_size entries out_len =
     (if offset + out_len > usize_max \<or> offset + out_len > val_size then Err EINVAL
      else case st of
        SArray values \<Rightarrow>
          bind_outcome (key_index key) (\<lambda>index.
            if index \<ge> entries then Err ENOENT
            else slice_of values (index * val_size + offset) out_len)
      | SHash t \<Rightarrow>
          (case RBT.lookup t key of None \<Rightarrow> Err ENOENT | Some v \<Rightarrow> slice_of v offset out_len)
      | SPerfEventArray fds slots \<Rightarrow>
          bind_outcome (key_index key) (\<lambda>index.
            if index \<ge> entries then Err ENOENT
            else bind_outcome (perf_fd fds index) (\<lambda>fd.
              if offset + out_len > 4 then Err EINVAL
              else slice_of (u32_to_bytes fd) offset out_len))
      | SRingBuf rb \<Rightarrow> Err EINVAL)"

definition storage_write_value ::
  "'s storage \<Rightarrow> byte list \<Rightarrow> nat \<Rightarrow> nat \<Rightarrow> nat \<Rightarrow> byte list \<Rightarrow> (errno, 's storage) outcome" where
  "storage_write_value st key offset val_size entries data =
     (if offset + length data > usize_max \<or> offset + length data > val_size then Err EINVAL
      else case st of
        SArray values \<Rightarrow>
          bind_outcome (key_index key) (\<lambda>index.
            if index \<ge> entries then Err ENOENT
            else bind_outcome (splice_at values (index * val_size + offset) data) (\<lambda>v. Ok (SArray v)))
      | SHash t \<Rightarrow>
          (case RBT.lookup t key of
             None \<Rightarrow> Err ENOENT
           | Some v \<Rightarrow> bind_outcome (splice_at v offset data) (\<lambda>v'. Ok (SHash (RBT.insert key v' t))))
      | SPerfEventArray fds slots \<Rightarrow>
          bind_outcome (key_index key) (\<lambda>index.
            if index \<ge> entries then Err ENOENT
            else if offset = 0 \<and> length data = 4
            then (if index < length fds
                  then Ok (SPerfEventArray (fds[index := Some (u32_from_bytes data)]) slots) else Panic)
            else Err EINVAL)
      | SRingBuf rb \<Rightarrow> Err EINVAL)"

definition storage_update_elem ::
  "'s storage \<Rightarrow> byte list \<Rightarrow> byte list \<Rightarrow> 64 word \<Rightarrow> nat \<Rightarrow> nat \<Rightarrow> (errno, 's storage) outcome" where
  "storage_update_elem st key v flags0 val_size entries =
     (case st of
        SArray values \<Rightarrow>
          bind_outcome (key_index key) (\<lambda>index.
            if index \<ge> entries then Err E2BIG
            else if flags0 = BPF_NOEXIST then Err EEXIST
            else bind_outcome (slice_of values (index * val_size) val_size) (\<lambda>_.
                 if length v \<noteq> val_size then Panic
                 else Ok (SArray (splice values (index * val_size) v))))
      | SHash t \<Rightarrow>
          (case RBT.lookup t key of
             Some old \<Rightarrow>
               (if flags0 = BPF_NOEXIST then Err EEXIST
                else if length v \<noteq> length old then Panic
                else Ok (SHash (RBT.insert key v t)))
           | None \<Rightarrow>
               (if flags0 = BPF_EXIST then Err ENOENT
                else if length (RBT.keys t) \<ge> entries then Err E2BIG
                else Ok (SHash (RBT.insert key v t))))
      | SPerfEventArray fds slots \<Rightarrow>
          bind_outcome (key_index key) (\<lambda>index.
            if index \<ge> entries then Err E2BIG
            else if index \<ge> length fds then Panic
            else if flags0 = BPF_NOEXIST \<and> fds ! index \<noteq> None then Err EEXIST
            else if flags0 = BPF_EXIST \<and> fds ! index = None then Err ENOENT
            else if length v \<noteq> 4 then Err EINVAL
            else Ok (SPerfEventArray (fds[index := Some (u32_from_bytes v)]) slots))
      | SRingBuf rb \<Rightarrow> Err EINVAL)"

definition storage_delete :: "'s storage \<Rightarrow> byte list \<Rightarrow> (errno, 's storage) outcome" where
  "storage_delete st key =
     (case st of
        SArray values \<Rightarrow> Err EINVAL
      | SHash t \<Rightarrow>
          (case RBT.lookup t key of None \<Rightarrow> Err ENOENT | Some _ \<Rightarrow> Ok (SHash (RBT.delete key t)))
      | SPerfEventArray fds slots \<Rightarrow>
          bind_outcome (key_index key) (\<lambda>index.
            if index \<ge> length fds then Err EINVAL
            else if fds ! index = None then Err ENOENT
            else if index \<ge> length slots then Panic
            else Ok (SPerfEventArray (fds[index := None]) (slots[index := None])))
      | SRingBuf rb \<Rightarrow> Err EINVAL)"

definition index_next_key :: "byte list option \<Rightarrow> nat \<Rightarrow> (errno, byte list) outcome" where
  "index_next_key key entries =
     (if entries = 0 then Err ENOENT
      else case key of
        None \<Rightarrow> Ok (u32_to_bytes 0)
      | Some k \<Rightarrow>
          bind_outcome (key_index k) (\<lambda>idx.
            if idx \<ge> entries then Ok (u32_to_bytes 0)
            else if idx \<ge> entries - 1 then Err ENOENT
            else Ok (u32_to_bytes (of_nat (idx + 1)))))"

definition hash_next_key ::
  "(byte list, byte list) rbt \<Rightarrow> byte list option \<Rightarrow> (errno, byte list) outcome" where
  "hash_next_key t key =
     (case RBT.keys t of
        [] \<Rightarrow> Err ENOENT
      | first # _ \<Rightarrow>
          (case key of
             None \<Rightarrow> Ok first
           | Some k \<Rightarrow>
               (if RBT.lookup t k = None then Ok first
                else case find (\<lambda>x. k < x) (RBT.keys t) of None \<Rightarrow> Err ENOENT | Some nx \<Rightarrow> Ok nx)))"

definition storage_get_next_key ::
  "'s storage \<Rightarrow> byte list option \<Rightarrow> nat \<Rightarrow> nat \<Rightarrow> (errno, byte list) outcome" where
  "storage_get_next_key st key entries out_len =
     (case st of
        SArray _ \<Rightarrow> bind_outcome (index_next_key key entries) (copy_out out_len)
      | SPerfEventArray _ _ \<Rightarrow> bind_outcome (index_next_key key entries) (copy_out out_len)
      | SHash t \<Rightarrow> bind_outcome (hash_next_key t key) (copy_out out_len)
      | SRingBuf _ \<Rightarrow> Err EINVAL)"

section \<open>Maps\<close>

record 's bpf_map =
  map_id :: "32 word"
  spec :: map_spec
  storage :: "'s storage"

text \<open>\<open>alloc_map_id\<close> skips the identifier 0 when the counter wraps.\<close>

definition alloc_map_id :: "32 word \<Rightarrow> 32 word \<times> 32 word" where
  "alloc_map_id next_map_id = (if next_map_id = 0 then (1, 2) else (next_map_id, next_map_id + 1))"

definition create_storage :: "bool \<Rightarrow> map_spec \<Rightarrow> 's storage res" where
  "create_storage alloc_ok sp =
     (case map_type sp of
        Array \<Rightarrow> (if alloc_ok then Inr (SArray (replicate (storage_bytes sp) 0)) else Inl ENOMEM)
      | Hash \<Rightarrow> Inr (SHash RBT.empty)
      | PerfEventArray \<Rightarrow>
          Inr (SPerfEventArray (replicate (unat (max_entries sp)) None)
                               (replicate (unat (max_entries sp)) None))
      | RingBuf \<Rightarrow>
          (case ring_new alloc_ok (unat (max_entries sp)) of
             Inl e \<Rightarrow> Inl e | Inr rb \<Rightarrow> Inr (SRingBuf rb)))"

text \<open>
  \<open>create_in\<close> charges the budget first; when the storage cannot be allocated the charge is dropped
  again on the error path.
\<close>

definition create_in ::
  "bool \<Rightarrow> map_spec \<Rightarrow> budget \<Rightarrow> 32 word \<Rightarrow> budget \<times> 32 word \<times> 's bpf_map res" where
  "create_in alloc_ok sp b next_map_id =
     (case charge b (storage_bytes sp) of
        Inl e \<Rightarrow> (b, next_map_id, Inl e)
      | Inr b1 \<Rightarrow>
          (case create_storage alloc_ok sp of
             Inl e \<Rightarrow> (charge_drop b1 (storage_bytes sp), next_map_id, Inl e)
           | Inr st \<Rightarrow>
               (case alloc_map_id next_map_id of
                  (i, n) \<Rightarrow> (b1, n, Inr \<lparr>map_id = i, spec = sp, storage = st\<rparr>))))"

definition map_drop :: "budget \<Rightarrow> 's bpf_map \<Rightarrow> budget" where
  "map_drop b m = charge_drop b (storage_bytes (spec m))"

abbreviation (input) ksize :: "'s bpf_map \<Rightarrow> nat" where "ksize m \<equiv> unat (key_size (spec m))"
abbreviation (input) vsize :: "'s bpf_map \<Rightarrow> nat" where "vsize m \<equiv> unat (value_size (spec m))"
abbreviation (input) entries_max :: "'s bpf_map \<Rightarrow> nat" where
  "entries_max m \<equiv> unat (max_entries (spec m))"

definition map_storage_capacity :: "'s bpf_map \<Rightarrow> nat" where
  "map_storage_capacity m = storage_capacity (storage m) (vsize m) (entries_max m)"

definition map_lookup :: "'s bpf_map \<Rightarrow> byte list \<Rightarrow> nat \<Rightarrow> (errno, byte list) outcome" where
  "map_lookup m key out_len =
     (if length key \<noteq> ksize m \<or> out_len \<noteq> vsize m then Err EINVAL
      else storage_lookup (storage m) key (vsize m) (entries_max m) out_len)"

definition read_value_bytes :: "'s bpf_map \<Rightarrow> byte list \<Rightarrow> nat \<Rightarrow> nat \<Rightarrow> (errno, byte list) outcome" where
  "read_value_bytes m key offset out_len =
     (if length key \<noteq> ksize m then Err EINVAL
      else storage_read_value (storage m) key offset (vsize m) (entries_max m) out_len)"

text \<open>The operations that write return the map with its new storage.\<close>

definition write_value_bytes ::
  "'s bpf_map \<Rightarrow> byte list \<Rightarrow> nat \<Rightarrow> byte list \<Rightarrow> (errno, 's bpf_map) outcome" where
  "write_value_bytes m key offset data =
     (if length key \<noteq> ksize m then Err EINVAL
      else bind_outcome (storage_write_value (storage m) key offset (vsize m) (entries_max m) data)
             (\<lambda>st. Ok (m\<lparr>storage := st\<rparr>)))"

definition map_update ::
  "'s bpf_map \<Rightarrow> byte list \<Rightarrow> byte list \<Rightarrow> 64 word \<Rightarrow> (errno, 's bpf_map) outcome" where
  "map_update m key v flags0 =
     (if length key \<noteq> ksize m \<or> length v \<noteq> vsize m then Err EINVAL
      else if flags0 > BPF_EXIST then Err EINVAL
      else bind_outcome (storage_update_elem (storage m) key v flags0 (vsize m) (entries_max m))
             (\<lambda>st. Ok (m\<lparr>storage := st\<rparr>)))"

definition map_delete :: "'s bpf_map \<Rightarrow> byte list \<Rightarrow> (errno, 's bpf_map) outcome" where
  "map_delete m key =
     (if length key \<noteq> ksize m then Err EINVAL
      else bind_outcome (storage_delete (storage m) key) (\<lambda>st. Ok (m\<lparr>storage := st\<rparr>)))"

definition map_get_next_key ::
  "'s bpf_map \<Rightarrow> byte list option \<Rightarrow> nat \<Rightarrow> (errno, byte list) outcome" where
  "map_get_next_key m key out_len =
     (if out_len \<noteq> ksize m then Err EINVAL
      else if (case key of None \<Rightarrow> False | Some k \<Rightarrow> length k \<noteq> ksize m) then Err EINVAL
      else storage_get_next_key (storage m) key (entries_max m) out_len)"

text \<open>The sink behind a slot is code outside this component: its answer is a parameter.\<close>

definition output_perf_event ::
  "('s \<Rightarrow> byte list \<Rightarrow> unit res) \<Rightarrow> 's bpf_map \<Rightarrow> 32 word \<Rightarrow> byte list \<Rightarrow> unit res" where
  "output_perf_event output_sample m index data =
     (case storage m of
        SPerfEventArray fds slots \<Rightarrow>
          (if unat index < length slots
           then (case slots ! unat index of None \<Rightarrow> Inl ENOENT | Some sink \<Rightarrow> output_sample sink data)
           else Inl ENOENT)
      | _ \<Rightarrow> Inl EINVAL)"

definition get_slot :: "'s bpf_map \<Rightarrow> 32 word \<Rightarrow> 's option" where
  "get_slot m index =
     (case storage m of
        SPerfEventArray fds slots \<Rightarrow>
          (if unat index < length slots then slots ! unat index else None)
      | _ \<Rightarrow> None)"

definition set_slot ::
  "'s bpf_map \<Rightarrow> 32 word \<Rightarrow> 32 word option \<Rightarrow> 's option \<Rightarrow> (errno, 's bpf_map) outcome" where
  "set_slot m index fd slot =
     (case storage m of
        SPerfEventArray fds slots \<Rightarrow>
          (let idx = unat index
           in if idx \<ge> entries_max m then Err E2BIG
              else if idx \<ge> length fds \<or> idx \<ge> length slots then Panic
              else Ok (m\<lparr>storage := SPerfEventArray (fds[idx := fd]) (slots[idx := slot])\<rparr>))
      | _ \<Rightarrow> Err EINVAL)"

definition map_ringbuf :: "'s bpf_map \<Rightarrow> ring_buf option" where
  "map_ringbuf m = (case storage m of SRingBuf rb \<Rightarrow> Some rb | _ \<Rightarrow> None)"

definition output_ringbuf :: "'s bpf_map \<Rightarrow> byte list \<Rightarrow> 64 word \<Rightarrow> 's bpf_map \<times> unit res" where
  "output_ringbuf m data flags0 =
     (case storage m of
        SRingBuf rb \<Rightarrow>
          (case ring_output rb data flags0 of (rb', r) \<Rightarrow> (m\<lparr>storage := SRingBuf rb'\<rparr>, r))
      | _ \<Rightarrow> (m, Inl EINVAL))"

section \<open>Well-formed maps\<close>

definition spec_ok :: "map_spec \<Rightarrow> bool" where
  "spec_ok sp \<longleftrightarrow>
     map_key_ok (map_type sp) (key_size sp) \<and> map_val_ok (map_type sp) (value_size sp) \<and>
     unat (key_size sp) \<le> BPF_MAP_MAX_KEY_SIZE \<and> unat (value_size sp) \<le> BPF_MAP_MAX_VALUE_SIZE \<and>
     max_entries sp \<noteq> 0 \<and> storage_bytes sp \<le> BPF_MAP_MAX_BYTES \<and>
     map_flags sp AND NOT (allowed_flags (map_type sp)) = 0 \<and>
     storage_bytes sp =
       (case map_type sp of
          RingBuf \<Rightarrow> unat (max_entries sp)
        | Hash \<Rightarrow> (unat (key_size sp) + unat (value_size sp)) * unat (max_entries sp)
        | _ \<Rightarrow> unat (value_size sp) * unat (max_entries sp)) \<and>
     (map_type sp = RingBuf \<longrightarrow>
        is_power_of_two (unat (max_entries sp)) \<and> unat (max_entries sp) mod 4096 = 0)"

definition storage_ok :: "map_spec \<Rightarrow> 's storage \<Rightarrow> bool" where
  "storage_ok sp st \<longleftrightarrow>
     (case st of
        SArray values \<Rightarrow> map_type sp = Array \<and>
          length values = unat (max_entries sp) * unat (value_size sp)
      | SHash t \<Rightarrow> map_type sp = Hash \<and> length (RBT.keys t) \<le> unat (max_entries sp) \<and>
          (\<forall>k v. RBT.lookup t k = Some v \<longrightarrow>
             length k = unat (key_size sp) \<and> length v = unat (value_size sp))
      | SPerfEventArray fds slots \<Rightarrow> map_type sp = PerfEventArray \<and>
          length fds = unat (max_entries sp) \<and> length slots = unat (max_entries sp)
      | SRingBuf rb \<Rightarrow> map_type sp = RingBuf \<and> ring_wf rb \<and> data_size rb = unat (max_entries sp))"

definition map_wf :: "'s bpf_map \<Rightarrow> bool" where
  "map_wf m \<longleftrightarrow> spec_ok (spec m) \<and> storage_ok (spec m) (storage m)"

lemma map_spec_validate_ok:
  assumes "map_spec_validate req = Inr sp"
  shows "spec_ok sp"
proof -
  have m4096: "unat (w :: 32 word) mod 4096 = 0" if dv: "4096 dvd w" for w
  proof -
    obtain k where "w = 4096 * k" using dv by (elim dvdE)
    then have "unat w = (4096 * unat k) mod 2 ^ 32" by (simp add: unat_word_ariths)
    then show ?thesis by (simp add: mod_mod_cancel)
  qed
  show ?thesis
    using assms
    by (auto simp: map_spec_validate_def spec_ok_def Let_def map_storage_bytes_def m4096
        split: if_splits sum.splits bpf_map_type.splits)
qed

lemma create_storage_ok:
  assumes "spec_ok sp" and "create_storage alloc_ok sp = Inr st"
  shows "storage_ok sp st"
proof -
  have "length (RBT.keys (RBT.empty :: (byte list, byte list) rbt)) = 0" by simp
  then show ?thesis
    using assms
    by (auto simp: create_storage_def storage_ok_def spec_ok_def ring_new_def ring_wf_def mult.commute
        split: if_splits sum.splits bpf_map_type.splits)
qed

lemma create_in_wf:
  assumes "spec_ok sp" and "create_in alloc_ok sp b n = (b', n', Inr m)"
  shows "map_wf m" and "spec m = sp" and "map_id m \<noteq> 0"
  using assms create_storage_ok [OF assms(1)]
  by (auto simp: create_in_def map_wf_def alloc_map_id_def split: sum.splits prod.splits if_splits)

section \<open>The elements of a map\<close>

text \<open>The abstract content of a map: a partial function from keys to values.\<close>

definition map_view :: "'s bpf_map \<Rightarrow> byte list \<Rightarrow> byte list option" where
  "map_view m k =
     (case storage m of
        SArray values \<Rightarrow>
          (if length k = 4 \<and> unat (u32_from_bytes k) < entries_max m
           then Some (slice values (unat (u32_from_bytes k) * vsize m) (vsize m)) else None)
      | SHash t \<Rightarrow> RBT.lookup t k
      | SPerfEventArray fds slots \<Rightarrow>
          (if length k = 4 \<and> unat (u32_from_bytes k) < entries_max m
           then map_option u32_to_bytes (fds ! unat (u32_from_bytes k)) else None)
      | SRingBuf _ \<Rightarrow> None)"

lemma rbt_len: "length (RBT.keys t) = card (dom (RBT.lookup t))"
  by (simp add: RBT.lookup_keys distinct_card)

lemma index_fits:
  fixes i n v :: nat
  assumes "i < n"
  shows "i * v + v \<le> n * v"
  using mult_le_mono1 [of "Suc i" n v] assms by (simp add: add.commute)

lemma map_wf_cases:
  assumes "map_wf m"
  obtains (arr) bs where "storage m = SArray bs" and "map_type (spec m) = Array"
      and "ksize m = 4" and "length bs = entries_max m * vsize m"
    | (hash) t where "storage m = SHash t" and "map_type (spec m) = Hash"
      and "length (RBT.keys t) \<le> entries_max m"
      and "\<And>k v. RBT.lookup t k = Some v \<Longrightarrow> length k = ksize m \<and> length v = vsize m"
    | (perf) fds slots where "storage m = SPerfEventArray fds slots"
      and "map_type (spec m) = PerfEventArray" and "ksize m = 4" and "vsize m = 4"
      and "length fds = entries_max m" and "length slots = entries_max m"
    | (ring) rb where "storage m = SRingBuf rb" and "map_type (spec m) = RingBuf" and "ring_wf rb"
      and "ksize m = 0" and "vsize m = 0" and "data_size rb = entries_max m"
  using assms
  by (cases "storage m")
    (auto simp: map_wf_def spec_ok_def storage_ok_def map_key_ok_def map_val_ok_def)

lemma map_wf_sizes:
  assumes "map_wf m"
  shows "ksize m \<le> 512" and "vsize m \<le> 65536"
  using assms by (auto simp: map_wf_def spec_ok_def)

lemma map_view_length:
  assumes "map_wf m" and "map_view m k = Some v"
  shows "length k = ksize m" and "length v = vsize m"
proof -
  have "length k = ksize m \<and> length v = vsize m"
    using assms(1)
  proof (cases rule: map_wf_cases)
    case (arr bs)
    then show ?thesis
      using assms(2) index_fits [of "unat (u32_from_bytes k)" "entries_max m" "vsize m"]
      by (auto simp: map_view_def split: if_splits)
  qed (use assms(2) in \<open>auto simp: map_view_def split: if_splits\<close>)
  then show "length k = ksize m" and "length v = vsize m" by auto
qed

lemma map_lookup_view:
  assumes wf: "map_wf m" and "length key = ksize m" and "map_type (spec m) \<noteq> RingBuf"
  shows "map_lookup m key (vsize m) = (case map_view m key of None \<Rightarrow> Err ENOENT | Some v \<Rightarrow> Ok v)"
  using wf
proof (cases rule: map_wf_cases)
  case (arr bs)
  then show ?thesis
    using assms(2) index_fits [of "unat (u32_from_bytes key)" "entries_max m" "vsize m"]
    by (auto simp: map_lookup_def map_view_def key_index_def slice_of_def copy_out_def)
qed (use assms in \<open>auto simp: map_lookup_def map_view_def key_index_def copy_out_def perf_fd_def
    split: option.splits\<close>)

lemma read_value_bytes_view:
  assumes wf: "map_wf m" and "length key = ksize m" and "map_type (spec m) \<noteq> RingBuf"
    and "offset + n \<le> vsize m"
  shows "read_value_bytes m key offset n =
    (case map_view m key of None \<Rightarrow> Err ENOENT | Some v \<Rightarrow> Ok (slice v offset n))"
proof -
  have small: "\<not> usize_max < offset + n" using map_wf_sizes(2) [OF wf] assms(4) by simp
  show ?thesis
    using wf
  proof (cases rule: map_wf_cases)
    case (arr bs)
    let ?i = "unat (u32_from_bytes key)"
    have "slice bs (?i * vsize m + offset) n = slice (slice bs (?i * vsize m) (vsize m)) offset n"
      using assms(4) by (simp add: slice_def drop_take add.commute)
    then show ?thesis
      using arr assms small index_fits [of ?i "entries_max m" "vsize m"]
      by (cases "?i < entries_max m")
        (auto simp: read_value_bytes_def storage_read_value_def map_view_def key_index_def slice_of_def)
  qed (use assms small in \<open>auto simp: read_value_bytes_def storage_read_value_def map_view_def key_index_def
      slice_of_def perf_fd_def split: option.splits\<close>)
qed

lemma key_index_inj:
  assumes "length k = 4" and "length k' = 4"
  shows "unat (u32_from_bytes k) = unat (u32_from_bytes k') \<longleftrightarrow> k = k'"
  using assms by (metis u32_to_from_bytes word_unat_eq_iff)

lemma array_view_splice:
  assumes st: "storage m = SArray bs" and len: "length bs = entries_max m * vsize m"
    and key: "length key = 4" and i: "unat (u32_from_bytes key) < entries_max m"
    and b: "off + length data \<le> vsize m"
  defines "i \<equiv> unat (u32_from_bytes key)"
  shows "i * vsize m + off + length data \<le> length bs"
    and "map_view (m\<lparr>storage := SArray (splice bs (i * vsize m + off) data)\<rparr>) =
      (map_view m)(key \<mapsto> splice (slice bs (i * vsize m) (vsize m)) off data)"
proof -
  let ?v = "vsize m" and ?n = "entries_max m"
  have fit: "i * ?v + ?v \<le> ?n * ?v" using index_fits i by (simp add: i_def)
  then show le: "i * ?v + off + length data \<le> length bs" using b len by simp
  have "slice (splice bs (i * ?v + off) data) (j * ?v) ?v =
      (if j = i then splice (slice bs (i * ?v) ?v) off data else slice bs (j * ?v) ?v)"
    if j: "j < ?n" for j
  proof (cases "j = i")
    case True
    then show ?thesis
      using le fit b len by (intro nth_equalityI) (auto simp: nth_slice nth_splice)
  next
    case False
    have "j * ?v + ?v \<le> ?n * ?v" using index_fits [OF j] .
    moreover have "j * ?v + ?v \<le> i * ?v \<or> i * ?v + ?v \<le> j * ?v"
      using False index_fits [of i j ?v] index_fits [of j i ?v] by linarith
    ultimately have "slice (splice bs (i * ?v + off) data) (j * ?v) ?v = slice bs (j * ?v) ?v"
      by (intro slice_splice_other) (use le b len in auto)
    then show ?thesis using False by simp
  qed
  moreover have "unat (u32_from_bytes k) = i \<longleftrightarrow> k = key" if "length k = 4" for k
    using key_index_inj [OF that key] by (simp add: i_def)
  ultimately show "map_view (m\<lparr>storage := SArray (splice bs (i * ?v + off) data)\<rparr>) =
      (map_view m)(key \<mapsto> splice (slice bs (i * ?v) ?v) off data)"
    using st key i by (auto simp: map_view_def fun_eq_iff)
qed

lemma perf_view_update:
  assumes "storage m = SPerfEventArray fds slots" and "length fds = entries_max m"
    and "length key = 4" and "unat (u32_from_bytes key) < entries_max m"
  shows "map_view (m\<lparr>storage := SPerfEventArray (fds[unat (u32_from_bytes key) := x]) slots'\<rparr>) =
    (map_view m)(key := map_option u32_to_bytes x)"
proof (rule ext)
  fix k
  show "map_view (m\<lparr>storage := SPerfEventArray (fds[unat (u32_from_bytes key) := x]) slots'\<rparr>) k =
    ((map_view m)(key := map_option u32_to_bytes x)) k"
    using key_index_inj [of k key] assms
    by (cases "length k = 4"; cases "k = key") (auto simp: map_view_def nth_list_update)
qed

lemma hash_view_insert:
  assumes "storage m = SHash t"
  shows "map_view (m\<lparr>storage := SHash (RBT.insert key v t)\<rparr>) = (map_view m)(key \<mapsto> v)"
    and "map_view (m\<lparr>storage := SHash (RBT.delete key t)\<rparr>) = (map_view m)(key := None)"
  using assms by (auto simp: map_view_def fun_eq_iff)

lemma hash_insert_wf:
  assumes "map_wf m" and "storage m = SHash t" and "length key = ksize m" and "length v = vsize m"
    and "RBT.lookup t key \<noteq> None \<or> length (RBT.keys t) < entries_max m"
  shows "map_wf (m\<lparr>storage := SHash (RBT.insert key v t)\<rparr>)"
proof -
  have "length (RBT.keys (RBT.insert key v t)) \<le> entries_max m"
  proof (cases "RBT.lookup t key")
    case None
    then show ?thesis using assms(5) by (simp add: rbt_len card_insert_if domIff)
  next
    case (Some old)
    then have "insert key (dom (RBT.lookup t)) = dom (RBT.lookup t)" by auto
    then show ?thesis using assms(1,2) by (simp add: rbt_len map_wf_def storage_ok_def)
  qed
  then show ?thesis using assms by (auto simp: map_wf_def storage_ok_def)
qed

lemma hash_delete_wf:
  assumes "map_wf m" and "storage m = SHash t"
  shows "map_wf (m\<lparr>storage := SHash (RBT.delete key t)\<rparr>)"
proof -
  have "card (dom (RBT.lookup t) - {key}) \<le> card (dom (RBT.lookup t))" by (rule card_mono) auto
  then have "length (RBT.keys (RBT.delete key t)) \<le> entries_max m"
    using assms by (auto simp: rbt_len map_wf_def storage_ok_def)
  then show ?thesis using assms by (auto simp: map_wf_def storage_ok_def split: if_splits)
qed

lemma map_update_cases:
  assumes wf: "map_wf m" and k: "length key = ksize m" and v: "length v = vsize m"
    and fl: "flags0 \<le> BPF_EXIST" and ty: "map_type (spec m) \<noteq> RingBuf"
  shows "case map_update m key v flags0 of
      Ok m' \<Rightarrow> map_wf m' \<and> spec m' = spec m \<and> map_view m' = (map_view m)(key \<mapsto> v) \<and>
        (flags0 = BPF_NOEXIST \<longrightarrow> map_view m key = None) \<and>
        (flags0 = BPF_EXIST \<longrightarrow> map_view m key \<noteq> None)
    | Err e \<Rightarrow> e = EEXIST \<and> flags0 = BPF_NOEXIST \<and> map_view m key \<noteq> None \<or>
        e = ENOENT \<and> flags0 = BPF_EXIST \<and> map_view m key = None \<or>
        e = E2BIG \<and> map_view m key = None
    | Panic \<Rightarrow> False"
  using wf
proof (cases rule: map_wf_cases)
  case (arr bs)
  let ?i = "unat (u32_from_bytes key)"
  have "splice (slice bs (?i * vsize m) (vsize m)) 0 v = v" if "?i < entries_max m"
    using index_fits [OF that, of "vsize m"] arr v by (simp add: splice_def)
  then show ?thesis
    using arr k v fl wf array_view_splice [of m bs key 0 v]
    by (cases "?i < entries_max m")
      (auto simp: map_update_def storage_update_elem_def key_index_def slice_of_def map_wf_def storage_ok_def
        map_view_def)
next
  case (hash t)
  then show ?thesis
    using k v fl hash_view_insert [OF hash(1)] hash_insert_wf [OF wf hash(1) k v]
    by (auto simp: map_update_def storage_update_elem_def map_view_def split: option.splits)
next
  case (perf fds slots)
  let ?i = "unat (u32_from_bytes key)"
  show ?thesis
    using perf k v fl wf perf_view_update [of m fds slots key "Some (u32_from_bytes v)" slots]
      u32_to_from_bytes [of v]
    by (cases "?i < entries_max m"; cases "fds ! ?i")
      (auto simp: map_update_def storage_update_elem_def key_index_def map_view_def map_wf_def storage_ok_def)
qed (use ty in simp)

lemma map_delete_cases:
  assumes wf: "map_wf m" and k: "length key = ksize m"
  shows "case map_delete m key of
      Ok m' \<Rightarrow> map_wf m' \<and> spec m' = spec m \<and> map_view m' = (map_view m)(key := None) \<and>
        map_view m key \<noteq> None
    | Err e \<Rightarrow> e = EINVAL \<and> map_type (spec m) \<noteq> Hash \<or> e = ENOENT \<and> map_view m key = None
    | Panic \<Rightarrow> False"
  using wf
proof (cases rule: map_wf_cases)
  case (hash t)
  then show ?thesis
    using k hash_view_insert [OF hash(1)] hash_delete_wf [OF wf hash(1)]
    by (auto simp: map_delete_def storage_delete_def map_view_def split: option.splits)
next
  case (perf fds slots)
  let ?i = "unat (u32_from_bytes key)"
  show ?thesis
    using perf k wf perf_view_update [of m fds slots key None "slots[?i := None]"]
    by (cases "?i < entries_max m"; cases "fds ! ?i")
      (auto simp: map_delete_def storage_delete_def key_index_def map_view_def map_wf_def storage_ok_def)
qed (use k in \<open>auto simp: map_delete_def storage_delete_def\<close>)

lemma write_value_bytes_cases:
  assumes wf: "map_wf m" and k: "length key = ksize m"
  shows "case write_value_bytes m key offset data of
      Ok m' \<Rightarrow> map_wf m' \<and> spec m' = spec m \<and> offset + length data \<le> vsize m \<and>
        (\<exists>v. (map_view m key = Some v \<or> map_type (spec m) = PerfEventArray \<and> length v = 4) \<and>
          map_view m' = (map_view m)(key \<mapsto> splice v offset data))
    | Err e \<Rightarrow> e = EINVAL \<or> e = ENOENT \<and> map_view m key = None
    | Panic \<Rightarrow> False"
proof (cases "offset + length data \<le> vsize m")
  case False
  then show ?thesis using k by (simp add: write_value_bytes_def storage_write_value_def)
next
  case fit: True
  then have small: "\<not> usize_max < offset + length data" using map_wf_sizes(2) [OF wf] by simp
  show ?thesis
    using wf
  proof (cases rule: map_wf_cases)
    case (arr bs)
    let ?i = "unat (u32_from_bytes key)"
    show ?thesis
      using arr k fit small wf array_view_splice [of m bs key offset data]
      by (cases "?i < entries_max m")
        (auto simp: write_value_bytes_def storage_write_value_def key_index_def splice_at_def map_wf_def
          storage_ok_def map_view_def)
  next
    case (hash t)
    show ?thesis
    proof (cases "RBT.lookup t key")
      case (Some v)
      then have v: "length v = vsize m" using hash by auto
      then have "map_wf (m\<lparr>storage := SHash (RBT.insert key (splice v offset data) t)\<rparr>)"
        using hash_insert_wf [OF wf hash(1) k, of "splice v offset data"] Some fit by simp
      then show ?thesis
        using Some hash k fit small v hash_view_insert(1) [OF hash(1), of key "splice v offset data"]
        by (auto simp: write_value_bytes_def storage_write_value_def splice_at_def map_view_def)
    qed (use hash k fit small in \<open>auto simp: write_value_bytes_def storage_write_value_def map_view_def\<close>)
  next
    case (perf fds slots)
    let ?i = "unat (u32_from_bytes key)"
    have "u32_to_bytes (u32_from_bytes data) = splice (replicate 4 0) 0 data" if "length data = 4"
      using that u32_to_from_bytes [of data] by (simp add: splice_def)
    then show ?thesis
      using perf k fit small wf perf_view_update [of m fds slots key "Some (u32_from_bytes data)" slots]
      by (cases "?i < entries_max m"; cases "fds ! ?i")
        (auto simp: write_value_bytes_def storage_write_value_def key_index_def map_view_def map_wf_def
          storage_ok_def intro: exI [of _ "replicate 4 0"])
  qed (use k fit small in \<open>auto simp: write_value_bytes_def storage_write_value_def\<close>)
qed

lemma read_value_bytes_cases:
  assumes wf: "map_wf m"
  shows "case read_value_bytes m key offset n of Ok bs \<Rightarrow> length bs = n | Err e \<Rightarrow> True | Panic \<Rightarrow> False"
proof (cases "length key = ksize m \<and> map_type (spec m) \<noteq> RingBuf \<and> offset + n \<le> vsize m")
  case True
  then show ?thesis
    using read_value_bytes_view [OF wf, of key offset n] map_view_length(2) [OF wf, of key]
    by (auto split: option.splits)
next
  case False
  then show ?thesis
    using wf
    by (cases rule: map_wf_cases [OF wf])
      (auto simp: read_value_bytes_def storage_read_value_def)
qed

lemma output_ringbuf_wf:
  assumes wf: "map_wf m"
  shows "map_wf (fst (output_ringbuf m data flags0))" and "spec (fst (output_ringbuf m data flags0)) = spec m"
proof -
  have "map_wf (fst (output_ringbuf m data flags0)) \<and> spec (fst (output_ringbuf m data flags0)) = spec m"
    using wf
  proof (cases rule: map_wf_cases)
    case (ring rb)
    then show ?thesis
      using wf ring_output_keeps_wf [OF ring(3), of data flags0]
      by (auto simp: output_ringbuf_def map_wf_def storage_ok_def split: prod.splits)
  qed (use wf in \<open>auto simp: output_ringbuf_def\<close>)
  then show "map_wf (fst (output_ringbuf m data flags0))" and "spec (fst (output_ringbuf m data flags0)) = spec m"
    by auto
qed

section \<open>Walking the keys\<close>

text \<open>
  How user space enumerates a map: repeated \<open>get_next_key\<close>, starting without a key, until an error is returned; the keys
  seen and how the walk ended, if it ended within the number of calls.
\<close>

fun walk_keys ::
  "nat \<Rightarrow> (byte list option \<Rightarrow> (errno, byte list) outcome) \<Rightarrow> byte list option \<Rightarrow> byte list list \<times> (errno, unit) outcome option" where
  "walk_keys 0 next_key k = ([], None)"
| "walk_keys (Suc n) next_key k =
     (case next_key k of
        Ok k' \<Rightarrow> (case walk_keys n next_key (Some k') of (ks, r) \<Rightarrow> (k' # ks, r))
      | Err e \<Rightarrow> ([], Some (Err e))
      | Panic \<Rightarrow> ([], Some Panic))"

lemma walk_keys_from:
  assumes "\<And>i. i < length ks \<Longrightarrow>
      next_key (Some (ks ! i)) = (if Suc i < length ks then Ok (ks ! Suc i) else Err e)"
  shows "i < length ks \<Longrightarrow> walk_keys n next_key (Some (ks ! i)) =
    (take n (drop (Suc i) ks), if length ks - Suc i < n then Some (Err e) else None)"
proof (induction n arbitrary: i)
  case (Suc n)
  show ?case
  proof (cases "Suc i < length ks")
    case True
    then show ?thesis
      using assms [OF Suc.prems] Suc.IH [OF True] Cons_nth_drop_Suc [OF True]
      by (auto simp flip: Cons_nth_drop_Suc split: if_splits)
  qed (use assms [OF Suc.prems] in simp)
qed simp

lemma walk_keys_all:
  assumes "\<And>i. i < length ks \<Longrightarrow>
      next_key (Some (ks ! i)) = (if Suc i < length ks then Ok (ks ! Suc i) else Err e)"
    and "next_key None = (if ks = [] then Err e else Ok (ks ! 0))"
  shows "walk_keys n next_key None = (take n ks, if length ks < n then Some (Err e) else None)"
proof (cases ks)
  case Nil
  then show ?thesis using assms(2) by (cases n) auto
next
  case (Cons k ks')
  show ?thesis
  proof (cases n)
    case (Suc n')
    then show ?thesis
      using walk_keys_from [of ks next_key e 0 n', OF assms(1)] assms(2) Cons by auto
  qed simp
qed

lemma find_next_sorted:
  assumes "sorted ks" and "distinct ks" and "i < length ks"
  shows "find (\<lambda>x. ks ! i < x) ks =
    (if Suc i < length ks then Some (ks ! Suc i) else (None :: 'a :: linorder option))"
proof -
  have lt: "ks ! i < ks ! j \<longleftrightarrow> i < j" if "j < length ks" for j
  proof -
    have "sorted_wrt (<) ks" using assms(1,2) by (simp add: strict_sorted_iff)
    then show ?thesis
      using sorted_wrt_nth_less [of "(<)" ks] assms(3) that by (metis less_asym' linorder_neqE_nat order_less_irrefl)
  qed
  show ?thesis
  proof (cases "Suc i < length ks")
    case True
    then have "find (\<lambda>x. ks ! i < x) ks = Some (ks ! Suc i)"
      unfolding find_Some_iff using lt by (intro exI [of _ "Suc i"]) auto
    then show ?thesis using True by simp
  next
    case False
    then have "find (\<lambda>x. ks ! i < x) ks = None"
      unfolding find_None_iff using lt assms(3) by (auto simp: in_set_conv_nth)
    then show ?thesis using False by simp
  qed
qed

definition map_keys :: "'s bpf_map \<Rightarrow> byte list list" where
  "map_keys m =
     (case storage m of
        SHash t \<Rightarrow> RBT.keys t
      | SRingBuf _ \<Rightarrow> []
      | _ \<Rightarrow> map (\<lambda>i. u32_to_bytes (of_nat i)) [0..<entries_max m])"

lemma unat_of_nat_index:
  assumes "i < unat (w :: 32 word)"
  shows "unat (of_nat i :: 32 word) = i"
proof -
  have "unat w < 2 ^ 32" by (rule order_less_le_trans [OF unsigned_less]) simp
  then show ?thesis using assms by (simp add: unat_of_nat take_bit_nat_eq_self)
qed

lemma hash_next_key_alt:
  "hash_next_key t key =
     (if RBT.keys t = [] then Err ENOENT
      else case key of
        None \<Rightarrow> Ok (RBT.keys t ! 0)
      | Some k \<Rightarrow>
          (if RBT.lookup t k = None then Ok (RBT.keys t ! 0)
           else case find (\<lambda>x. k < x) (RBT.keys t) of None \<Rightarrow> Err ENOENT | Some nx \<Rightarrow> Ok nx))"
  by (cases "RBT.keys t") (auto simp: hash_next_key_def split: option.splits)

lemma walk_map_keys:
  assumes wf: "map_wf m" and ty: "map_type (spec m) \<noteq> RingBuf"
  shows "walk_keys n (\<lambda>k. map_get_next_key m k (ksize m)) None =
    (take n (map_keys m), if length (map_keys m) < n then Some (Err ENOENT) else None)"
  using wf
proof (cases rule: map_wf_cases)
  case (hash t)
  let ?ks = "RBT.keys t"
  have len: "length k = ksize m" if "k \<in> set ?ks" for k
    using that hash(4) by (auto simp: RBT.lookup_keys [symmetric] dom_def)
  have mk: "map_keys m = ?ks" using hash by (simp add: map_keys_def)
  show ?thesis
    unfolding mk
  proof (rule walk_keys_all [where e = ENOENT])
    fix i assume i: "i < length ?ks"
    have "RBT.lookup t (?ks ! i) \<noteq> None" using i by (metis RBT.lookup_keys domIff nth_mem)
    then show "map_get_next_key m (Some (?ks ! i)) (ksize m) =
        (if Suc i < length ?ks then Ok (?ks ! Suc i) else Err ENOENT)"
      using i hash len [of "?ks ! i"] len [of "?ks ! Suc i"] find_next_sorted [of ?ks i]
      by (auto simp: map_get_next_key_def storage_get_next_key_def hash_next_key_alt copy_out_def)
  next
    show "map_get_next_key m None (ksize m) = (if ?ks = [] then Err ENOENT else Ok (?ks ! 0))"
      using hash len
      by (auto simp: map_get_next_key_def storage_get_next_key_def hash_next_key_alt copy_out_def)
  qed
next
  case (arr bs)
  then show ?thesis
    by (intro walk_keys_all [where e = ENOENT]) (auto simp: map_keys_def map_get_next_key_def storage_get_next_key_def index_next_key_def key_index_def copy_out_def
      unat_of_nat_index)
next
  case (perf fds slots)
  then show ?thesis
    by (intro walk_keys_all [where e = ENOENT]) (auto simp: map_keys_def map_get_next_key_def storage_get_next_key_def index_next_key_def key_index_def copy_out_def
      unat_of_nat_index)
qed (use ty in simp)

section \<open>Live maps and the budget\<close>

text \<open>
  The kernel's maps: the budget, the identifier counter and the maps that still have a reference.
  Creating charges the budget, dropping the last reference releases the charge, and the element
  operations replace a map by one with the same attributes.
\<close>

record 's registry =
  reg_budget :: budget
  reg_next_id :: "32 word"
  reg_live :: "'s bpf_map list"

definition registry_new :: "'s registry" where
  "registry_new = \<lparr>reg_budget = budget_new BPF_MAP_TOTAL_BYTES, reg_next_id = 1, reg_live = []\<rparr>"

inductive registry_step :: "'s registry \<Rightarrow> 's registry \<Rightarrow> bool" where
  create:
    "map_spec_validate req = Inr sp \<Longrightarrow>
     create_in alloc_ok sp (reg_budget r) (reg_next_id r) = (b', n', res) \<Longrightarrow>
     registry_step r \<lparr>reg_budget = b', reg_next_id = n',
       reg_live = (case res of Inl _ \<Rightarrow> reg_live r | Inr m \<Rightarrow> reg_live r @ [m])\<rparr>"
| drop:
    "i < length (reg_live r) \<Longrightarrow>
     registry_step r (r\<lparr>reg_budget := map_drop (reg_budget r) (reg_live r ! i),
       reg_live := take i (reg_live r) @ drop (Suc i) (reg_live r)\<rparr>)"
| update:
    "i < length (reg_live r) \<Longrightarrow> length v = vsize (reg_live r ! i) \<Longrightarrow>
     map_update (reg_live r ! i) key v flags0 = Ok m' \<Longrightarrow>
     registry_step r (r\<lparr>reg_live := (reg_live r)[i := m']\<rparr>)"
| delete:
    "i < length (reg_live r) \<Longrightarrow> map_delete (reg_live r ! i) key = Ok m' \<Longrightarrow>
     registry_step r (r\<lparr>reg_live := (reg_live r)[i := m']\<rparr>)"
| write_elem:
    "i < length (reg_live r) \<Longrightarrow> write_value_bytes (reg_live r ! i) key off data = Ok m' \<Longrightarrow>
     registry_step r (r\<lparr>reg_live := (reg_live r)[i := m']\<rparr>)"
| ringbuf:
    "i < length (reg_live r) \<Longrightarrow> output_ringbuf (reg_live r ! i) data flags0 = (m', res) \<Longrightarrow>
     registry_step r (r\<lparr>reg_live := (reg_live r)[i := m']\<rparr>)"
| slot:
    "i < length (reg_live r) \<Longrightarrow> set_slot (reg_live r ! i) index fd sl = Ok m' \<Longrightarrow>
     registry_step r (r\<lparr>reg_live := (reg_live r)[i := m']\<rparr>)"

definition registry_inv :: "'s registry \<Rightarrow> bool" where
  "registry_inv r \<longleftrightarrow>
     limit (reg_budget r) = BPF_MAP_TOTAL_BYTES \<and>
     charged (reg_budget r) = sum_list (map (\<lambda>m. storage_bytes (spec m)) (reg_live r)) \<and>
     charged (reg_budget r) \<le> BPF_MAP_TOTAL_BYTES \<and>
     live_maps (reg_budget r) = length (reg_live r) \<and>
     (\<forall>m\<in>set (reg_live r). map_wf m \<and> map_id m \<noteq> 0)"

lemma sum_list_take_drop:
  fixes f :: "'a \<Rightarrow> nat"
  assumes "i < length xs"
  shows "sum_list (map f xs) = sum_list (map f (take i xs)) + f (xs ! i) + sum_list (map f (drop (Suc i) xs))"
  using arg_cong [OF id_take_nth_drop [OF assms], of "\<lambda>l. sum_list (map f l)"] by simp

lemma registry_inv_replace:
  assumes inv: "registry_inv r" and i: "i < length (reg_live r)"
    and "spec m' = spec (reg_live r ! i)" and "map_wf m'" and "map_id m' = map_id (reg_live r ! i)"
  shows "registry_inv (r\<lparr>reg_live := (reg_live r)[i := m']\<rparr>)"
proof -
  have "map (\<lambda>m. storage_bytes (spec m)) ((reg_live r)[i := m']) = map (\<lambda>m. storage_bytes (spec m)) (reg_live r)"
    using i assms(3) by (intro nth_equalityI) (auto simp: nth_list_update)
  moreover have "\<forall>m\<in>set ((reg_live r)[i := m']). map_wf m \<and> map_id m \<noteq> 0"
    using inv i assms(4,5) set_update_subset_insert [of "reg_live r" i m']
    by (auto simp: registry_inv_def)
  ultimately show ?thesis using inv by (simp add: registry_inv_def)
qed

lemma map_ids_kept:
  "map_update m k v fl = Ok m' \<Longrightarrow> map_id m' = map_id m"
  "map_delete m k = Ok m' \<Longrightarrow> map_id m' = map_id m"
  "write_value_bytes m k off d = Ok m' \<Longrightarrow> map_id m' = map_id m"
  "output_ringbuf m d fl = (m', r) \<Longrightarrow> map_id m' = map_id m"
  "set_slot m ix fd sl = Ok m' \<Longrightarrow> map_id m' = map_id m"
  by (auto simp: map_update_def map_delete_def write_value_bytes_def output_ringbuf_def set_slot_def
      outcome_simps Let_def split: if_splits storage.splits prod.splits)

lemma set_slot_wf:
  assumes wf: "map_wf m" and "set_slot m ix fd sl = Ok m'"
  shows "map_wf m'" and "spec m' = spec m"
  using assms
  by (auto simp: set_slot_def map_wf_def storage_ok_def Let_def split: if_splits storage.splits)

lemma element_ops_wf:
  assumes wf: "map_wf m"
  shows "map_update m k v fl = Ok m' \<Longrightarrow> map_wf m' \<and> spec m' = spec m"
    and "map_delete m k = Ok m' \<Longrightarrow> map_wf m' \<and> spec m' = spec m"
    and "write_value_bytes m k off d = Ok m' \<Longrightarrow> map_wf m' \<and> spec m' = spec m"
proof -
  assume up: "map_update m k v fl = Ok m'"
  then have c: "length k = ksize m" "length v = vsize m" "fl \<le> BPF_EXIST"
    by (auto simp: map_update_def not_less split: if_splits)
  have "map_type (spec m) \<noteq> RingBuf"
  proof
    assume "map_type (spec m) = RingBuf"
    with wf show False
      by (cases rule: map_wf_cases) (use up in \<open>auto simp: map_update_def storage_update_elem_def split: if_splits\<close>)
  qed
  then show "map_wf m' \<and> spec m' = spec m" using map_update_cases [OF wf c] up by simp
next
  assume d: "map_delete m k = Ok m'"
  then have "length k = ksize m" by (auto simp: map_delete_def split: if_splits)
  then show "map_wf m' \<and> spec m' = spec m" using map_delete_cases [OF wf] d by fastforce
next
  assume w: "write_value_bytes m k off d = Ok m'"
  then have "length k = ksize m" by (auto simp: write_value_bytes_def split: if_splits)
  then show "map_wf m' \<and> spec m' = spec m" using write_value_bytes_cases [OF wf, of k off d] w by auto
qed

lemma registry_live_wf: "registry_inv r \<Longrightarrow> i < length (reg_live r) \<Longrightarrow> map_wf (reg_live r ! i)"
  by (simp add: registry_inv_def)

lemma registry_create_inv:
  assumes inv: "registry_inv r" and ok: "spec_ok sp"
    and cr: "create_in alloc_ok sp (reg_budget r) (reg_next_id r) = (b', n', res)"
  shows "registry_inv \<lparr>reg_budget = b', reg_next_id = n',
    reg_live = (case res of Inl _ \<Rightarrow> reg_live r | Inr m \<Rightarrow> reg_live r @ [m])\<rparr>"
proof (cases res)
  case (Inl e)
  then have "b' = reg_budget r"
    using cr by (auto simp: create_in_def charge_def charge_drop_def split: sum.splits prod.splits if_splits)
  then show ?thesis using inv Inl by (simp add: registry_inv_def)
next
  case (Inr m)
  have "b' = (reg_budget r)\<lparr>charged := charged (reg_budget r) + storage_bytes sp, live_maps := live_maps (reg_budget r) + 1\<rparr>"
    "charged (reg_budget r) + storage_bytes sp \<le> limit (reg_budget r)"
    using cr Inr by (auto simp: create_in_def charge_def split: sum.splits prod.splits if_splits)
  then show ?thesis
    using inv Inr create_in_wf [OF ok cr [unfolded Inr]] by (simp add: registry_inv_def)
qed

lemma registry_step_inv:
  assumes "registry_step r r'" and inv: "registry_inv r"
  shows "registry_inv r'"
  using assms(1)
proof (cases rule: registry_step.cases)
  case (create req sp alloc_ok b' n' res)
  then show ?thesis using registry_create_inv [OF inv map_spec_validate_ok] by simp
next
  case (drop i)
  then show ?thesis
    using inv sum_list_take_drop [OF drop(2), of "\<lambda>m. storage_bytes (spec m)"]
    by (auto simp: registry_inv_def map_drop_def charge_drop_def dest: in_set_takeD in_set_dropD)
next
  case (update i v key flags0 m')
  note wf = element_ops_wf(1) [OF registry_live_wf [OF inv update(2)] update(4)]
  show ?thesis
    unfolding update(1) by (rule registry_inv_replace [OF inv update(2)]) (use wf map_ids_kept(1) update(4) in auto)
next
  case (delete i key m')
  note wf = element_ops_wf(2) [OF registry_live_wf [OF inv delete(2)] delete(3)]
  show ?thesis
    unfolding delete(1) by (rule registry_inv_replace [OF inv delete(2)]) (use wf map_ids_kept(2) delete(3) in auto)
next
  case (write_elem i key off data m')
  note wf = element_ops_wf(3) [OF registry_live_wf [OF inv write_elem(2)] write_elem(3)]
  show ?thesis
    unfolding write_elem(1)
    by (rule registry_inv_replace [OF inv write_elem(2)]) (use wf map_ids_kept(3) write_elem(3) in auto)
next
  case (ringbuf i data flags0 m' res)
  note wf = output_ringbuf_wf [OF registry_live_wf [OF inv ringbuf(2)], of data flags0]
  show ?thesis
    unfolding ringbuf(1)
    by (rule registry_inv_replace [OF inv ringbuf(2)]) (use wf map_ids_kept(4) ringbuf(3) in auto)
next
  case (slot i index fd sl m')
  note wf = set_slot_wf [OF registry_live_wf [OF inv slot(2)] slot(3)]
  show ?thesis
    unfolding slot(1) by (rule registry_inv_replace [OF inv slot(2)]) (use wf map_ids_kept(5) slot(3) in auto)
qed

section \<open>Maps as element stores\<close>

fun upd_all :: "('s \<Rightarrow> 'k \<Rightarrow> 'v \<Rightarrow> 's option) \<Rightarrow> 's \<Rightarrow> ('k \<times> 'v) list \<Rightarrow> 's option" where
  "upd_all upd s [] = Some s"
| "upd_all upd s ((k, v) # kvs) = (case upd s k v of None \<Rightarrow> None | Some s' \<Rightarrow> upd_all upd s' kvs)"

locale element_store =
  fixes inv :: "'s \<Rightarrow> bool" and look :: "'s \<Rightarrow> 'k \<Rightarrow> 'v option"
    and upd :: "'s \<Rightarrow> 'k \<Rightarrow> 'v \<Rightarrow> 's option" and del :: "'s \<Rightarrow> 'k \<Rightarrow> 's option"
  assumes upd_inv: "inv s \<Longrightarrow> upd s k v = Some s' \<Longrightarrow> inv s'"
    and upd_look: "inv s \<Longrightarrow> upd s k v = Some s' \<Longrightarrow> look s' = (look s)(k \<mapsto> v)"
    and del_inv: "inv s \<Longrightarrow> del s k = Some s' \<Longrightarrow> inv s'"
    and del_look: "inv s \<Longrightarrow> del s k = Some s' \<Longrightarrow> look s' = (look s)(k := None)"
begin

lemma upd_all_look:
  "inv s \<Longrightarrow> upd_all upd s kvs = Some s' \<Longrightarrow> inv s' \<and> look s' = look s ++ map_of (rev kvs)"
proof (induction kvs arbitrary: s)
  case (Cons kv kvs)
  obtain k v where kv: "kv = (k, v)" by (cases kv)
  then obtain s1 where s1: "upd s k v = Some s1" "upd_all upd s1 kvs = Some s'"
    using Cons.prems by (auto split: option.splits)
  have "look s' = look s1 ++ map_of (rev kvs)" "inv s'"
    using Cons.IH [OF upd_inv [OF Cons.prems(1) s1(1)] s1(2)] by auto
  then show ?case
    using upd_look [OF Cons.prems(1) s1(1)] kv by (auto simp: fun_eq_iff map_add_def split: option.splits)
qed simp

lemma upd_del:
  assumes "inv s" and "upd s k v = Some s1" and "del s1 k = Some s2" and "look s k = None"
  shows "look s2 = look s"
  using upd_look [OF assms(1,2)] del_look [OF upd_inv [OF assms(1,2)] assms(3)] assms(4)
  by (auto simp: fun_eq_iff)

end

definition map_upd :: "'s bpf_map \<Rightarrow> byte list \<Rightarrow> byte list \<Rightarrow> 's bpf_map option" where
  "map_upd m k v = (case map_update m k v BPF_ANY of Ok m' \<Rightarrow> Some m' | _ \<Rightarrow> None)"

definition map_del :: "'s bpf_map \<Rightarrow> byte list \<Rightarrow> 's bpf_map option" where
  "map_del m k = (case map_delete m k of Ok m' \<Rightarrow> Some m' | _ \<Rightarrow> None)"

lemma map_update_Ok:
  assumes "map_wf m" and up: "map_update m k v fl = Ok m'"
  shows "length k = ksize m" "length v = vsize m" "fl \<le> BPF_EXIST" "map_type (spec m) \<noteq> RingBuf"
proof -
  show "length k = ksize m" "length v = vsize m" "fl \<le> BPF_EXIST"
    using up by (auto simp: map_update_def not_less split: if_splits)
  show "map_type (spec m) \<noteq> RingBuf"
    using assms(1)
    by (cases rule: map_wf_cases) (use up in \<open>auto simp: map_update_def storage_update_elem_def split: if_splits\<close>)
qed

interpretation mes: element_store map_wf map_view map_upd map_del
proof unfold_locales
  fix m m' :: "'a bpf_map" and k v
  assume wf: "map_wf m"
  show "map_upd m k v = Some m' \<Longrightarrow> map_wf m'" and "map_upd m k v = Some m' \<Longrightarrow> map_view m' = (map_view m)(k \<mapsto> v)"
    using map_update_Ok [OF wf, of k v 0] map_update_cases [OF wf, of k v 0]
    by (auto simp: map_upd_def split: outcome.splits)
  have "map_delete m k = Ok m' \<Longrightarrow> length k = ksize m" by (auto simp: map_delete_def split: if_splits)
  then show "map_del m k = Some m' \<Longrightarrow> map_wf m'" and "map_del m k = Some m' \<Longrightarrow> map_view m' = (map_view m)(k := None)"
    using map_delete_cases [OF wf, of k] by (auto simp: map_del_def split: outcome.splits)
qed

section \<open>Properties\<close>

text \<open>
  The error that an update has to report, in terms of the lookups: an index out of range first, then the flags, then a
  full hash map.
\<close>

definition present :: "'s bpf_map \<Rightarrow> byte list \<Rightarrow> bool" where
  "present m k \<longleftrightarrow> length k = ksize m \<and> map_lookup m k (vsize m) \<noteq> Err ENOENT"

definition update_error :: "'s bpf_map \<Rightarrow> byte list \<Rightarrow> 64 word \<Rightarrow> errno option" where
  "update_error m key flags0 =
     (if map_type (spec m) \<noteq> Hash \<and> entries_max m \<le> unat (u32_from_bytes key) then Some E2BIG
      else if flags0 = BPF_NOEXIST \<and> present m key then Some EEXIST
      else if flags0 = BPF_EXIST \<and> \<not> present m key then Some ENOENT
      else if map_type (spec m) = Hash \<and> \<not> present m key \<and> entries_max m \<le> card {k. present m k} then Some E2BIG
      else None)"

lemma present_view:
  assumes "map_wf m" and "map_type (spec m) \<noteq> RingBuf"
  shows "present m = (\<lambda>k. map_view m k \<noteq> None)"
proof (rule ext)
  fix k
  show "present m k \<longleftrightarrow> map_view m k \<noteq> None"
  proof (cases "length k = ksize m")
    case True
    then show ?thesis using map_lookup_view [OF assms(1) True assms(2)] by (auto simp: present_def split: option.splits)
  next
    case False
    then show ?thesis using map_view_length(1) [OF assms(1), of k] by (cases "map_view m k") (auto simp: present_def)
  qed
qed

lemma map_update_error:
  assumes wf: "map_wf m" and k: "length key = ksize m" and v: "length v = vsize m"
    and fl: "flags0 \<le> BPF_EXIST" and ty: "map_type (spec m) \<noteq> RingBuf"
  shows "case map_update m key v flags0 of
    Ok m' \<Rightarrow> update_error m key flags0 = None | Err e \<Rightarrow> update_error m key flags0 = Some e | Panic \<Rightarrow> False"
  using wf
proof (cases rule: map_wf_cases)
  case (arr bs)
  let ?i = "unat (u32_from_bytes key)"
  show ?thesis
    using arr k v fl index_fits [of ?i "entries_max m" "vsize m"]
    by (cases "?i < entries_max m")
      (auto simp: map_update_def storage_update_elem_def key_index_def slice_of_def map_view_def update_error_def present_view [OF wf ty])
next
  case (hash t)
  have "card {k. RBT.lookup t k \<noteq> None} = length (RBT.keys t)" by (simp add: rbt_len dom_def)
  then show ?thesis
    using hash k v fl by (auto simp: map_update_def storage_update_elem_def map_view_def update_error_def present_view [OF wf ty] split: option.splits)
next
  case (perf fds slots)
  let ?i = "unat (u32_from_bytes key)"
  show ?thesis
    using perf k v fl
    by (cases "?i < entries_max m"; cases "fds ! ?i")
      (auto simp: map_update_def storage_update_elem_def key_index_def map_view_def update_error_def present_view [OF wf ty])
qed (use ty in simp)

text \<open>
  C20: updating an element. On a well-formed map of a kind that has elements, \<open>update\<close> with a key and a
  value of the right sizes either succeeds, after which looking up the key returns exactly the new
  value, every other key is unchanged and the flags were honoured; or it fails. It fails with \<open>E2BIG\<close> exactly when the
  index is out of range, or a hash map holds as many keys as it may and the key would be a new one, with \<open>EEXIST\<close> and
  \<open>ENOENT\<close> exactly when the flags forbid the update, and in no other case. It never panics.
\<close>

theorem map_update_lookup:
  assumes "map_wf m" and "length key = ksize m" and "length v = vsize m"
    and "flags0 \<le> BPF_EXIST" and "map_type (spec m) \<noteq> RingBuf"
  shows "case map_update m key v flags0 of
      Ok m' \<Rightarrow> update_error m key flags0 = None \<and> map_wf m' \<and> map_lookup m' key (vsize m) = Ok v \<and>
        (\<forall>k. length k = ksize m \<and> k \<noteq> key \<longrightarrow> map_lookup m' k (vsize m) = map_lookup m k (vsize m)) \<and>
        (flags0 = BPF_NOEXIST \<longrightarrow> map_lookup m key (vsize m) = Err ENOENT) \<and>
        (flags0 = BPF_EXIST \<longrightarrow> (\<exists>old. map_lookup m key (vsize m) = Ok old))
    | Err e \<Rightarrow> update_error m key flags0 = Some e
    | Panic \<Rightarrow> False"
proof (cases "map_update m key v flags0")
  case (Ok m')
  then have m': "map_wf m'" "spec m' = spec m" "map_view m' = (map_view m)(key \<mapsto> v)"
    "flags0 = BPF_NOEXIST \<Longrightarrow> map_view m key = None" "flags0 = BPF_EXIST \<Longrightarrow> map_view m key \<noteq> None"
    using map_update_cases [OF assms] by auto
  then show ?thesis
    using Ok assms map_lookup_view [OF assms(1)] map_lookup_view [OF m'(1)] map_update_error [OF assms] by auto
qed (use map_update_error [OF assms] in simp_all)

definition example_hash :: "unit bpf_map" where
  "example_hash = \<lparr>map_id = 1, spec = \<lparr>map_type = Hash, key_size = 2, value_size = 3, max_entries = 2,
     map_flags = 0, spec_name = replicate 16 0, storage_bytes = 10\<rparr>,
     storage = SHash (RBT.insert [1, 1] [7, 8, 9] RBT.empty)\<rparr>"

lemma example_hash_wf: "map_wf example_hash"
proof -
  have "length (RBT.keys (RBT.insert [1, 1] [7, 8, 9] RBT.empty :: (byte list, byte list) rbt)) = 1"
    by (simp add: rbt_len)
  then show ?thesis
    by (auto simp: map_wf_def spec_ok_def storage_ok_def example_hash_def map_key_ok_def map_val_ok_def
        split: if_splits)
qed

theorem map_update_lookup_witness:
  "map_wf example_hash \<and> update_error example_hash [1, 1] BPF_NOEXIST = Some EEXIST \<and>
   (case map_update example_hash [2, 1] [4, 5, 6] BPF_ANY of
      Ok m' \<Rightarrow> map_lookup m' [2, 1] 3 = Ok [4, 5, 6] | Err e \<Rightarrow> False | Panic \<Rightarrow> False)"
proof -
  have s: "ksize example_hash = 2" "vsize example_hash = 3" "map_type (spec example_hash) = Hash"
    by (simp_all add: example_hash_def)
  have "map_lookup example_hash [1, 1] 3 = Ok [7, 8, 9]" by (simp add: map_lookup_def example_hash_def copy_out_def)
  then have "update_error example_hash [1, 1] BPF_NOEXIST = Some EEXIST" by (simp add: update_error_def present_def s)
  moreover have "length (RBT.keys (RBT.insert [1, 1] [7, 8, 9] RBT.empty :: (byte list, byte list) rbt)) = 1"
    by (simp add: rbt_len)
  then have "\<exists>m'. map_update example_hash [2, 1] [4, 5, 6] 0 = Ok m'"
    by (simp add: map_update_def storage_update_elem_def example_hash_def)
  ultimately show ?thesis
    using map_update_lookup [OF example_hash_wf, of "[2, 1]" "[4, 5, 6]" 0] example_hash_wf s by auto
qed

text \<open>
  C27: a batch of updates. When every update of a sequence succeeds, looking up a key afterwards returns
  the last value written to it, or the old content where nothing was written.
\<close>

theorem map_updates_last_write_wins:
  assumes "map_wf m" and "upd_all map_upd m kvs = Some m'" and "length k = ksize m'"
    and "map_type (spec m') \<noteq> RingBuf"
  shows "map_lookup m' k (vsize m') =
    (case map_of (rev kvs) k of
       Some v \<Rightarrow> Ok v | None \<Rightarrow> (case map_view m k of Some v \<Rightarrow> Ok v | None \<Rightarrow> Err ENOENT))"
  using mes.upd_all_look [OF assms(1,2)] map_lookup_view [of m' k, OF _ assms(3,4)]
  by (auto simp: map_add_def split: option.splits)

theorem map_updates_last_write_wins_witness:
  "map_wf example_hash \<and> (\<exists>m'. upd_all map_upd example_hash [([2, 1], [0, 0, 1]), ([2, 1], [0, 0, 2])] = Some m' \<and>
     map_lookup m' [2, 1] 3 = Ok [0, 0, 2])"
proof -
  let ?t = "RBT.insert [1, 1] [7, 8, 9] RBT.empty :: (byte list, byte list) rbt"
  define m' where "m' = example_hash\<lparr>storage := SHash (RBT.insert [2, 1] [0, 0, 2] (RBT.insert [2, 1] [0, 0, 1] ?t))\<rparr>"
  have "length (RBT.keys ?t) = 1" by (simp add: rbt_len)
  then have run: "upd_all map_upd example_hash [([2, 1], [0, 0, 1]), ([2, 1], [0, 0, 2])] = Some m'"
    by (simp add: map_upd_def map_update_def storage_update_elem_def example_hash_def m'_def)
  then show ?thesis
    using map_updates_last_write_wins [OF example_hash_wf run, of "[2, 1]"] example_hash_wf
    by (simp add: m'_def example_hash_def)
qed

text \<open>The keys of a walk: those that a lookup finds, and all indices of an array of perf events.\<close>

lemma index_keys:
  defines "f \<equiv> \<lambda>i. u32_to_bytes (of_nat i :: 32 word)"
  shows "inj_on f {0..<unat (n :: 32 word)}"
    and "f ` {0..<unat n} = {k. length k = 4 \<and> unat (u32_from_bytes k) < unat n}"
proof -
  show "inj_on f {0..<unat n}"
  proof (rule inj_onI)
    fix i j assume ij: "i \<in> {0..<unat n}" "j \<in> {0..<unat n}" "f i = f j"
    then have "u32_from_bytes (f i) = u32_from_bytes (f j)" by simp
    then have "unat (of_nat i :: 32 word) = unat (of_nat j :: 32 word)" by (simp add: f_def)
    then show "i = j" using ij unat_of_nat_index by simp
  qed
  have "k \<in> f ` {0..<unat n}" if "length k = 4" "unat (u32_from_bytes k) < unat n" for k
    using that u32_to_from_bytes [of k] by (intro image_eqI [of _ _ "unat (u32_from_bytes k)"]) (auto simp: f_def)
  then show "f ` {0..<unat n} = {k. length k = 4 \<and> unat (u32_from_bytes k) < unat n}"
    by (auto simp: f_def unat_of_nat_index)
qed

lemma map_keys_set:
  assumes wf: "map_wf m" and ty: "map_type (spec m) \<noteq> RingBuf"
  shows "distinct (map_keys m)"
    and "set (map_keys m) =
      (if map_type (spec m) = PerfEventArray then {k. length k = 4 \<and> unat (u32_from_bytes k) < entries_max m} else {k. present m k})"
proof -
  have "distinct (map_keys m) \<and> set (map_keys m) =
      (if map_type (spec m) = PerfEventArray then {k. length k = 4 \<and> unat (u32_from_bytes k) < entries_max m} else {k. present m k})"
    using wf
  proof (cases rule: map_wf_cases)
    case (arr bs)
    then have "{k. map_view m k \<noteq> None} = {k. length k = 4 \<and> unat (u32_from_bytes k) < entries_max m}"
      by (auto simp: map_view_def)
    then show ?thesis using arr index_keys [of "max_entries (spec m)"] by (simp add: map_keys_def present_view [OF wf ty] distinct_map)
  next
    case (hash t)
    then show ?thesis by (auto simp: map_keys_def present_view [OF wf ty] map_view_def RBT.lookup_keys [symmetric] dom_def)
  next
    case (perf fds slots)
    then show ?thesis using index_keys [of "max_entries (spec m)"] by (simp add: map_keys_def present_view [OF wf ty] distinct_map)
  qed (use ty in simp)
  then show "distinct (map_keys m)"
    and "set (map_keys m) =
      (if map_type (spec m) = PerfEventArray then {k. length k = 4 \<and> unat (u32_from_bytes k) < entries_max m} else {k. present m k})"
    by auto
qed

text \<open>
  C21: enumerating a map of a kind that has elements. Starting without a key and calling \<open>get_next_key\<close> with the
  key it returned last visits every key exactly once, and the call after the last key fails with \<open>ENOENT\<close>, not earlier
  and in no other way. The keys of a hash map and of an array are those that a lookup finds; an array of perf events is
  enumerated by all of its indices.
\<close>

theorem get_next_key_enumerates:
  assumes "map_wf m" and "map_type (spec m) \<noteq> RingBuf"
  shows "\<exists>ks. distinct ks \<and>
    set ks = (if map_type (spec m) = PerfEventArray
              then {k. length k = 4 \<and> unat (u32_from_bytes k) < unat (max_entries (spec m))}
              else {k. length k = ksize m \<and> map_lookup m k (vsize m) \<noteq> Err ENOENT}) \<and>
    (\<forall>n. walk_keys n (\<lambda>k. map_get_next_key m k (ksize m)) None =
       (take n ks, if length ks < n then Some (Err ENOENT) else None))"
  using map_keys_set [OF assms] walk_map_keys [OF assms] unfolding present_def by blast

theorem get_next_key_enumerates_witness:
  "map_wf example_hash \<and> walk_keys 2 (\<lambda>k. map_get_next_key example_hash k 2) None = ([[1, 1]], Some (Err ENOENT))"
proof -
  have sizes: "ksize example_hash = 2" "vsize example_hash = 3" "map_type (spec example_hash) = Hash"
    by (simp_all add: example_hash_def)
  have look: "length k = 2 \<and> map_lookup example_hash k 3 \<noteq> Err ENOENT \<longleftrightarrow> k = [1, 1]" for k
    by (auto simp: map_lookup_def example_hash_def copy_out_def split: option.splits if_splits)
  obtain ks where ks: "distinct ks" "set ks = {k. length k = 2 \<and> map_lookup example_hash k 3 \<noteq> Err ENOENT}"
    and w: "\<And>n. walk_keys n (\<lambda>k. map_get_next_key example_hash k 2) None = (take n ks, if length ks < n then Some (Err ENOENT) else None)"
    using get_next_key_enumerates [OF example_hash_wf] unfolding sizes by auto
  have "ks = [[1, 1]]" using ks unfolding look by (cases ks; cases "tl ks") auto
  then show ?thesis using w [of 2] example_hash_wf by simp
qed

text \<open>
  C28: the memory budget is exact. In every state the kernel reaches by creating maps (from validated
  attributes, with the allocator failing or not), dropping them and operating on their elements, the
  charged bytes are the sum over the live maps and stay within the limit, the live count is right, and
  every live map is well-formed.
\<close>

theorem map_budget_exact:
  assumes "registry_step\<^sup>*\<^sup>* registry_new r"
  shows "charged (reg_budget r) = sum_list (map (\<lambda>m. storage_bytes (spec m)) (reg_live r)) \<and>
    charged (reg_budget r) \<le> BPF_MAP_TOTAL_BYTES \<and> live_maps (reg_budget r) = length (reg_live r) \<and>
    (\<forall>m\<in>set (reg_live r). map_wf m \<and> map_id m \<noteq> 0)"
proof -
  have "registry_inv registry_new" by (simp add: registry_inv_def registry_new_def budget_new_def)
  with assms have "registry_inv r" by (induction rule: rtranclp_induct) (auto intro: registry_step_inv)
  then show ?thesis by (simp add: registry_inv_def)
qed

definition example_request :: map_create_request where
  "example_request = \<lparr>req_map_type = 1, req_key_size = 2, req_value_size = 3, req_max_entries = 2,
     req_map_flags = 0, req_inner_map_fd = 0, req_numa_node = 0, req_map_name = replicate 16 0,
     req_map_ifindex = 0, req_btf_fd = 0, req_btf_key_type_id = 0, req_btf_value_type_id = 0,
     req_btf_vmlinux_value_type_id = 0, req_map_extra = 0\<rparr>"

theorem map_budget_exact_witness:
  "\<exists>r. registry_step\<^sup>*\<^sup>* (registry_new :: unit registry) r \<and> length (reg_live r) = 1 \<and> charged (reg_budget r) = 10"
proof -
  let ?sp = "\<lparr>map_type = Hash, key_size = 2, value_size = 3, max_entries = 2,
     map_flags = 0, spec_name = replicate 16 0, storage_bytes = 10\<rparr> :: map_spec"
  let ?m = "\<lparr>map_id = 1, spec = ?sp, storage = SHash RBT.empty\<rparr> :: unit bpf_map"
  let ?r = "\<lparr>reg_budget = \<lparr>limit = BPF_MAP_TOTAL_BYTES, charged = 10, live_maps = 1\<rparr>, reg_next_id = 2,
     reg_live = [?m]\<rparr>"
  have "map_spec_validate example_request = Inr ?sp"
    by (simp add: map_spec_validate_def example_request_def validate_obj_name_def map_type_from_raw_def
        map_key_ok_def map_val_ok_def map_storage_bytes_def Let_def takeWhile_eq_Nil_iff)
  moreover have "create_in True ?sp (reg_budget (registry_new :: unit registry)) (reg_next_id (registry_new :: unit registry)) =
      (reg_budget ?r, 2, Inr ?m)"
    by (simp add: create_in_def charge_def registry_new_def budget_new_def create_storage_def alloc_map_id_def)
  ultimately have "registry_step registry_new ?r"
    using registry_step.create [of example_request ?sp True registry_new "reg_budget ?r" 2 "Inr ?m"]
    by (simp add: registry_new_def)
  then have "registry_step\<^sup>*\<^sup>* registry_new ?r" by (rule r_into_rtranclp)
  then show ?thesis using map_budget_exact [of ?r] by (intro exI [of _ ?r]) simp
qed

end
