(* ===== verification/Bpf_Verifier.thy ===== *)
theory Bpf_Verifier
  imports Bpf_Map
begin

text \<open>
  The eBPF verifier, \<open>pulse_core/src/bpf/verifier.rs\<close>: the syntactic and control-flow pass, the
  reachability check, and the abstract interpretation with its work list. The diagnostic log, which
  the verifier only writes, is not part of the model; an access to an array out of range is the
  outcome \<^const>\<open>Panic\<close>; \<open>i32\<close> arithmetic wraps (\<^const>\<open>wrap_i32\<close>).
\<close>

section \<open>Configuration and abstract states\<close>

abbreviation (input) BPF_MAXINSNS :: nat where "BPF_MAXINSNS \<equiv> 4096"
abbreviation (input) BPF_MAX_STATES :: nat where "BPF_MAX_STATES \<equiv> 65536"
abbreviation (input) BPF_STACK_SIZE :: nat where "BPF_STACK_SIZE \<equiv> 512"
abbreviation (input) MAX_CONTEXT_SIZE :: nat where "MAX_CONTEXT_SIZE \<equiv> 80"

datatype bpf_prog_type = Tracepoint | PerfEvent

text \<open>The size of \<open>PerfEventContext\<close>: four 64-bit and four 32-bit fields.\<close>

abbreviation (input) PERF_EVENT_CONTEXT_SIZE :: nat where
  "PERF_EVENT_CONTEXT_SIZE \<equiv> 8 * 3 + 4 * 4 + 8"

fun max_context_size_for_prog_type :: "bpf_prog_type \<Rightarrow> nat" where
  "max_context_size_for_prog_type PerfEvent = PERF_EVENT_CONTEXT_SIZE"
| "max_context_size_for_prog_type Tracepoint = MAX_CONTEXT_SIZE"

record verifier_config =
  prog_type :: bpf_prog_type
  max_insns :: nat
  max_states :: nat

definition verifier_config_new :: "bpf_prog_type \<Rightarrow> verifier_config" where
  "verifier_config_new ty = \<lparr>prog_type = ty, max_insns = BPF_MAXINSNS, max_states = BPF_MAX_STATES\<rparr>"

datatype reg_type =
    NotInit
  | Scalar
  | PtrContext int
  | PtrStack int
  | PtrMap nat
  | PtrMapValue nat int bool

record verifier_state =
  vregs :: "reg_type list"
  vstack_init :: "bool list"

definition verifier_initial :: verifier_state where
  "verifier_initial =
     \<lparr>vregs = (replicate 11 NotInit)[1 := PtrContext 0, 10 := PtrStack 0],
      vstack_init = replicate BPF_STACK_SIZE False\<rparr>"

record 's verified_program =
  vp_prog_type :: bpf_prog_type
  vp_insns :: "bpf_insn list"
  vp_maps :: "'s bpf_map list"

section \<open>Pass 1\<close>

definition validate_jump_target ::
  "nat \<Rightarrow> 16 word \<Rightarrow> nat \<Rightarrow> bool list \<Rightarrow> (errno, nat) outcome" where
  "validate_jump_target start off n is_slot2 =
     (let target = int start + 1 + sint off
      in if target < 0 \<or> target \<ge> int n then Err EINVAL
         else if nat target \<ge> length is_slot2 then Panic
         else if is_slot2 ! nat target then Err EINVAL
         else if target \<le> int start then Err EINVAL
         else Ok (nat target))"

text \<open>The per-instruction checks of the first loop, for an instruction that is not \<open>LD_IMM64\<close>.\<close>

definition check_insn :: "bpf_insn \<Rightarrow> (errno, unit) outcome" where
  "check_insn i =
     (if insn_class i \<in> {BPF_LD, BPF_LDX, BPF_ST, BPF_STX} \<and> insn_mode i = BPF_ATOMIC then Err EINVAL
      else if insn_class i \<in> {BPF_LD, BPF_LDX, BPF_ST, BPF_STX} \<and>
              insn_mode i \<in> {BPF_ABS, BPF_IND, BPF_LEN, BPF_MSH} then Err EINVAL
      else if dst_reg i > 10 \<or> src_reg i > 10 then Err EINVAL
      else if dst_reg i = 10 \<and> insn_class i \<in> {BPF_ALU, BPF_ALU64, BPF_LD, BPF_LDX} then Err EINVAL
      else if insn_class i \<notin> {BPF_LD, BPF_LDX, BPF_ST, BPF_STX, BPF_ALU, BPF_JMP, BPF_JMP32, BPF_ALU64}
      then Err EINVAL
      else Ok ())"

function check_insns :: "bpf_insn list \<Rightarrow> nat \<Rightarrow> bool list \<Rightarrow> (errno, bool list) outcome" where
  "check_insns insns i is_slot2 =
     (if i \<ge> length insns then Ok is_slot2
      else if is_ld_imm64 (insns ! i) then
        (if i + 1 \<ge> length insns then Err EINVAL
         else
           (let slot2 = insns ! (i + 1)
            in if code slot2 \<noteq> 0 \<or> dst_reg slot2 \<noteq> 0 \<or> src_reg slot2 \<noteq> 0 \<or> insn_off slot2 \<noteq> 0
               then Err EINVAL
               else if i + 1 \<ge> length is_slot2 then Panic
               else check_insns insns (i + 2) (is_slot2[i + 1 := True])))
      else case check_insn (insns ! i) of
             Ok _ \<Rightarrow> check_insns insns (i + 1) is_slot2
           | Err e \<Rightarrow> Err e
           | Panic \<Rightarrow> Panic)"
  by pat_completeness auto
termination
  by (relation "measure (\<lambda>(insns, i, is_slot2). length insns - i)") auto

declare check_insns.simps [simp del]

text \<open>The control-flow edges of one instruction; \<open>next_pc\<close> is the following instruction.\<close>

definition insn_edges ::
  "bpf_insn list \<Rightarrow> bool list \<Rightarrow> nat \<Rightarrow> nat \<Rightarrow> (errno, nat list) outcome" where
  "insn_edges insns is_slot2 i next_pc =
     (let insn = insns ! i; n = length insns
      in if is_ja insn then
           bind_outcome (validate_jump_target i (insn_off insn) n is_slot2) (\<lambda>target. Ok [target])
         else if is_jmp insn \<or> is_jmp32 insn then
           (if is_call insn then (if next_pc \<ge> n then Err EINVAL else Ok [next_pc])
            else bind_outcome (validate_jump_target i (insn_off insn) n is_slot2) (\<lambda>target.
                   if next_pc \<ge> n then Err EINVAL else Ok [next_pc, target]))
         else if next_pc \<ge> n then Err EINVAL else Ok [next_pc])"

function build_edges ::
  "bpf_insn list \<Rightarrow> bool list \<Rightarrow> nat \<Rightarrow> nat list list \<Rightarrow> (errno, nat list list) outcome" where
  "build_edges insns is_slot2 i cfg_edges =
     (if i \<ge> length insns then Ok cfg_edges
      else if i \<ge> length is_slot2 then Panic
      else if is_slot2 ! i then build_edges insns is_slot2 (i + 1) cfg_edges
      else if is_exit (insns ! i) then build_edges insns is_slot2 (i + 1) cfg_edges
      else
        (let next_pc = (if is_ld_imm64 (insns ! i) then i + 2 else i + 1)
         in case insn_edges insns is_slot2 i next_pc of
              Ok es \<Rightarrow> build_edges insns is_slot2 next_pc (cfg_edges[i := cfg_edges ! i @ es])
            | Err e \<Rightarrow> Err e
            | Panic \<Rightarrow> Panic))"
  by pat_completeness auto
termination
  by (relation "measure (\<lambda>(insns, is_slot2, i, cfg_edges). length insns - i)") auto

declare build_edges.simps [simp del]

section \<open>Reachability\<close>

definition reach_push :: "nat \<Rightarrow> bool list \<times> nat list \<Rightarrow> bool list \<times> nat list" where
  "reach_push succ s =
     (case s of (reachable, queue) \<Rightarrow>
        if reachable ! succ then (reachable, queue) else (reachable[succ := True], queue @ [succ]))"

definition unmarked :: "bool list \<Rightarrow> nat" where
  "unmarked r = length (filter Not r)"

lemma unmarked_update: "i < length r \<Longrightarrow> unmarked (r[i := True]) + (if r ! i then 0 else 1) = unmarked r"
proof (induction r arbitrary: i)
  case (Cons x r)
  then show ?case by (cases i) (auto simp: unmarked_def)
qed simp

lemma reach_push_measure:
  "list_all (\<lambda>s. s < length r) succs \<Longrightarrow>
   2 * unmarked (fst (fold reach_push succs (r, q))) + length (snd (fold reach_push succs (r, q))) \<le>
   2 * unmarked r + length q"
proof (induction succs arbitrary: r q)
  case (Cons s succs)
  show ?case
  proof (cases "r ! s")
    case True
    then show ?thesis using Cons by (simp add: reach_push_def)
  next
    case False
    then have "unmarked (r[s := True]) + 1 = unmarked r" using unmarked_update [of s r] Cons.prems by simp
    then show ?thesis
      using Cons.IH [of "r[s := True]" "q @ [s]"] Cons.prems False by (simp add: reach_push_def)
  qed
qed simp

function reach_loop ::
  "bpf_insn list \<Rightarrow> nat list list \<Rightarrow> bool list \<Rightarrow> nat list \<Rightarrow> (errno, bool list) outcome" where
  "reach_loop insns cfg_edges reachable queue =
     (case queue of
        [] \<Rightarrow> Ok reachable
      | pc # rest \<Rightarrow>
          if pc \<ge> length insns \<or> pc \<ge> length cfg_edges \<or> length reachable \<noteq> length insns then Panic
          else if \<not> list_all (\<lambda>s. s < length reachable) (cfg_edges ! pc) then Panic
          else
            (let r1 = (if is_ld_imm64 (insns ! pc) \<and> pc + 1 < length insns
                       then reachable[pc + 1 := True] else reachable)
             in case fold reach_push (cfg_edges ! pc) (r1, rest) of
                  (r2, q2) \<Rightarrow> reach_loop insns cfg_edges r2 q2))"
  by pat_completeness auto
termination
proof (relation "measure (\<lambda>(insns, cfg_edges, reachable, queue). 2 * unmarked reachable + length queue)",
    goal_cases)
  case (2 insns cfg_edges reachable queue pc rest r1 r2 q2)
  have len: "length r1 = length reachable" using 2 by simp
  have "unmarked r1 \<le> unmarked reachable"
    using 2 unmarked_update [of "pc + 1" reachable] by (auto split: if_splits)
  moreover have "2 * unmarked r2 + length q2 \<le> 2 * unmarked r1 + length rest"
    using 2 reach_push_measure [of r1 "cfg_edges ! pc" rest] len by (metis fst_conv snd_conv)
  ultimately have "2 * unmarked r2 + length q2 < 2 * unmarked reachable + length queue"
    using 2(1) by simp
  then show ?case by simp
qed simp

declare reach_loop.simps [simp del]

definition check_reachable :: "bpf_insn list \<Rightarrow> nat list list \<Rightarrow> bool list \<Rightarrow> (errno, unit) outcome" where
  "check_reachable insns cfg_edges is_slot2 =
     bind_outcome (reach_loop insns cfg_edges ((replicate (length insns) False)[0 := True]) [0])
       (\<lambda>reachable.
          if list_ex (\<lambda>idx. \<not> reachable ! idx \<and> \<not> is_slot2 ! idx) [0..<length insns]
          then Err EINVAL else Ok ())"

section \<open>Pass 2: one abstract step\<close>

definition reg_read :: "verifier_state \<Rightarrow> nat \<Rightarrow> (errno, reg_type) outcome" where
  "reg_read s r = (if r < length (vregs s) then Ok (vregs s ! r) else Panic)"

definition reg_write :: "verifier_state \<Rightarrow> nat \<Rightarrow> reg_type \<Rightarrow> (errno, verifier_state) outcome" where
  "reg_write s r t = (if r < length (vregs s) then Ok (s\<lparr>vregs := (vregs s)[r := t]\<rparr>) else Panic)"

definition map_at :: "'s bpf_map list \<Rightarrow> nat \<Rightarrow> (errno, map_spec) outcome" where
  "map_at maps map_idx = (if map_idx < length maps then Ok (spec (maps ! map_idx)) else Panic)"

text \<open>The loop that rejects a read of uninitialised stack bytes.\<close>

fun stack_check :: "bool list \<Rightarrow> nat \<Rightarrow> nat \<Rightarrow> (errno, unit) outcome" where
  "stack_check init start 0 = Ok ()"
| "stack_check init start (Suc n) =
     (if start \<ge> length init then Panic
      else if \<not> init ! start then Err EACCES
      else stack_check init (Suc start) n)"

fun stack_mark :: "bool list \<Rightarrow> nat \<Rightarrow> nat \<Rightarrow> (errno, bool list) outcome" where
  "stack_mark init start 0 = Ok init"
| "stack_mark init start (Suc n) =
     (if start \<ge> length init then Panic else stack_mark (init[start := True]) (Suc start) n)"

text \<open>Additions and subtractions on a register whose abstract value is \<open>d\<close>.\<close>

definition ptr_delta :: "bpf_insn \<Rightarrow> int \<Rightarrow> int" where
  "ptr_delta insn off =
     (if insn_op insn = BPF_ADD then wrap_i32 (off + sint (imm insn)) else wrap_i32 (off - sint (imm insn)))"

definition verify_arith ::
  "verifier_config \<Rightarrow> 's bpf_map list \<Rightarrow> bpf_insn \<Rightarrow> verifier_state \<Rightarrow> reg_type \<Rightarrow>
   (errno, verifier_state) outcome" where
  "verify_arith cfg maps insn s d =
     (let dst = unat (dst_reg insn); src = unat (src_reg insn)
      in case d of
           PtrStack off \<Rightarrow>
             (if \<not> is_src_imm insn then Err EACCES
              else
                (let new_off = ptr_delta insn off
                 in if new_off < - int BPF_STACK_SIZE \<or> new_off > 0 then Err EACCES
                    else reg_write s dst (PtrStack new_off)))
         | PtrContext off \<Rightarrow>
             (if \<not> is_src_imm insn then Err EACCES
              else
                (let new_off = ptr_delta insn off;
                     max_ctx = max_context_size_for_prog_type (prog_type cfg)
                 in if new_off < 0 \<or> new_off > int max_ctx then Err EACCES
                    else reg_write s dst (PtrContext new_off)))
         | Scalar \<Rightarrow>
             bind_outcome (if is_src_imm insn then Ok Scalar else reg_read s src) (\<lambda>t.
               if t \<noteq> Scalar then Err EACCES else reg_write s dst Scalar)
         | PtrMapValue map_idx off null_checked \<Rightarrow>
             (if \<not> null_checked then Err EACCES
              else if \<not> is_src_imm insn then Err EACCES
              else
                (let new_off = ptr_delta insn off
                 in bind_outcome (map_at maps map_idx) (\<lambda>sp.
                      if new_off < 0 \<or> new_off > sint (value_size sp) then Err EACCES
                      else reg_write s dst (PtrMapValue map_idx new_off True))))
         | _ \<Rightarrow> Err EACCES)"

definition verify_alu ::
  "verifier_config \<Rightarrow> 's bpf_map list \<Rightarrow> bpf_insn \<Rightarrow> verifier_state \<Rightarrow>
   (errno, verifier_state) outcome" where
  "verify_alu cfg maps insn s =
     (let op = insn_op insn; dst = unat (dst_reg insn); src = unat (src_reg insn)
      in bind_outcome (if is_src_imm insn then Ok Scalar else reg_read s src) (\<lambda>t.
           if t = NotInit then Err EACCES
           else if op = BPF_MOV then reg_write s dst t
           else bind_outcome (reg_read s dst) (\<lambda>d.
                  if d = NotInit then Err EACCES
                  else if op = BPF_ADD \<or> op = BPF_SUB then verify_arith cfg maps insn s d
                  else if d \<noteq> Scalar then Err EACCES
                  else if t \<noteq> Scalar then Err EACCES
                  else reg_write s dst Scalar)))"

definition verify_ldx ::
  "verifier_config \<Rightarrow> 's bpf_map list \<Rightarrow> bpf_insn \<Rightarrow> verifier_state \<Rightarrow>
   (errno, verifier_state) outcome" where
  "verify_ldx cfg maps insn s =
     (let dst = unat (dst_reg insn); src = unat (src_reg insn); ioff = sint (insn_off insn)
      in bind_outcome (reg_read s src) (\<lambda>t.
           if t = NotInit then Err EACCES
           else bind_outcome (mem_size_bytes insn) (\<lambda>size_bytes.
             case t of
               PtrContext ctx_off \<Rightarrow>
                 (let eff_off = wrap_i32 (ctx_off + ioff);
                      max_ctx = max_context_size_for_prog_type (prog_type cfg)
                  in if eff_off < 0 \<or> wrap_i32 (eff_off + int size_bytes) > int max_ctx then Err EACCES
                     else if eff_off mod int size_bytes \<noteq> 0 then Err EACCES
                     else reg_write s dst Scalar)
             | PtrStack stk_off \<Rightarrow>
                 (let eff_off = wrap_i32 (stk_off + ioff)
                  in if eff_off < - int BPF_STACK_SIZE \<or> wrap_i32 (eff_off + int size_bytes) > 0
                     then Err EACCES
                     else if (- eff_off) mod int size_bytes \<noteq> 0 then Err EACCES
                     else bind_outcome
                            (stack_check (vstack_init s) (nat (int BPF_STACK_SIZE + eff_off)) size_bytes)
                            (\<lambda>_. reg_write s dst Scalar))
             | PtrMapValue map_idx map_off null_checked \<Rightarrow>
                 (if \<not> null_checked then Err EACCES
                  else
                    (let eff_off = wrap_i32 (map_off + ioff)
                     in bind_outcome (map_at maps map_idx) (\<lambda>sp.
                          if eff_off < 0 \<or> wrap_i32 (eff_off + int size_bytes) > sint (value_size sp)
                          then Err EACCES else reg_write s dst Scalar)))
             | _ \<Rightarrow> Err EACCES)))"

definition verify_store ::
  "'s bpf_map list \<Rightarrow> bpf_insn \<Rightarrow> verifier_state \<Rightarrow> (errno, verifier_state) outcome" where
  "verify_store maps insn s =
     (let dst = unat (dst_reg insn); src = unat (src_reg insn); ioff = sint (insn_off insn)
      in bind_outcome (reg_read s dst) (\<lambda>d.
           if d = NotInit then Err EACCES
           else bind_outcome (if insn_class insn = BPF_STX then reg_read s src else Ok Scalar) (\<lambda>t.
             if t = NotInit then Err EACCES
             else bind_outcome (mem_size_bytes insn) (\<lambda>size_bytes.
               case d of
                 PtrStack stk_off \<Rightarrow>
                   (let eff_off = wrap_i32 (stk_off + ioff)
                    in if eff_off < - int BPF_STACK_SIZE \<or> wrap_i32 (eff_off + int size_bytes) > 0
                       then Err EACCES
                       else if (- eff_off) mod int size_bytes \<noteq> 0 then Err EACCES
                       else bind_outcome
                              (stack_mark (vstack_init s) (nat (int BPF_STACK_SIZE + eff_off)) size_bytes)
                              (\<lambda>init. Ok (s\<lparr>vstack_init := init\<rparr>)))
               | PtrMapValue map_idx map_off null_checked \<Rightarrow>
                   (if \<not> null_checked then Err EACCES
                    else
                      (let eff_off = wrap_i32 (map_off + ioff)
                       in bind_outcome (map_at maps map_idx) (\<lambda>sp.
                            if eff_off < 0 \<or> wrap_i32 (eff_off + int size_bytes) > sint (value_size sp)
                            then Err EACCES else Ok s)))
               | _ \<Rightarrow> Err EACCES))))"

subsection \<open>Helper calls\<close>

text \<open>Caller-saved registers are clobbered and \<open>R0\<close> receives the result.\<close>

definition clobber :: "verifier_state \<Rightarrow> reg_type \<Rightarrow> verifier_state" where
  "clobber s r0 =
     s\<lparr>vregs := (vregs s)[1 := NotInit, 2 := NotInit, 3 := NotInit, 4 := NotInit, 5 := NotInit, 0 := r0]\<rparr>"

text \<open>A pointer argument of \<open>n\<close> bytes on the stack: inside the frame and initialised.\<close>

definition check_stack_arg :: "verifier_state \<Rightarrow> int \<Rightarrow> 32 word \<Rightarrow> (errno, unit) outcome" where
  "check_stack_arg s off n =
     (if off < - int BPF_STACK_SIZE \<or> wrap_i32 (off + sint n) > 0 then Err EACCES
      else stack_check (vstack_init s) (nat (int BPF_STACK_SIZE + off)) (unat n))"

definition verify_map_lookup ::
  "'s bpf_map list \<Rightarrow> verifier_state \<Rightarrow> (errno, verifier_state) outcome" where
  "verify_map_lookup maps s =
     (case vregs s ! 1 of
        PtrMap map_idx \<Rightarrow>
          (case vregs s ! 2 of
             PtrStack key_off \<Rightarrow>
               bind_outcome (map_at maps map_idx) (\<lambda>sp.
                 bind_outcome (check_stack_arg s key_off (key_size sp)) (\<lambda>_.
                   Ok (clobber s (PtrMapValue map_idx 0 False))))
           | _ \<Rightarrow> Err EACCES)
      | _ \<Rightarrow> Err EACCES)"

definition verify_map_update ::
  "'s bpf_map list \<Rightarrow> verifier_state \<Rightarrow> (errno, verifier_state) outcome" where
  "verify_map_update maps s =
     (case vregs s ! 1 of
        PtrMap map_idx \<Rightarrow>
          bind_outcome (map_at maps map_idx) (\<lambda>sp.
            if map_flags sp AND BPF_F_RDONLY_PROG \<noteq> 0 then Err EACCES
            else case vregs s ! 2 of
                   PtrStack key_off \<Rightarrow>
                     bind_outcome (check_stack_arg s key_off (key_size sp)) (\<lambda>_.
                       bind_outcome
                         (case vregs s ! 3 of
                            PtrStack off \<Rightarrow> check_stack_arg s off (value_size sp)
                          | PtrMapValue _ _ null_checked \<Rightarrow> if null_checked then Ok () else Err EACCES
                          | _ \<Rightarrow> Err EACCES) (\<lambda>_.
                         if vregs s ! 4 \<noteq> Scalar then Err EACCES else Ok (clobber s Scalar)))
                 | _ \<Rightarrow> Err EACCES)
      | _ \<Rightarrow> Err EACCES)"

definition verify_map_delete ::
  "'s bpf_map list \<Rightarrow> verifier_state \<Rightarrow> (errno, verifier_state) outcome" where
  "verify_map_delete maps s =
     (case vregs s ! 1 of
        PtrMap map_idx \<Rightarrow>
          bind_outcome (map_at maps map_idx) (\<lambda>sp.
            if map_type sp = Array then Err EINVAL
            else if map_flags sp AND BPF_F_RDONLY_PROG \<noteq> 0 then Err EACCES
            else case vregs s ! 2 of
                   PtrStack key_off \<Rightarrow>
                     bind_outcome (check_stack_arg s key_off (key_size sp)) (\<lambda>_. Ok (clobber s Scalar))
                 | _ \<Rightarrow> Err EACCES)
      | _ \<Rightarrow> Err EACCES)"

definition check_output_data :: "bool \<Rightarrow> reg_type \<Rightarrow> (errno, unit) outcome" where
  "check_output_data allow_context data_reg =
     (case data_reg of
        PtrStack off \<Rightarrow> if off < - int BPF_STACK_SIZE \<or> off > 0 then Err EACCES else Ok ()
      | PtrMapValue _ _ null_checked \<Rightarrow> if null_checked then Ok () else Err EACCES
      | PtrContext _ \<Rightarrow> if allow_context then Ok () else Err EACCES
      | _ \<Rightarrow> Err EACCES)"

definition verify_perf_event_output ::
  "'s bpf_map list \<Rightarrow> verifier_state \<Rightarrow> (errno, verifier_state) outcome" where
  "verify_perf_event_output maps s =
     (case vregs s ! 1 of
        PtrContext _ \<Rightarrow>
          (case vregs s ! 2 of
             PtrMap map_idx \<Rightarrow>
               bind_outcome (map_at maps map_idx) (\<lambda>sp.
                 if map_type sp \<noteq> PerfEventArray then Err EINVAL
                 else if vregs s ! 3 \<noteq> Scalar then Err EACCES
                 else bind_outcome (check_output_data False (vregs s ! 4)) (\<lambda>_.
                        if vregs s ! 5 \<noteq> Scalar then Err EACCES else Ok (clobber s Scalar)))
           | _ \<Rightarrow> Err EACCES)
      | _ \<Rightarrow> Err EACCES)"

definition verify_ringbuf_output ::
  "'s bpf_map list \<Rightarrow> verifier_state \<Rightarrow> (errno, verifier_state) outcome" where
  "verify_ringbuf_output maps s =
     (case vregs s ! 1 of
        PtrMap map_idx \<Rightarrow>
          bind_outcome (map_at maps map_idx) (\<lambda>sp.
            if map_type sp \<noteq> RingBuf then Err EINVAL
            else bind_outcome (check_output_data True (vregs s ! 2)) (\<lambda>_.
                   if vregs s ! 3 \<noteq> Scalar then Err EACCES
                   else if vregs s ! 4 \<noteq> Scalar then Err EACCES
                   else Ok (clobber s Scalar)))
      | _ \<Rightarrow> Err EACCES)"

definition verify_call ::
  "'s bpf_map list \<Rightarrow> 32 word \<Rightarrow> verifier_state \<Rightarrow> (errno, verifier_state) outcome" where
  "verify_call maps helper_id s =
     (if helper_id = BPF_FUNC_MAP_LOOKUP_ELEM then verify_map_lookup maps s
      else if helper_id = BPF_FUNC_MAP_UPDATE_ELEM then verify_map_update maps s
      else if helper_id = BPF_FUNC_MAP_DELETE_ELEM then verify_map_delete maps s
      else if helper_id = BPF_FUNC_KTIME_GET_NS then Ok (clobber s Scalar)
      else if helper_id = BPF_FUNC_GET_SMP_PROCESSOR_ID then Ok (clobber s Scalar)
      else if helper_id = BPF_FUNC_PERF_EVENT_OUTPUT then verify_perf_event_output maps s
      else if helper_id = BPF_FUNC_RINGBUF_OUTPUT then verify_ringbuf_output maps s
      else if helper_id \<in> {BPF_FUNC_RINGBUF_RESERVE, BPF_FUNC_RINGBUF_SUBMIT, BPF_FUNC_RINGBUF_DISCARD,
                           BPF_FUNC_RINGBUF_QUERY} then Err EOPNOTSUPP
      else Err EINVAL)"

subsection \<open>Jumps\<close>

definition verify_exit :: "verifier_state \<Rightarrow> (errno, unit) outcome" where
  "verify_exit s = (case vregs s ! 0 of Scalar \<Rightarrow> Ok () | _ \<Rightarrow> Err EACCES)"

text \<open>The abstract states of the jump branch and of the fall-through branch.\<close>

definition branch_states :: "bpf_insn \<Rightarrow> verifier_state \<Rightarrow> verifier_state \<times> verifier_state" where
  "branch_states insn s =
     (let dst = unat (dst_reg insn); op = insn_op insn;
          upd = \<lambda>t. s\<lparr>vregs := (vregs s)[dst := t]\<rparr>
      in if is_src_imm insn \<and> imm insn = 0 then
           (case vregs s ! dst of
              PtrMapValue map_idx off _ \<Rightarrow>
                (if op = BPF_JNE then (upd (PtrMapValue map_idx off True), upd Scalar)
                 else if op = BPF_JEQ then (upd Scalar, upd (PtrMapValue map_idx off True))
                 else (s, s))
            | _ \<Rightarrow> (s, s))
         else (s, s))"

definition jump_target :: "nat \<Rightarrow> bpf_insn \<Rightarrow> nat" where
  "jump_target pc insn = unat (word_of_int (int pc + 1 + sint (insn_off insn)) :: 64 word)"

definition verify_cond_jump ::
  "bpf_insn \<Rightarrow> nat \<Rightarrow> nat \<Rightarrow> verifier_state \<Rightarrow> (errno, (nat \<times> verifier_state) list) outcome" where
  "verify_cond_jump insn pc next_pc s =
     (let dst = unat (dst_reg insn); src = unat (src_reg insn)
      in bind_outcome (reg_read s dst) (\<lambda>d.
           if d = NotInit then Err EACCES
           else bind_outcome (if is_src_reg insn then reg_read s src else Ok Scalar) (\<lambda>t.
             if t = NotInit then Err EACCES
             else case branch_states insn s of
                    (state_jump, state_fall) \<Rightarrow>
                      Ok [(next_pc, state_fall), (jump_target pc insn, state_jump)])))"

subsection \<open>Loading map references\<close>

text \<open>
  The answers of the resolver, if there is one, while one instruction is examined. The resolver of the system call reads
  the descriptor table of the process, which other threads may change meanwhile, so the verifier is given
  the answers at the time of each work item that it pops, by the number of the item; it asks at most once in an item.
\<close>

type_synonym 's resolver = "(32 word \<Rightarrow> 's bpf_map res) option"
type_synonym 's live_resolver = "(nat \<Rightarrow> 32 word \<Rightarrow> 's bpf_map res) option"

definition resolver_at :: "'s live_resolver \<Rightarrow> nat \<Rightarrow> 's resolver" where
  "resolver_at map_resolver n = map_option (\<lambda>f. f n) map_resolver"

definition find_map :: "'s bpf_map list \<Rightarrow> 's bpf_map \<Rightarrow> nat \<times> 's bpf_map list" where
  "find_map maps m =
     (let idx = length (takeWhile (\<lambda>m'. map_id m' \<noteq> map_id m) maps)
      in if idx < length maps then (idx, maps) else (length maps, maps @ [m]))"

definition verify_ld_imm64 ::
  "'s resolver \<Rightarrow> bpf_insn \<Rightarrow> nat \<Rightarrow> 's bpf_map list \<Rightarrow> (nat \<times> nat) list \<Rightarrow> verifier_state \<Rightarrow>
   (errno, 's bpf_map list \<times> (nat \<times> nat) list \<times> verifier_state) outcome" where
  "verify_ld_imm64 map_resolver insn pc maps relocations s =
     (let dst = unat (dst_reg insn)
      in if src_reg insn = BPF_PSEUDO_MAP_FD then
           (case map_resolver of
              None \<Rightarrow> Err EBADF
            | Some resolve_map \<Rightarrow>
                (case resolve_map (imm insn) of
                   Inl e \<Rightarrow> Err e
                 | Inr m \<Rightarrow>
                     (case find_map maps m of
                        (map_idx, maps') \<Rightarrow>
                          (let relocations' =
                                 (if pc \<in> set (map fst relocations) then relocations
                                  else relocations @ [(pc, map_idx)])
                           in bind_outcome (reg_write s dst (PtrMap map_idx)) (\<lambda>s'.
                                Ok (maps', relocations', s'))))))
         else bind_outcome (reg_write s dst Scalar) (\<lambda>s'. Ok (maps, relocations, s')))"

subsection \<open>One popped work item\<close>

type_synonym 's verify_step =
  "'s bpf_map list \<times> (nat \<times> nat) list \<times> (nat \<times> verifier_state) list"

definition verify_insn ::
  "verifier_config \<Rightarrow> bpf_insn list \<Rightarrow> 's resolver \<Rightarrow> 's bpf_map list \<Rightarrow> (nat \<times> nat) list \<Rightarrow>
   nat \<Rightarrow> verifier_state \<Rightarrow> (errno, 's verify_step) outcome" where
  "verify_insn cfg insns map_resolver maps relocations pc s =
     (if pc \<ge> length insns then Panic
      else
        (let insn = insns ! pc; cls = insn_class insn;
             next_pc = (if is_ld_imm64 insn then pc + 2 else pc + 1);
             go = \<lambda>r. bind_outcome r (\<lambda>s'. Ok (maps, relocations, [(next_pc, s')]))
         in if is_ld_imm64 insn then
              bind_outcome (verify_ld_imm64 map_resolver insn pc maps relocations s)
                (\<lambda>(maps', relocations', s'). Ok (maps', relocations', [(next_pc, s')]))
            else if cls = BPF_ALU \<or> cls = BPF_ALU64 then go (verify_alu cfg maps insn s)
            else if cls = BPF_LDX then go (verify_ldx cfg maps insn s)
            else if cls = BPF_ST \<or> cls = BPF_STX then go (verify_store maps insn s)
            else if cls = BPF_JMP \<or> cls = BPF_JMP32 then
              (if is_exit insn then bind_outcome (verify_exit s) (\<lambda>_. Ok (maps, relocations, []))
               else if is_ja insn then Ok (maps, relocations, [(jump_target pc insn, s)])
               else if is_call insn then go (verify_call maps (imm insn) s)
               else bind_outcome (verify_cond_jump insn pc next_pc s)
                      (\<lambda>succs. Ok (maps, relocations, succs)))
            else Err EINVAL))"

section \<open>Pass 2: the work list\<close>

function verify_loop ::
  "verifier_config \<Rightarrow> bpf_insn list \<Rightarrow> 's live_resolver \<Rightarrow> 's bpf_map list \<Rightarrow> (nat \<times> nat) list \<Rightarrow>
   (nat \<times> verifier_state) list \<Rightarrow> (nat \<times> verifier_state) list \<Rightarrow> nat \<Rightarrow>
   (errno, 's bpf_map list \<times> (nat \<times> nat) list \<times> (nat \<times> verifier_state) list) outcome" where
  "verify_loop cfg insns map_resolver maps relocations worklist explored state_count =
     (case worklist of
        [] \<Rightarrow> Ok (maps, relocations, explored)
      | (pc, s) # rest \<Rightarrow>
          if state_count + 1 > max_states cfg then Err E2BIG
          else if (pc, s) \<in> set explored then
            verify_loop cfg insns map_resolver maps relocations rest explored (state_count + 1)
          else case verify_insn cfg insns (resolver_at map_resolver state_count) maps relocations pc s of
                 Ok (maps', relocations', succs) \<Rightarrow>
                   verify_loop cfg insns map_resolver maps' relocations' (rest @ succs)
                     (explored @ [(pc, s)]) (state_count + 1)
               | Err e \<Rightarrow> Err e
               | Panic \<Rightarrow> Panic)"
  by pat_completeness auto
termination
  by (relation "measure (\<lambda>(cfg, insns, map_resolver, maps, relocations, worklist, explored, state_count).
        max_states cfg - state_count)") auto

declare verify_loop.simps [simp del]

definition relocate :: "(nat \<times> nat) list \<Rightarrow> bpf_insn list \<Rightarrow> bpf_insn list" where
  "relocate relocations insns =
     fold (\<lambda>(pc, map_idx) l. l[pc := (l ! pc)\<lparr>imm := of_nat map_idx\<rparr>]) relocations insns"

definition verify_program ::
  "verifier_config \<Rightarrow> bpf_insn list \<Rightarrow> 's live_resolver \<Rightarrow> (errno, 's verified_program) outcome" where
  "verify_program cfg insns map_resolver =
     (if insns = [] then Err EINVAL
      else if length insns > max_insns cfg then Err E2BIG
      else bind_outcome (check_insns insns 0 (replicate (length insns) False)) (\<lambda>is_slot2.
        bind_outcome (build_edges insns is_slot2 0 (replicate (length insns) [])) (\<lambda>cfg_edges.
          bind_outcome (check_reachable insns cfg_edges is_slot2) (\<lambda>_.
            bind_outcome (verify_loop cfg insns map_resolver [] [] [(0, verifier_initial)] [] 0)
              (\<lambda>(maps, relocations, explored).
                 Ok \<lparr>vp_prog_type = prog_type cfg, vp_insns = relocate relocations insns,
                     vp_maps = maps\<rparr>)))))"

end
