(* ===== verification/Bpf_Verifier_Safety.thy ===== *)
theory Bpf_Verifier_Safety
  imports Bpf_Verifier "HOL-Library.Sublist"
begin

text \<open>
  What the first pass of the eBPF verifier establishes (the shape of two-slot instructions, forward
  jumps), the invariant of its abstract interpretation, and the absence of panics in the verifier.
\<close>

section \<open>Pass 1: instruction shapes\<close>

text \<open>
  \<open>slots_ok insns r i\<close>: from instruction \<open>i\<close> on, the flags \<open>r\<close> mark exactly the second halves of
  \<open>LD_IMM64\<close>, which are blank, and every other instruction passed its check.
\<close>

definition slots_ok :: "bpf_insn list \<Rightarrow> bool list \<Rightarrow> nat \<Rightarrow> bool" where
  "slots_ok insns r i \<longleftrightarrow>
     length r = length insns \<and>
     (\<forall>j. i \<le> j \<longrightarrow> j < length insns \<longrightarrow>
        (r ! j \<longrightarrow> code (insns ! j) = 0 \<and> 0 < j \<and> \<not> r ! (j - 1) \<and> is_ld_imm64 (insns ! (j - 1))) \<and>
        (\<not> r ! j \<longrightarrow>
           (if is_ld_imm64 (insns ! j) then Suc j < length insns \<and> r ! Suc j
            else check_insn (insns ! j) = Ok ())))"

lemma check_insns_prefix:
  "check_insns insns i s = Ok r \<Longrightarrow> length r = length s \<and> (\<forall>j<i. r ! j = s ! j)"
proof (induction insns i s rule: check_insns.induct)
  case (1 insns i s)
  show ?case
  proof (cases "i \<ge> length insns")
    case True
    then show ?thesis using 1(3) by (simp add: check_insns.simps)
  next
    case False
    show ?thesis
    proof (cases "is_ld_imm64 (insns ! i)")
      case True
      then have "check_insns insns (i + 2) (s[i + 1 := True]) = Ok r" and
        "Suc i < length insns" and "Suc i < length s" and
        "\<not> (code (insns ! (i + 1)) \<noteq> 0 \<or> dst_reg (insns ! (i + 1)) \<noteq> 0 \<or> src_reg (insns ! (i + 1)) \<noteq> 0 \<or>
            insn_off (insns ! (i + 1)) \<noteq> 0)"
        using 1(3) False by (auto simp: check_insns.simps [of insns i] Let_def split: if_splits)
      then show ?thesis using 1(1) [OF False True _ refl] by auto
    next
      case nld: False
      then have "check_insn (insns ! i) = Ok ()" and "check_insns insns (i + 1) s = Ok r"
        using 1(3) False by (auto simp: check_insns.simps [of insns i] split: outcome.splits)
      then show ?thesis using 1(2) [OF False nld] by auto
    qed
  qed
qed

lemma check_insns_slots:
  assumes "check_insns insns i s = Ok r" and "length s = length insns"
    and "\<And>j. i \<le> j \<Longrightarrow> j < length insns \<Longrightarrow> \<not> s ! j"
  shows "slots_ok insns r i"
  using assms
proof (induction insns i s rule: check_insns.induct)
  case (1 insns i s)
  have len: "length r = length insns" using check_insns_prefix [OF 1(3)] 1(4) by simp
  show ?case
  proof (cases "i \<ge> length insns")
    case True
    then show ?thesis using len by (simp add: slots_ok_def)
  next
    case False
    have split_at: "slots_ok insns r i"
      if "slots_ok insns r k" and "\<And>j. i \<le> j \<Longrightarrow> j < k \<Longrightarrow> j < length insns \<Longrightarrow>
          (r ! j \<longrightarrow> code (insns ! j) = 0 \<and> 0 < j \<and> \<not> r ! (j - 1) \<and> is_ld_imm64 (insns ! (j - 1))) \<and>
          (\<not> r ! j \<longrightarrow> (if is_ld_imm64 (insns ! j) then Suc j < length insns \<and> r ! Suc j
             else check_insn (insns ! j) = Ok ()))" for k
      using that unfolding slots_ok_def by (meson not_le)
    show ?thesis
    proof (cases "is_ld_imm64 (insns ! i)")
      case True
      then have rec: "check_insns insns (i + 2) (s[i + 1 := True]) = Ok r" and
        b: "Suc i < length insns" "code (insns ! Suc i) = 0" and
        guard: "\<not> (code (insns ! (i + 1)) \<noteq> 0 \<or> dst_reg (insns ! (i + 1)) \<noteq> 0 \<or>
          src_reg (insns ! (i + 1)) \<noteq> 0 \<or> insn_off (insns ! (i + 1)) \<noteq> 0)"
          "\<not> length insns \<le> i + 1" "\<not> length s \<le> i + 1"
        using 1(3) False by (auto simp: check_insns.simps [of insns i] Let_def split: if_splits)
      have ri: "r ! Suc i" "\<not> r ! i"
        using check_insns_prefix [OF rec] 1(5) [of i] b(1) 1(4) by auto
      have "slots_ok insns r (i + 2)"
        using 1(1) [OF False True guard(2) refl guard(1,3) rec] 1(4,5) by simp
      moreover have "j = i \<or> j = Suc i" if "i \<le> j" "j < i + 2" for j using that by auto
      ultimately show ?thesis using split_at [of "i + 2"] ri b True by force
    next
      case nld: False
      then have ck: "check_insn (insns ! i) = Ok ()" and rec: "check_insns insns (i + 1) s = Ok r"
        using 1(3) False by (auto simp: check_insns.simps [of insns i] split: outcome.splits)
      have "\<not> r ! i" using check_insns_prefix [OF rec] 1(5) [of i] False by auto
      moreover have "slots_ok insns r (i + 1)" using 1(2) [OF False nld ck rec] 1(4,5) by simp
      ultimately show ?thesis using split_at [of "i + 1"] ck nld by (auto simp: less_Suc_eq_le)
    qed
  qed
qed

lemma check_insns_no_panic: "length s = length insns \<Longrightarrow> check_insns insns i s \<noteq> Panic"
proof (induction insns i s rule: check_insns.induct)
  case (1 insns i s)
  have "check_insn (insns ! i) \<noteq> Panic" by (simp add: check_insn_def)
  then show ?case
    using 1 by (subst check_insns.simps) (auto simp: Let_def split: outcome.splits)
qed

section \<open>Pass 1: control flow\<close>

lemma validate_jump_target_Ok:
  assumes "validate_jump_target i off n r = Ok t"
  shows "i < t" and "t < n" and "\<not> r ! t" and "int t = int i + 1 + sint off"
  using assms by (auto simp: validate_jump_target_def Let_def split: if_splits)

lemma insn_edges_props:
  assumes "insn_edges insns r i nx = Ok es"
  shows "set es \<subseteq> {..<length insns}"
    and "\<not> is_ja (insns ! i) \<Longrightarrow> nx < length insns"
    and "is_jmp (insns ! i) \<or> is_jmp32 (insns ! i) \<Longrightarrow> \<not> is_call (insns ! i) \<Longrightarrow>
      \<exists>t. validate_jump_target i (insn_off (insns ! i)) (length insns) r = Ok t"
  using assms is_ja_class [of "insns ! i"]
  by (auto simp: insn_edges_def Let_def outcome_simps is_jmp_def dest: validate_jump_target_Ok(2)
      split: if_splits)

lemma build_edges_props:
  assumes "build_edges insns r i es = Ok es'" and "slots_ok insns r 0" and "length es = length insns"
    and "\<And>l. l \<in> set es \<Longrightarrow> set l \<subseteq> {..<length insns}"
  shows "length es' = length insns \<and> (\<forall>l\<in>set es'. set l \<subseteq> {..<length insns}) \<and>
    (\<forall>j. i \<le> j \<longrightarrow> j < length insns \<longrightarrow> \<not> r ! j \<longrightarrow> \<not> is_exit (insns ! j) \<longrightarrow>
       (\<exists>l. insn_edges insns r j (if is_ld_imm64 (insns ! j) then j + 2 else j + 1) = Ok l))"
  using assms
proof (induction insns r i es rule: build_edges.induct)
  case (1 insns r i es)
  show ?case
  proof (cases "i \<ge> length insns")
    case True
    then show ?thesis using 1(4,6,7) by (simp add: build_edges.simps)
  next
    case False
    have lr: "length r = length insns" using 1(5) by (simp add: slots_ok_def)
    show ?thesis
    proof (cases "r ! i \<or> is_exit (insns ! i)")
      case True
      then have "build_edges insns r (i + 1) es = Ok es'"
        using 1(4) False lr by (auto simp: build_edges.simps [of insns r i] split: if_splits)
      then show ?thesis
        using 1(1,2) True False lr 1(5,6,7) by (metis Suc_eq_plus1 Suc_leI le_neq_implies_less not_le)
    next
      case vis: False
      let ?nx = "if is_ld_imm64 (insns ! i) then i + 2 else i + 1"
      obtain l where l: "insn_edges insns r i ?nx = Ok l" and
        rec: "build_edges insns r ?nx (es[i := es ! i @ l]) = Ok es'"
        using 1(4) False lr vis
        by (auto simp: build_edges.simps [of insns r i] Let_def split: outcome.splits)
      have slot: "r ! j" if "i < j" "j < ?nx" for j
      proof -
        have "is_ld_imm64 (insns ! i)" "j = Suc i" using that by (auto split: if_splits)
        then show ?thesis using 1(5) vis False by (auto simp: slots_ok_def)
      qed
      have sub: "set x \<subseteq> {..<length insns}" if "x \<in> set (es[i := es ! i @ l])" for x
      proof -
        have "x \<in> set es \<or> x = es ! i @ l" using that set_update_subset_insert by fastforce
        then show ?thesis
          using 1(7) [of x] 1(7) [of "es ! i"] insn_edges_props(1) [OF l] False 1(6) by auto
      qed
      have "length es' = length insns \<and> (\<forall>l\<in>set es'. set l \<subseteq> {..<length insns}) \<and>
        (\<forall>j. ?nx \<le> j \<longrightarrow> j < length insns \<longrightarrow> \<not> r ! j \<longrightarrow> \<not> is_exit (insns ! j) \<longrightarrow>
           (\<exists>l. insn_edges insns r j (if is_ld_imm64 (insns ! j) then j + 2 else j + 1) = Ok l))"
        using 1(3) [OF False _ _ _ refl l rec 1(5) _ sub] lr False vis 1(6) by simp
      then show ?thesis using slot l by (metis le_neq_implies_less not_le)
    qed
  qed
qed

lemma build_edges_no_panic:
  assumes "length r = length insns"
  shows "build_edges insns r i es \<noteq> Panic"
  using assms
proof (induction insns r i es rule: build_edges.induct)
  case (1 insns r i es)
  have "insn_edges insns r i nx \<noteq> Panic" for nx
    using 1(4) by (auto simp: insn_edges_def Let_def outcome_simps validate_jump_target_def split: if_splits)
  then show ?case
    using 1 by (subst build_edges.simps) (auto simp: Let_def split: outcome.splits)
qed

lemma reach_push_bound:
  assumes "s < length (fst rq)" and "list_all (\<lambda>p. p < length (fst rq)) (snd rq)"
  shows "length (fst (reach_push s rq)) = length (fst rq)"
    and "list_all (\<lambda>p. p < length (fst rq)) (snd (reach_push s rq))"
  using assms by (auto simp: reach_push_def split: prod.splits)

lemma reach_push_length:
  "list_all (\<lambda>s. s < length (fst rq)) succs \<Longrightarrow> list_all (\<lambda>p. p < length (fst rq)) (snd rq) \<Longrightarrow>
   length (fst (fold reach_push succs rq)) = length (fst rq) \<and>
   list_all (\<lambda>p. p < length (fst rq)) (snd (fold reach_push succs rq))"
proof (induction succs arbitrary: rq)
  case (Cons s succs)
  then show ?case
    using Cons.IH [of "reach_push s rq"] reach_push_bound [of s rq] by simp
qed simp

lemma reach_loop_no_panic:
  assumes "length es = length insns" and "\<And>l. l \<in> set es \<Longrightarrow> set l \<subseteq> {..<length insns}"
    and "length r = length insns" and "list_all (\<lambda>p. p < length insns) q"
  shows "reach_loop insns es r q \<noteq> Panic"
  using assms
proof (induction insns es r q rule: reach_loop.induct)
  case (1 insns es r q)
  show ?case
  proof (cases q)
    case Nil
    then show ?thesis by (simp add: reach_loop.simps)
  next
    case (Cons pc rest)
    let ?r1 = "if is_ld_imm64 (insns ! pc) \<and> pc + 1 < length insns then r[pc + 1 := True] else r"
    obtain r2 q2 where f: "fold reach_push (es ! pc) (?r1, rest) = (r2, q2)" by fastforce
    have pc: "pc < length insns" and rest: "list_all (\<lambda>p. p < length insns) rest" using 1(5) Cons by auto
    have es: "list_all (\<lambda>s. s < length r) (es ! pc)"
      using 1(3) [of "es ! pc"] 1(2,4) pc by (auto simp: list_all_iff)
    have r1: "length ?r1 = length insns" using 1(4) by simp
    have "length r2 = length insns \<and> list_all (\<lambda>p. p < length insns) q2"
      using reach_push_length [of "(?r1, rest)" "es ! pc"] es rest 1(4) unfolding fst_conv snd_conv r1 f
      by simp
    then have "reach_loop insns es r2 q2 \<noteq> Panic"
      using 1(1) [OF Cons _ _ refl f [symmetric] 1(2) 1(3)] 1(2,4) es pc by simp
    then show ?thesis
      using Cons pc es f 1(2,4) by (subst reach_loop.simps) (simp add: Let_def)
  qed
qed

section \<open>The invariant of the abstract states\<close>

fun reg_wf :: "nat \<Rightarrow> reg_type \<Rightarrow> bool" where
  "reg_wf k (PtrMap i) = (i < k)"
| "reg_wf k (PtrMapValue i off c) = (i < k)"
| "reg_wf k (PtrStack off) = (- 512 \<le> off \<and> off \<le> 0)"
| "reg_wf k _ = True"

definition vstate_wf :: "nat \<Rightarrow> verifier_state \<Rightarrow> bool" where
  "vstate_wf k s \<longleftrightarrow>
     length (vregs s) = 11 \<and> length (vstack_init s) = 512 \<and> (\<forall>t\<in>set (vregs s). reg_wf k t)"

abbreviation (input) errs :: "'e \<Rightarrow> bool" where "errs \<equiv> \<lambda>_. True"

lemma reg_wf_mono: "reg_wf k t \<Longrightarrow> k \<le> k' \<Longrightarrow> reg_wf k' t"
  by (cases "(k, t)" rule: reg_wf.cases) auto

lemma vstate_wf_mono: "vstate_wf k s \<Longrightarrow> k \<le> k' \<Longrightarrow> vstate_wf k' s"
  using reg_wf_mono by (auto simp: vstate_wf_def)

lemma reg_wf_nth: "vstate_wf k s \<Longrightarrow> r < 11 \<Longrightarrow> reg_wf k (vregs s ! r)"
  by (simp add: vstate_wf_def)

lemma vstate_wf_update:
  "vstate_wf k s \<Longrightarrow> reg_wf k t \<Longrightarrow> vstate_wf k (s\<lparr>vregs := (vregs s)[r := t]\<rparr>)"
  using set_update_subset_insert [of "vregs s" r t] by (auto simp: vstate_wf_def)

lemma reg_read_wf: "vstate_wf k s \<Longrightarrow> r < 11 \<Longrightarrow> reg_read s r = Ok (vregs s ! r)"
  by (simp add: reg_read_def vstate_wf_def)

lemma reg_write_wf:
  "vstate_wf k s \<Longrightarrow> r < 11 \<Longrightarrow> reg_wf k t \<Longrightarrow> yields errs (vstate_wf k) (reg_write s r t)"
  using vstate_wf_update [of k s t r] by (simp add: reg_write_def vstate_wf_def)

lemma clobber_wf:
  assumes "vstate_wf k s" and "reg_wf k t"
  shows "vstate_wf k (clobber s t)"
proof -
  have upd: "list_all (reg_wf k) (xs[i := y])" if "list_all (reg_wf k) xs" and "reg_wf k y" for xs i y
    using that set_update_subset_insert [of xs i y] by (auto simp: list_all_iff)
  have "list_all (reg_wf k) (vregs (clobber s t))"
    using assms unfolding clobber_def by (simp add: upd vstate_wf_def list_all_iff [symmetric])
  then show ?thesis using assms by (simp add: vstate_wf_def list_all_iff clobber_def)
qed

lemma stack_check_fits: "start + n \<le> length init \<Longrightarrow> stack_check init start n \<noteq> Panic"
  by (induction init start n rule: stack_check.induct) auto

lemma stack_check_Ok:
  "stack_check init start n = Ok u \<Longrightarrow> start \<le> i \<Longrightarrow> i < start + n \<Longrightarrow> i < length init \<and> init ! i"
proof (induction init start n rule: stack_check.induct)
  case (2 init start n)
  then show ?case by (cases "i = start") (auto split: if_splits)
qed simp

lemma stack_mark_fits:
  assumes "start + n \<le> length init"
  obtains init' where "stack_mark init start n = Ok init'" and "length init' = length init"
    and "\<And>i. i < length init \<Longrightarrow> init' ! i \<longleftrightarrow> init ! i \<or> start \<le> i \<and> i < start + n"
  using assms
proof (induction init start n arbitrary: thesis rule: stack_mark.induct)
  case (2 init start n)
  obtain init' where i: "stack_mark (init[start := True]) (Suc start) n = Ok init'"
    "length init' = length init"
    "\<And>i. i < length init \<Longrightarrow> init' ! i \<longleftrightarrow> init[start := True] ! i \<or> Suc start \<le> i \<and> i < Suc start + n"
    using "2.IH" "2.prems"(2) by auto
  show ?case
  proof (rule "2.prems"(1))
    show "stack_mark init start (Suc n) = Ok init'" using i(1) "2.prems"(2) by simp
    show "init' ! j \<longleftrightarrow> init ! j \<or> start \<le> j \<and> j < start + Suc n" if "j < length init" for j
      using i(3) [OF that] that by (cases "j = start") auto
  qed (rule i(2))
qed (metis (no_types) add_0_right not_le stack_mark.simps(1))

section \<open>Abstract steps do not panic and keep the invariant\<close>

lemma map_at_wf: "i < length maps \<Longrightarrow> map_at maps i = Ok (spec (maps ! i))"
  by (simp add: map_at_def)

lemma verify_arith_wf:
  assumes wf: "vstate_wf (length maps) s" and dst: "unat (dst_reg insn) < 11" and
    src: "\<not> is_src_imm insn \<Longrightarrow> unat (src_reg insn) < 11" and d: "reg_wf (length maps) d"
  shows "yields errs (vstate_wf (length maps)) (verify_arith cfg maps insn s d)"
  using d reg_write_wf [OF wf dst] reg_read_wf [OF wf src]
  by (cases d) (auto simp: verify_arith_def Let_def map_at_wf)

lemma verify_alu_wf:
  assumes wf: "vstate_wf (length maps) s" and dst: "unat (dst_reg insn) < 11" and
    src: "\<not> is_src_imm insn \<Longrightarrow> unat (src_reg insn) < 11"
  shows "yields errs (vstate_wf (length maps)) (verify_alu cfg maps insn s)"
  using verify_arith_wf [OF wf dst src reg_wf_nth [OF wf dst], of cfg] reg_write_wf [OF wf dst]
    reg_read_wf [OF wf src] reg_read_wf [OF wf dst] reg_wf_nth [OF wf src]
  by (auto simp: verify_alu_def Let_def)

text \<open>The offset of a memory operand of a well-formed stack pointer does not wrap.\<close>

lemma stack_operand:
  assumes "- 512 \<le> off" and "off \<le> 0" and "sz \<in> {1, 2, 4, 8 :: nat}"
  shows "wrap_i32 (off + sint (io :: 16 word)) = off + sint io"
    and "- 512 \<le> off + sint io \<Longrightarrow> off + sint io \<le> 2 ^ 16 \<Longrightarrow>
      wrap_i32 (off + sint io + int sz) = off + sint io + int sz"
    and "off + sint io \<le> 2 ^ 16"
proof -
  have io: "- (2 ^ 15) \<le> sint io" "sint io < 2 ^ 15"
    using sint_greater_eq [of io] sint_less [of io] by simp_all
  show "wrap_i32 (off + sint io) = off + sint io" by (rule wrap_i32_id) (use io assms in auto)
  show "off + sint io \<le> 2 ^ 16" using io assms by auto
  show "wrap_i32 (off + sint io + int sz) = off + sint io + int sz"
    if "- 512 \<le> off + sint io" "off + sint io \<le> 2 ^ 16"
    by (rule wrap_i32_id) (use that assms in auto)
qed

lemma verify_ldx_wf:
  assumes wf: "vstate_wf (length maps) s" and dst: "unat (dst_reg insn) < 11" and
    src: "unat (src_reg insn) < 11"
  shows "yields errs (vstate_wf (length maps)) (verify_ldx cfg maps insn s)"
proof -
  obtain n where n: "mem_size_bytes insn = Ok n" "n \<in> {1, 2, 4, 8}" by (rule mem_size_bytes_cases)
  have w: "yields errs (vstate_wf (length maps)) (reg_write s (unat (dst_reg insn)) Scalar)"
    by (rule reg_write_wf [OF wf dst]) simp
  have len: "length (vstack_init s) = 512" using wf by (simp add: vstate_wf_def)
  show ?thesis
  proof (cases "vregs s ! unat (src_reg insn)")
    case (PtrStack off)
    then have off: "- 512 \<le> off" "off \<le> 0" using reg_wf_nth [OF wf src] by auto
    let ?e = "off + sint (insn_off insn)"
    have "stack_check (vstack_init s) (nat (512 + ?e)) n \<noteq> Panic"
      if "- 512 \<le> ?e" and "wrap_i32 (?e + int n) \<le> 0"
      by (rule stack_check_fits)
        (use that stack_operand(2,3) [OF off n(2), of "insn_off insn"] len in auto)
    then show ?thesis
      using PtrStack n w stack_operand(1) [OF off n(2)] reg_read_wf [OF wf src]
      by (cases "stack_check (vstack_init s) (nat (512 + ?e)) n")
        (auto simp: verify_ldx_def Let_def not_less)
  qed (use reg_read_wf [OF wf src] reg_wf_nth [OF wf src] n w in
      \<open>auto simp: verify_ldx_def Let_def map_at_wf\<close>)
qed

lemma verify_store_wf:
  assumes wf: "vstate_wf (length maps) s" and dst: "unat (dst_reg insn) < 11" and
    src: "unat (src_reg insn) < 11"
  shows "yields errs (vstate_wf (length maps)) (verify_store maps insn s)"
proof -
  obtain n where n: "mem_size_bytes insn = Ok n" "n \<in> {1, 2, 4, 8}" by (rule mem_size_bytes_cases)
  have len: "length (vstack_init s) = 512" using wf by (simp add: vstate_wf_def)
  note rd = reg_read_wf [OF wf src] reg_read_wf [OF wf dst]
  show ?thesis
  proof (cases "vregs s ! unat (dst_reg insn)")
    case (PtrStack off)
    then have off: "- 512 \<le> off" "off \<le> 0" using reg_wf_nth [OF wf dst] by auto
    let ?e = "off + sint (insn_off insn)"
    have "yields errs (\<lambda>i. length i = 512) (stack_mark (vstack_init s) (nat (512 + ?e)) n)"
      if "- 512 \<le> ?e" and "wrap_i32 (?e + int n) \<le> 0"
    proof -
      have "nat (512 + ?e) + n \<le> length (vstack_init s)"
        using that stack_operand(2,3) [OF off n(2), of "insn_off insn"] len by auto
      then show ?thesis by (rule stack_mark_fits) (use len in simp)
    qed
    then show ?thesis
      using PtrStack n wf stack_operand(1) [OF off n(2)] rd
      by (cases "stack_mark (vstack_init s) (nat (512 + ?e)) n")
        (auto simp: verify_store_def Let_def not_less vstate_wf_def)
  qed (use rd reg_wf_nth [OF wf dst] n wf in \<open>auto simp: verify_store_def Let_def map_at_wf\<close>)
qed

lemma unat_uint_le: "unat (w :: 32 word) \<le> k \<longleftrightarrow> uint w \<le> int k"
  using of_nat_le_iff [of "unat w" k, where 'a = int] by simp

lemma wrap_i32_id_numeral: "- 2147483648 \<le> x \<Longrightarrow> x < 2147483648 \<Longrightarrow> wrap_i32 x = x"
  using wrap_i32_id [of x] by simp

lemma sint_small:
  assumes "unat (w :: 32 word) \<le> 65536"
  shows "sint w = uint w"
proof -
  have "uint w \<le> 65536" using assms by (simp add: unat_uint_le)
  then have "wrap_i32 (uint w) = uint w"
    using uint_ge_0 [of w] by (intro wrap_i32_id_numeral) linarith+
  then show ?thesis by (simp add: sint_uint wrap_i32_def)
qed

lemma spec_ok_sizes:
  assumes "spec_ok sp"
  shows "unat (key_size sp) \<le> 512" and "unat (value_size sp) \<le> 65536"
    and "sint (key_size sp) = uint (key_size sp)" and "sint (value_size sp) = uint (value_size sp)"
proof -
  show k: "unat (key_size sp) \<le> 512" and v: "unat (value_size sp) \<le> 65536"
    using assms by (simp_all add: spec_ok_def)
  show "sint (key_size sp) = uint (key_size sp)" by (rule sint_small) (use k in linarith)
  show "sint (value_size sp) = uint (value_size sp)" by (rule sint_small [OF v])
qed

text \<open>An accepted stack argument lies inside the stack.\<close>

lemma check_stack_arg_fits:
  assumes "- 512 \<le> off" and "off \<le> 0" and "wrap_i32 (off + sint n) \<le> 0"
    and "unat (n :: 32 word) \<le> 65536"
  shows "nat (512 + off) + unat n \<le> 512"
proof -
  have n: "uint n \<le> 65536" "0 \<le> uint n" "sint n = uint n"
    using assms(4) sint_small [OF assms(4)] by (simp_all add: unat_uint_le)
  have "wrap_i32 (off + sint n) = off + sint n" 
    by (rule wrap_i32_id_numeral) (use assms n in linarith)+
  moreover have "int (unat n) = uint n" "int (nat (512 + off)) = 512 + off" using assms by simp_all
  ultimately show ?thesis using assms n by linarith
qed

lemma check_stack_arg_wf:
  assumes "vstate_wf k s" and "- 512 \<le> off" and "off \<le> 0" and "unat n \<le> 65536"
  shows "check_stack_arg s off n \<noteq> Panic"
  using assms check_stack_arg_fits [OF assms(2,3) _ assms(4)]
  by (auto simp: check_stack_arg_def vstate_wf_def not_less intro!: stack_check_fits)

definition specs_ok :: "'s bpf_map list \<Rightarrow> bool" where
  "specs_ok maps \<longleftrightarrow> (\<forall>m\<in>set maps. spec_ok (spec m))"

lemma call_arg_wf:
  assumes "vstate_wf (length maps) s" and "specs_ok maps" and "i < length maps" and "vregs s ! r = PtrStack off"
    and "r < 11"
  shows "check_stack_arg s off (key_size (spec (maps ! i))) \<noteq> Panic"
    and "check_stack_arg s off (value_size (spec (maps ! i))) \<noteq> Panic"
proof -
  have sp: "spec_ok (spec (maps ! i))" using assms by (simp add: specs_ok_def)
  have off: "- 512 \<le> off" "off \<le> 0" using reg_wf_nth [OF assms(1,5)] assms(4) by auto
  show "check_stack_arg s off (key_size (spec (maps ! i))) \<noteq> Panic"
    by (rule check_stack_arg_wf [OF assms(1) off]) (use spec_ok_sizes [OF sp] in auto)
  show "check_stack_arg s off (value_size (spec (maps ! i))) \<noteq> Panic"
    by (rule check_stack_arg_wf [OF assms(1) off]) (use spec_ok_sizes [OF sp] in auto)
qed

lemma verify_map_ops_wf:
  assumes wf: "vstate_wf (length maps) s" and sp: "specs_ok maps"
  shows "yields errs (vstate_wf (length maps)) (verify_map_lookup maps s)"
    and "yields errs (vstate_wf (length maps)) (verify_map_delete maps s)"
    and "yields errs (vstate_wf (length maps)) (verify_map_update maps s)"
proof -
  have idx: "i < length maps" if "vregs s ! 1 = PtrMap i" for i using reg_wf_nth [OF wf, of 1] that by simp
  note arg = call_arg_wf [OF wf sp]
  have key: "yields errs errs (check_stack_arg s off (key_size (spec (maps ! i))))"
    if "vregs s ! 1 = PtrMap i" "vregs s ! 2 = PtrStack off" for i off
    using arg(1) [OF idx [OF that(1)] that(2)] by (cases "check_stack_arg s off (key_size (spec (maps ! i)))") auto
  have val: "yields errs errs (check_stack_arg s off (value_size (spec (maps ! i))))"
    if "vregs s ! 1 = PtrMap i" "vregs s ! 3 = PtrStack off" for i off
    using arg(2) [OF idx [OF that(1)] that(2)]
    by (cases "check_stack_arg s off (value_size (spec (maps ! i)))") auto
  show "yields errs (vstate_wf (length maps)) (verify_map_lookup maps s)"
    using idx clobber_wf [OF wf]
    by (auto simp: verify_map_lookup_def map_at_wf intro!: yields_bind [OF key] split: reg_type.splits)
  show "yields errs (vstate_wf (length maps)) (verify_map_delete maps s)"
    using idx clobber_wf [OF wf]
    by (auto simp: verify_map_delete_def map_at_wf intro!: yields_bind [OF key] split: reg_type.splits)
  have v3: "yields errs errs
     (case vregs s ! 3 of PtrStack off \<Rightarrow> check_stack_arg s off (value_size (spec (maps ! i)))
      | PtrMapValue _ _ c \<Rightarrow> if c then Ok () else Err EACCES | _ \<Rightarrow> Err EACCES)"
    if "vregs s ! 1 = PtrMap i" for i
    using val [OF that] by (auto split: reg_type.splits)
  show "yields errs (vstate_wf (length maps)) (verify_map_update maps s)"
    using idx clobber_wf [OF wf]
    by (cases "vregs s ! 1"; cases "vregs s ! 2")
      (auto simp: verify_map_update_def map_at_wf intro!: yields_bind [OF key] yields_bind [OF v3])
qed

lemma verify_call_wf:
  assumes wf: "vstate_wf (length maps) s" and sp: "specs_ok maps"
  shows "yields errs (vstate_wf (length maps)) (verify_call maps h s)"
proof -
  have idx: "i < length maps" if "vregs s ! r = PtrMap i" "r < 11" for i r
    using reg_wf_nth [OF wf that(2)] that(1) by simp
  have out: "yields errs errs (check_output_data b t)" for b t
    by (auto simp: check_output_data_def split: reg_type.splits)
  have "yields errs (vstate_wf (length maps)) (verify_perf_event_output maps s)"
    using idx [of 2] clobber_wf [OF wf]
    by (auto simp: verify_perf_event_output_def map_at_wf intro!: yields_bind [OF out] split: reg_type.splits)
  moreover have "yields errs (vstate_wf (length maps)) (verify_ringbuf_output maps s)"
    using idx [of 1] clobber_wf [OF wf]
    by (auto simp: verify_ringbuf_output_def map_at_wf intro!: yields_bind [OF out] split: reg_type.splits)
  ultimately show ?thesis
    using verify_map_ops_wf [OF wf sp] clobber_wf [OF wf] by (simp add: verify_call_def)
qed

lemma branch_states_wf:
  assumes wf: "vstate_wf k s" and dst: "unat (dst_reg insn) < 11"
  shows "vstate_wf k (fst (branch_states insn s)) \<and> vstate_wf k (snd (branch_states insn s))"
proof (cases "vregs s ! unat (dst_reg insn)")
  case (PtrMapValue i off c)
  then have "reg_wf k (PtrMapValue i off True)" "reg_wf k Scalar" using reg_wf_nth [OF wf dst] by simp_all
  then show ?thesis
    using wf PtrMapValue vstate_wf_update [OF wf] by (simp add: branch_states_def Let_def del: reg_wf.simps)
qed (use wf in \<open>simp_all add: branch_states_def Let_def\<close>)

section \<open>Map references and relocations\<close>

text \<open>
  A resolver that gives each descriptor the same map at all times, if any: its contents may change, and a look-up may
  fail at times. The collected maps have distinct identities and come from the resolver; each relocation belongs to
  one map-loading instruction and points at the map that the resolver gives for it.
\<close>

definition same_maps :: "'s live_resolver \<Rightarrow> bool" where
  "same_maps live \<longleftrightarrow>
     (\<forall>f n n' fd m m'. live = Some f \<longrightarrow> f n fd = Inr m \<longrightarrow> f n' fd = Inr m' \<longrightarrow> map_id m' = map_id m)"

definition maps_inv :: "'s live_resolver \<Rightarrow> bpf_insn list \<Rightarrow> 's bpf_map list \<Rightarrow> (nat \<times> nat) list \<Rightarrow> bool" where
  "maps_inv live insns maps rel \<longleftrightarrow>
     distinct (map map_id maps) \<and> distinct (map fst rel) \<and> length maps \<le> length rel \<and>
     (\<forall>(pc, idx)\<in>set rel. pc < length insns \<and> is_ld_imm64 (insns ! pc) \<and>
        src_reg (insns ! pc) = BPF_PSEUDO_MAP_FD \<and> idx < length maps \<and>
        (\<exists>f n m. live = Some f \<and> f n (imm (insns ! pc)) = Inr m \<and> map_id (maps ! idx) = map_id m))"

lemma maps_inv_empty: "maps_inv res insns [] []"
  by (simp add: maps_inv_def)

lemma takeWhile_all: "\<not> length (takeWhile P xs) < length xs \<Longrightarrow> \<forall>x\<in>set xs. P x"
  by (induction xs) (auto split: if_splits)

lemma find_map_props:
  assumes "find_map maps m = (i, maps')" and "distinct (map map_id maps)"
  shows "i < length maps'" and "map_id (maps' ! i) = map_id m" and "distinct (map map_id maps')"
    and "maps' = maps \<or> maps' = maps @ [m] \<and> map_id m \<notin> map_id ` set maps"
proof -
  let ?P = "\<lambda>m'. map_id m' \<noteq> map_id m" and ?k = "length (takeWhile (\<lambda>m'. map_id m' \<noteq> map_id m) maps)"
  have "i < length maps' \<and> map_id (maps' ! i) = map_id m \<and> distinct (map map_id maps') \<and>
    (maps' = maps \<or> maps' = maps @ [m] \<and> map_id m \<notin> map_id ` set maps)"
  proof (cases "?k < length maps")
    case True
    then show ?thesis using assms nth_length_takeWhile [OF True] by (auto simp: find_map_def)
  next
    case False
    then have "\<forall>m'\<in>set maps. ?P m'" by (rule takeWhile_all)
    then have "map_id m \<notin> map_id ` set maps" by force
    then show ?thesis using False assms by (auto simp: find_map_def)
  qed
  then show "i < length maps'" and "map_id (maps' ! i) = map_id m" and "distinct (map map_id maps')"
    and "maps' = maps \<or> maps' = maps @ [m] \<and> map_id m \<notin> map_id ` set maps" by simp_all
qed

lemma maps_inv_load:
  assumes sm: "same_maps (Some f)" and inv: "maps_inv (Some f) insns maps rel" and fm: "find_map maps m = (i, maps')"
    and f: "f n (imm (insns ! pc)) = Inr m" and pc: "pc < length insns" "is_ld_imm64 (insns ! pc)"
      "src_reg (insns ! pc) = BPF_PSEUDO_MAP_FD"
    and rel': "rel' = (if pc \<in> set (map fst rel) then rel else rel @ [(pc, i)])"
  shows "maps_inv (Some f) insns maps' rel'" and "prefix maps maps'" and "(pc, i) \<in> set rel'"
proof -
  have dist: "distinct (map map_id maps)" using inv by (simp add: maps_inv_def)
  note fp = find_map_props [OF fm dist]
  show "prefix maps maps'" using fp(4) by auto
  have old: "maps' ! j = maps ! j" if "j < length maps" for j using fp(4) that by (auto simp: nth_append)
  have len: "length maps \<le> length maps'" using fp(4) by auto
  have entry: "j < length maps \<and> (\<exists>n' m'. f n' (imm (insns ! q)) = Inr m' \<and> map_id (maps ! j) = map_id m')"
    if "(q, j) \<in> set rel" for q j
    using inv that unfolding maps_inv_def by fastforce
  have seen: "i = j \<and> maps' = maps" if "(pc, j) \<in> set rel" for j
  proof -
    have j: "j < length maps" "map_id (maps ! j) = map_id m"
      using entry [OF that] sm f unfolding same_maps_def by metis+
    then have "maps' = maps" using fp(4) by (metis image_eqI nth_mem)
    moreover have "i = j"
      using fp(1,2) j \<open>maps' = maps\<close> dist by (metis length_map nth_eq_iff_index_eq nth_map)
    ultimately show ?thesis by simp
  qed
  show "(pc, i) \<in> set rel'" using seen rel' by auto
  have "distinct (map fst rel')" using inv rel' by (auto simp: maps_inv_def)
  moreover have "length maps' \<le> length rel'"
  proof (cases "pc \<in> set (map fst rel)")
    case True
    then obtain j where "(pc, j) \<in> set rel" by auto
    then show ?thesis using seen inv rel' True by (simp add: maps_inv_def)
  next
    case False
    then show ?thesis using fp(4) inv rel' by (auto simp: maps_inv_def)
  qed
  moreover have "\<forall>(q, j)\<in>set rel'. q < length insns \<and> is_ld_imm64 (insns ! q) \<and>
      src_reg (insns ! q) = BPF_PSEUDO_MAP_FD \<and> j < length maps' \<and>
      (\<exists>n m. f n (imm (insns ! q)) = Inr m \<and> map_id (maps' ! j) = map_id m)"
  proof clarify
    fix q j assume q: "(q, j) \<in> set rel'"
    show "q < length insns \<and> is_ld_imm64 (insns ! q) \<and> src_reg (insns ! q) = BPF_PSEUDO_MAP_FD \<and>
      j < length maps' \<and> (\<exists>n m. f n (imm (insns ! q)) = Inr m \<and> map_id (maps' ! j) = map_id m)"
    proof (cases "(q, j) \<in> set rel")
      case True
      then show ?thesis using inv entry [OF True] old [of j] len unfolding maps_inv_def by fastforce
    next
      case False
      then have "q = pc" "j = i" using q rel' by (auto split: if_splits)
      then show ?thesis using pc f fp(1,2) by auto
    qed
  qed
  ultimately show "maps_inv (Some f) insns maps' rel'" using fp(3) by (simp add: maps_inv_def)
qed

lemma verify_ld_imm64_Ok:
  assumes sm: "same_maps live" and inv: "maps_inv live insns maps rel" and pc: "pc < length insns" "is_ld_imm64 (insns ! pc)"
    and ok: "verify_ld_imm64 (resolver_at live n) (insns ! pc) pc maps rel s = Ok (maps', rel', s')"
  obtains t where "maps_inv live insns maps' rel'" and "prefix maps maps'" and "set rel \<subseteq> set rel'"
    and "reg_write s (unat (dst_reg (insns ! pc))) t = Ok s'"
    and "if src_reg (insns ! pc) = BPF_PSEUDO_MAP_FD then \<exists>i. t = PtrMap i \<and> (pc, i) \<in> set rel' else t = Scalar"
proof (cases "src_reg (insns ! pc) = BPF_PSEUDO_MAP_FD")
  case True
  obtain f m where f: "live = Some f" "f n (imm (insns ! pc)) = Inr m"
    using ok True by (auto simp: verify_ld_imm64_def resolver_at_def split: option.splits sum.splits)
  obtain i maps1 where fm: "find_map maps m = (i, maps1)" by fastforce
  have r: "maps' = maps1" "rel' = (if pc \<in> set (map fst rel) then rel else rel @ [(pc, i)])"
    "reg_write s (unat (dst_reg (insns ! pc))) (PtrMap i) = Ok s'"
    using ok True f fm by (auto simp: verify_ld_imm64_def resolver_at_def Let_def outcome_simps split: if_splits)
  show ?thesis
    by (rule that [of "PtrMap i"])
      (use maps_inv_load [OF sm [unfolded f(1)] inv [unfolded f(1)] fm f(2) pc True r(2)] r f(1) True in auto)
next
  case False
  then show ?thesis
    using ok inv by (intro that [of Scalar]) (auto simp: verify_ld_imm64_def Let_def outcome_simps)
qed

section \<open>One work item\<close>

lemma word_le_10: "(w :: 8 word) \<le> 10 \<Longrightarrow> unat w < 11"
  by (simp add: word_le_nat_alt)

lemma check_insn_regs:
  assumes "check_insn i = Ok u"
  shows "unat (dst_reg i) < 11" and "unat (src_reg i) < 11"
  using assms by (auto simp: check_insn_def not_less intro!: word_le_10 split: if_splits)

text \<open>What pass 1 gives pass 2: \<open>pass1\<close> holds of the flags that the two loops accepted.\<close>

definition pass1 :: "bpf_insn list \<Rightarrow> bool list \<Rightarrow> bool" where
  "pass1 insns r \<longleftrightarrow>
     slots_ok insns r 0 \<and> length insns < 2 ^ 64 \<and>
     (\<forall>j. j < length insns \<longrightarrow> \<not> r ! j \<longrightarrow> \<not> is_exit (insns ! j) \<longrightarrow>
        (\<exists>l. insn_edges insns r j (if is_ld_imm64 (insns ! j) then j + 2 else j + 1) = Ok l))"

lemma pass1_next:
  assumes p: "pass1 insns r" and pc: "pc < length insns" "\<not> r ! pc"
    and "\<not> is_exit (insns ! pc)" and "\<not> is_ja (insns ! pc)"
    and nx: "nx = (if is_ld_imm64 (insns ! pc) then pc + 2 else pc + 1)"
  shows "nx < length insns" and "\<not> r ! nx"
proof -
  obtain l where l: "insn_edges insns r pc nx = Ok l" using assms unfolding pass1_def by blast
  show lt: "nx < length insns" by (rule insn_edges_props(2) [OF l assms(5)])
  have so: "slots_ok insns r 0" using p by (simp add: pass1_def)
  show "\<not> r ! nx"
  proof
    assume "r ! nx"
    then have prev: "\<not> r ! (nx - 1)" "is_ld_imm64 (insns ! (nx - 1))"
      using so lt unfolding slots_ok_def by auto
    show False
    proof (cases "is_ld_imm64 (insns ! pc)")
      case True
      then have "r ! Suc pc" using so pc unfolding slots_ok_def by auto
      then show False using prev(1) True nx by simp
    next
      case False
      then show False using prev(2) nx by simp
    qed
  qed
qed

lemma jump_target_eq:
  assumes "int t = int pc + 1 + sint (insn_off insn)" and "t < 2 ^ 64"
  shows "jump_target pc insn = t"
proof -
  have "uint (word_of_int (int t) :: 64 word) = int t" by (rule uint_word_of_int_id) (use assms(2) in auto)
  then show ?thesis unfolding jump_target_def assms(1) [symmetric] by (metis nat_int unat_eq_nat_uint)
qed

lemma pass1_jump:
  assumes p: "pass1 insns r" and pc: "pc < length insns" "\<not> r ! pc" and "\<not> is_exit (insns ! pc)"
    and "insn_class (insns ! pc) \<in> {BPF_JMP, BPF_JMP32}" and "\<not> is_call (insns ! pc)"
  shows "pc < jump_target pc (insns ! pc)" and "jump_target pc (insns ! pc) < length insns"
    and "\<not> r ! jump_target pc (insns ! pc)"
proof -
  obtain l where l: "insn_edges insns r pc (if is_ld_imm64 (insns ! pc) then pc + 2 else pc + 1) = Ok l"
    using assms unfolding pass1_def by blast
  have "is_jmp (insns ! pc) \<or> is_jmp32 (insns ! pc)" using assms(5) by (auto simp: is_jmp_def is_jmp32_def)
  then obtain t where t: "validate_jump_target pc (insn_off (insns ! pc)) (length insns) r = Ok t"
    using insn_edges_props(3) [OF l _ assms(6)] by blast
  note v = validate_jump_target_Ok [OF t]
  have "length insns < 2 ^ 64" using p by (simp only: pass1_def)
  then have "jump_target pc (insns ! pc) = t" by (intro jump_target_eq v(4)) (rule order_less_trans [OF v(2)])
  then show "pc < jump_target pc (insns ! pc)" and "jump_target pc (insns ! pc) < length insns"
    and "\<not> r ! jump_target pc (insns ! pc)" using v by simp_all
qed

definition item_ok :: "bpf_insn list \<Rightarrow> bool list \<Rightarrow> nat \<Rightarrow> nat \<times> verifier_state \<Rightarrow> bool" where
  "item_ok insns r k = (\<lambda>(pc, s). pc < length insns \<and> \<not> r ! pc \<and> vstate_wf k s)"

text \<open>
  What a run needs of the maps, however the answers of the resolver change: all of them are well-formed.
\<close>

definition resolver_wf :: "'s resolver \<Rightarrow> bool" where
  "resolver_wf res \<longleftrightarrow> (\<forall>f fd m. res = Some f \<longrightarrow> f fd = Inr m \<longrightarrow> map_wf m)"

definition maps_ok :: "'s bpf_map list \<Rightarrow> bool" where
  "maps_ok maps \<longleftrightarrow> (\<forall>m\<in>set maps. map_wf m)"

definition step_ok ::
  "bpf_insn list \<Rightarrow> bool list \<Rightarrow> 's bpf_map list \<Rightarrow> 's verify_step \<Rightarrow> bool"
  where
  "step_ok insns r maps = (\<lambda>(maps', rel', succs).
     maps_ok maps' \<and> prefix maps maps' \<and> (\<forall>x\<in>set succs. item_ok insns r (length maps') x))"

lemma maps_ok_specs: "maps_ok maps \<Longrightarrow> specs_ok maps"
  by (auto simp: maps_ok_def specs_ok_def map_wf_def)

lemma find_map_index:
  assumes "find_map maps m = (i, maps')"
  shows "i < length maps'" and "prefix maps maps'" and "set maps' \<subseteq> insert m (set maps)"
  using assms by (auto simp: find_map_def Let_def split: if_splits)

lemma verify_ld_imm64_shape:
  assumes "resolver_wf res" and "maps_ok maps" and "verify_ld_imm64 res insn pc maps rel s = Ok (maps', rel', s')"
  obtains t where "maps_ok maps'" and "prefix maps maps'" and "reg_write s (unat (dst_reg insn)) t = Ok s'"
    and "reg_wf (length maps') t"
proof (cases "src_reg insn = BPF_PSEUDO_MAP_FD")
  case True
  obtain f m where f: "res = Some f" "f (imm insn) = Inr m"
    using assms(3) True by (auto simp: verify_ld_imm64_def split: option.splits sum.splits)
  obtain i maps1 where fm: "find_map maps m = (i, maps1)" by fastforce
  have "maps' = maps1" "reg_write s (unat (dst_reg insn)) (PtrMap i) = Ok s'"
    using assms(3) True f fm by (auto simp: verify_ld_imm64_def Let_def outcome_simps split: if_splits)
  moreover have "map_wf m" using assms(1) f by (auto simp: resolver_wf_def)
  ultimately show ?thesis
    using find_map_index [OF fm] assms(2) by (intro that [of "PtrMap i"]) (auto simp: maps_ok_def)
next
  case False
  then show ?thesis
    using assms(2,3) by (intro that [of Scalar]) (auto simp: verify_ld_imm64_def Let_def outcome_simps)
qed

definition ld_regs_ok :: "bpf_insn list \<Rightarrow> bool" where
  "ld_regs_ok insns \<longleftrightarrow> list_all (\<lambda>i. is_ld_imm64 i \<longrightarrow> dst_reg i \<le> 10) insns"

lemma verify_ld_imm64_no_panic:
  assumes "vstate_wf k s" and "dst_reg insn \<le> 10"
  shows "verify_ld_imm64 res insn pc maps rel s \<noteq> Panic"
proof -
  have "unat (dst_reg insn) < length (vregs s)"
    using assms word_le_10 [OF assms(2)] by (simp add: vstate_wf_def)
  then have w: "reg_write s (unat (dst_reg insn)) t \<noteq> Panic" for t by (simp add: reg_write_def)
  show ?thesis
    using w by (auto simp: verify_ld_imm64_def Let_def outcome_simps split: option.splits sum.splits prod.splits)
qed

lemma verify_insn_ld:
  assumes p: "pass1 insns r" and inv: "maps_ok maps" and res: "resolver_wf res"
    and ld: "ld_regs_ok insns" and item: "item_ok insns r (length maps) (pc, s)"
    and is_ld: "is_ld_imm64 (insns ! pc)"
  shows "yields errs (step_ok insns r maps) (verify_insn cfg insns res maps rel pc s)"
proof -
  let ?i = "insns ! pc"
  have pc: "pc < length insns" "\<not> r ! pc" and wf: "vstate_wf (length maps) s"
    using item by (simp_all add: item_ok_def)
  have dst: "dst_reg ?i \<le> 10" using ld is_ld pc(1) by (simp add: ld_regs_ok_def list_all_length)
  have nx: "pc + 2 < length insns \<and> \<not> r ! (pc + 2)"
    using pass1_next [OF p pc _ _ refl] is_ld opcode_disjoint by auto
  have ok: "step_ok insns r maps (maps', rel', [(pc + 2, s')])"
    if "verify_ld_imm64 res ?i pc maps rel s = Ok (maps', rel', s')" for maps' rel' s'
  proof (rule verify_ld_imm64_shape [OF res inv that])
    fix t assume t: "maps_ok maps'" "prefix maps maps'" "reg_write s (unat (dst_reg ?i)) t = Ok s'" "reg_wf (length maps') t"
    have "vstate_wf (length maps') s" by (rule vstate_wf_mono [OF wf prefix_length_le [OF t(2)]])
    then have "vstate_wf (length maps') s'"
      using reg_write_wf [OF _ word_le_10 [OF dst]] t(3,4) by fastforce
    then show ?thesis using t nx by (simp add: step_ok_def item_ok_def)
  qed
  have "yields errs (\<lambda>(maps', rel', s'). step_ok insns r maps (maps', rel', [(pc + 2, s')]))
      (verify_ld_imm64 res ?i pc maps rel s)"
    using ok verify_ld_imm64_no_panic [OF wf dst, of res pc maps rel]
    by (cases "verify_ld_imm64 res ?i pc maps rel s") auto
  then show ?thesis
    using pc(1) is_ld by (auto simp: verify_insn_def Let_def split_beta intro!: yields_bind)
qed

lemma step_ok_same:
  "maps_ok maps \<Longrightarrow> \<forall>x\<in>set succs. item_ok insns r (length maps) x \<Longrightarrow>
   step_ok insns r maps (maps, rel, succs)"
  by (simp add: step_ok_def)

lemma verify_insn_fallthrough:
  assumes p: "pass1 insns r" and inv: "maps_ok maps" and pc: "pc < length insns" "\<not> r ! pc"
    and n: "\<not> is_ld_imm64 (insns ! pc)" "\<not> is_exit (insns ! pc)" "\<not> is_ja (insns ! pc)"
    and q: "yields errs (vstate_wf (length maps)) q"
  shows "yields errs (step_ok insns r maps) (bind_outcome q (\<lambda>s'. Ok (maps, rel, [(pc + 1, s')])))"
proof (rule yields_bind [OF q])
  fix s' assume s': "vstate_wf (length maps) s'"
  have "pc + 1 < length insns \<and> \<not> r ! (pc + 1)" using pass1_next [OF p pc n(2,3)] n(1) by simp
  then show "yields errs (step_ok insns r maps) (Ok (maps, rel, [(pc + 1, s')]))"
    using s' step_ok_same [OF inv, of "[(pc + 1, s')]" insns r] by (simp add: item_ok_def)
qed

lemma verify_cond_jump_step:
  assumes p: "pass1 insns r" and inv: "maps_ok maps"
    and item: "item_ok insns r (length maps) (pc, s)"
    and rg: "unat (dst_reg (insns ! pc)) < 11" "unat (src_reg (insns ! pc)) < 11"
    and n: "\<not> is_ld_imm64 (insns ! pc)" "\<not> is_exit (insns ! pc)" "\<not> is_ja (insns ! pc)" "\<not> is_call (insns ! pc)"
    and cl: "insn_class (insns ! pc) \<in> {BPF_JMP, BPF_JMP32}"
  shows "yields errs (step_ok insns r maps)
    (bind_outcome (verify_cond_jump (insns ! pc) pc (pc + 1) s) (\<lambda>succs. Ok (maps, rel, succs)))"
proof -
  have pc: "pc < length insns" "\<not> r ! pc" and wf: "vstate_wf (length maps) s"
    using item by (simp_all add: item_ok_def)
  have nx: "pc + 1 < length insns \<and> \<not> r ! (pc + 1)" using pass1_next [OF p pc n(2,3)] n(1) by simp
  note j = pass1_jump [OF p pc n(2) cl n(4)]
  have "\<forall>x\<in>set [(pc + 1, snd (branch_states (insns ! pc) s)),
      (jump_target pc (insns ! pc), fst (branch_states (insns ! pc) s))]. item_ok insns r (length maps) x"
    using nx j branch_states_wf [OF wf rg(1)] by (simp add: item_ok_def)
  note st = step_ok_same [OF inv this]
  show ?thesis
    using st reg_read_wf [OF wf rg(1)] reg_read_wf [OF wf rg(2)]
    by (simp add: verify_cond_jump_def Let_def split_beta)
qed

lemma verify_insn_step:
  assumes p: "pass1 insns r" and inv: "maps_ok maps" and res: "resolver_wf res"
    and ld: "ld_regs_ok insns" and item: "item_ok insns r (length maps) (pc, s)"
  shows "yields errs (step_ok insns r maps) (verify_insn cfg insns res maps rel pc s)"
proof (cases "is_ld_imm64 (insns ! pc)")
  case True
  then show ?thesis by (rule verify_insn_ld [OF p inv res ld item])
next
  case nld: False
  let ?i = "insns ! pc"
  have pc: "pc < length insns" "\<not> r ! pc" and wf: "vstate_wf (length maps) s"
    using item by (simp_all add: item_ok_def)
  have sp: "specs_ok maps" by (rule maps_ok_specs [OF inv])
  have "check_insn ?i = Ok ()" using p pc nld unfolding pass1_def slots_ok_def by auto
  note rg = check_insn_regs [OF this]
  note go = verify_insn_fallthrough [OF p inv pc nld]
  consider (jmp) "insn_class ?i \<in> {BPF_JMP, BPF_JMP32}" | (plain) "insn_class ?i \<notin> {BPF_JMP, BPF_JMP32}" by blast
  then show ?thesis
  proof cases
    case plain
    then have n: "\<not> is_exit ?i" "\<not> is_ja ?i" using is_exit_class is_ja_class by auto
    show ?thesis
      using plain pc(1) nld go [OF n verify_alu_wf [OF wf rg(1) rg(2)]] go [OF n verify_ldx_wf [OF wf rg]]
        go [OF n verify_store_wf [OF wf rg]]
      by (simp add: verify_insn_def Let_def)
  next
    case jmp
    have ja: "step_ok insns r maps (maps, rel, [(jump_target pc ?i, s)])" if "is_ja ?i"
      using pass1_jump [OF p pc _ jmp] that opcode_disjoint wf
      by (intro step_ok_same [OF inv]) (auto simp: item_ok_def)
    have ex: "yields errs (step_ok insns r maps) (bind_outcome (verify_exit s) (\<lambda>_. Ok (maps, rel, [])))"
      using step_ok_same [OF inv, of "[]" insns r] by (simp add: verify_exit_def split: reg_type.split)
    have call: "yields errs (step_ok insns r maps)
      (bind_outcome (verify_call maps (imm ?i) s) (\<lambda>s'. Ok (maps, rel, [(pc + 1, s')])))"
      if "\<not> is_exit ?i" "\<not> is_ja ?i"
      by (rule go [OF that verify_call_wf [OF wf sp]])
    note cond = verify_cond_jump_step [OF p inv item rg nld _ _ _ jmp]
    show ?thesis
      using jmp pc(1) nld ja ex call cond by (auto simp: verify_insn_def Let_def)
  qed
qed

section \<open>The whole verifier\<close>

lemma items_mono:
  "\<forall>x\<in>S. item_ok insns r k x \<Longrightarrow> k \<le> k' \<Longrightarrow> \<forall>x\<in>S. item_ok insns r k' x"
  using vstate_wf_mono by (fastforce simp: item_ok_def)

text \<open>The work list keeps the invariant, so the loop never panics.\<close>

lemma verify_loop_no_panic:
  assumes "pass1 insns r" and "\<forall>n. resolver_wf (resolver_at live n)" and "ld_regs_ok insns"
    and "maps_ok maps" and "\<forall>x\<in>set wl. item_ok insns r (length maps) x"
  shows "verify_loop cfg insns live maps rel wl ex cnt \<noteq> Panic"
  using assms
proof (induction cfg insns live maps rel wl ex cnt rule: verify_loop.induct)
  case (1 cfg insns live maps rel wl ex cnt)
  show ?case
  proof (cases wl)
    case Nil
    then show ?thesis by (simp add: verify_loop.simps)
  next
    case (Cons x rest)
    obtain pc s where x: "x = (pc, s)" by fastforce
    note wl = Cons [unfolded x]
    have item: "item_ok insns r (length maps) (pc, s)"
      and rest: "\<forall>x\<in>set rest. item_ok insns r (length maps) x" using 1(7) wl by auto
    note st = verify_insn_step [OF 1(3,6) spec [OF 1(4), of cnt] 1(5) item, of cfg rel]
    show ?thesis
    proof (cases "cnt + 1 > max_states cfg \<or> (pc, s) \<in> set ex")
      case True
      then show ?thesis using 1(1) [OF wl refl] 1(3-6) rest wl by (subst verify_loop.simps) auto
    next
      case new: False
      show ?thesis
      proof (cases "verify_insn cfg insns (resolver_at live cnt) maps rel pc s")
        case (Ok y)
        obtain maps' rel' succs where y: "y = (maps', rel', succs)" by (cases y) auto
        have so: "maps_ok maps'" "prefix maps maps'"
          "\<forall>x\<in>set succs. item_ok insns r (length maps') x"
          using st Ok y by (auto simp: step_ok_def)
        have "\<forall>x\<in>set (rest @ succs). item_ok insns r (length maps') x"
          using so(3) items_mono [OF rest prefix_length_le [OF so(2)]] by auto
        then show ?thesis
          using 1(2) [OF wl refl _ _ Ok [unfolded y] refl refl 1(3,4,5) so(1)] new wl Ok y
          by (subst verify_loop.simps) auto
      qed (use new wl st in \<open>subst verify_loop.simps, auto\<close>)
    qed
  qed
qed

lemma pass1_intro:
  assumes "check_insns insns 0 (replicate (length insns) False) = Ok r"
    and "build_edges insns r 0 (replicate (length insns) []) = Ok es" and "length insns < 2 ^ 64"
  shows "pass1 insns r" and "length es = length insns" and "\<And>l. l \<in> set es \<Longrightarrow> set l \<subseteq> {..<length insns}"
proof -
  have so: "slots_ok insns r 0" by (rule check_insns_slots [OF assms(1)]) simp_all
  have "length es = length insns \<and> (\<forall>l\<in>set es. set l \<subseteq> {..<length insns}) \<and>
    (\<forall>j. 0 \<le> j \<longrightarrow> j < length insns \<longrightarrow> \<not> r ! j \<longrightarrow> \<not> is_exit (insns ! j) \<longrightarrow>
       (\<exists>l. insn_edges insns r j (if is_ld_imm64 (insns ! j) then j + 2 else j + 1) = Ok l))"
    by (rule build_edges_props [OF assms(2) so]) (auto simp: in_set_replicate)
  then show "pass1 insns r" and "length es = length insns" and "\<And>l. l \<in> set es \<Longrightarrow> set l \<subseteq> {..<length insns}"
    using so assms(3) unfolding pass1_def by blast+
qed

lemma verifier_initial_wf: "vstate_wf k verifier_initial"
proof -
  have "set ((replicate 11 NotInit)[1 := PtrContext 0, 10 := PtrStack 0]) \<subseteq> {NotInit, PtrContext 0, PtrStack 0}"
    using set_update_subset_insert [of "(replicate 11 NotInit)[1 := PtrContext 0]" 10 "PtrStack 0"]
      set_update_subset_insert [of "replicate 11 NotInit" 1 "PtrContext 0"] by auto
  then show ?thesis by (auto simp: vstate_wf_def verifier_initial_def)
qed

lemma first_item:
  assumes "pass1 insns r" and "insns \<noteq> []"
  shows "item_ok insns r k (0, verifier_initial)"
  using assms verifier_initial_wf unfolding pass1_def slots_ok_def item_ok_def by auto

text \<open>C15: The verifier itself never panics on a program whose two-slot loads name a real register,
  whatever the program and the descriptors it refers to, also when other threads change the
  descriptors while it runs.\<close>

theorem verify_program_no_panic:
  assumes "ld_regs_ok insns" and "\<forall>n. resolver_wf (resolver_at res n)" and "max_insns cfg < 2 ^ 64"
  shows "verify_program cfg insns res \<noteq> Panic"
proof
  assume panic: "verify_program cfg insns res = Panic"
  then have ne: "insns \<noteq> []" and len: "length insns < 2 ^ 64"
    using assms(3) by (auto simp: verify_program_def split: if_splits)
  have "check_insns insns 0 (replicate (length insns) False) \<noteq> Panic" by (rule check_insns_no_panic) simp
  then obtain r where r: "check_insns insns 0 (replicate (length insns) False) = Ok r"
    using panic by (auto simp: verify_program_def outcome_simps split: if_splits)
  have "length r = length insns" using check_insns_prefix [OF r] by simp
  then have "build_edges insns r 0 (replicate (length insns) []) \<noteq> Panic" by (rule build_edges_no_panic)
  then obtain es where es: "build_edges insns r 0 (replicate (length insns) []) = Ok es"
    using panic r by (auto simp: verify_program_def outcome_simps split: if_splits)
  note p = pass1_intro [OF r es len]
  have "reach_loop insns es ((replicate (length insns) False)[0 := True]) [0] \<noteq> Panic"
    by (rule reach_loop_no_panic [OF p(2,3)]) (use ne in auto)
  then have "check_reachable insns es r \<noteq> Panic" by (auto simp: check_reachable_def outcome_simps)
  moreover have "verify_loop cfg insns res [] [] [(0, verifier_initial)] [] 0 \<noteq> Panic"
    by (rule verify_loop_no_panic [OF p(1) assms(2,1)]) (use first_item [OF p(1) ne] in \<open>simp_all add: maps_ok_def\<close>)
  ultimately show False
    using panic r es ne by (auto simp: verify_program_def outcome_simps split: if_splits prod.splits)
qed

theorem verify_program_no_panic_witness:
  "verify_program (verifier_config_new Tracepoint)
     [insn_new 0x18 0 0 0 7, insn_new 0 0 0 0 0, insn_new 0x95 0 0 0 0] (None :: nat live_resolver) \<noteq> Panic"
  by (rule verify_program_no_panic)
    (simp_all add: ld_regs_ok_def resolver_wf_def resolver_at_def verifier_config_new_def insn_new_def dst_reg_def)

section \<open>A panic in the verifier\<close>

text \<open>
  The first pass skips the register check for \<open>LD_IMM64\<close>, and the second pass indexes its eleven
  registers with the destination.
\<close>

definition bad_load :: "8 word \<Rightarrow> 32 word \<Rightarrow> bpf_insn list" where
  "bad_load d im = [insn_new 0x18 d 0 0 im, insn_new 0 0 0 0 0, insn_new 0x95 0 0 0 0]"

text \<open>C16: A three-instruction program that loads a constant into a register number from 11 to 15 makes
  the verifier index its register array out of bounds, whatever the program type and the resolver.\<close>

theorem verify_program_ld_imm64_panics:
  assumes "d \<in> {11, 12, 13, 14, 15}"
  shows "verify_program (verifier_config_new ty) (bad_load d im) res = Panic"
proof -
  have ld: "is_ld_imm64 (insn_new 0x18 d 0 0 im)" "src_reg (insn_new 0x18 d 0 0 im) = 0"
    "unat (dst_reg (insn_new 0x18 d 0 0 im)) \<ge> 11"
    using assms by (auto simp: is_ld_imm64_def insn_new_def dst_reg_def src_reg_def)
  have blank: "code (insn_new 0 0 0 0 0) = 0" "dst_reg (insn_new 0 0 0 0 0) = 0" "src_reg (insn_new 0 0 0 0 0) = 0"
    "insn_off (insn_new 0 0 0 0 0) = 0"
    by (simp_all add: insn_new_def dst_reg_def src_reg_def)
  have ex: "is_exit (insn_new 0x95 0 0 0 0)" "\<not> is_ld_imm64 (insn_new 0x95 0 0 0 0)"
    "check_insn (insn_new 0x95 0 0 0 0) = Ok ()" "\<not> is_exit (insn_new 0x18 d 0 0 im)"
    "\<not> is_ja (insn_new 0x18 d 0 0 im)" "\<not> is_jmp (insn_new 0x18 d 0 0 im)" "\<not> is_jmp32 (insn_new 0x18 d 0 0 im)"
    by (simp_all add: is_exit_def is_ld_imm64_def check_insn_def is_ja_def is_jmp_def is_jmp32_def insn_class_def
        insn_mode_def insn_new_def dst_reg_def src_reg_def)
  have slots: "check_insns (bad_load d im) 0 [False, False, False] = Ok [False, True, False]"
    using ld blank ex by (simp add: check_insns.simps bad_load_def)
  have edges: "build_edges (bad_load d im) [False, True, False] 0 [[], [], []] = Ok [[2], [], []]"
    using ld ex by (simp add: build_edges.simps bad_load_def insn_edges_def)
  have reach: "check_reachable (bad_load d im) [[2], [], []] [False, True, False] = Ok ()"
    using ld ex by (simp add: check_reachable_def reach_loop.simps bad_load_def reach_push_def numeral_3_eq_3)
  have "verify_loop (verifier_config_new ty) (bad_load d im) res [] [] [(0, verifier_initial)] [] 0 = Panic"
    using ld by (simp add: verify_loop.simps verifier_config_new_def verify_insn_def bad_load_def
        verify_ld_imm64_def reg_write_def verifier_initial_def)
  then show ?thesis
    using slots edges reach
    by (simp add: verify_program_def bad_load_def verifier_config_new_def numeral_3_eq_3)
qed

theorem verify_program_ld_imm64_panics_witness:
  "(11 :: 8 word) \<in> {11, 12, 13, 14, 15} \<and>
   verify_program (verifier_config_new PerfEvent) (bad_load 11 0) (None :: nat live_resolver) = Panic"
  using verify_program_ld_imm64_panics [of 11] by simp

end
