(* ===== verification/Bpf_Interpreter.thy ===== *)
theory Bpf_Interpreter
  imports Bpf_Map
begin

text \<open>
  The eBPF virtual machine, \<open>pulse_core/src/bpf/interpreter.rs\<close>, and the run counters of
  \<open>program.rs\<close>: one step function per instruction class and per helper call, and the bounded
  execution loop. Offsets are 64-bit words with the wrap-around of the release build; a panic of the
  Rust code (a register, stack, context or lookup index out of range) is the outcome \<^const>\<open>Panic\<close>.
\<close>

section \<open>Values, errors and machine state\<close>

abbreviation (input) BPF_STACK_BYTES :: nat where "BPF_STACK_BYTES \<equiv> 512"
abbreviation (input) BPF_MAX_STEPS :: nat where "BPF_MAX_STEPS \<equiv> 65536"
abbreviation (input) BPF_MAX_RECURSION_DEPTH :: nat where "BPF_MAX_RECURSION_DEPTH \<equiv> 4"
abbreviation (input) BPF_MAX_LOOKUP_REFS :: nat where "BPF_MAX_LOOKUP_REFS \<equiv> 64"
abbreviation (input) BPF_MAX_CPUS :: nat where "BPF_MAX_CPUS \<equiv> 16"
abbreviation (input) BPF_F_INDEX_MASK :: "64 word" where "BPF_F_INDEX_MASK \<equiv> 0xffffffff"
abbreviation (input) BPF_F_CURRENT_CPU :: "32 word" where "BPF_F_CURRENT_CPU \<equiv> 0xffffffff"

datatype vm_error =
    StepLimitExceeded
  | RecursionLimitExceeded
  | InvalidInstruction
  | UninitializedRegister nat
  | UninitializedStack int nat
  | NullPointerDereference
  | OutOfBoundsAccess
  | UnalignedMemoryAccess
  | ReadOnlyAccess
  | InvalidHelperCall "32 word"
  | HelperFailed errno
  | DivideByZero

fun vm_error_errno :: "vm_error \<Rightarrow> errno" where
  "vm_error_errno StepLimitExceeded = E2BIG"
| "vm_error_errno RecursionLimitExceeded = EBUSY"
| "vm_error_errno InvalidInstruction = EINVAL"
| "vm_error_errno (UninitializedRegister _) = EACCES"
| "vm_error_errno (UninitializedStack _ _) = EACCES"
| "vm_error_errno NullPointerDereference = EFAULT"
| "vm_error_errno OutOfBoundsAccess = EFAULT"
| "vm_error_errno UnalignedMemoryAccess = EINVAL"
| "vm_error_errno ReadOnlyAccess = EACCES"
| "vm_error_errno (InvalidHelperCall _) = EINVAL"
| "vm_error_errno (HelperFailed e) = e"
| "vm_error_errno DivideByZero = EINVAL"

datatype vm_value =
    VUninit
  | VScalar "64 word"
  | VPtrContext "64 word"
  | VPtrStack "64 word"
  | VPtrMap nat
  | VPtrMapValueArray nat "32 word" "64 word"
  | VPtrMapValueHash nat "8 word" "64 word"
  | VNull

fun as_scalar :: "vm_value \<Rightarrow> (vm_error, 64 word) outcome" where
  "as_scalar (VScalar v) = Ok v"
| "as_scalar VNull = Ok 0"
| "as_scalar VUninit = Err (UninitializedRegister 0)"
| "as_scalar _ = Err InvalidInstruction"

text \<open>
  The environment: the clock and the processor number at a step, the code outside the component,
  namely the numbers of \<open>axerrno\<close> and the perf-event sinks, and the other holders of the maps. The
  maps are shared (\<open>Arc\<close>): before each instruction \<open>others\<close> gives what other processors and system
  calls have made of them. An instruction is one atomic step of the model.
\<close>

record 's bpf_env =
  ktime_get_ns :: "nat \<Rightarrow> 64 word"
  get_smp_processor_id :: "nat \<Rightarrow> 32 word"
  errno_code :: "errno \<Rightarrow> 32 word"
  output_sample :: "'s \<Rightarrow> byte list \<Rightarrow> unit res"
  others :: "nat \<Rightarrow> 's bpf_map list \<Rightarrow> 's bpf_map list"

text \<open>\<open>al_key\<close> is the initialised prefix \<open>key[..key_len]\<close> of the lookup's key buffer.\<close>

record active_lookup =
  al_map_idx :: nat
  al_key :: "byte list"

record 's vm_state =
  regs :: "vm_value list"
  stack :: "byte list"
  stack_init :: "bool list"
  lookups :: "active_lookup list"
  vpc :: nat
  steps :: nat
  vmaps :: "'s bpf_map list"

datatype 's control = Continue "'s vm_state" | Return "64 word"

section \<open>Accesses\<close>

definition vreg :: "'s vm_state \<Rightarrow> nat \<Rightarrow> (vm_error, vm_value) outcome" where
  "vreg st r = (if r < length (regs st) then Ok (regs st ! r) else Panic)"

definition set_vreg :: "'s vm_state \<Rightarrow> nat \<Rightarrow> vm_value \<Rightarrow> (vm_error, 's vm_state) outcome" where
  "set_vreg st r v = (if r < length (regs st) then Ok (st\<lparr>regs := (regs st)[r := v]\<rparr>) else Panic)"

text \<open>\<open>maps.get(map_idx).ok_or(OutOfBoundsAccess)\<close>\<close>

definition vmap :: "'s vm_state \<Rightarrow> nat \<Rightarrow> (vm_error, 's bpf_map) outcome" where
  "vmap st map_idx = (if map_idx < length (vmaps st) then Ok (vmaps st ! map_idx) else Err OutOfBoundsAccess)"

definition vslice :: "byte list \<Rightarrow> nat \<Rightarrow> nat \<Rightarrow> (vm_error, byte list) outcome" where
  "vslice v start n = (if start + n \<le> length v then Ok (slice v start n) else Panic)"

definition eff_addr :: "64 word \<Rightarrow> bpf_insn \<Rightarrow> (vm_error, 64 word) outcome" where
  "eff_addr offset insn =
     (case checked_add_signed offset (sint (insn_off insn)) of
        Some eff \<Rightarrow> Ok eff | None \<Rightarrow> Err OutOfBoundsAccess)"

text \<open>The loop over \<open>stack_init[eff + b]\<close> of a stack load.\<close>

fun init_loop :: "bool list \<Rightarrow> 64 word \<Rightarrow> vm_error \<Rightarrow> nat list \<Rightarrow> (vm_error, unit) outcome" where
  "init_loop init eff e [] = Ok ()"
| "init_loop init eff e (b # bs) =
     (let i = unat (eff + of_nat b)
      in if i \<ge> length init then Panic else if \<not> init ! i then Err e else init_loop init eff e bs)"

definition next_insn :: "'s vm_state \<Rightarrow> 's vm_state" where
  "next_insn st = st\<lparr>vpc := vpc st + 1\<rparr>"

definition continue_with :: "(vm_error, 's vm_state) outcome \<Rightarrow> (vm_error, 's control) outcome" where
  "continue_with r = bind_outcome r (\<lambda>st. Ok (Continue (next_insn st)))"

section \<open>Arithmetic\<close>

definition alu32 :: "8 word \<Rightarrow> 32 word \<Rightarrow> 32 word \<Rightarrow> 32 word \<Rightarrow> (vm_error, 32 word) outcome" where
  "alu32 op a b im =
     (if op = BPF_ADD then Ok (a + b)
      else if op = BPF_SUB then Ok (a - b)
      else if op = BPF_MUL then Ok (a * b)
      else if op = BPF_DIV then (if b = 0 then Err DivideByZero else Ok (a div b))
      else if op = BPF_MOD then (if b = 0 then Err DivideByZero else Ok (a mod b))
      else if op = BPF_OR then Ok (a OR b)
      else if op = BPF_AND then Ok (a AND b)
      else if op = BPF_LSH then Ok (push_bit (unat (b AND 31)) a)
      else if op = BPF_RSH then Ok (drop_bit (unat (b AND 31)) a)
      else if op = BPF_ARSH then Ok (signed_drop_bit (unat (b AND 31)) a)
      else if op = BPF_NEG then Ok (- a)
      else if op = BPF_XOR then Ok (a XOR b)
      else if op = BPF_END then
        (if im = 16 then Ok (ucast (ucast a :: 16 word))
         else if im = 32 then Ok a else Err InvalidInstruction)
      else Err InvalidInstruction)"

definition alu64 :: "8 word \<Rightarrow> 64 word \<Rightarrow> 64 word \<Rightarrow> 32 word \<Rightarrow> (vm_error, 64 word) outcome" where
  "alu64 op a b im =
     (if op = BPF_ADD then Ok (a + b)
      else if op = BPF_SUB then Ok (a - b)
      else if op = BPF_MUL then Ok (a * b)
      else if op = BPF_DIV then (if b = 0 then Err DivideByZero else Ok (a div b))
      else if op = BPF_MOD then (if b = 0 then Err DivideByZero else Ok (a mod b))
      else if op = BPF_OR then Ok (a OR b)
      else if op = BPF_AND then Ok (a AND b)
      else if op = BPF_LSH then Ok (push_bit (unat (b AND 63)) a)
      else if op = BPF_RSH then Ok (drop_bit (unat (b AND 63)) a)
      else if op = BPF_ARSH then Ok (signed_drop_bit (unat (b AND 63)) a)
      else if op = BPF_NEG then Ok (- a)
      else if op = BPF_XOR then Ok (a XOR b)
      else if op = BPF_END then (if im = 64 then Ok a else Err InvalidInstruction)
      else Err InvalidInstruction)"

text \<open>The second operand: the sign-extended immediate or the source register.\<close>

definition src_operand :: "'s vm_state \<Rightarrow> bpf_insn \<Rightarrow> (vm_error, 64 word) outcome" where
  "src_operand st insn =
     (if is_src_imm insn then Ok (scast (imm insn))
      else bind_outcome (vreg st (unat (src_reg insn))) as_scalar)"

definition exec_alu32 :: "bpf_insn \<Rightarrow> 's vm_state \<Rightarrow> (vm_error, 's vm_state) outcome" where
  "exec_alu32 insn st =
     (let op = insn_op insn; dst = unat (dst_reg insn)
      in if op = BPF_MOV then
           bind_outcome (src_operand st insn) (\<lambda>v. set_vreg st dst (VScalar (ucast (ucast v :: 32 word))))
         else
           bind_outcome (vreg st dst) (\<lambda>d.
             bind_outcome (as_scalar d) (\<lambda>dst_val.
               bind_outcome (src_operand st insn) (\<lambda>src_val.
                 bind_outcome (alu32 op (ucast dst_val) (ucast src_val) (imm insn)) (\<lambda>res.
                   set_vreg st dst (VScalar (ucast res)))))))"

definition exec_ptr_arith ::
  "bpf_insn \<Rightarrow> 's vm_state \<Rightarrow> vm_value \<Rightarrow> (vm_error, 's vm_state) outcome option" where
  "exec_ptr_arith insn st d =
     (let dst = unat (dst_reg insn);
          eff_delta = bind_outcome (src_operand st insn)
            (\<lambda>delta. Ok (if insn_op insn = BPF_ADD then delta else - delta));
          checked = \<lambda>map_idx offset mk.
            bind_outcome eff_delta (\<lambda>delta.
              case checked_add_signed offset (sint delta) of
                None \<Rightarrow> Err OutOfBoundsAccess
              | Some new_off \<Rightarrow>
                  bind_outcome (vmap st map_idx) (\<lambda>m.
                    if unat new_off > vsize m then Err OutOfBoundsAccess else set_vreg st dst (mk new_off)))
      in case d of
           VPtrStack offset \<Rightarrow>
             Some (bind_outcome eff_delta (\<lambda>delta. set_vreg st dst (VPtrStack (offset + delta))))
         | VPtrContext offset \<Rightarrow>
             Some (bind_outcome eff_delta (\<lambda>delta. set_vreg st dst (VPtrContext (offset + delta))))
         | VPtrMapValueArray map_idx entry_idx offset \<Rightarrow>
             Some (checked map_idx offset (VPtrMapValueArray map_idx entry_idx))
         | VPtrMapValueHash map_idx lookup_id offset \<Rightarrow>
             Some (checked map_idx offset (VPtrMapValueHash map_idx lookup_id))
         | _ \<Rightarrow> None)"

definition exec_alu64 :: "bpf_insn \<Rightarrow> 's vm_state \<Rightarrow> (vm_error, 's vm_state) outcome" where
  "exec_alu64 insn st =
     (let op = insn_op insn; dst = unat (dst_reg insn)
      in if op = BPF_MOV then
           (if is_src_imm insn then set_vreg st dst (VScalar (scast (imm insn)))
            else bind_outcome (vreg st (unat (src_reg insn))) (set_vreg st dst))
         else
           bind_outcome (vreg st dst) (\<lambda>d.
             case (if op = BPF_ADD \<or> op = BPF_SUB then exec_ptr_arith insn st d else None) of
               Some r \<Rightarrow> r
             | None \<Rightarrow>
                 bind_outcome (as_scalar d) (\<lambda>dst_val.
                   bind_outcome (src_operand st insn) (\<lambda>src_val.
                     bind_outcome (alu64 op dst_val src_val (imm insn)) (\<lambda>res.
                       set_vreg st dst (VScalar res))))))"

section \<open>Loads and stores\<close>

definition insn_bytes :: "bpf_insn \<Rightarrow> (vm_error, nat) outcome" where
  "insn_bytes insn = map_err (\<lambda>_. InvalidInstruction) (mem_size_bytes insn)"

text \<open>The bytes that a load of \<open>sz\<close> bytes reads through the pointer \<open>p\<close>.\<close>

definition load_bytes ::
  "byte list \<Rightarrow> bpf_insn \<Rightarrow> 's vm_state \<Rightarrow> nat \<Rightarrow> vm_value \<Rightarrow> (vm_error, byte list) outcome" where
  "load_bytes context insn st sz p =
     (case p of
        VPtrContext offset \<Rightarrow>
          bind_outcome (eff_addr offset insn) (\<lambda>eff.
            if unat (eff + of_nat sz) > length context then Err OutOfBoundsAccess
            else if unat eff mod sz \<noteq> 0 then Err UnalignedMemoryAccess
            else vslice context (unat eff) sz)
      | VPtrStack offset \<Rightarrow>
          bind_outcome (eff_addr offset insn) (\<lambda>eff.
            if unat (eff + of_nat sz) > BPF_STACK_BYTES then Err OutOfBoundsAccess
            else bind_outcome
                   (init_loop (stack_init st) eff
                      (UninitializedStack (sint (ucast eff - 512 :: 32 word)) sz) [0..<sz])
                   (\<lambda>_. vslice (stack st) (unat eff) sz))
      | VPtrMapValueArray map_idx entry_idx offset \<Rightarrow>
          bind_outcome (eff_addr offset insn) (\<lambda>eff.
            bind_outcome (vmap st map_idx) (\<lambda>m.
              map_err (\<lambda>_. OutOfBoundsAccess)
                (read_value_bytes m (u32_to_bytes entry_idx) (unat eff) sz)))
      | VPtrMapValueHash map_idx lookup_id offset \<Rightarrow>
          bind_outcome (eff_addr offset insn) (\<lambda>eff.
            bind_outcome (vmap st map_idx) (\<lambda>m.
              if unat lookup_id \<ge> length (lookups st) then Panic
              else map_err (\<lambda>_. OutOfBoundsAccess)
                     (read_value_bytes m (al_key (lookups st ! unat lookup_id)) (unat eff) sz)))
      | VNull \<Rightarrow> Err NullPointerDereference
      | VScalar v \<Rightarrow> if v = 0 then Err NullPointerDereference else Err InvalidInstruction
      | _ \<Rightarrow> Err InvalidInstruction)"

definition exec_ldx :: "byte list \<Rightarrow> bpf_insn \<Rightarrow> 's vm_state \<Rightarrow> (vm_error, 's vm_state) outcome" where
  "exec_ldx context insn st =
     bind_outcome (insn_bytes insn) (\<lambda>sz.
       bind_outcome (vreg st (unat (src_reg insn))) (\<lambda>p.
         bind_outcome (load_bytes context insn st sz p) (\<lambda>bytes.
           set_vreg st (unat (dst_reg insn)) (VScalar (from_bytes bytes)))))"

definition write_map ::
  "'s vm_state \<Rightarrow> nat \<Rightarrow> byte list \<Rightarrow> nat \<Rightarrow> byte list \<Rightarrow> (vm_error, 's vm_state) outcome" where
  "write_map st map_idx key eff bytes =
     bind_outcome (map_err (\<lambda>_. OutOfBoundsAccess) (write_value_bytes (vmaps st ! map_idx) key eff bytes))
       (\<lambda>m. Ok (st\<lparr>vmaps := (vmaps st)[map_idx := m]\<rparr>))"

definition store_bytes ::
  "bpf_insn \<Rightarrow> 's vm_state \<Rightarrow> nat \<Rightarrow> byte list \<Rightarrow> vm_value \<Rightarrow> (vm_error, 's vm_state) outcome" where
  "store_bytes insn st sz bytes p =
     (case p of
        VPtrContext _ \<Rightarrow> Err ReadOnlyAccess
      | VPtrStack offset \<Rightarrow>
          bind_outcome (eff_addr offset insn) (\<lambda>eff.
            if unat (eff + of_nat sz) > BPF_STACK_BYTES then Err OutOfBoundsAccess
            else if unat eff + sz > length (stack st) \<or> unat eff + sz > length (stack_init st) then Panic
            else Ok (st\<lparr>stack := splice (stack st) (unat eff) bytes,
                       stack_init := splice (stack_init st) (unat eff) (replicate sz True)\<rparr>))
      | VPtrMapValueArray map_idx entry_idx offset \<Rightarrow>
          bind_outcome (eff_addr offset insn) (\<lambda>eff.
            bind_outcome (vmap st map_idx) (\<lambda>m.
              write_map st map_idx (u32_to_bytes entry_idx) (unat eff) bytes))
      | VPtrMapValueHash map_idx lookup_id offset \<Rightarrow>
          bind_outcome (eff_addr offset insn) (\<lambda>eff.
            bind_outcome (vmap st map_idx) (\<lambda>m.
              if unat lookup_id \<ge> length (lookups st) then Panic
              else write_map st map_idx (al_key (lookups st ! unat lookup_id)) (unat eff) bytes))
      | VNull \<Rightarrow> Err NullPointerDereference
      | VScalar v \<Rightarrow> if v = 0 then Err NullPointerDereference else Err InvalidInstruction
      | _ \<Rightarrow> Err InvalidInstruction)"

definition exec_store :: "bpf_insn \<Rightarrow> 's vm_state \<Rightarrow> (vm_error, 's vm_state) outcome" where
  "exec_store insn st =
     bind_outcome (insn_bytes insn) (\<lambda>sz.
       bind_outcome
         (if insn_class insn = BPF_ST then Ok (ucast (imm insn))
          else bind_outcome (vreg st (unat (src_reg insn))) as_scalar)
         (\<lambda>val.
           bind_outcome (vreg st (unat (dst_reg insn))) (store_bytes insn st sz (take sz (u64_to_bytes val)))))"

section \<open>Helper calls\<close>

definition map_arg :: "'s vm_state \<Rightarrow> nat \<Rightarrow> (vm_error, nat \<times> 's bpf_map) outcome" where
  "map_arg st r =
     (case regs st ! r of
        VPtrMap map_idx \<Rightarrow> bind_outcome (vmap st map_idx) (\<lambda>m. Ok (map_idx, m))
      | _ \<Rightarrow> Err InvalidInstruction)"

text \<open>A range of the stack whose end is computed with a wrapping addition.\<close>

definition stack_range :: "'s vm_state \<Rightarrow> 64 word \<Rightarrow> nat \<Rightarrow> (vm_error, byte list) outcome" where
  "stack_range st offset n =
     (if unat (offset + of_nat n) > BPF_STACK_BYTES then Err OutOfBoundsAccess
      else vslice (stack st) (unat offset) n)"

definition key_arg :: "'s vm_state \<Rightarrow> 's bpf_map \<Rightarrow> (vm_error, byte list) outcome" where
  "key_arg st m =
     (case regs st ! 2 of
        VPtrStack key_off \<Rightarrow> stack_range st key_off (ksize m)
      | _ \<Rightarrow> Err InvalidInstruction)"

definition lookup_at :: "'s vm_state \<Rightarrow> 8 word \<Rightarrow> (vm_error, active_lookup) outcome" where
  "lookup_at st lookup_id =
     (if unat lookup_id < length (lookups st) then Ok (lookups st ! unat lookup_id) else Err OutOfBoundsAccess)"

text \<open>The bytes behind a map-value pointer, as the helpers read them.\<close>

definition value_arg :: "'s vm_state \<Rightarrow> vm_value \<Rightarrow> nat \<Rightarrow> (vm_error, byte list) outcome" where
  "value_arg st p n =
     (case p of
        VPtrMapValueArray src_map entry_idx offset \<Rightarrow>
          bind_outcome (vmap st src_map) (\<lambda>m.
            map_err HelperFailed (read_value_bytes m (u32_to_bytes entry_idx) (unat offset) n))
      | VPtrMapValueHash src_map lookup_id offset \<Rightarrow>
          bind_outcome (vmap st src_map) (\<lambda>m.
            bind_outcome (lookup_at st lookup_id) (\<lambda>l.
              map_err HelperFailed (read_value_bytes m (al_key l) (unat offset) n)))
      | _ \<Rightarrow> Err InvalidInstruction)"

definition update_value :: "'s vm_state \<Rightarrow> vm_value \<Rightarrow> nat \<Rightarrow> (vm_error, byte list) outcome" where
  "update_value st p n =
     (case p of VPtrStack offset \<Rightarrow> stack_range st offset n | _ \<Rightarrow> value_arg st p n)"

definition output_data ::
  "byte list \<Rightarrow> 's vm_state \<Rightarrow> vm_value \<Rightarrow> nat \<Rightarrow> (vm_error, byte list) outcome" where
  "output_data context st p n =
     (case p of
        VPtrStack offset \<Rightarrow>
          (if unat offset + n > usize_max \<or> unat offset + n > BPF_STACK_BYTES then Err OutOfBoundsAccess
           else vslice (stack st) (unat offset) n)
      | VPtrContext offset \<Rightarrow>
          (if unat offset + n > usize_max \<or> unat offset + n > length context then Err OutOfBoundsAccess
           else vslice context (unat offset) n)
      | _ \<Rightarrow> value_arg st p n)"

text \<open>\<open>R0\<close> gets the result and the caller-saved registers are wiped.\<close>

definition ret_helper :: "'s vm_state \<Rightarrow> vm_value \<Rightarrow> 's vm_state" where
  "ret_helper st v =
     st\<lparr>regs := (regs st)[0 := v, 1 := VUninit, 2 := VUninit, 3 := VUninit, 4 := VUninit, 5 := VUninit]\<rparr>"

definition neg_errno :: "'s bpf_env \<Rightarrow> errno \<Rightarrow> 64 word" where
  "neg_errno env e = - scast (errno_code env e)"

definition set_vmap :: "'s vm_state \<Rightarrow> nat \<Rightarrow> 's bpf_map \<Rightarrow> 's vm_state" where
  "set_vmap st map_idx m = st\<lparr>vmaps := (vmaps st)[map_idx := m]\<rparr>"

text \<open>The return code of an element operation, and of an output helper.\<close>

definition ret_map_op ::
  "'s bpf_env \<Rightarrow> 's vm_state \<Rightarrow> nat \<Rightarrow> (errno, 's bpf_map) outcome \<Rightarrow> (vm_error, 's vm_state) outcome" where
  "ret_map_op env st map_idx r =
     (case r of
        Ok m \<Rightarrow> Ok (ret_helper (set_vmap st map_idx m) (VScalar 0))
      | Err e \<Rightarrow> Ok (ret_helper st (VScalar (neg_errno env e)))
      | Panic \<Rightarrow> Panic)"

definition ret_code :: "'s bpf_env \<Rightarrow> unit res \<Rightarrow> vm_value" where
  "ret_code env r = (case r of Inr _ \<Rightarrow> VScalar 0 | Inl e \<Rightarrow> VScalar (neg_errno env e))"

definition lookup_hash ::
  "'s vm_state \<Rightarrow> nat \<Rightarrow> 's bpf_map \<Rightarrow> byte list \<Rightarrow> (vm_error, 's vm_state) outcome" where
  "lookup_hash st map_idx m key_bytes =
     (case map_lookup m key_bytes (vsize m) of
        Ok _ \<Rightarrow>
          (if length (lookups st) \<ge> BPF_MAX_LOOKUP_REFS then Err OutOfBoundsAccess
           else if ksize m > BPF_MAP_MAX_KEY_SIZE \<or> length key_bytes \<noteq> ksize m then Panic
           else
             (let lid = length (lookups st)
              in Ok (ret_helper
                       (st\<lparr>lookups := lookups st @ [\<lparr>al_map_idx = map_idx, al_key = key_bytes\<rparr>]\<rparr>)
                       (VPtrMapValueHash map_idx (of_nat lid) 0))))
      | Err _ \<Rightarrow> Ok (ret_helper st VNull)
      | Panic \<Rightarrow> Panic)"

definition lookup_in ::
  "'s vm_state \<Rightarrow> nat \<Rightarrow> 's bpf_map \<Rightarrow> byte list \<Rightarrow> (vm_error, 's vm_state) outcome" where
  "lookup_in st map_idx m key_bytes =
     (case map_type (spec m) of
        Array \<Rightarrow>
          (if length key_bytes \<noteq> 4 then Err InvalidInstruction
           else
             (let idx = u32_from_bytes key_bytes
              in Ok (ret_helper st
                   (if idx < max_entries (spec m) then VPtrMapValueArray map_idx idx 0 else VNull))))
      | Hash \<Rightarrow> lookup_hash st map_idx m key_bytes
      | _ \<Rightarrow> Ok (ret_helper st VNull))"

definition call_map_lookup :: "'s vm_state \<Rightarrow> (vm_error, 's vm_state) outcome" where
  "call_map_lookup st =
     bind_outcome (map_arg st 1) (\<lambda>(map_idx, m).
       bind_outcome (key_arg st m) (lookup_in st map_idx m))"

definition call_map_update :: "'s bpf_env \<Rightarrow> 's vm_state \<Rightarrow> (vm_error, 's vm_state) outcome" where
  "call_map_update env st =
     bind_outcome (map_arg st 1) (\<lambda>(map_idx, m).
       bind_outcome (key_arg st m) (\<lambda>key_bytes.
         bind_outcome (update_value st (regs st ! 3) (vsize m)) (\<lambda>val_buf.
           bind_outcome (as_scalar (regs st ! 4)) (\<lambda>flags.
             ret_map_op env st map_idx (map_update m key_bytes val_buf flags)))))"

definition call_map_delete :: "'s bpf_env \<Rightarrow> 's vm_state \<Rightarrow> (vm_error, 's vm_state) outcome" where
  "call_map_delete env st =
     bind_outcome (map_arg st 1) (\<lambda>(map_idx, m).
       bind_outcome (key_arg st m) (\<lambda>key_bytes.
         ret_map_op env st map_idx (map_delete m key_bytes)))"

definition call_perf_event_output ::
  "'s bpf_env \<Rightarrow> byte list \<Rightarrow> 's vm_state \<Rightarrow> (vm_error, 's vm_state) outcome" where
  "call_perf_event_output env context st =
     bind_outcome (map_arg st 2) (\<lambda>(map_idx, m).
       if map_type (spec m) \<noteq> PerfEventArray then Err InvalidInstruction
       else bind_outcome (as_scalar (regs st ! 3)) (\<lambda>flags.
         let cpu_idx = ucast (flags AND BPF_F_INDEX_MASK) :: 32 word;
             current_cpu = get_smp_processor_id env (steps st);
             target_cpu = (if cpu_idx = BPF_F_CURRENT_CPU then current_cpu else cpu_idx)
         in if target_cpu \<ge> max_entries (spec m) then Ok (ret_helper st (VScalar (neg_errno env EINVAL)))
            else bind_outcome (as_scalar (regs st ! 5)) (\<lambda>sz.
              if unat sz > 65535 then Err OutOfBoundsAccess
              else bind_outcome (output_data context st (regs st ! 4) (unat sz)) (\<lambda>data_buf.
                Ok (ret_helper st
                      (ret_code env (output_perf_event (output_sample env) m target_cpu data_buf)))))))"

definition call_ringbuf_output ::
  "'s bpf_env \<Rightarrow> byte list \<Rightarrow> 's vm_state \<Rightarrow> (vm_error, 's vm_state) outcome" where
  "call_ringbuf_output env context st =
     bind_outcome (map_arg st 1) (\<lambda>(map_idx, m).
       if map_type (spec m) \<noteq> RingBuf then Err InvalidInstruction
       else bind_outcome (as_scalar (regs st ! 3)) (\<lambda>sz.
         if unat sz > 65535 then Err OutOfBoundsAccess
         else bind_outcome (as_scalar (regs st ! 4)) (\<lambda>flags.
           bind_outcome (output_data context st (regs st ! 2) (unat sz)) (\<lambda>data_buf.
             case output_ringbuf m data_buf flags of
               (m', r) \<Rightarrow> Ok (ret_helper (set_vmap st map_idx m') (ret_code env r))))))"

definition exec_call ::
  "'s bpf_env \<Rightarrow> byte list \<Rightarrow> bpf_insn \<Rightarrow> 's vm_state \<Rightarrow> (vm_error, 's vm_state) outcome" where
  "exec_call env context insn st =
     (if imm insn = BPF_FUNC_MAP_LOOKUP_ELEM then call_map_lookup st
      else if imm insn = BPF_FUNC_MAP_UPDATE_ELEM then call_map_update env st
      else if imm insn = BPF_FUNC_MAP_DELETE_ELEM then call_map_delete env st
      else if imm insn = BPF_FUNC_KTIME_GET_NS then
        Ok (ret_helper st (VScalar (ktime_get_ns env (steps st))))
      else if imm insn = BPF_FUNC_GET_SMP_PROCESSOR_ID then
        Ok (ret_helper st (VScalar (ucast (get_smp_processor_id env (steps st)))))
      else if imm insn = BPF_FUNC_PERF_EVENT_OUTPUT then call_perf_event_output env context st
      else if imm insn = BPF_FUNC_RINGBUF_OUTPUT then call_ringbuf_output env context st
      else if imm insn \<in> {BPF_FUNC_RINGBUF_RESERVE, BPF_FUNC_RINGBUF_SUBMIT, BPF_FUNC_RINGBUF_DISCARD,
                           BPF_FUNC_RINGBUF_QUERY} then Err (HelperFailed EOPNOTSUPP)
      else Err (InvalidHelperCall (imm insn)))"

section \<open>Jumps\<close>

definition eval_jump_condition ::
  "8 word \<Rightarrow> 64 word \<Rightarrow> 64 word \<Rightarrow> int \<Rightarrow> int \<Rightarrow> (vm_error, bool) outcome" where
  "eval_jump_condition op d_u s_u d_s s_s =
     (if op = BPF_JEQ then Ok (d_u = s_u)
      else if op = BPF_JNE then Ok (d_u \<noteq> s_u)
      else if op = BPF_JGT then Ok (d_u > s_u)
      else if op = BPF_JGE then Ok (d_u \<ge> s_u)
      else if op = BPF_JLT then Ok (d_u < s_u)
      else if op = BPF_JSGT then Ok (d_s > s_s)
      else if op = BPF_JSGE then Ok (d_s \<ge> s_s)
      else if op = BPF_JSLT then Ok (d_s < s_s)
      else if op = BPF_JSLE then Ok (d_s \<le> s_s)
      else if op = BPF_JSET then Ok (d_u AND s_u \<noteq> 0)
      else if op = BPF_JLE then Ok (d_u \<le> s_u)
      else Err InvalidInstruction)"

definition compare_values :: "bool \<Rightarrow> 8 word \<Rightarrow> 64 word \<Rightarrow> 64 word \<Rightarrow> (vm_error, bool) outcome" where
  "compare_values is_32 op dst_val src_val =
     (if is_32 then
        eval_jump_condition op (ucast (ucast dst_val :: 32 word)) (ucast (ucast src_val :: 32 word))
          (sint (ucast dst_val :: 32 word)) (sint (ucast src_val :: 32 word))
      else eval_jump_condition op dst_val src_val (sint dst_val) (sint src_val))"

definition take_jump :: "bpf_insn \<Rightarrow> 's vm_state \<Rightarrow> (vm_error, bool) outcome" where
  "take_jump insn st =
     (let is_32 = (insn_class insn = BPF_JMP32); op = insn_op insn;
          null_test = (\<lambda>eq. if op = BPF_JEQ then Ok eq else if op = BPF_JNE then Ok (\<not> eq)
                            else Err InvalidInstruction)
      in bind_outcome (vreg st (unat (dst_reg insn))) (\<lambda>d.
           if is_src_imm insn \<and> imm insn = 0 then
             (case d of
                VPtrMapValueArray _ _ _ \<Rightarrow> null_test False
              | VPtrMapValueHash _ _ _ \<Rightarrow> null_test False
              | VNull \<Rightarrow> null_test True
              | _ \<Rightarrow> bind_outcome (as_scalar d) (\<lambda>dst_val. compare_values is_32 op dst_val 0))
           else
             bind_outcome (as_scalar d) (\<lambda>dst_val.
               bind_outcome (src_operand st insn) (compare_values is_32 op dst_val))))"

definition vm_target :: "nat \<Rightarrow> bpf_insn \<Rightarrow> nat" where
  "vm_target pc insn = unat (word_of_int (int pc + 1 + sint (insn_off insn)) :: 64 word)"

definition exec_jmp ::
  "'s bpf_env \<Rightarrow> byte list \<Rightarrow> bpf_insn \<Rightarrow> 's vm_state \<Rightarrow> (vm_error, 's control) outcome" where
  "exec_jmp env context insn st =
     (if is_exit insn then bind_outcome (as_scalar (regs st ! 0)) (\<lambda>v. Ok (Return v))
      else if is_ja insn then Ok (Continue (st\<lparr>vpc := vm_target (vpc st) insn\<rparr>))
      else if is_call insn then continue_with (exec_call env context insn st)
      else bind_outcome (take_jump insn st) (\<lambda>taken.
             Ok (Continue (if taken then st\<lparr>vpc := vm_target (vpc st) insn\<rparr> else next_insn st))))"

definition exec_ld :: "bpf_insn list \<Rightarrow> bpf_insn \<Rightarrow> 's vm_state \<Rightarrow> (vm_error, 's control) outcome" where
  "exec_ld insns insn st =
     (if \<not> is_ld_imm64 insn then Err InvalidInstruction
      else
        (let imm_lo = ucast (imm insn) :: 64 word;
             imm_hi = (if vpc st + 1 < length insns then ucast (imm (insns ! (vpc st + 1))) else 0 :: 64 word);
             v = (if src_reg insn = BPF_PSEUDO_MAP_FD then VPtrMap (unat (scast (imm insn) :: 64 word))
                  else VScalar (push_bit 32 imm_hi OR imm_lo))
         in bind_outcome (set_vreg st (unat (dst_reg insn)) v)
              (\<lambda>st'. Ok (Continue (st'\<lparr>vpc := vpc st + 2\<rparr>)))))"

section \<open>Execution\<close>

definition exec_insn ::
  "'s bpf_env \<Rightarrow> byte list \<Rightarrow> bpf_insn list \<Rightarrow> 's vm_state \<Rightarrow> (vm_error, 's control) outcome" where
  "exec_insn env context insns st =
     (let insn = insns ! vpc st; cls = insn_class insn
      in if cls = BPF_LD then exec_ld insns insn st
         else if cls = BPF_ALU then continue_with (exec_alu32 insn st)
         else if cls = BPF_ALU64 then continue_with (exec_alu64 insn st)
         else if cls = BPF_LDX then continue_with (exec_ldx context insn st)
         else if cls = BPF_ST \<or> cls = BPF_STX then continue_with (exec_store insn st)
         else if cls = BPF_JMP \<or> cls = BPF_JMP32 then exec_jmp env context insn st
         else Err InvalidInstruction)"

text \<open>
  The loop returns the last machine state beside the result: the maps keep what the program wrote
  before an error. Only the instruction count bounds the loop.
\<close>

definition tick :: "'s bpf_env \<Rightarrow> 's vm_state \<Rightarrow> 's vm_state" where
  "tick env st = st\<lparr>steps := steps st + 1, vmaps := others env (steps st) (vmaps st)\<rparr>"

text \<open>No instruction touches the step counter, which gives the measure of the loop.\<close>

lemma steps_frame [simp]:
  "steps (next_insn st) = steps st" "steps (ret_helper st v) = steps st" "steps (set_vmap st i m) = steps st"
  by (simp_all add: next_insn_def ret_helper_def set_vmap_def)

lemma set_vreg_steps: "set_vreg st r v = Ok st' \<Longrightarrow> steps st' = steps st"
  by (auto simp: set_vreg_def split: if_splits)

lemma exec_alu_steps:
  "exec_alu32 insn st = Ok st' \<Longrightarrow> steps st' = steps st"
  "exec_alu64 insn st = Ok st' \<Longrightarrow> steps st' = steps st"
  by (auto simp: exec_alu32_def exec_alu64_def exec_ptr_arith_def Let_def outcome_simps
      dest!: set_vreg_steps split: if_splits vm_value.splits option.splits)

lemma store_bytes_steps: "store_bytes insn st sz bytes p = Ok st' \<Longrightarrow> steps st' = steps st"
  by (auto simp: store_bytes_def write_map_def outcome_simps split: if_splits vm_value.splits)

lemma exec_mem_steps:
  "exec_ldx context insn st = Ok st' \<Longrightarrow> steps st' = steps st"
  "exec_store insn st = Ok st' \<Longrightarrow> steps st' = steps st"
  by (auto simp: exec_ldx_def exec_store_def outcome_simps dest!: set_vreg_steps store_bytes_steps)

lemma lookup_in_steps: "lookup_in st i m key = Ok st' \<Longrightarrow> steps st' = steps st"
  by (auto simp: lookup_in_def lookup_hash_def Let_def split: bpf_map_type.splits outcome.splits if_splits)

lemma ret_map_op_steps: "ret_map_op env st i r = Ok st' \<Longrightarrow> steps st' = steps st"
  by (auto simp: ret_map_op_def split: outcome.splits)

lemma exec_call_steps: "exec_call env context insn st = Ok st' \<Longrightarrow> steps st' = steps st"
  by (auto simp: exec_call_def call_map_lookup_def call_map_update_def call_map_delete_def
      call_perf_event_output_def call_ringbuf_output_def Let_def case_prod_beta outcome_simps
      dest!: lookup_in_steps ret_map_op_steps split: if_splits)

lemma exec_insn_steps: "exec_insn env context insns st = Ok (Continue st') \<Longrightarrow> steps st' = steps st"
  by (auto simp: exec_insn_def exec_ld_def exec_jmp_def continue_with_def Let_def outcome_simps
      dest!: exec_alu_steps exec_mem_steps exec_call_steps set_vreg_steps split: if_splits)

function exec_loop ::
  "'s bpf_env \<Rightarrow> byte list \<Rightarrow> bpf_insn list \<Rightarrow> 's vm_state \<Rightarrow>
   's vm_state \<times> (vm_error, 64 word) outcome" where
  "exec_loop env context insns st =
     (if vpc st \<ge> length insns then (st, Err InvalidInstruction)
      else if steps st + 1 > BPF_MAX_STEPS then (st, Err StepLimitExceeded)
      else case exec_insn env context insns (tick env st) of
             Ok (Continue st') \<Rightarrow> exec_loop env context insns st'
           | Ok (Return v) \<Rightarrow> (tick env st, Ok v)
           | Err e \<Rightarrow> (tick env st, Err e)
           | Panic \<Rightarrow> (tick env st, Panic))"
  by pat_completeness auto
termination
  by (relation "measure (\<lambda>(env, context, insns, st). BPF_MAX_STEPS - steps st)")
    (auto simp: tick_def dest!: exec_insn_steps)

declare exec_loop.simps [simp del]

definition vm_initial :: "'s bpf_map list \<Rightarrow> 's vm_state" where
  "vm_initial maps =
     \<lparr>regs = (replicate 11 VUninit)[1 := VPtrContext 0, 10 := VPtrStack (of_nat BPF_STACK_BYTES)],
      stack = replicate BPF_STACK_BYTES 0, stack_init = replicate BPF_STACK_BYTES False,
      lookups = [], vpc = 0, steps = 0, vmaps = maps\<rparr>"

text \<open>
  \<open>execute\<close>: \<open>depths\<close> is \<open>RECURSION_DEPTH_PER_CPU\<close>, with wrapping 64-bit counters. The guard's
  \<open>Drop\<close> undoes the increment on every return.
\<close>

definition recursion_enter :: "64 word list \<Rightarrow> nat \<Rightarrow> 64 word list" where
  "recursion_enter depths cpu_id = depths[cpu_id := depths ! cpu_id + 1]"

definition recursion_leave :: "64 word list \<Rightarrow> nat \<Rightarrow> 64 word list" where
  "recursion_leave depths cpu_id = depths[cpu_id := depths ! cpu_id - 1]"

definition execute ::
  "'s bpf_env \<Rightarrow> 64 word list \<Rightarrow> bpf_insn list \<Rightarrow> 's bpf_map list \<Rightarrow> byte list \<Rightarrow>
   64 word list \<times> 's bpf_map list \<times> (vm_error, 64 word) outcome" where
  "execute env depths insns maps context =
     (let cpu_id = unat (get_smp_processor_id env 0) mod BPF_MAX_CPUS;
          depth = depths ! cpu_id;
          depths1 = recursion_enter depths cpu_id
      in if unat depth \<ge> BPF_MAX_RECURSION_DEPTH
         then (recursion_leave depths1 cpu_id, maps, Err RecursionLimitExceeded)
         else case exec_loop env context insns (vm_initial maps) of
                (st, r) \<Rightarrow> (recursion_leave depths1 cpu_id, vmaps st, r))"

section \<open>Programs\<close>

record 's bpf_program =
  bp_insns :: "bpf_insn list"
  referenced_maps :: "'s bpf_map list"
  run_cnt :: "64 word"
  runtime_errors :: "64 word"
  delivered_samples :: "64 word"
  re_entry_drops :: "64 word"
  helper_failures :: "64 word"
  budget_failures :: "64 word"

text \<open>\<open>BpfProgram::new\<close>, without the identifier, type and name that nothing here reads.\<close>

definition program_new :: "bpf_insn list \<Rightarrow> 's bpf_map list \<Rightarrow> 's bpf_program" where
  "program_new insns maps =
     \<lparr>bp_insns = insns, referenced_maps = maps, run_cnt = 0, runtime_errors = 0, delivered_samples = 0,
      re_entry_drops = 0, helper_failures = 0, budget_failures = 0\<rparr>"

definition record_sample_delivered :: "'s bpf_program \<Rightarrow> 's bpf_program" where
  "record_sample_delivered p = p\<lparr>delivered_samples := delivered_samples p + 1\<rparr>"

definition record_re_entry_drop :: "'s bpf_program \<Rightarrow> 's bpf_program" where
  "record_re_entry_drop p = p\<lparr>re_entry_drops := re_entry_drops p + 1\<rparr>"

definition record_helper_failure :: "'s bpf_program \<Rightarrow> 's bpf_program" where
  "record_helper_failure p = p\<lparr>helper_failures := helper_failures p + 1\<rparr>"

definition record_budget_failure :: "'s bpf_program \<Rightarrow> 's bpf_program" where
  "record_budget_failure p = p\<lparr>budget_failures := budget_failures p + 1\<rparr>"

definition run_with_env ::
  "'s bpf_env \<Rightarrow> 64 word list \<Rightarrow> 's bpf_program \<Rightarrow> byte list \<Rightarrow>
   64 word list \<times> 's bpf_program \<times> (vm_error, 64 word) outcome" where
  "run_with_env env depths p context =
     (let p1 = p\<lparr>run_cnt := run_cnt p + 1\<rparr>
      in case execute env depths (bp_insns p1) (referenced_maps p1) context of
           (depths', maps', r) \<Rightarrow>
             (depths',
              p1\<lparr>referenced_maps := maps',
                 runtime_errors := (case r of Err e \<Rightarrow> runtime_errors p + 1 | _ \<Rightarrow> runtime_errors p)\<rparr>, r))"

text \<open>The recursion depth of every processor is what it was before the run.\<close>

lemma execute_depths: "fst (execute env depths insns maps context) = depths"
proof -
  have "recursion_leave (recursion_enter depths i) i = depths" for i
    by (cases "i < length depths") (simp_all add: recursion_leave_def recursion_enter_def list_update_beyond)
  then show ?thesis by (simp add: execute_def Let_def split: prod.splits)
qed

end
