(* ===== verification/Bpf_Soundness.thy ===== *)
theory Bpf_Soundness
  imports Bpf_Verifier_Safety Bpf_Interpreter
begin

text \<open>
  Soundness of the eBPF verifier for the interpreter: a program that the verifier accepts runs
  without a panic, without an access to an uninitialised register or stack byte, without a null or
  read-only access, and stops within as many steps as it has instructions. The proof relates every
  machine state to an abstract state that the verifier explored.
\<close>

section \<open>The explored states are closed under execution\<close>

text \<open>
  \<open>visited maps rel S (pc, s)\<close>: the verifier has processed the abstract state \<open>s\<close> at \<open>pc\<close>, with the
  maps and relocations collected so far being part of \<open>maps\<close> and \<open>rel\<close>, and put its successors in \<open>S\<close>.
\<close>

definition visited ::
  "verifier_config \<Rightarrow> bpf_insn list \<Rightarrow> 's live_resolver \<Rightarrow> 's bpf_map list \<Rightarrow> (nat \<times> nat) list \<Rightarrow>
   (nat \<times> verifier_state) set \<Rightarrow> nat \<times> verifier_state \<Rightarrow> bool" where
  "visited cfg insns res maps rel S = (\<lambda>(pc, s).
     \<exists>n maps0 rel0 maps1 rel1 succs.
       verify_insn cfg insns (resolver_at res n) maps0 rel0 pc s = Ok (maps1, rel1, succs) \<and>
       maps_inv res insns maps0 rel0 \<and> prefix maps1 maps \<and> set rel1 \<subseteq> set rel \<and> set succs \<subseteq> S)"

lemma visited_mono:
  assumes "visited cfg insns res maps rel S x" and "prefix maps maps'" and "set rel \<subseteq> set rel'" and "S \<subseteq> S'"
  shows "visited cfg insns res maps' rel' S' x"
  using assms unfolding visited_def by (fastforce dest: prefix_order.trans)

lemma verify_insn_maps:
  assumes sm: "same_maps res" and inv: "maps_inv res insns maps rel"
    and ok: "verify_insn cfg insns (resolver_at res n) maps rel pc s = Ok (maps', rel', succs)"
  shows "maps_inv res insns maps' rel'" and "prefix maps maps'" and "set rel \<subseteq> set rel'"
proof -
  have "maps_inv res insns maps' rel' \<and> prefix maps maps' \<and> set rel \<subseteq> set rel'"
  proof (cases "is_ld_imm64 (insns ! pc)")
    case True
    have pc: "pc < length insns" using ok by (auto simp: verify_insn_def split: if_splits)
    obtain s' where "verify_ld_imm64 (resolver_at res n) (insns ! pc) pc maps rel s = Ok (maps', rel', s')"
      using ok True pc by (auto simp: verify_insn_def Let_def outcome_simps split: if_splits)
    then show ?thesis by (rule verify_ld_imm64_Ok [OF sm inv pc True]) blast
  next
    case False
    then have "maps' = maps \<and> rel' = rel"
      using ok by (auto simp: verify_insn_def Let_def outcome_simps split: if_splits)
    then show ?thesis using inv by simp
  qed
  then show "maps_inv res insns maps' rel'" and "prefix maps maps'" and "set rel \<subseteq> set rel'" by simp_all
qed

lemma verify_loop_closed:
  assumes "verify_loop cfg insns res maps rel wl ex cnt = Ok (mapsF, relF, exF)"
    and "same_maps res" and "maps_inv res insns maps rel" and "\<forall>x\<in>set ex. visited cfg insns res maps rel (set ex \<union> set wl) x"
  shows "maps_inv res insns mapsF relF \<and> prefix maps mapsF \<and> set rel \<subseteq> set relF \<and> set ex \<union> set wl \<subseteq> set exF \<and>
    (\<forall>x\<in>set exF. visited cfg insns res mapsF relF (set exF) x)"
  using assms
proof (induction cfg insns res maps rel wl ex cnt rule: verify_loop.induct)
  case (1 cfg insns res maps rel wl ex cnt)
  show ?case
  proof (cases wl)
    case Nil
    then show ?thesis using 1(3-6) by (simp add: verify_loop.simps)
  next
    case (Cons x rest)
    obtain pc s where x: "x = (pc, s)" by fastforce
    note wl = Cons [unfolded x]
    have cnt: "\<not> cnt + 1 > max_states cfg" using 1(3) wl by (auto simp: verify_loop.simps)
    show ?thesis
    proof (cases "(pc, s) \<in> set ex")
      case True
      then have "verify_loop cfg insns res maps rel rest ex (cnt + 1) = Ok (mapsF, relF, exF)"
        using 1(3) wl cnt by (simp add: verify_loop.simps)
      moreover have "set ex \<union> set wl = set ex \<union> set rest" using True wl by auto
      ultimately show ?thesis using 1(1) [OF wl refl cnt True] 1(4-6) by simp
    next
      case new: False
      then obtain maps' rel' succs where st: "verify_insn cfg insns (resolver_at res cnt) maps rel pc s = Ok (maps', rel', succs)"
        and rec: "verify_loop cfg insns res maps' rel' (rest @ succs) (ex @ [(pc, s)]) (cnt + 1) = Ok (mapsF, relF, exF)"
        using 1(3) wl cnt by (subst (asm) verify_loop.simps) (auto split: outcome.splits)
      note m = verify_insn_maps [OF 1(4,5) st]
      let ?S = "set (ex @ [(pc, s)]) \<union> set (rest @ succs)"
      have sub: "set ex \<union> set wl \<subseteq> ?S" using wl by auto
      have "visited cfg insns res maps' rel' ?S (pc, s)"
        unfolding visited_def using st 1(5) by fastforce
      moreover have "visited cfg insns res maps' rel' ?S y" if "y \<in> set ex" for y
        by (rule visited_mono [OF _ m(2,3) sub]) (use 1(6) that in blast)
      ultimately have "\<forall>y\<in>set (ex @ [(pc, s)]). visited cfg insns res maps' rel' ?S y" by auto
      from 1(2) [OF wl refl cnt new st refl refl rec 1(4) m(1) this] show ?thesis
        using m(2,3) sub prefix_order.trans by (meson subset_trans)
    qed
  qed
qed

section \<open>Relocated instructions\<close>

lemma length_relocate [simp]: "length (relocate rel insns) = length insns"
  unfolding relocate_def by (induction rel arbitrary: insns) auto

lemma relocate_nth:
  assumes "distinct (map fst rel)" and "\<forall>(pc, i)\<in>set rel. pc < length insns" and "j < length insns"
  shows "relocate rel insns ! j =
    (case map_of rel j of None \<Rightarrow> insns ! j | Some i \<Rightarrow> (insns ! j)\<lparr>imm := of_nat i\<rparr>)"
  using assms
proof (induction rel arbitrary: insns)
  case (Cons e rel)
  obtain pc i where e: "e = (pc, i)" by fastforce
  let ?l = "insns[pc := (insns ! pc)\<lparr>imm := of_nat i\<rparr>]"
  have "relocate (e # rel) insns = relocate rel ?l" by (simp add: relocate_def e)
  moreover have "relocate rel ?l ! j = (case map_of rel j of None \<Rightarrow> ?l ! j | Some i \<Rightarrow> (?l ! j)\<lparr>imm := of_nat i\<rparr>)"
    by (rule Cons.IH) (use Cons.prems e in auto)
  moreover have "map_of rel pc = None" using Cons.prems(1) e by (simp add: map_of_eq_None_iff)
  ultimately show ?case using Cons.prems e by (auto split: option.splits)
qed (simp add: relocate_def)

lemma relocated_insn:
  assumes inv: "maps_inv res insns maps rel" and pc: "pc < length insns"
  shows "\<not> (is_ld_imm64 (insns ! pc) \<and> src_reg (insns ! pc) = BPF_PSEUDO_MAP_FD) \<Longrightarrow>
      relocate rel insns ! pc = insns ! pc"
    and "(pc, i) \<in> set rel \<Longrightarrow> relocate rel insns ! pc = (insns ! pc)\<lparr>imm := of_nat i\<rparr>"
proof -
  have d: "distinct (map fst rel)" and b: "\<forall>(pc, i)\<in>set rel. pc < length insns"
    using inv by (auto simp: maps_inv_def)
  note rn = relocate_nth [OF d b pc]
  show "relocate rel insns ! pc = insns ! pc"
    if "\<not> (is_ld_imm64 (insns ! pc) \<and> src_reg (insns ! pc) = BPF_PSEUDO_MAP_FD)"
  proof -
    have "map_of rel pc = None"
      using inv that unfolding maps_inv_def map_of_eq_None_iff by fastforce
    then show ?thesis using rn by simp
  qed
  show "relocate rel insns ! pc = (insns ! pc)\<lparr>imm := of_nat i\<rparr>" if "(pc, i) \<in> set rel"
    using rn map_of_is_SomeI [OF d that] by simp
qed

section \<open>Conformance of machine states to abstract states\<close>

definition map_ptr_ok :: "map_spec list \<Rightarrow> active_lookup list \<Rightarrow> nat \<Rightarrow> int \<Rightarrow> vm_value \<Rightarrow> bool" where
  "map_ptr_ok sps lks i off v \<longleftrightarrow>
     i < length sps \<and> off \<le> uint (value_size (sps ! i)) \<and>
     (case v of
        VPtrMapValueArray j e a \<Rightarrow> j = i \<and> uint a = off \<and> map_type (sps ! i) = Array \<and> e < max_entries (sps ! i)
      | VPtrMapValueHash j l a \<Rightarrow> j = i \<and> uint a = off \<and> map_type (sps ! i) = Hash \<and> unat l < length lks \<and>
          length (al_key (lks ! unat l)) = unat (key_size (sps ! i))
      | _ \<Rightarrow> False)"

fun val_ok :: "map_spec list \<Rightarrow> active_lookup list \<Rightarrow> nat \<Rightarrow> reg_type \<Rightarrow> vm_value \<Rightarrow> bool" where
  "val_ok sps lks mc NotInit v = True"
| "val_ok sps lks mc Scalar v = (v = VNull \<or> (\<exists>w. v = VScalar w))"
| "val_ok sps lks mc (PtrContext off) v = (\<exists>a. v = VPtrContext a \<and> uint a = off \<and> off \<le> int mc)"
| "val_ok sps lks mc (PtrStack off) v = (\<exists>a. v = VPtrStack a \<and> uint a = 512 + off \<and> off \<le> 0)"
| "val_ok sps lks mc (PtrMap i) v = (v = VPtrMap i \<and> i < length sps)"
| "val_ok sps lks mc (PtrMapValue i off checked) v =
     (map_ptr_ok sps lks i off v \<or> \<not> checked \<and> (v = VNull \<or> v = VScalar 0))"

definition conf :: "map_spec list \<Rightarrow> nat \<Rightarrow> verifier_state \<Rightarrow> 's vm_state \<Rightarrow> bool" where
  "conf sps mc s st \<longleftrightarrow>
     length (vregs s) = 11 \<and> length (vstack_init s) = 512 \<and> length (regs st) = 11 \<and>
     length (stack st) = 512 \<and> length (stack_init st) = 512 \<and> length (lookups st) \<le> 64 \<and>
     (\<forall>r<11. val_ok sps (lookups st) mc (vregs s ! r) (regs st ! r)) \<and>
     (\<forall>i<512. vstack_init s ! i \<longrightarrow> stack_init st ! i) \<and>
     map spec (vmaps st) = sps \<and> (\<forall>m\<in>set (vmaps st). map_wf m)"

text \<open>The errors that a verified program can still raise at run time.\<close>

fun runtime_error :: "vm_error \<Rightarrow> bool" where
  "runtime_error InvalidInstruction = True"
| "runtime_error OutOfBoundsAccess = True"
| "runtime_error DivideByZero = True"
| "runtime_error (HelperFailed e) = True"
| "runtime_error _ = False"

abbreviation sound ::
  "map_spec list \<Rightarrow> nat \<Rightarrow> nat \<Rightarrow> verifier_state \<Rightarrow> (vm_error, 's vm_state) outcome \<Rightarrow> bool" where
  "sound sps mc pc s \<equiv> yields runtime_error (\<lambda>st. conf sps mc s st \<and> vpc st = pc)"

lemma conf_reg: "conf sps mc s st \<Longrightarrow> r < 11 \<Longrightarrow> val_ok sps (lookups st) mc (vregs s ! r) (regs st ! r)"
  by (simp add: conf_def)

lemma conf_vreg: "conf sps mc s st \<Longrightarrow> r < 11 \<Longrightarrow> vreg st r = Ok (regs st ! r)"
  by (simp add: conf_def vreg_def)

lemma conf_read: "conf sps mc s st \<Longrightarrow> reg_read s r = Ok t \<Longrightarrow> r < 11 \<and> t = vregs s ! r"
  by (auto simp: conf_def reg_read_def split: if_splits)

lemma conf_write:
  assumes "conf sps mc s st" and "reg_write s r t = Ok s'" and "val_ok sps (lookups st) mc t v"
  shows "sound sps mc (vpc st) s' (set_vreg st r v)"
  using assms by (auto simp: conf_def reg_write_def set_vreg_def nth_list_update split: if_splits)

lemma conf_map:
  assumes "conf sps mc s st" and "i < length sps"
  shows "vmap st i = Ok (vmaps st ! i)" and "spec (vmaps st ! i) = sps ! i" and "map_wf (vmaps st ! i)"
  using assms by (auto simp: conf_def vmap_def)

lemma conf_length: "conf sps mc s st \<Longrightarrow> length (vmaps st) = length sps"
  by (auto simp: conf_def)

lemma conf_spec_ok: "conf sps mc s st \<Longrightarrow> i < length sps \<Longrightarrow> spec_ok (sps ! i)"
  using conf_map(2,3) unfolding map_wf_def by metis

lemma map_at_conf:
  assumes "map_at maps i = Ok sp" and "prefix maps mapsF"
  shows "i < length (map spec mapsF) \<and> sp = map spec mapsF ! i"
  using assms by (auto simp: map_at_def prefix_def nth_append split: if_splits)

section \<open>Scalars\<close>

lemma as_scalar_ok: "val_ok sps lks mc t v \<Longrightarrow> t \<noteq> NotInit \<Longrightarrow> yields runtime_error (\<lambda>_. True) (as_scalar v)"
  by (cases t) (auto simp: map_ptr_ok_def split: vm_value.splits)

lemma as_scalar_Scalar: "val_ok sps lks mc Scalar v \<Longrightarrow> \<exists>w. as_scalar v = Ok w"
  by auto

lemma as_scalar_type:
  "val_ok sps lks mc t v \<Longrightarrow> as_scalar v = Ok w \<Longrightarrow>
   t = NotInit \<or> t = Scalar \<or> (\<exists>i off. t = PtrMapValue i off False) \<and> w = 0"
  by (cases t) (auto simp: map_ptr_ok_def split: vm_value.splits)

text \<open>The operand that \<open>verify_alu\<close> and \<open>verify_cond_jump\<close> accept.\<close>

lemma src_operand_ok:
  assumes "conf sps mc s st" and "is_src_imm insn \<or> reg_read s (unat (src_reg insn)) = Ok t \<and> t \<noteq> NotInit"
  shows "yields runtime_error (\<lambda>_. True) (src_operand st insn)"
proof (cases "is_src_imm insn")
  case False
  then have r: "unat (src_reg insn) < 11" "vregs s ! unat (src_reg insn) \<noteq> NotInit"
    using assms conf_read by blast+
  then show ?thesis
    using False as_scalar_ok [OF conf_reg [OF assms(1) r(1)] r(2)] conf_vreg [OF assms(1) r(1)]
    by (simp add: src_operand_def)
qed (simp add: src_operand_def)

lemma alu_errors:
  "yields runtime_error (\<lambda>_. True) (alu32 op a b im)"
  "yields runtime_error (\<lambda>_. True) (alu64 op c d im)"
  by (simp_all add: alu32_def alu64_def)

section \<open>Arithmetic\<close>

text \<open>A scalar operation on a register that the verifier leaves a scalar.\<close>

lemma verify_alu_scalar:
  assumes c: "conf sps mc s st" and ok: "verify_alu cfg maps insn s = Ok s'" and op: "insn_op insn \<noteq> BPF_MOV"
    and sc: "as_scalar (regs st ! unat (dst_reg insn)) = Ok w"
  shows "reg_write s (unat (dst_reg insn)) Scalar = Ok s'"
proof -
  let ?d = "unat (dst_reg insn)"
  obtain d where d: "reg_read s ?d = Ok d" "d \<noteq> NotInit"
    using ok op by (auto simp: verify_alu_def Let_def outcome_simps split: if_splits)
  then have "d = Scalar \<or> (\<exists>i off. d = PtrMapValue i off False)"
    using as_scalar_type [OF conf_reg [OF c] sc] conf_read [OF c d(1)] by auto
  then show ?thesis
    using ok op d
    by (auto simp: verify_alu_def verify_arith_def Let_def outcome_simps split: if_splits)
qed

lemma verify_alu_regs:
  assumes c: "conf sps mc s st" and ok: "verify_alu cfg maps insn s = Ok s'"
  shows "is_src_imm insn \<or> (\<exists>t. reg_read s (unat (src_reg insn)) = Ok t \<and> t \<noteq> NotInit)"
    and "insn_op insn \<noteq> BPF_MOV \<Longrightarrow> unat (dst_reg insn) < 11 \<and> vregs s ! unat (dst_reg insn) \<noteq> NotInit"
    and "insn_op insn = BPF_MOV \<Longrightarrow> is_src_imm insn \<Longrightarrow> reg_write s (unat (dst_reg insn)) Scalar = Ok s'"
    and "insn_op insn = BPF_MOV \<Longrightarrow> \<not> is_src_imm insn \<Longrightarrow> unat (src_reg insn) < 11 \<and>
      vregs s ! unat (src_reg insn) \<noteq> NotInit \<and>
      reg_write s (unat (dst_reg insn)) (vregs s ! unat (src_reg insn)) = Ok s'"
  using ok conf_read [OF c] by (auto simp: verify_alu_def Let_def outcome_simps split: if_splits)

lemma exec_scalar_sound:
  assumes c: "conf sps mc s st" and ok: "verify_alu cfg maps insn s = Ok s'" and op: "insn_op insn \<noteq> BPF_MOV"
    and f: "\<And>a b. yields runtime_error (\<lambda>_. True) (f a b)"
  shows "sound sps mc (vpc st) s'
    (bind_outcome (vreg st (unat (dst_reg insn))) (\<lambda>d. bind_outcome (as_scalar d) (\<lambda>a.
       bind_outcome (src_operand st insn) (\<lambda>b. bind_outcome (f a b) (\<lambda>res.
         set_vreg st (unat (dst_reg insn)) (VScalar (g res)))))))"
proof -
  note r = verify_alu_regs(1,2) [OF c ok]
  have dst: "unat (dst_reg insn) < 11" "vregs s ! unat (dst_reg insn) \<noteq> NotInit" using r(2) op by auto
  have src: "yields runtime_error (\<lambda>_. True) (src_operand st insn)" using r(1) src_operand_ok [OF c] by blast
  have w: "sound sps mc (vpc st) s' (set_vreg st (unat (dst_reg insn)) (VScalar x))"
    if "as_scalar (regs st ! unat (dst_reg insn)) = Ok a" for a x
    by (rule conf_write [OF c verify_alu_scalar [OF c ok op that]]) simp
  show ?thesis
    unfolding conf_vreg [OF c dst(1)] bind_outcome.simps
    by (rule yields_bind [OF as_scalar_ok [OF conf_reg [OF c dst(1)] dst(2)]], rule yields_bind [OF src],
        rule yields_bind [OF f]) (rule w)
qed

lemma exec_mov_scalar:
  assumes c: "conf sps mc s st" and ok: "verify_alu cfg maps insn s = Ok s'" and op: "insn_op insn = BPF_MOV"
  shows "sound sps mc (vpc st) s'
    (bind_outcome (src_operand st insn) (\<lambda>v. set_vreg st (unat (dst_reg insn)) (VScalar (ucast (ucast v :: 32 word)))))"
proof (cases "is_src_imm insn")
  case True
  have "reg_write s (unat (dst_reg insn)) Scalar = Ok s'" using verify_alu_regs(3) [OF c ok op True] .
  from conf_write [OF c this, of "VScalar v" for v] show ?thesis using True by (simp add: src_operand_def)
next
  case False
  let ?s = "unat (src_reg insn)"
  note r = verify_alu_regs(4) [OF c ok op False]
  then have src: "?s < 11" "vregs s ! ?s \<noteq> NotInit" and
    wr: "reg_write s (unat (dst_reg insn)) (vregs s ! ?s) = Ok s'" by auto
  have v: "val_ok sps (lookups st) mc (vregs s ! ?s) (VScalar (ucast (ucast w :: 32 word)))"
    if "as_scalar (regs st ! ?s) = Ok w" for w
    using as_scalar_type [OF conf_reg [OF c src(1)] that] by auto
  have "src_operand st insn = as_scalar (regs st ! ?s)"
    using False conf_vreg [OF c src(1)] by (simp add: src_operand_def)
  then show ?thesis
    using yields_bind [OF as_scalar_ok [OF conf_reg [OF c src(1)] src(2)] conf_write [OF c wr v]] by simp
qed

lemma exec_alu32_sound:
  assumes c: "conf sps mc s st" and ok: "verify_alu cfg maps insn s = Ok s'"
  shows "sound sps mc (vpc st) s' (exec_alu32 insn st)"
proof (cases "insn_op insn = BPF_MOV")
  case True
  then show ?thesis using exec_mov_scalar [OF c ok True] by (simp add: exec_alu32_def Let_def)
next
  case False
  then show ?thesis
    using exec_scalar_sound [OF c ok False, of "\<lambda>a b. alu32 (insn_op insn) (ucast a) (ucast b) (imm insn)" ucast]
      alu_errors(1) by (simp add: exec_alu32_def Let_def)
qed

subsection \<open>Pointer arithmetic\<close>

definition imm_delta :: "bpf_insn \<Rightarrow> int" where
  "imm_delta insn = (if insn_op insn = BPF_ADD then sint (imm insn) else - sint (imm insn))"

lemma imm_delta_bound: "\<bar>imm_delta insn\<bar> \<le> 2 ^ 31"
  using sint_greater_eq [of "imm insn"] sint_less [of "imm insn"] by (auto simp: imm_delta_def abs_le_iff)

lemma ptr_delta_exact:
  assumes "\<bar>off\<bar> \<le> 2 ^ 20" and "\<bar>ptr_delta insn off\<bar> \<le> 2 ^ 20"
  shows "ptr_delta insn off = off + imm_delta insn"
proof -
  have "ptr_delta insn off = wrap_i32 (off + imm_delta insn)" by (simp add: ptr_delta_def imm_delta_def)
  then show ?thesis using wrap_i32_window [OF assms(1) imm_delta_bound, of insn] assms(2) by simp
qed

abbreviation (input) word_delta :: "bpf_insn \<Rightarrow> 64 word" where
  "word_delta insn \<equiv> if insn_op insn = BPF_ADD then scast (imm insn) else - scast (imm insn)"

lemma word_delta_eq: "word_delta insn = word_of_int (imm_delta insn)"
proof -
  have "(scast (imm insn) :: 64 word) = word_of_int (sint (imm insn))" by (rule scast_eq)
  then show ?thesis 
    by (cases "insn_op insn = BPF_ADD") (simp_all only: imm_delta_def of_int_minus if_True if_False simp_thms)
qed

lemma sint_word_delta: "sint (word_delta insn) = imm_delta insn"
proof -
  have "signed_take_bit 63 (imm_delta insn) = imm_delta insn"
    using imm_delta_bound [of insn] by (intro signed_take_bit_int_eq_self) (auto simp: abs_le_iff)
  then show ?thesis unfolding word_delta_eq by (simp add: sint_sbintrunc')
qed

lemma uint_add_delta:
  assumes "uint a = x" and "0 \<le> x + imm_delta insn" and "x + imm_delta insn < 2 ^ 64"
  shows "uint (a + word_delta insn) = x + imm_delta insn"
proof -
  have "a + word_delta insn = word_of_int (x + imm_delta insn)"
    unfolding word_delta_eq assms(1) [symmetric] by (simp only: of_int_add word_of_int_uint)
  then show ?thesis using uint_word_of_int_id [OF assms(2,3)] by (simp only:)
qed

lemma exec_ptr_arith_imm:
  assumes "is_src_imm insn"
  shows "exec_ptr_arith insn st (VPtrStack a) = Some (set_vreg st (unat (dst_reg insn)) (VPtrStack (a + word_delta insn)))"
    and "exec_ptr_arith insn st (VPtrContext a) = Some (set_vreg st (unat (dst_reg insn)) (VPtrContext (a + word_delta insn)))"
  using assms by (simp_all add: exec_ptr_arith_def src_operand_def Let_def del: of_int_minus)

lemma exec_ptr_arith_map:
  assumes imm: "is_src_imm insn" and i: "i < length (vmaps st)"
    and a: "uint a = off" "0 \<le> off + imm_delta insn" "off + imm_delta insn \<le> uint (value_size (spec (vmaps st ! i)))"
  obtains b where "uint b = off + imm_delta insn"
    and "exec_ptr_arith insn st (VPtrMapValueArray i e a) =
      Some (set_vreg st (unat (dst_reg insn)) (VPtrMapValueArray i e b))"
    and "exec_ptr_arith insn st (VPtrMapValueHash i l a) =
      Some (set_vreg st (unat (dst_reg insn)) (VPtrMapValueHash i l b))"
proof -
  let ?v = "value_size (spec (vmaps st ! i))"
  have lt: "uint a + imm_delta insn < 2 ^ 64"
    using a(1,3) uint_bounded [of ?v] by simp
  obtain b where b: "checked_add_signed a (imm_delta insn) = Some b" "uint b = uint a + imm_delta insn"
    by (rule checked_add_signed_Some [OF _ lt]) (use a in auto)
  have "unat b \<le> unat ?v"
    using a b(2) by (simp add: unat_eq_nat_uint nat_mono del: nat_uint_eq)
  then show ?thesis
    using that [of b] imm i b a(1) sint_word_delta [of insn]
    by (simp add: exec_ptr_arith_def src_operand_def Let_def vmap_def not_less)
qed

lemma map_ptr_ok_cases:
  assumes "map_ptr_ok sps lks i off v"
  obtains (array) e a where "v = VPtrMapValueArray i e a" and "uint a = off" and "map_type (sps ! i) = Array"
      and "e < max_entries (sps ! i)"
    | (hash) l a where "v = VPtrMapValueHash i l a" and "uint a = off" and "map_type (sps ! i) = Hash"
      and "unat l < length lks" and "length (al_key (lks ! unat l)) = unat (key_size (sps ! i))"
  using assms by (auto simp: map_ptr_ok_def split: vm_value.splits)

lemma map_ptr_ok_bounds:
  "map_ptr_ok sps lks i off v \<Longrightarrow> i < length sps \<and> 0 \<le> off \<and> off \<le> uint (value_size (sps ! i))"
  by (auto simp: map_ptr_ok_def split: vm_value.splits)

lemma verify_arith_stack:
  assumes c: "conf sps mc s st" and d: "vregs s ! unat (dst_reg insn) = PtrStack off" "unat (dst_reg insn) < 11"
    and ok: "verify_arith cfg maps insn s (PtrStack off) = Ok s'"
  shows "\<exists>r. exec_ptr_arith insn st (regs st ! unat (dst_reg insn)) = Some r \<and> sound sps mc (vpc st) s' r"
proof -
  obtain a where a: "regs st ! unat (dst_reg insn) = VPtrStack a" "uint a = 512 + off" "off \<le> 0"
    using conf_reg [OF c d(2)] d(1) by auto
  have off: "- 512 \<le> off" using a(2) uint_ge_0 [of a] by linarith
  have im: "is_src_imm insn" and n: "- 512 \<le> ptr_delta insn off" "ptr_delta insn off \<le> 0"
    and w: "reg_write s (unat (dst_reg insn)) (PtrStack (ptr_delta insn off)) = Ok s'"
    using ok by (auto simp: verify_arith_def Let_def split: if_splits)
  have e: "ptr_delta insn off = off + imm_delta insn" by (rule ptr_delta_exact) (use a off n in auto)
  have "uint (a + word_delta insn) = 512 + off + imm_delta insn"
    by (rule uint_add_delta) (use a n e in auto)
  then show ?thesis
    using exec_ptr_arith_imm(1) [OF im, of st a] a(1) n e
    by (auto intro!: conf_write [OF c w])
qed

lemma verify_arith_context:
  assumes c: "conf sps mc s st" and mc: "mc = max_context_size_for_prog_type (prog_type cfg)"
    and d: "vregs s ! unat (dst_reg insn) = PtrContext off" "unat (dst_reg insn) < 11"
    and ok: "verify_arith cfg maps insn s (PtrContext off) = Ok s'"
  shows "\<exists>r. exec_ptr_arith insn st (regs st ! unat (dst_reg insn)) = Some r \<and> sound sps mc (vpc st) s' r"
proof -
  have mc80: "mc \<le> 80" using mc by (cases "prog_type cfg") simp_all
  obtain a where a: "regs st ! unat (dst_reg insn) = VPtrContext a" "uint a = off" "off \<le> int mc"
    using conf_reg [OF c d(2)] d(1) by auto
  have off: "0 \<le> off" using a(2) uint_ge_0 [of a] by linarith
  have im: "is_src_imm insn" and n: "0 \<le> ptr_delta insn off" "ptr_delta insn off \<le> int mc"
    and w: "reg_write s (unat (dst_reg insn)) (PtrContext (ptr_delta insn off)) = Ok s'"
    using ok mc by (auto simp: verify_arith_def Let_def split: if_splits)
  have e: "ptr_delta insn off = off + imm_delta insn" by (rule ptr_delta_exact) (use a off n mc80 in auto)
  have "uint (a + word_delta insn) = off + imm_delta insn"
    by (rule uint_add_delta [OF a(2)]) (use n e mc80 in auto)
  then show ?thesis
    using exec_ptr_arith_imm(2) [OF im, of st a] a(1) n e
    by (auto intro!: conf_write [OF c w])
qed

lemma verify_arith_map:
  assumes c: "conf sps mc s st" and sps: "sps = map spec mapsF" "prefix maps mapsF"
    and d: "vregs s ! unat (dst_reg insn) = PtrMapValue i off ck" "unat (dst_reg insn) < 11"
    and ok: "verify_arith cfg maps insn s (PtrMapValue i off ck) = Ok s'"
  shows "\<exists>r. exec_ptr_arith insn st (regs st ! unat (dst_reg insn)) = Some r \<and> sound sps mc (vpc st) s' r"
proof -
  let ?d = "unat (dst_reg insn)" and ?v = "value_size (sps ! i)"
  obtain sp where ck: ck and im: "is_src_imm insn" and sp: "map_at maps i = Ok sp" and
    n: "0 \<le> ptr_delta insn off" "ptr_delta insn off \<le> sint (value_size sp)" and
    w: "reg_write s ?d (PtrMapValue i (ptr_delta insn off) True) = Ok s'"
    using ok by (auto simp: verify_arith_def Let_def outcome_simps split: if_splits)
  have i: "i < length sps" "sp = sps ! i" using map_at_conf [OF sp sps(2)] sps(1) by auto
  have so: "sint ?v = uint ?v" "uint ?v \<le> 65536"
    using spec_ok_sizes [OF conf_spec_ok [OF c i(1)]] by (simp_all add: unat_uint_le)
  have ptr: "map_ptr_ok sps (lookups st) i off (regs st ! ?d)" using conf_reg [OF c d(2)] d(1) ck by simp
  then have off: "0 \<le> off" "off \<le> uint ?v" using map_ptr_ok_bounds by blast+
  have e: "ptr_delta insn off = off + imm_delta insn" by (rule ptr_delta_exact) (use off n so i in auto)
  have b: "0 \<le> off + imm_delta insn" "off + imm_delta insn \<le> uint (value_size (spec (vmaps st ! i)))"
    using n e so i conf_map(2) [OF c i(1)] by simp_all
  have iv: "i < length (vmaps st)" using i(1) conf_length [OF c] by simp
  note new = conf_write [OF c w]
  from ptr show ?thesis
  proof (cases rule: map_ptr_ok_cases)
    case (array el a)
    obtain a' where a': "uint a' = off + imm_delta insn"
      "exec_ptr_arith insn st (VPtrMapValueArray i el a) = Some (set_vreg st ?d (VPtrMapValueArray i el a'))"
      by (rule exec_ptr_arith_map [OF im iv array(2) b])
    then show ?thesis using array i n so e by (auto intro!: new simp: map_ptr_ok_def)
  next
    case (hash l a)
    obtain a' where a': "uint a' = off + imm_delta insn"
      "exec_ptr_arith insn st (VPtrMapValueHash i l a) = Some (set_vreg st ?d (VPtrMapValueHash i l a'))"
      by (rule exec_ptr_arith_map [OF im iv hash(2) b])
    then show ?thesis using hash i n so e by (auto intro!: new simp: map_ptr_ok_def)
  qed
qed

lemma exec_alu64_sound:
  assumes c: "conf sps mc s st" and sps: "sps = map spec mapsF" "prefix maps mapsF"
    and mc: "mc = max_context_size_for_prog_type (prog_type cfg)" and ok: "verify_alu cfg maps insn s = Ok s'"
  shows "sound sps mc (vpc st) s' (exec_alu64 insn st)"
proof (cases "insn_op insn = BPF_MOV")
  case True
  show ?thesis
  proof (cases "is_src_imm insn")
    case im: True
    show ?thesis
      using True im conf_write [OF c verify_alu_regs(3) [OF c ok True im], of "VScalar (scast (imm insn))"]
      by (simp add: exec_alu64_def Let_def)
  next
    case False
    note r = verify_alu_regs(4) [OF c ok True False]
    show ?thesis
      using True False r conf_vreg [OF c] conf_write [OF c _ conf_reg [OF c]]
      by (simp add: exec_alu64_def Let_def)
  qed
next
  case nmov: False
  let ?d = "unat (dst_reg insn)" and ?op = "insn_op insn"
  note r = verify_alu_regs(2) [OF c ok nmov]
  have dst: "vreg st ?d = Ok (regs st ! ?d)" using r conf_vreg [OF c] by simp
  note sc = exec_scalar_sound [OF c ok nmov, of "\<lambda>a b. alu64 ?op a b (imm insn)" "\<lambda>x. x", OF alu_errors(2)]
  show ?thesis
  proof (cases "(?op = BPF_ADD \<or> ?op = BPF_SUB) \<and> exec_ptr_arith insn st (regs st ! ?d) \<noteq> None")
    case True
    then have ar: "verify_arith cfg maps insn s (vregs s ! ?d) = Ok s'"
      using ok r nmov conf_read [OF c] by (auto simp: verify_alu_def Let_def outcome_simps split: if_splits)
    have "\<exists>q. exec_ptr_arith insn st (regs st ! ?d) = Some q \<and> sound sps mc (vpc st) s' q"
    proof (cases "vregs s ! ?d")
      case Scalar
      then have "exec_ptr_arith insn st (regs st ! ?d) = None"
        using conf_reg [OF c, of ?d] r by (auto simp: exec_ptr_arith_def Let_def)
      then show ?thesis using True by simp
    qed (use ar r verify_arith_stack [OF c] verify_arith_context [OF c mc] verify_arith_map [OF c sps] in
        \<open>auto simp: verify_arith_def\<close>)
    then show ?thesis using True nmov dst by (auto simp: exec_alu64_def Let_def)
  next
    case False
    then have "(if ?op = BPF_ADD \<or> ?op = BPF_SUB then exec_ptr_arith insn st (regs st ! ?d) else None) = None" by auto
    then show ?thesis using sc nmov dst by (simp add: exec_alu64_def Let_def)
  qed
qed

section \<open>Loads and stores\<close>

lemma small_operand:
  assumes "\<bar>off\<bar> \<le> 2 ^ 17" and "n \<le> 8"
  shows "wrap_i32 (off + sint (io :: 16 word)) = off + sint io"
    and "wrap_i32 (off + sint io + int n) = off + sint io + int n"
proof -
  have io: "- (2 ^ 15) \<le> sint io" "sint io < 2 ^ 15"
    using sint_greater_eq [of io] sint_less [of io] by simp_all
  show "wrap_i32 (off + sint io) = off + sint io"
    by (rule wrap_i32_id) (use io assms in \<open>auto simp: abs_le_iff\<close>)
  show "wrap_i32 (off + sint io + int n) = off + sint io + int n"
    by (rule wrap_i32_id) (use io assms in \<open>auto simp: abs_le_iff\<close>)
qed

lemma eff_addr_ok:
  assumes "uint a = x" and "x \<le> 2 ^ 17" and "0 \<le> x + sint (insn_off insn)"
  obtains eff where "eff_addr a insn = Ok eff" and "uint eff = x + sint (insn_off insn)"
proof -
  have "uint a + sint (insn_off insn) < 2 ^ 64"
    using assms sint_less [of "insn_off insn"] by simp
  then obtain eff where "checked_add_signed a (sint (insn_off insn)) = Some eff"
    "uint eff = uint a + sint (insn_off insn)"
    by (rule checked_add_signed_Some [rotated]) (use assms in auto)
  then show ?thesis using that assms(1) by (simp add: eff_addr_def)
qed

lemma unat_add_small:
  assumes "unat (a :: 64 word) + n < 2 ^ 64"
  shows "unat (a + of_nat n) = unat a + n"
  using assms by (simp add: unat_word_ariths unat_of_nat take_bit_nat_eq_self)

lemma init_loop_ok:
  "\<forall>b\<in>set bs. unat (eff + of_nat b) < length init \<and> init ! unat (eff + of_nat b) \<Longrightarrow> init_loop init eff e bs = Ok ()"
  by (induction bs) (auto simp: Let_def)

lemma stack_access:
  assumes "uint (eff :: 64 word) = 512 + e" and "e + int n \<le> 0"
  shows "unat eff = nat (512 + e)" and "unat eff + n \<le> 512" and "k \<le> n \<Longrightarrow> unat (eff + of_nat k) = unat eff + k"
proof -
  have u: "int (unat eff) = 512 + e" using assms(1) by simp
  show "unat eff = nat (512 + e)" using u by linarith
  show b: "unat eff + n \<le> 512" using u assms(2) by linarith
  show "unat (eff + of_nat k) = unat eff + k" if "k \<le> n"
    by (rule unat_add_small) (rule le_less_trans [of _ 512], use b that in simp_all)
qed

lemma load_stack_sound:
  assumes c: "conf sps mc s st" and a: "uint a = 512 + off" "off \<le> 0"
    and e: "- 512 \<le> off + sint (insn_off insn)" "off + sint (insn_off insn) + int n \<le> 0"
    and ck: "stack_check (vstack_init s) (nat (512 + (off + sint (insn_off insn)))) n = Ok u"
  shows "yields runtime_error errs (load_bytes context insn st n (VPtrStack a))"
proof -
  obtain eff where eff: "eff_addr a insn = Ok eff" "uint eff = 512 + off + sint (insn_off insn)"
    by (rule eff_addr_ok [OF a(1)]) (use a(2) e in auto)
  have eff2: "uint eff = 512 + (off + sint (insn_off insn))" using eff(2) by simp
  note sa = stack_access [OF eff2 e(2)]
  have len: "length (stack_init st) = 512" "length (stack st) = 512"
    and im: "\<And>i. i < 512 \<Longrightarrow> vstack_init s ! i \<Longrightarrow> stack_init st ! i" using c by (auto simp: conf_def)
  have "init_loop (stack_init st) eff er [0..<n] = Ok ()" for er
  proof (rule init_loop_ok, intro ballI)
    fix b assume "b \<in> set [0..<n]"
    then have b: "b < n" by simp
    have "vstack_init s ! (unat eff + b)" using stack_check_Ok [OF ck, of "unat eff + b"] sa(1) b by simp
    then show "unat (eff + of_nat b) < length (stack_init st) \<and> stack_init st ! unat (eff + of_nat b)"
      using sa(2) sa(3) [of b] b len im by simp
  qed
  then show ?thesis using eff(1) sa(2) sa(3) [of n] len by (simp add: load_bytes_def vslice_def)
qed

lemma load_context_sound:
  assumes a: "uint a = off" "off \<le> 80" and e: "0 \<le> off + sint (insn_off insn)"
    "(off + sint (insn_off insn)) mod int n = 0" and n: "n \<le> 8"
  shows "yields runtime_error errs (load_bytes context insn st n (VPtrContext a))"
proof -
  obtain eff where eff: "eff_addr a insn = Ok eff" "uint eff = off + sint (insn_off insn)"
    by (rule eff_addr_ok [OF a(1)]) (use a(2) e in auto)
  have "int (unat eff mod n) = 0" using e(2) eff(2) by (simp add: zmod_int)
  then have al: "unat eff mod n = 0" by simp
  have "uint eff < 65536" using eff(2) a(2) sint_less [of "insn_off insn"] by simp
  then have "int (unat eff) < 65536" by simp
  then have "unat eff < 65536" by linarith
  then have "unat eff + n < 2 ^ 64" using n by simp
  then have "unat (eff + of_nat n) = unat eff + n" by (rule unat_add_small)
  then show ?thesis using eff(1) al by (simp add: load_bytes_def vslice_def)
qed

lemma load_map_sound:
  assumes c: "conf sps mc s st" and p: "map_ptr_ok sps (lookups st) i off v" and e: "0 \<le> off + sint (insn_off insn)"
  shows "yields runtime_error errs (load_bytes context insn st n v)"
proof -
  have i: "i < length sps" using map_ptr_ok_bounds [OF p] by simp
  have off: "off \<le> 2 ^ 17"
    using map_ptr_ok_bounds [OF p] spec_ok_sizes(2) [OF conf_spec_ok [OF c i]] by (simp add: unat_uint_le)
  note m = conf_map [OF c i]
  have rd: "yields runtime_error errs (map_err (\<lambda>_. OutOfBoundsAccess) (read_value_bytes (vmaps st ! i) k off' n))" for k off'
    using read_value_bytes_cases [OF m(3), where key = k and offset = off' and n = n]
    by (cases "read_value_bytes (vmaps st ! i) k off' n") auto
  from p show ?thesis
  proof (cases rule: map_ptr_ok_cases)
    case (array el a)
    obtain eff where "eff_addr a insn = Ok eff" by (rule eff_addr_ok [OF array(2) off e])
    then show ?thesis using array m rd by (simp add: load_bytes_def)
  next
    case (hash l a)
    obtain eff where "eff_addr a insn = Ok eff" by (rule eff_addr_ok [OF hash(2) off e])
    then show ?thesis using hash m rd by (simp add: load_bytes_def)
  qed
qed

lemma exec_ldx_sound:
  assumes c: "conf sps mc s st" and sps: "sps = map spec mapsF" "prefix maps mapsF"
    and mc: "mc = max_context_size_for_prog_type (prog_type cfg)" and ok: "verify_ldx cfg maps insn s = Ok s'"
  shows "sound sps mc (vpc st) s' (exec_ldx context insn st)"
proof -
  let ?r = "unat (src_reg insn)" and ?io = "sint (insn_off insn)"
  obtain n where n: "mem_size_bytes insn = Ok n" "n \<in> {1, 2, 4, 8}" by (rule mem_size_bytes_cases)
  have n8: "n \<le> 8" and ib: "insn_bytes insn = Ok n" using n by (auto simp: insn_bytes_def)
  have r: "?r < 11" and rd: "reg_read s ?r = Ok (vregs s ! ?r)"
    using ok conf_read [OF c] by (auto simp: verify_ldx_def Let_def outcome_simps)
  have val: "val_ok sps (lookups st) mc (vregs s ! ?r) (regs st ! ?r)" by (rule conf_reg [OF c r])
  have mc80: "mc \<le> 80" using mc by (cases "prog_type cfg") simp_all
  have "yields runtime_error errs (load_bytes context insn st n (regs st ! ?r)) \<and>
    reg_write s (unat (dst_reg insn)) Scalar = Ok s'"
  proof (cases "vregs s ! ?r")
    case (PtrContext off)
    obtain a where a: "regs st ! ?r = VPtrContext a" "uint a = off" "off \<le> int mc" using val PtrContext by auto
    have "\<bar>off\<bar> \<le> 2 ^ 17" using a mc80 uint_ge_0 [of a] by simp
    note w = small_operand [OF this n8, of "insn_off insn"]
    then show ?thesis
      using ok rd PtrContext n(1) a mc80 load_context_sound [OF a(2) _ _ _ n8, of insn "context" st]
      by (auto simp: verify_ldx_def Let_def outcome_simps split: if_splits)
  next
    case (PtrStack off)
    obtain a where a: "regs st ! ?r = VPtrStack a" "uint a = 512 + off" "off \<le> 0" using val PtrStack by auto
    have "\<bar>off\<bar> \<le> 2 ^ 17" using a uint_ge_0 [of a] by simp
    note w = small_operand [OF this n8, of "insn_off insn"]
    show ?thesis
      using ok rd PtrStack n(1) a w load_stack_sound [OF c a(2,3), of insn n _ "context"]
      by (auto simp: verify_ldx_def Let_def outcome_simps not_less split: if_splits)
  next
    case (PtrMapValue i off ck)
    then have ck: ck using ok rd n(1) by (auto simp: verify_ldx_def Let_def outcome_simps split: if_splits)
    then have p: "map_ptr_ok sps (lookups st) i off (regs st ! ?r)" using val PtrMapValue by simp
    have "off \<le> 65536" "0 \<le> off"
      using map_ptr_ok_bounds [OF p] spec_ok_sizes(2) [OF conf_spec_ok [OF c, of i]] by (auto simp: unat_uint_le)
    then have "\<bar>off\<bar> \<le> 2 ^ 17" by simp
    note w = small_operand(1) [OF this n8, of "insn_off insn"]
    show ?thesis
      using ok rd PtrMapValue n(1) w load_map_sound [OF c p, of insn "context" n]
      by (auto simp: verify_ldx_def Let_def outcome_simps not_less split: if_splits)
  qed (use ok rd n(1) in \<open>auto simp: verify_ldx_def Let_def outcome_simps\<close>)
  then have ld: "yields runtime_error errs (load_bytes context insn st n (regs st ! ?r))"
    and w: "reg_write s (unat (dst_reg insn)) Scalar = Ok s'" by auto
  show ?thesis
    unfolding exec_ldx_def ib conf_vreg [OF c r] bind_outcome.simps
    by (rule yields_bind [OF ld]) (rule conf_write [OF c w], simp)
qed

subsection \<open>Stores\<close>

lemma conf_set_map:
  assumes c: "conf sps mc s st" and i: "i < length sps" and m: "map_wf m" "spec m = sps ! i"
  shows "conf sps mc s (st\<lparr>vmaps := (vmaps st)[i := m]\<rparr>)"
proof -
  have "map spec ((vmaps st)[i := m]) = sps"
    using c m(2) unfolding conf_def by (metis list_update_id map_update)
  moreover have "\<forall>x\<in>set ((vmaps st)[i := m]). map_wf x"
    using c m(1) set_update_subset_insert [of "vmaps st" i m] unfolding conf_def by blast
  ultimately show ?thesis using c by (simp add: conf_def)
qed

lemma store_stack_sound:
  assumes c: "conf sps mc s st" and a: "uint a = 512 + off" "off \<le> 0"
    and e: "- 512 \<le> off + sint (insn_off insn)" "off + sint (insn_off insn) + int n \<le> 0"
    and mk: "stack_mark (vstack_init s) (nat (512 + (off + sint (insn_off insn)))) n = Ok init" and len: "length bs = n"
  shows "sound sps mc (vpc st) (s\<lparr>vstack_init := init\<rparr>) (store_bytes insn st n bs (VPtrStack a))"
proof -
  obtain eff where eff: "eff_addr a insn = Ok eff" "uint eff = 512 + off + sint (insn_off insn)"
    by (rule eff_addr_ok [OF a(1)]) (use a(2) e in auto)
  have eff2: "uint eff = 512 + (off + sint (insn_off insn))" using eff(2) by simp
  note sa = stack_access [OF eff2 e(2)]
  have ls: "length (stack_init st) = 512" "length (stack st) = 512" "length (vstack_init s) = 512"
    and im: "\<And>i. i < 512 \<Longrightarrow> vstack_init s ! i \<Longrightarrow> stack_init st ! i" using c by (auto simp: conf_def)
  obtain init' where i': "stack_mark (vstack_init s) (nat (512 + (off + sint (insn_off insn)))) n = Ok init'"
    "length init' = 512" "\<And>i. i < 512 \<Longrightarrow> init' ! i \<longleftrightarrow> vstack_init s ! i \<or> unat eff \<le> i \<and> i < unat eff + n"
    by (rule stack_mark_fits [of "nat (512 + (off + sint (insn_off insn)))" n "vstack_init s"])
      (use sa(1,2) ls in auto)
  have init: "init' = init" using i'(1) mk by simp
  have "splice (stack_init st) (unat eff) (replicate n True) ! i" if "i < 512" "init ! i" for i
    using i'(3) [OF that(1)] that init im sa(2) ls by (auto simp: nth_splice)
  then show ?thesis
    using c eff(1) sa(2) sa(3) [of n] ls i'(2) init len by (auto simp: store_bytes_def conf_def)
qed

lemma write_map_sound:
  assumes c: "conf sps mc s st" and i: "i < length sps" and k: "length key = unat (key_size (sps ! i))"
  shows "sound sps mc (vpc st) s (write_map st i key off bs)"
proof -
  note m = conf_map [OF c i]
  have k': "length key = unat (key_size (spec (vmaps st ! i)))" using k m(2) by simp
  show ?thesis
    using write_value_bytes_cases [OF m(3) k', of off bs] m(2) conf_set_map [OF c i]
    by (cases "write_value_bytes (vmaps st ! i) key off bs") (auto simp: write_map_def)
qed

lemma store_map_sound:
  assumes c: "conf sps mc s st" and p: "map_ptr_ok sps (lookups st) i off v" and e: "0 \<le> off + sint (insn_off insn)"
  shows "sound sps mc (vpc st) s (store_bytes insn st n bs v)"
proof -
  have i: "i < length sps" using map_ptr_ok_bounds [OF p] by simp
  have off: "off \<le> 2 ^ 17"
    using map_ptr_ok_bounds [OF p] spec_ok_sizes(2) [OF conf_spec_ok [OF c i]] by (simp add: unat_uint_le)
  note m = conf_map [OF c i]
  from p show ?thesis
  proof (cases rule: map_ptr_ok_cases)
    case (array el a)
    obtain eff where eff: "eff_addr a insn = Ok eff" by (rule eff_addr_ok [OF array(2) off e])
    have "unat (key_size (sps ! i)) = 4"
      using m(3) array(3) m(2) by (cases rule: map_wf_cases) auto
    then show ?thesis using array(1) eff m(1) write_map_sound [OF c i, of "u32_to_bytes el"] by (simp add: store_bytes_def)
  next
    case (hash l a)
    obtain eff where eff: "eff_addr a insn = Ok eff" by (rule eff_addr_ok [OF hash(2) off e])
    show ?thesis using hash(1,4) eff m(1) write_map_sound [OF c i hash(5)] by (simp add: store_bytes_def)
  qed
qed

lemma exec_store_sound:
  assumes c: "conf sps mc s st" and sps: "sps = map spec mapsF" "prefix maps mapsF"
    and cl: "insn_class insn = BPF_ST \<or> insn_class insn = BPF_STX" and ok: "verify_store maps insn s = Ok s'"
  shows "sound sps mc (vpc st) s' (exec_store insn st)"
proof -
  let ?r = "unat (dst_reg insn)" and ?src = "unat (src_reg insn)"
  obtain n where n: "mem_size_bytes insn = Ok n" "n \<in> {1, 2, 4, 8}" by (rule mem_size_bytes_cases)
  have n8: "n \<le> 8" and ib: "insn_bytes insn = Ok n" using n by (auto simp: insn_bytes_def)
  have r: "?r < 11" and rd: "reg_read s ?r = Ok (vregs s ! ?r)"
    using ok conf_read [OF c] by (auto simp: verify_store_def Let_def outcome_simps)
  have val: "val_ok sps (lookups st) mc (vregs s ! ?r) (regs st ! ?r)" by (rule conf_reg [OF c r])
  obtain t where t: "(if insn_class insn = BPF_STX then reg_read s ?src else Ok Scalar) = Ok t" "t \<noteq> NotInit"
    using ok by (auto simp: verify_store_def Let_def outcome_simps split: if_splits)
  have src: "yields runtime_error errs
     (if insn_class insn = BPF_ST then Ok (ucast (imm insn)) else bind_outcome (vreg st ?src) as_scalar)"
    using cl t conf_read [OF c, of ?src t] conf_vreg [OF c, of ?src] as_scalar_ok [OF conf_reg [OF c, of ?src]]
    by (auto split: if_splits)
  have "sound sps mc (vpc st) s' (store_bytes insn st n bs (regs st ! ?r))" if bs: "length bs = n" for bs
  proof (cases "vregs s ! ?r")
    case (PtrStack off)
    obtain a where a: "regs st ! ?r = VPtrStack a" "uint a = 512 + off" "off \<le> 0" using val PtrStack by auto
    have "\<bar>off\<bar> \<le> 2 ^ 17" using a uint_ge_0 [of a] by simp
    note w = small_operand [OF this n8, of "insn_off insn"]
    show ?thesis
      using ok rd PtrStack n(1) a w store_stack_sound [OF c a(2,3) _ _ _ bs, of insn] t
      by (auto simp: verify_store_def Let_def outcome_simps not_less split: if_splits)
  next
    case (PtrMapValue i off ck)
    then have ck: ck using ok rd n(1) by (auto simp: verify_store_def Let_def outcome_simps split: if_splits)
    then have p: "map_ptr_ok sps (lookups st) i off (regs st ! ?r)" using val PtrMapValue by simp
    have "off \<le> 65536" "0 \<le> off"
      using map_ptr_ok_bounds [OF p] spec_ok_sizes(2) [OF conf_spec_ok [OF c, of i]] by (auto simp: unat_uint_le)
    then have "\<bar>off\<bar> \<le> 2 ^ 17" by simp
    note w = small_operand(1) [OF this n8, of "insn_off insn"]
    show ?thesis
      using ok rd PtrMapValue n(1) w store_map_sound [OF c p, of insn n bs]
      by (auto simp: verify_store_def Let_def outcome_simps not_less split: if_splits)
  qed (use ok rd n(1) in \<open>auto simp: verify_store_def Let_def outcome_simps split: if_splits\<close>)
  then have "sound sps mc (vpc st) s' (store_bytes insn st n (take n (u64_to_bytes v)) (regs st ! ?r))" for v
    using n8 by simp
  then show ?thesis
    unfolding exec_store_def ib conf_vreg [OF c r] bind_outcome.simps by (intro yields_bind [OF src])
qed

section \<open>Helper calls\<close>

lemma map_ptr_ok_append: "map_ptr_ok sps lks i off v \<Longrightarrow> map_ptr_ok sps (lks @ l) i off v"
  by (auto simp: map_ptr_ok_def nth_append split: vm_value.splits)

lemma val_ok_append: "val_ok sps lks mc t v \<Longrightarrow> val_ok sps (lks @ l) mc t v"
  by (cases t) (auto intro: map_ptr_ok_append)

lemma ret_helper_conf:
  assumes c: "conf sps mc s st" and v: "val_ok sps (lookups st) mc t v"
  shows "conf sps mc (clobber s t) (ret_helper st v)"
proof -
  have len: "length (vregs s) = 11" "length (regs st) = 11" using c by (simp_all add: conf_def)
  have "val_ok sps (lookups st) mc (vregs (clobber s t) ! r) (regs (ret_helper st v) ! r)" if "r < 11" for r
  proof -
    consider "r = 0" | "r \<in> {1, 2, 3, 4, 5}" | "r > 5" by force
    then show ?thesis
    proof cases
      case 1
      then show ?thesis using v len by (simp add: clobber_def ret_helper_def)
    next
      case 2
      then have "vregs (clobber s t) ! r = NotInit" using len by (auto simp: clobber_def)
      then show ?thesis by simp
    next
      case 3
      then show ?thesis using conf_reg [OF c that] by (simp add: clobber_def ret_helper_def)
    qed
  qed
  then show ?thesis using c by (simp add: conf_def clobber_def ret_helper_def)
qed

lemma ret_scalar_sound:
  "conf sps mc s st \<Longrightarrow> sound sps mc (vpc st) (clobber s Scalar) (Ok (ret_helper st (VScalar w)))"
  using ret_helper_conf [of sps mc s st Scalar "VScalar w"] by (simp add: ret_helper_def)

lemma conf_add_lookup:
  assumes "conf sps mc s st" and "length (lookups st) < 64"
  shows "conf sps mc s (st\<lparr>lookups := lookups st @ [l]\<rparr>)"
  using assms val_ok_append by (auto simp: conf_def)

lemma map_arg_sound:
  assumes c: "conf sps mc s st" and "vregs s ! r = PtrMap i" and "r < 11"
  shows "i < length sps" and "map_arg st r = Ok (i, vmaps st ! i)"
proof -
  have v: "regs st ! r = VPtrMap i" "i < length sps" using conf_reg [OF c assms(3)] assms(2) by auto
  show "i < length sps" by (rule v(2))
  show "map_arg st r = Ok (i, vmaps st ! i)" using v(1) conf_map(1) [OF c v(2)] by (simp add: map_arg_def)
qed

lemma stack_range_ok:
  assumes c: "conf sps mc s st" and a: "uint a = 512 + off" "off \<le> 0"
    and ck: "check_stack_arg s off n = Ok u" and n: "unat n \<le> 65536"
  obtains bs where "stack_range st a (unat n) = Ok bs" and "length bs = unat n"
proof -
  have off: "- 512 \<le> off" using a(1) uint_ge_0 [of a] by linarith
  have w: "wrap_i32 (off + sint n) \<le> 0" using ck by (auto simp: check_stack_arg_def split: if_splits)
  have fit: "nat (512 + off) + unat n \<le> 512" by (rule check_stack_arg_fits [OF off a(2) w n])
  have "int (unat a) = 512 + off" using a(1) by simp
  then have ua: "unat a = nat (512 + off)" by linarith
  have "unat (a + of_nat (unat n)) = unat a + unat n"
    by (rule unat_add_small) (rule le_less_trans [of _ 512], use fit ua in simp_all)
  moreover have "length (stack st) = 512" using c by (simp add: conf_def)
  ultimately show ?thesis
    using that [of "slice (stack st) (unat a) (unat n)"] fit ua by (simp add: stack_range_def vslice_def)
qed

lemma key_arg_ok:
  assumes c: "conf sps mc s st" and r: "vregs s ! 2 = PtrStack off" and i: "i < length sps"
    and ck: "check_stack_arg s off (key_size (sps ! i)) = Ok u"
  obtains key where "key_arg st (vmaps st ! i) = Ok key" and "length key = unat (key_size (sps ! i))"
proof -
  obtain a where a: "regs st ! 2 = VPtrStack a" "uint a = 512 + off" "off \<le> 0"
    using conf_reg [OF c, of 2] r by auto
  have "unat (key_size (sps ! i)) \<le> 65536" using spec_ok_sizes(1) [OF conf_spec_ok [OF c i]] by simp
  then obtain bs where "stack_range st a (unat (key_size (sps ! i))) = Ok bs" "length bs = unat (key_size (sps ! i))"
    by (rule stack_range_ok [OF c a(2,3) ck])
  then show ?thesis using that a(1) conf_map(2) [OF c i] by (simp add: key_arg_def)
qed

lemma map_lookup_no_panic: "map_wf m \<Longrightarrow> length key = ksize m \<Longrightarrow> map_type (spec m) = Hash \<Longrightarrow> map_lookup m key (vsize m) \<noteq> Panic"
  using map_lookup_view [of m key] by (auto split: option.splits)

lemma call_lookup_sound:
  assumes c: "conf sps mc s st" and sps: "sps = map spec mapsF" "prefix maps mapsF"
    and ok: "verify_map_lookup maps s = Ok s'"
  shows "sound sps mc (vpc st) s' (call_map_lookup st)"
proof -
  obtain i off sp u where r: "vregs s ! 1 = PtrMap i" "vregs s ! 2 = PtrStack off" and sp: "map_at maps i = Ok sp"
    and ck: "check_stack_arg s off (key_size sp) = Ok u" and s': "s' = clobber s (PtrMapValue i 0 False)"
    using ok by (auto simp: verify_map_lookup_def outcome_simps split: reg_type.splits)
  have i: "i < length sps" "sp = sps ! i" using map_at_conf [OF sp sps(2)] sps(1) by auto
  note m = conf_map [OF c i(1)]
  obtain key where key: "key_arg st (vmaps st ! i) = Ok key" "length key = unat (key_size (sps ! i))"
    by (rule key_arg_ok [OF c r(2) i(1) ck [unfolded i(2)]])
  have null: "sound sps mc (vpc st) s' (Ok (ret_helper st VNull))"
    using ret_helper_conf [OF c, of "PtrMapValue i 0 False" VNull] s' by (simp add: ret_helper_def)
  have "sound sps mc (vpc st) s' (lookup_in st i (vmaps st ! i) key)"
  proof (cases "map_type (sps ! i)")
    case Array
    have "unat (key_size (sps ! i)) = 4" using m(3) Array m(2) by (cases rule: map_wf_cases) auto
    moreover have "conf sps mc s' (ret_helper st (VPtrMapValueArray i (u32_from_bytes key) 0))"
      if "u32_from_bytes key < max_entries (sps ! i)"
      unfolding s' by (rule ret_helper_conf [OF c]) (use that Array i in \<open>simp add: map_ptr_ok_def\<close>)
    ultimately show ?thesis
      using Array m(2) key(2) null by (simp add: lookup_in_def Let_def ret_helper_def)
  next
    case Hash
    let ?lk = "\<lparr>al_map_idx = i, al_key = key\<rparr>"
    have new: "conf sps mc s' (ret_helper (st\<lparr>lookups := lookups st @ [?lk]\<rparr>)
        (VPtrMapValueHash i (of_nat (length (lookups st))) 0))" if lt: "length (lookups st) < 64"
    proof -
      have "unat (of_nat (length (lookups st)) :: 8 word) = length (lookups st)"
        using lt by (simp add: unat_of_nat take_bit_nat_eq_self)
      then show ?thesis
        unfolding s' by (intro ret_helper_conf conf_add_lookup [OF c lt])
          (use Hash i key(2) in \<open>simp add: map_ptr_ok_def\<close>)
    qed
    have "map_lookup (vmaps st ! i) key (vsize (vmaps st ! i)) \<noteq> Panic"
      by (rule map_lookup_no_panic) (use m Hash key(2) in auto)
    moreover have "unat (key_size (sps ! i)) \<le> 512" by (rule spec_ok_sizes(1) [OF conf_spec_ok [OF c i(1)]])
    ultimately have "sound sps mc (vpc st) s' (lookup_hash st i (vmaps st ! i) key)"
      using new null key(2) m(2)
      by (auto simp: lookup_hash_def Let_def ret_helper_def not_le split: outcome.splits)
    then show ?thesis using Hash m(2) by (simp add: lookup_in_def)
  qed (use null m(2) in \<open>simp_all add: lookup_in_def\<close>)
  then show ?thesis using map_arg_sound(2) [OF c r(1)] key(1) by (simp add: call_map_lookup_def)
qed

lemma ret_map_op_sound:
  assumes c: "conf sps mc s st" and i: "i < length sps"
    and r: "yields errs (\<lambda>m. map_wf m \<and> spec m = sps ! i) r"
  shows "sound sps mc (vpc st) (clobber s Scalar) (ret_map_op env st i r)"
proof (cases r)
  case (Ok m)
  then have "conf sps mc s (set_vmap st i m)" using r conf_set_map [OF c i] by (simp add: set_vmap_def)
  from ret_scalar_sound [OF this] show ?thesis using Ok by (simp add: ret_map_op_def set_vmap_def)
next
  case (Err e)
  then show ?thesis using ret_scalar_sound [OF c] by (simp add: ret_map_op_def)
next
  case Panic
  then show ?thesis using r by simp
qed

lemma map_ops_no_panic:
  assumes wf: "map_wf m" and k: "length key = ksize m"
  shows "yields errs (\<lambda>m'. map_wf m' \<and> spec m' = spec m) (map_delete m key)"
    and "length v = vsize m \<Longrightarrow> yields errs (\<lambda>m'. map_wf m' \<and> spec m' = spec m) (map_update m key v fl)"
proof -
  show "yields errs (\<lambda>m'. map_wf m' \<and> spec m' = spec m) (map_delete m key)"
    using map_delete_cases [OF wf k] by (cases "map_delete m key") auto
  assume v: "length v = vsize m"
  show "yields errs (\<lambda>m'. map_wf m' \<and> spec m' = spec m) (map_update m key v fl)"
  proof (cases "fl \<le> BPF_EXIST \<and> map_type (spec m) \<noteq> RingBuf")
    case True
    then show ?thesis using map_update_cases [OF wf k v, of fl] by (cases "map_update m key v fl") auto
  next
    case False
    then have "fl > BPF_EXIST \<or> map_type (spec m) = RingBuf" by auto
    then show ?thesis
      using wf k v by (cases rule: map_wf_cases [OF wf]) (auto simp: map_update_def storage_update_elem_def)
  qed
qed

lemma value_arg_sound:
  assumes c: "conf sps mc s st" and p: "map_ptr_ok sps (lookups st) i off v"
  shows "yields runtime_error (\<lambda>bs. length bs = n) (value_arg st v n)"
proof -
  have i: "i < length sps" using map_ptr_ok_bounds [OF p] by simp
  note m = conf_map [OF c i]
  have rd: "yields runtime_error (\<lambda>bs. length bs = n) (map_err HelperFailed (read_value_bytes (vmaps st ! i) k off' n))" for k off'
    using read_value_bytes_cases [OF m(3), where key = k and offset = off' and n = n]
    by (cases "read_value_bytes (vmaps st ! i) k off' n") auto
  from p show ?thesis
    by (cases rule: map_ptr_ok_cases) (use m rd in \<open>simp_all add: value_arg_def lookup_at_def\<close>)
qed

lemma call_update_sound:
  assumes c: "conf sps mc s st" and sps: "sps = map spec mapsF" "prefix maps mapsF"
    and ok: "verify_map_update maps s = Ok s'"
  shows "sound sps mc (vpc st) s' (call_map_update env st)"
proof -
  obtain i off sp u u' where r: "vregs s ! 1 = PtrMap i" "vregs s ! 2 = PtrStack off" and sp: "map_at maps i = Ok sp"
    and ck: "check_stack_arg s off (key_size sp) = Ok u" and
    v3: "(case vregs s ! 3 of PtrStack off \<Rightarrow> check_stack_arg s off (value_size sp)
       | PtrMapValue _ _ c \<Rightarrow> if c then Ok () else Err EACCES | _ \<Rightarrow> Err EACCES) = Ok u'" and
    r4: "vregs s ! 4 = Scalar" and s': "s' = clobber s Scalar"
    using ok by (cases "vregs s ! 1"; cases "vregs s ! 2")
      (auto simp: verify_map_update_def outcome_simps split: if_splits)
  have i: "i < length sps" "sp = sps ! i" using map_at_conf [OF sp sps(2)] sps(1) by auto
  note m = conf_map [OF c i(1)]
  obtain key where key: "key_arg st (vmaps st ! i) = Ok key" "length key = unat (key_size (sps ! i))"
    by (rule key_arg_ok [OF c r(2) i(1) ck [unfolded i(2)]])
  have fl: "\<exists>fl. as_scalar (regs st ! 4) = Ok fl" using conf_reg [OF c, of 4] r4 as_scalar_Scalar by force
  have upd: "yields runtime_error (\<lambda>bs. length bs = unat (value_size (sps ! i)))
      (update_value st (regs st ! 3) (unat (value_size (sps ! i))))"
  proof (cases "vregs s ! 3")
    case (PtrStack off3)
    obtain a where a: "regs st ! 3 = VPtrStack a" "uint a = 512 + off3" "off3 \<le> 0"
      using conf_reg [OF c, of 3] PtrStack by auto
    have ck3: "check_stack_arg s off3 (value_size (sps ! i)) = Ok u'" using v3 PtrStack i(2) by simp
    obtain bs where "stack_range st a (unat (value_size (sps ! i))) = Ok bs" "length bs = unat (value_size (sps ! i))"
      by (rule stack_range_ok [OF c a(2,3) ck3 spec_ok_sizes(2) [OF conf_spec_ok [OF c i(1)]]])
    then show ?thesis using a(1) by (simp add: update_value_def)
  next
    case (PtrMapValue j off3 ck3)
    then have p: "map_ptr_ok sps (lookups st) j off3 (regs st ! 3)"
      using conf_reg [OF c, of 3] v3 by (auto split: if_splits)
    from p show ?thesis
      using value_arg_sound [OF c p] by (cases rule: map_ptr_ok_cases) (simp_all add: update_value_def)
  qed (use v3 in auto)
  have op: "sound sps mc (vpc st) s' (ret_map_op env st i (map_update (vmaps st ! i) key bs f))"
    if "length bs = unat (value_size (sps ! i))" for bs f
    unfolding s' by (rule ret_map_op_sound [OF c i(1)])
      (use map_ops_no_panic(2) [OF m(3), of key bs f] key(2) that m(2) in simp)
  obtain f where f: "as_scalar (regs st ! 4) = Ok f" using fl by blast
  have "sound sps mc (vpc st) s' (bind_outcome (update_value st (regs st ! 3) (unat (value_size (sps ! i))))
      (\<lambda>val_buf. ret_map_op env st i (map_update (vmaps st ! i) key val_buf f)))"
    by (rule yields_bind [OF upd]) (rule op)
  then show ?thesis
    using map_arg_sound(2) [OF c r(1)] key(1) f m(2) by (simp add: call_map_update_def)
qed

lemma call_delete_sound:
  assumes c: "conf sps mc s st" and sps: "sps = map spec mapsF" "prefix maps mapsF"
    and ok: "verify_map_delete maps s = Ok s'"
  shows "sound sps mc (vpc st) s' (call_map_delete env st)"
proof -
  obtain i off sp u where r: "vregs s ! 1 = PtrMap i" "vregs s ! 2 = PtrStack off" and sp: "map_at maps i = Ok sp"
    and ck: "check_stack_arg s off (key_size sp) = Ok u" and s': "s' = clobber s Scalar"
    using ok by (cases "vregs s ! 1"; cases "vregs s ! 2")
      (auto simp: verify_map_delete_def outcome_simps split: if_splits)
  have i: "i < length sps" "sp = sps ! i" using map_at_conf [OF sp sps(2)] sps(1) by auto
  note m = conf_map [OF c i(1)]
  obtain key where key: "key_arg st (vmaps st ! i) = Ok key" "length key = unat (key_size (sps ! i))"
    by (rule key_arg_ok [OF c r(2) i(1) ck [unfolded i(2)]])
  have "sound sps mc (vpc st) s' (ret_map_op env st i (map_delete (vmaps st ! i) key))"
    unfolding s' by (rule ret_map_op_sound [OF c i(1)])
      (use map_ops_no_panic(1) [OF m(3), of key] key(2) m(2) in simp)
  then show ?thesis using map_arg_sound(2) [OF c r(1)] key(1) by (simp add: call_map_delete_def)
qed

lemma output_data_sound:
  assumes c: "conf sps mc s st" and r: "r < 11" and ok: "check_output_data b (vregs s ! r) = Ok u"
  shows "yields runtime_error errs (output_data context st (regs st ! r) n)"
proof (cases "vregs s ! r")
  case (PtrMapValue i off ck)
  then have p: "map_ptr_ok sps (lookups st) i off (regs st ! r)"
    using conf_reg [OF c r] ok by (auto simp: check_output_data_def split: if_splits)
  have "yields runtime_error errs (value_arg st (regs st ! r) n)"
    by (rule yields_mono [OF value_arg_sound [OF c p]]) simp_all
  then show ?thesis using p by (cases rule: map_ptr_ok_cases [OF p]) (simp_all add: output_data_def)
qed (use conf_reg [OF c r] ok c in \<open>auto simp: output_data_def check_output_data_def vslice_def conf_def\<close>)

lemma ret_code_sound:
  assumes "conf sps mc s st"
  shows "sound sps mc (vpc st) (clobber s Scalar) (Ok (ret_helper st (ret_code env r)))"
  using ret_scalar_sound [OF assms] by (cases r) (simp_all add: ret_code_def)

lemma call_perf_sound:
  assumes c: "conf sps mc s st" and sps: "sps = map spec mapsF" "prefix maps mapsF"
    and ok: "verify_perf_event_output maps s = Ok s'"
  shows "sound sps mc (vpc st) s' (call_perf_event_output env context st)"
proof -
  obtain i sp u where r: "vregs s ! 2 = PtrMap i" and sp: "map_at maps i = Ok sp" "map_type sp = PerfEventArray"
    and r3: "vregs s ! 3 = Scalar" and d: "check_output_data False (vregs s ! 4) = Ok u" and r5: "vregs s ! 5 = Scalar"
    and s': "s' = clobber s Scalar"
    using ok by (cases "vregs s ! 1"; cases "vregs s ! 2")
      (auto simp: verify_perf_event_output_def outcome_simps split: if_splits)
  have i: "i < length sps" "sp = sps ! i" using map_at_conf [OF sp(1) sps(2)] sps(1) by auto
  have r34: "(3::nat) < 11" "(5::nat) < 11" by simp_all
  obtain f where f: "as_scalar (regs st ! 3) = Ok f"
    using conf_reg [OF c r34(1)] r3 as_scalar_Scalar by metis
  obtain n where n: "as_scalar (regs st ! 5) = Ok n"
    using conf_reg [OF c r34(2)] r5 as_scalar_Scalar by metis
  have d4: "yields runtime_error errs (output_data context st (regs st ! 4) k)" for k
    by (rule output_data_sound [OF c _ d]) simp
  have out: "sound sps mc (vpc st) s' (bind_outcome (output_data context st (regs st ! 4) k)
      (\<lambda>b. Ok (ret_helper st (ret_code env (q b)))))" for k q
    unfolding s' by (rule yields_bind [OF d4]) (rule ret_code_sound [OF c])
  have bad: "sound sps mc (vpc st) s' (Ok (ret_helper st (VScalar w)))" for w
    unfolding s' by (rule ret_scalar_sound [OF c])
  show ?thesis
    using map_arg_sound(2) [OF c r] f n out bad conf_map(2) [OF c i(1)] sp(2) i(2)
    by (simp add: call_perf_event_output_def Let_def)
qed

lemma call_ring_sound:
  assumes c: "conf sps mc s st" and sps: "sps = map spec mapsF" "prefix maps mapsF"
    and ok: "verify_ringbuf_output maps s = Ok s'"
  shows "sound sps mc (vpc st) s' (call_ringbuf_output env context st)"
proof -
  obtain i sp u where r: "vregs s ! 1 = PtrMap i" and sp: "map_at maps i = Ok sp" "map_type sp = RingBuf"
    and d: "check_output_data True (vregs s ! 2) = Ok u" and r3: "vregs s ! 3 = Scalar" and r4: "vregs s ! 4 = Scalar"
    and s': "s' = clobber s Scalar"
    using ok by (cases "vregs s ! 1")
      (auto simp: verify_ringbuf_output_def outcome_simps split: if_splits)
  have i: "i < length sps" "sp = sps ! i" using map_at_conf [OF sp(1) sps(2)] sps(1) by auto
  note m = conf_map [OF c i(1)]
  have r34: "(3::nat) < 11" "(4::nat) < 11" by simp_all
  obtain n where n: "as_scalar (regs st ! 3) = Ok n"
    using conf_reg [OF c r34(1)] r3 as_scalar_Scalar by metis
  obtain f where f: "as_scalar (regs st ! 4) = Ok f"
    using conf_reg [OF c r34(2)] r4 as_scalar_Scalar by metis
  have d2: "yields runtime_error errs (output_data context st (regs st ! 2) k)" for k
    by (rule output_data_sound [OF c _ d]) simp
  have put: "sound sps mc (vpc st) s' (case output_ringbuf (vmaps st ! i) b f of
      (m', q) \<Rightarrow> Ok (ret_helper (set_vmap st i m') (ret_code env q)))" for b
  proof -
    obtain m' q where mq: "output_ringbuf (vmaps st ! i) b f = (m', q)" by fastforce
    have "map_wf m'" "spec m' = sps ! i"
      using output_ringbuf_wf [OF m(3), of b f] mq m(2) by simp_all
    then have "conf sps mc s (set_vmap st i m')" using conf_set_map [OF c i(1)] by (simp add: set_vmap_def)
    from ret_code_sound [OF this, of env q] show ?thesis using mq s' by (simp add: set_vmap_def)
  qed
  have out: "sound sps mc (vpc st) s' (bind_outcome (output_data context st (regs st ! 2) k)
      (\<lambda>b. case output_ringbuf (vmaps st ! i) b f of
        (m', q) \<Rightarrow> Ok (ret_helper (set_vmap st i m') (ret_code env q))))" for k
    by (rule yields_bind [OF d2]) (rule put)
  show ?thesis
    using map_arg_sound(2) [OF c r] f n out m(2) sp(2) i(2) by (simp add: call_ringbuf_output_def)
qed

lemma exec_call_sound:
  assumes c: "conf sps mc s st" and sps: "sps = map spec mapsF" "prefix maps mapsF"
    and ok: "verify_call maps (imm insn) s = Ok s'"
  shows "sound sps mc (vpc st) s' (exec_call env context insn st)"
proof -
  have t: "sound sps mc (vpc st) s' (Ok (ret_helper st (VScalar w)))" if "s' = clobber s Scalar" for w
    unfolding that by (rule ret_scalar_sound [OF c])
  show ?thesis
    using ok t call_lookup_sound [OF c sps] call_update_sound [OF c sps] call_delete_sound [OF c sps]
      call_perf_sound [OF c sps] call_ring_sound [OF c sps]
    by (simp add: verify_call_def exec_call_def split: if_splits)
qed

section \<open>Jumps\<close>

lemma compare_errors: "yields runtime_error errs (compare_values b op x y)"
  by (simp add: compare_values_def eval_jump_condition_def)

lemma take_jump_plain:
  assumes c: "conf sps mc s st" and dst: "unat (dst_reg insn) < 11" "vregs s ! unat (dst_reg insn) \<noteq> NotInit"
    and src: "yields runtime_error errs (src_operand st insn)"
  shows "yields runtime_error errs (take_jump insn st)"
proof -
  let ?d = "regs st ! unat (dst_reg insn)"
  have sc: "yields runtime_error errs (as_scalar ?d)" by (rule as_scalar_ok [OF conf_reg [OF c dst(1)] dst(2)])
  have one: "yields runtime_error errs (bind_outcome (as_scalar ?d) (\<lambda>x. compare_values b op x 0))" for b op
    by (rule yields_bind [OF sc]) (rule compare_errors)
  have two: "yields runtime_error errs
      (bind_outcome (as_scalar ?d) (\<lambda>x. bind_outcome (src_operand st insn) (compare_values b op x)))" for b op
    by (rule yields_bind [OF sc], rule yields_bind [OF src]) (rule compare_errors)
  show ?thesis
    unfolding take_jump_def Let_def conf_vreg [OF c dst(1)] bind_outcome.simps
    using one two by (cases ?d) (simp_all split: if_splits)
qed

lemma conf_refine:
  "conf sps mc s st \<Longrightarrow> r < 11 \<Longrightarrow> val_ok sps (lookups st) mc t (regs st ! r) \<Longrightarrow>
   conf sps mc (s\<lparr>vregs := (vregs s)[r := t]\<rparr>) st"
  by (auto simp: conf_def nth_list_update)

lemma take_jump_refines:
  assumes c: "conf sps mc s st" and dst: "unat (dst_reg insn) < 11"
    and r: "vregs s ! unat (dst_reg insn) = PtrMapValue i off ck"
    and im: "is_src_imm insn" "imm insn = 0" and op: "insn_op insn = BPF_JEQ \<or> insn_op insn = BPF_JNE"
  shows "yields runtime_error
    (\<lambda>taken. conf sps mc ((if taken then fst else snd) (branch_states insn s)) st) (take_jump insn st)"
proof -
  let ?v = "regs st ! unat (dst_reg insn)"
  have v: "map_ptr_ok sps (lookups st) i off ?v \<or> ?v = VNull \<or> ?v = VScalar 0"
    using conf_reg [OF c dst] r by auto
  note ref = conf_refine [OF c dst]
  from v consider (ptr) "map_ptr_ok sps (lookups st) i off ?v" | (null) "?v = VNull" | (zero) "?v = VScalar 0" by blast
  then show ?thesis
  proof cases
    case ptr
    have "conf sps mc (s\<lparr>vregs := (vregs s)[unat (dst_reg insn) := PtrMapValue i off True]\<rparr>) st"
      by (rule ref) (use ptr in simp)
    then show ?thesis
      using im op r by (cases rule: map_ptr_ok_cases [OF ptr])
        (auto simp: take_jump_def conf_vreg [OF c dst] branch_states_def Let_def)
  next
    case null
    have "conf sps mc (s\<lparr>vregs := (vregs s)[unat (dst_reg insn) := Scalar]\<rparr>) st" by (rule ref) (use null in simp)
    then show ?thesis using im op r null by (auto simp: take_jump_def conf_vreg [OF c dst] branch_states_def Let_def)
  next
    case zero
    have "conf sps mc (s\<lparr>vregs := (vregs s)[unat (dst_reg insn) := Scalar]\<rparr>) st" by (rule ref) (use zero in simp)
    then show ?thesis
      using im op r zero
      by (auto simp: take_jump_def conf_vreg [OF c dst] branch_states_def Let_def compare_values_def
          eval_jump_condition_def)
  qed
qed

lemma take_jump_sound:
  assumes c: "conf sps mc s st" and ok: "verify_cond_jump insn pc nx s = Ok succs"
  shows "yields runtime_error
    (\<lambda>taken. \<exists>s'. (if taken then jump_target pc insn else nx, s') \<in> set succs \<and> conf sps mc s' st) (take_jump insn st)"
proof -
  let ?d = "unat (dst_reg insn)"
  obtain d t where d: "reg_read s ?d = Ok d" "d \<noteq> NotInit"
    and t: "(if is_src_reg insn then reg_read s (unat (src_reg insn)) else Ok Scalar) = Ok t" "t \<noteq> NotInit"
    and succs: "succs = [(nx, snd (branch_states insn s)), (jump_target pc insn, fst (branch_states insn s))]"
    using ok by (auto simp: verify_cond_jump_def Let_def outcome_simps split_beta split: if_splits)
  have dst: "?d < 11" "vregs s ! ?d \<noteq> NotInit" using conf_read [OF c d(1)] d(2) by auto
  have src: "yields runtime_error errs (src_operand st insn)"
    by (rule src_operand_ok [OF c]) (use t is_src_cases [of insn] in \<open>auto split: if_splits\<close>)
  have "yields runtime_error (\<lambda>taken. conf sps mc ((if taken then fst else snd) (branch_states insn s)) st) (take_jump insn st)"
  proof (cases "branch_states insn s = (s, s)")
    case True
    then show ?thesis using take_jump_plain [OF c dst src] c by (intro yields_mono [OF take_jump_plain [OF c dst src]]) auto
  next
    case False
    then obtain i off ck where "vregs s ! ?d = PtrMapValue i off ck" "is_src_imm insn" "imm insn = 0"
      "insn_op insn = BPF_JEQ \<or> insn_op insn = BPF_JNE"
      by (auto simp: branch_states_def Let_def split: if_splits reg_type.splits)
    then show ?thesis by (rule take_jump_refines [OF c dst(1)])
  qed
  then show ?thesis by (rule yields_mono) (auto simp: succs)
qed

section \<open>One instruction\<close>

text \<open>
  The step theorem: from a machine state that conforms to an explored abstract state, an instruction
  either raises a run-time error, or returns, or leads to a conforming state at an explored successor.
\<close>

definition step_sound ::
  "map_spec list \<Rightarrow> nat \<Rightarrow> (nat \<times> verifier_state) set \<Rightarrow> nat \<Rightarrow> 's control \<Rightarrow> bool" where
  "step_sound sps mc S pc ctl = (case ctl of
     Return v \<Rightarrow> True
   | Continue st \<Rightarrow> pc < vpc st \<and> (\<exists>s. (vpc st, s) \<in> S \<and> conf sps mc s st))"

lemma continue_sound:
  assumes "sound sps mc (vpc st) s' r" and "(vpc st + 1, s') \<in> S"
  shows "yields runtime_error (step_sound sps mc S (vpc st)) (continue_with r)"
  unfolding continue_with_def
proof (rule yields_bind [OF assms(1)])
  fix st' assume st': "conf sps mc s' st' \<and> vpc st' = vpc st"
  then have "conf sps mc s' (next_insn st')" by (simp add: conf_def next_insn_def)
  then show "yields runtime_error (step_sound sps mc S (vpc st)) (Ok (Continue (next_insn st')))"
    using assms(2) st' by (auto simp: step_sound_def next_insn_def)
qed

lemma vm_target_eq: "vm_target pc insn = jump_target pc insn"
  by (simp add: vm_target_def jump_target_def)

lemma conf_vpc [simp]: "conf sps mc s (st\<lparr>vpc := k\<rparr>) = conf sps mc s st"
  by (simp add: conf_def)

lemma maps_inv_length:
  assumes "maps_inv res insns maps rel"
  shows "length maps \<le> length insns"
proof -
  have "set (map fst rel) \<subseteq> {..<length insns}" using assms by (auto simp: maps_inv_def)
  then have "card (set (map fst rel)) \<le> length insns" using card_mono [of "{..<length insns}"] by fastforce
  then show ?thesis using assms distinct_card [of "map fst rel"] by (simp add: maps_inv_def)
qed

lemma scast_small_index:
  assumes "i \<le> 65536"
  shows "unat (scast (of_nat i :: 32 word) :: 64 word) = i"
proof -
  have u: "unat (of_nat i :: 32 word) = i" using assms by (simp add: unat_of_nat take_bit_nat_eq_self)
  then have "uint (of_nat i :: 32 word) = int i" by (metis uint_nat)
  moreover have "sint (of_nat i :: 32 word) = uint (of_nat i :: 32 word)" by (rule sint_small) (use u assms in simp)
  ultimately have "(scast (of_nat i :: 32 word) :: 64 word) = word_of_int (int i)" by (simp only: scast_eq)
  then show ?thesis using assms by (simp add: unat_of_nat take_bit_nat_eq_self)
qed

text \<open>The setting of the simulation: what an accepting run of the verifier leaves behind.\<close>

definition verified ::
  "verifier_config \<Rightarrow> bpf_insn list \<Rightarrow> 's live_resolver \<Rightarrow> bool list \<Rightarrow> 's bpf_map list \<Rightarrow> (nat \<times> nat) list \<Rightarrow>
   (nat \<times> verifier_state) set \<Rightarrow> bool" where
  "verified cfg insns res r maps rel S \<longleftrightarrow>
     pass1 insns r \<and> length insns \<le> BPF_MAXINSNS \<and> same_maps res \<and> maps_inv res insns maps rel \<and>
     (0, verifier_initial) \<in> S \<and> (\<forall>x\<in>S. visited cfg insns res maps rel S x)"

lemma verified_jump:
  assumes v: "verified cfg insns res r maps rel S" and x: "(pc, s) \<in> S"
    and cl: "insn_class (insns ! pc) \<in> {BPF_JMP, BPF_JMP32}" and "\<not> is_exit (insns ! pc)" "\<not> is_call (insns ! pc)"
  shows "pc < jump_target pc (insns ! pc)"
proof -
  have p: "pass1 insns r" using v by (simp add: verified_def)
  have pc: "pc < length insns"
    using v x by (auto simp: verified_def visited_def verify_insn_def split: if_splits)
  have "\<not> r ! pc"
  proof
    assume "r ! pc"
    then have "code (insns ! pc) = 0" using p pc by (simp add: pass1_def slots_ok_def)
    then show False using cl by (simp add: insn_class_def)
  qed
  then show ?thesis using pass1_jump(1) [OF p pc] assms by blast
qed

lemma exec_ld_sound:
  assumes v: "verified cfg insns res r mapsF relF S" and c: "conf (map spec mapsF) mc s st" and pc: "vpc st = pc" "pc < length insns"
    and ld: "is_ld_imm64 (insns ! pc)"
    and inv: "maps_inv res insns maps rel" and ok: "verify_ld_imm64 (resolver_at res n) (insns ! pc) pc maps rel s = Ok (maps1, rel1, s')"
    and rel1: "set rel1 \<subseteq> set relF" and succ: "(pc + 2, s') \<in> S"
  shows "yields runtime_error (step_sound (map spec mapsF) mc S pc) (exec_ld (relocate relF insns) (relocate relF insns ! pc) st)"
proof -
  let ?i = "insns ! pc" and ?j = "relocate relF insns ! pc"
  have invF: "maps_inv res insns mapsF relF" and sm: "same_maps res" and n: "length insns \<le> 4096" using v by (simp_all add: verified_def)
  obtain t where w: "reg_write s (unat (dst_reg ?i)) t = Ok s'" and
    t: "if src_reg ?i = BPF_PSEUDO_MAP_FD then \<exists>i. t = PtrMap i \<and> (pc, i) \<in> set rel1 else t = Scalar"
    by (rule verify_ld_imm64_Ok [OF sm inv pc(2) ld ok])
  have fields: "is_ld_imm64 ?j = is_ld_imm64 ?i" "src_reg ?j = src_reg ?i" "dst_reg ?j = dst_reg ?i"
  proof -
    have "distinct (map fst relF)" "\<forall>(q, i)\<in>set relF. q < length insns" using invF by (auto simp: maps_inv_def)
    from relocate_nth [OF this pc(2)] consider "?j = ?i" | i where "?j = ?i\<lparr>imm := i\<rparr>"
      by (cases "map_of relF pc") auto
    then show "is_ld_imm64 ?j = is_ld_imm64 ?i" "src_reg ?j = src_reg ?i" "dst_reg ?j = dst_reg ?i"
      by (cases; simp add: is_ld_imm64_def src_reg_def dst_reg_def)+
  qed
  have val: "val_ok (map spec mapsF) (lookups st) mc t (if src_reg ?j = BPF_PSEUDO_MAP_FD
      then VPtrMap (unat (scast (imm ?j) :: 64 word)) else VScalar x)" for x
  proof (cases "src_reg ?i = BPF_PSEUDO_MAP_FD")
    case True
    then obtain i where i: "t = PtrMap i" "(pc, i) \<in> set relF" using t rel1 by auto
    have im: "imm ?j = of_nat i" using relocated_insn(2) [OF invF pc(2) i(2)] by simp
    have lt: "i < length mapsF" using invF i(2) by (auto simp: maps_inv_def)
    then have "i \<le> 65536" using maps_inv_length [OF invF] n by simp
    then show ?thesis using True i lt fields im scast_small_index [of i] by simp
  next
    case False
    then show ?thesis using t fields by simp
  qed
  have upd: "yields runtime_error (step_sound (map spec mapsF) mc S pc)
      (bind_outcome (set_vreg st (unat (dst_reg ?i)) u) (\<lambda>st'. Ok (Continue (st'\<lparr>vpc := vpc st + 2\<rparr>))))"
    if "val_ok (map spec mapsF) (lookups st) mc t u" for u
    by (rule yields_bind [OF conf_write [OF c w that]]) (use succ pc(1) in \<open>auto simp: step_sound_def\<close>)
  show ?thesis
    using upd [OF val] ld fields by (simp add: exec_ld_def Let_def)
qed

lemma exec_jmp_sound:
  assumes v: "verified cfg insns res r mapsF relF S" and x: "(vpc st, s) \<in> S" and c: "conf sps mc s st"
    and sps: "sps = map spec mapsF" "prefix maps mapsF" and cl: "insn_class (insns ! vpc st) \<in> {BPF_JMP, BPF_JMP32}"
    and ok: "verify_insn cfg insns (resolver_at res n) maps rel (vpc st) s = Ok (maps1, rel1, succs)" and sub: "set succs \<subseteq> S"
  shows "yields runtime_error (step_sound sps mc S (vpc st)) (exec_jmp env context (insns ! vpc st) st)"
proof -
  let ?i = "insns ! vpc st"
  have pc: "vpc st < length insns" using ok by (auto simp: verify_insn_def split: if_splits)
  have nld: "\<not> is_ld_imm64 ?i" using cl is_ld_imm64_class by auto
  note vi = ok [unfolded verify_insn_def]
  consider (exit) "is_exit ?i" | (ja) "\<not> is_exit ?i" "is_ja ?i" | (call) "\<not> is_exit ?i" "\<not> is_ja ?i" "is_call ?i"
    | (cond) "\<not> is_exit ?i" "\<not> is_ja ?i" "\<not> is_call ?i" by blast
  then show ?thesis
  proof cases
    case exit
    then have "vregs s ! 0 = Scalar"
      using vi pc nld cl by (auto simp: Let_def outcome_simps verify_exit_def split: reg_type.splits)
    then obtain w where "as_scalar (regs st ! 0) = Ok w" using conf_reg [OF c, of 0] as_scalar_Scalar by force
    then show ?thesis using exit by (simp add: exec_jmp_def step_sound_def)
  next
    case ja
    then have "(jump_target (vpc st) ?i, s) \<in> S" using vi pc nld cl sub by (auto simp: Let_def)
    moreover have "vpc st < jump_target (vpc st) ?i"
      by (rule verified_jump [OF v x cl ja(1)]) (use ja(2) opcode_disjoint in blast)
    ultimately show ?thesis using ja c by (auto simp: exec_jmp_def step_sound_def vm_target_eq)
  next
    case call
    then obtain s' where s': "verify_call maps (imm ?i) s = Ok s'" "(vpc st + 1, s') \<in> S"
      using vi pc nld cl sub by (auto simp: Let_def outcome_simps)
    show ?thesis
      using continue_sound [OF exec_call_sound [OF c sps s'(1)] s'(2)] call by (simp add: exec_jmp_def)
  next
    case cond
    then have cj: "verify_cond_jump ?i (vpc st) (vpc st + 1) s = Ok succs"
      using vi pc nld cl by (auto simp: Let_def outcome_simps)
    have fwd: "vpc st < jump_target (vpc st) ?i" by (rule verified_jump [OF v x cl cond(1,3)])
    have "yields runtime_error (step_sound sps mc S (vpc st)) (bind_outcome (take_jump ?i st) (\<lambda>taken.
        Ok (Continue (if taken then st\<lparr>vpc := vm_target (vpc st) ?i\<rparr> else next_insn st))))"
      by (rule yields_bind [OF take_jump_sound [OF c cj]])
        (use sub fwd in \<open>auto simp: step_sound_def next_insn_def vm_target_eq\<close>)
    then show ?thesis using cond by (simp add: exec_jmp_def)
  qed
qed

lemma exec_insn_sound:
  assumes v: "verified cfg insns res r mapsF relF S" and x: "(vpc st, s) \<in> S" and c: "conf sps mc s st"
    and sps: "sps = map spec mapsF" and mc: "mc = max_context_size_for_prog_type (prog_type cfg)"
  shows "yields runtime_error (step_sound sps mc S (vpc st)) (exec_insn env context (relocate relF insns) st)"
proof -
  let ?i = "insns ! vpc st"
  have vis: "visited cfg insns res mapsF relF S (vpc st, s)" using v x unfolding verified_def by blast
  obtain n maps rel maps1 rel1 succs where
    ok: "verify_insn cfg insns (resolver_at res n) maps rel (vpc st) s = Ok (maps1, rel1, succs)" and inv: "maps_inv res insns maps rel"
    and m1: "prefix maps1 mapsF" and rel1: "set rel1 \<subseteq> set relF" and sub: "set succs \<subseteq> S"
    using vis unfolding visited_def by auto
  have "same_maps res" using v by (simp add: verified_def)
  then have pre: "prefix maps mapsF" using verify_insn_maps(2) [OF _ inv ok] m1 prefix_order.trans by blast
  have pc: "vpc st < length insns" using ok by (auto simp: verify_insn_def split: if_splits)
  have invF: "maps_inv res insns mapsF relF" using v by (simp add: verified_def)
  note vi = ok [unfolded verify_insn_def]
  show ?thesis
  proof (cases "is_ld_imm64 ?i")
    case True
    obtain s' where s': "verify_ld_imm64 (resolver_at res n) ?i (vpc st) maps rel s = Ok (maps1, rel1, s')" "(vpc st + 2, s') \<in> S"
      using vi pc True sub by (auto simp: Let_def outcome_simps)
    note ld = exec_ld_sound [OF v c [unfolded sps] refl pc True inv s'(1) rel1 s'(2)]
    have "insn_class (relocate relF insns ! vpc st) = BPF_LD"
    proof -
      have "distinct (map fst relF)" "\<forall>(q, i)\<in>set relF. q < length insns" using invF by (auto simp: maps_inv_def)
      from relocate_nth [OF this pc] have "code (relocate relF insns ! vpc st) = code ?i"
        by (cases "map_of relF (vpc st)") auto
      then show ?thesis using is_ld_imm64_class [OF True] by (simp add: insn_class_def)
    qed
    then show ?thesis using ld sps by (simp add: exec_insn_def Let_def)
  next
    case nld: False
    have same: "relocate relF insns ! vpc st = ?i" using relocated_insn(1) [OF invF pc] nld by blast
    consider (alu) "insn_class ?i = BPF_ALU" | (alu64) "insn_class ?i = BPF_ALU64" | (ldx) "insn_class ?i = BPF_LDX"
      | (store) "insn_class ?i = BPF_ST \<or> insn_class ?i = BPF_STX" | (jmp) "insn_class ?i \<in> {BPF_JMP, BPF_JMP32}"
      using vi pc nld by (auto simp: Let_def split: if_splits)
    then show ?thesis
    proof cases
      case alu
      then obtain s' where s': "verify_alu cfg maps ?i s = Ok s'" "(vpc st + 1, s') \<in> S"
        using vi pc nld sub by (auto simp: Let_def outcome_simps)
      show ?thesis using continue_sound [OF exec_alu32_sound [OF c s'(1)] s'(2)] alu same
        by (simp add: exec_insn_def Let_def)
    next
      case alu64
      then obtain s' where s': "verify_alu cfg maps ?i s = Ok s'" "(vpc st + 1, s') \<in> S"
        using vi pc nld sub by (auto simp: Let_def outcome_simps)
      show ?thesis using continue_sound [OF exec_alu64_sound [OF c sps pre mc s'(1)] s'(2)] alu64 same
        by (simp add: exec_insn_def Let_def)
    next
      case ldx
      then obtain s' where s': "verify_ldx cfg maps ?i s = Ok s'" "(vpc st + 1, s') \<in> S"
        using vi pc nld sub by (auto simp: Let_def outcome_simps)
      show ?thesis using continue_sound [OF exec_ldx_sound [OF c sps pre mc s'(1)] s'(2)] ldx same
        by (simp add: exec_insn_def Let_def)
    next
      case store
      then obtain s' where s': "verify_store maps ?i s = Ok s'" "(vpc st + 1, s') \<in> S"
        using vi pc nld sub by (auto simp: Let_def outcome_simps)
      have "exec_insn env context (relocate relF insns) st = continue_with (exec_store ?i st)"
        using store same by (auto simp: exec_insn_def Let_def)
      then show ?thesis using continue_sound [OF exec_store_sound [OF c sps pre store s'(1)] s'(2)] by simp
    next
      case jmp
      have "exec_insn env context (relocate relF insns) st = exec_jmp env context ?i st"
        using jmp same by (auto simp: exec_insn_def Let_def)
      then show ?thesis using exec_jmp_sound [OF v x c sps pre jmp ok sub] by simp
    qed
  qed
qed

section \<open>Whole runs\<close>

text \<open>Other processors may change the contents of the maps at any time, but not their shape.\<close>

definition others_ok :: "'s bpf_env \<Rightarrow> bool" where
  "others_ok env \<longleftrightarrow>
     (\<forall>k ms. (\<forall>m\<in>set ms. map_wf m) \<longrightarrow>
        map spec (others env k ms) = map spec ms \<and> (\<forall>m\<in>set (others env k ms). map_wf m))"

lemma tick_conf: "others_ok env \<Longrightarrow> conf sps mc s st \<Longrightarrow> conf sps mc s (tick env st)"
  by (auto simp: others_ok_def conf_def tick_def)

lemma tick_simps [simp]: "vpc (tick env st) = vpc st" "steps (tick env st) = steps st + 1"
  by (simp_all add: tick_def)

definition run_ok :: "map_spec list \<Rightarrow> nat \<Rightarrow> 's vm_state \<times> (vm_error, 64 word) outcome \<Rightarrow> bool" where
  "run_ok sps n = (\<lambda>(st, r).
     yields runtime_error (\<lambda>_. True) r \<and> steps st \<le> n \<and> map spec (vmaps st) = sps \<and> (\<forall>m\<in>set (vmaps st). map_wf m))"

lemma run_ok_stop:
  assumes "conf sps mc s st" and "steps st \<le> n" and "yields runtime_error errs r"
  shows "run_ok sps n (st, r)"
  using assms by (simp add: run_ok_def conf_def)

lemma exec_loop_sound:
  assumes v: "verified cfg insns res r mapsF relF S" and sps: "sps = map spec mapsF"
    and mc: "mc = max_context_size_for_prog_type (prog_type cfg)" and oth: "others_ok env"
    and "(vpc st, s) \<in> S" and "conf sps mc s st" and "steps st \<le> vpc st"
  shows "run_ok sps (length insns) (exec_loop env context (relocate relF insns) st)"
  using assms(4-)
proof (induction env "context" "relocate relF insns" st arbitrary: s rule: exec_loop.induct)
  case (1 env "context" st)
  have pc: "vpc st < length insns"
    using v 1(3) by (auto simp: verified_def visited_def verify_insn_def split: if_splits)
  have n: "length insns \<le> 4096" using v by (simp add: verified_def)
  have c: "conf sps mc s (tick env st)" by (rule tick_conf [OF 1(2,4)])
  have len: "\<not> length (relocate relF insns) \<le> vpc st" using pc by simp
  have lim: "\<not> steps st + 1 > BPF_MAX_STEPS" using 1(5) pc n by simp
  have "(vpc (tick env st), s) \<in> S" using 1(3) by simp
  note step = exec_insn_sound [OF v this c sps mc, of env "context"]
  have stop: "run_ok sps (length insns) (tick env st, q)" if "yields runtime_error errs q" for q
    by (rule run_ok_stop [OF c _ that]) (use 1(5) pc in simp)
  show ?case
  proof (cases "exec_insn env context (relocate relF insns) (tick env st)")
    case (Ok ctl)
    show ?thesis
    proof (cases ctl)
      case (Continue st')
      obtain s' where s': "vpc st < vpc st'" "(vpc st', s') \<in> S" "conf sps mc s' st'"
        using step Ok Continue by (auto simp: step_sound_def)
      have "steps st' = steps st + 1" using exec_insn_steps [OF Ok [unfolded Continue]] by simp
      then have "steps st' \<le> vpc st'" using 1(5) s'(1) by simp
      note ih = 1(1) [OF len lim Ok Continue 1(2) s'(2,3) this]
      show ?thesis using ih Ok Continue len lim by (subst exec_loop.simps) simp
    next
      case (Return w)
      then show ?thesis using stop [of "outcome.Ok w"] Ok len lim by (subst exec_loop.simps) simp
    qed
  next
    case (Err e)
    then show ?thesis using stop [of "outcome.Err e"] step len lim by (subst exec_loop.simps) simp
  next
    case Panic
    then show ?thesis using step by simp
  qed
qed

lemma vm_initial_conf:
  assumes "map spec maps = sps" and "\<forall>m\<in>set maps. map_wf m"
  shows "conf sps mc verifier_initial (vm_initial maps)"
proof -
  have "val_ok sps [] mc (vregs verifier_initial ! r) (regs (vm_initial maps) ! r)" if "r < 11" for r
    using that by (auto simp: verifier_initial_def vm_initial_def nth_list_update)
  then show ?thesis using assms by (simp add: conf_def) (simp add: verifier_initial_def vm_initial_def)
qed

lemma verify_program_verified:
  assumes ok: "verify_program cfg insns res = Ok vp" and sm: "same_maps res" and mx: "max_insns cfg \<le> BPF_MAXINSNS"
  obtains r rel S where "verified cfg insns res r (vp_maps vp) rel S" and "vp_insns vp = relocate rel insns"
    and "prog_type cfg = vp_prog_type vp"
proof -
  obtain r es maps rel ex where ck: "check_insns insns 0 (replicate (length insns) False) = Ok r"
    "build_edges insns r 0 (replicate (length insns) []) = Ok es" and len: "length insns \<le> 4096"
    and lp: "verify_loop cfg insns res [] [] [(0, verifier_initial)] [] 0 = Ok (maps, rel, ex)"
    and vp: "vp = \<lparr>vp_prog_type = prog_type cfg, vp_insns = relocate rel insns, vp_maps = maps\<rparr>"
    using ok mx by (auto simp: verify_program_def outcome_simps split: if_splits)
  have "length insns < 2 ^ 64" by (rule le_less_trans [OF len]) simp
  note p = pass1_intro(1) [OF ck this]
  have "maps_inv res insns maps rel \<and> prefix [] maps \<and> set [] \<subseteq> set rel \<and>
    set [] \<union> set [(0, verifier_initial)] \<subseteq> set ex \<and> (\<forall>x\<in>set ex. visited cfg insns res maps rel (set ex) x)"
    by (rule verify_loop_closed [OF lp sm maps_inv_empty]) simp
  then have v: "verified cfg insns res r maps rel (set ex)" using p len sm by (simp add: verified_def)
  show ?thesis
  proof (rule that)
    show "verified cfg insns res r (vp_maps vp) rel (set ex)" using v unfolding vp by simp
  qed (unfold vp, simp_all)
qed

text \<open>
  \<open>safe_result\<close>: the ways a run of an accepted program can end. The recursion guard may refuse it; a
  division by zero, an unsupported operation, a map access that no longer finds its element or a
  failed helper may stop it.
\<close>

fun safe_result :: "(vm_error, 64 word) outcome \<Rightarrow> bool" where
  "safe_result (Ok v) = True"
| "safe_result (Err e) = (runtime_error e \<or> e = RecursionLimitExceeded)"
| "safe_result Panic = False"

lemma runtime_error_safe: "yields runtime_error errs r \<Longrightarrow> safe_result r"
  by (cases r) auto

lemma verified_run:
  assumes "verify_program (verifier_config_new ty) insns res = Ok vp" and "same_maps res" and "others_ok env"
    and "map spec maps = map spec (vp_maps vp)" and "\<forall>m\<in>set maps. map_wf m"
  shows "run_ok (map spec (vp_maps vp)) (length insns) (exec_loop env context (vp_insns vp) (vm_initial maps))"
proof -
  obtain r rel S where v: "verified (verifier_config_new ty) insns res r (vp_maps vp) rel S"
    and vi: "vp_insns vp = relocate rel insns"
    by (rule verify_program_verified [OF assms(1,2)]) (simp add: verifier_config_new_def)
  have s0: "(vpc (vm_initial maps), verifier_initial) \<in> S" using v by (simp add: verified_def vm_initial_def)
  show ?thesis
    unfolding vi by (rule exec_loop_sound [OF v refl refl assms(3) s0 vm_initial_conf [OF assms(4,5)]])
      (simp add: vm_initial_def)
qed

text \<open>C1: Soundness of the verifier. A program that the verifier accepts, while the descriptors it names
  keep denoting the same maps (their contents may change), run by the interpreter on any
  context and on well-formed maps of the shapes it was verified with, while other processors use the
  maps at will, never panics, never reads an uninitialised register or stack byte, never dereferences
  null, never writes the context, never calls an unknown helper and never exhausts the step limit; the
  maps stay well-formed and keep their shapes.\<close>

theorem verified_program_safe:
  assumes "verify_program (verifier_config_new ty) insns res = Ok vp" and "same_maps res" and "others_ok env"
    and "map spec maps = map spec (vp_maps vp)" and "\<forall>m\<in>set maps. map_wf m"
  shows "case execute env depths (vp_insns vp) maps context of
    (depths', maps', r) \<Rightarrow> safe_result r \<and> map spec maps' = map spec maps \<and> (\<forall>m\<in>set maps'. map_wf m)"
  using verified_run [OF assms, of "context"] assms(4,5) runtime_error_safe
  by (auto simp: execute_def Let_def run_ok_def split: prod.splits)

text \<open>C2: A verified program, verified while its descriptors keep denoting the same maps, halts on its own: a run takes at most as many steps as the program has
  instructions, which is below the interpreter's limit, so the limit is never what stops it.\<close>

theorem verified_program_halts:
  assumes "verify_program (verifier_config_new ty) insns res = Ok vp" and "same_maps res" and "others_ok env"
    and "map spec maps = map spec (vp_maps vp)" and "\<forall>m\<in>set maps. map_wf m"
  shows "steps (fst (exec_loop env context (vp_insns vp) (vm_initial maps))) \<le> length insns \<and>
    length insns < BPF_MAX_STEPS \<and>
    snd (exec_loop env context (vp_insns vp) (vm_initial maps)) \<noteq> Err StepLimitExceeded"
proof -
  have "length insns \<le> 4096"
    using assms(1) by (auto simp: verify_program_def verifier_config_new_def split: if_splits)
  then show ?thesis using verified_run [OF assms, of "context"] by (auto simp: run_ok_def split: prod.splits)
qed

section \<open>An example\<close>

text \<open>
  A program that writes a byte of the stack, loads a reference to an array map and returns the byte.
\<close>

definition example_prog :: "bpf_insn list" where
  "example_prog =
     [insn_new 0x72 10 0 (-1) 7, insn_new 0x18 1 1 0 3, insn_new 0 0 0 0 0, insn_new 0x71 0 10 (-1) 0,
      insn_new 0x95 0 0 0 0]"

definition example_map :: "nat bpf_map" where
  "example_map =
     \<lparr>map_id = 1,
      spec = \<lparr>map_type = Array, key_size = 4, value_size = 8, max_entries = 2, map_flags = 0,
        spec_name = replicate 16 0, storage_bytes = 16\<rparr>,
      storage = SArray (replicate 16 0)\<rparr>"

definition example_resolver :: "nat live_resolver" where
  "example_resolver = Some (\<lambda>_ fd. if fd = 3 then Inr example_map else Inl EBADF)"

definition example_env :: "nat bpf_env" where
  "example_env =
     \<lparr>ktime_get_ns = (\<lambda>_. 0), get_smp_processor_id = (\<lambda>_. 0), errno_code = (\<lambda>_. 1),
      output_sample = (\<lambda>_ _. Inr ()), others = (\<lambda>_ ms. ms)\<rparr>"

lemmas insn_eval = insn_new_def is_ld_imm64_def is_exit_def is_ja_def is_call_def is_jmp_def is_jmp32_def insn_class_def insn_mode_def insn_op_def
  dst_reg_def src_reg_def is_src_imm_def is_src_reg_def mem_size_bytes_def insn_size_def

lemma example_pass1:
  "check_insns example_prog 0 [False, False, False, False, False] = Ok [False, False, True, False, False]"
  "build_edges example_prog [False, False, True, False, False] 0 [[], [], [], [], []] = Ok [[1], [3], [], [4], []]"
  "check_reachable example_prog [[1], [3], [], [4], []] [False, False, True, False, False] = Ok ()"
  by (simp_all add: check_insns.simps build_edges.simps check_reachable_def reach_loop.simps reach_push_def
      example_prog_def check_insn_def insn_edges_def insn_eval)

abbreviation (input) example_regs :: "reg_type \<Rightarrow> reg_type \<Rightarrow> reg_type list" where
  "example_regs r0 r1 \<equiv> [r0, r1, NotInit, NotInit, NotInit, NotInit, NotInit, NotInit, NotInit, NotInit, PtrStack 0]"

definition example_blank :: "bool list" where "example_blank = replicate 512 False"

lemma example_initial: "verifier_initial = \<lparr>vregs = example_regs NotInit (PtrContext 0), vstack_init = example_blank\<rparr>"
proof -
  have "replicate 11 NotInit = [NotInit, NotInit, NotInit, NotInit, NotInit, NotInit, NotInit, NotInit, NotInit, NotInit, NotInit]"
    by (simp add: numeral_eq_Suc)
  then show ?thesis by (simp add: verifier_initial_def example_blank_def)
qed

lemma wrap_example: "wrap_i32 (- 1) = - 1" "wrap_i32 0 = 0"
  by (simp_all add: wrap_i32_id)

lemma example_stack: "stack_mark example_blank 511 1 = Ok (example_blank[511 := True])"
  "stack_check (example_blank[511 := True]) 511 1 = Ok ()"
  by (simp_all add: example_blank_def One_nat_def del: replicate.simps)

lemmas example_step = verify_insn_def example_prog_def insn_eval reg_read_def reg_write_def wrap_example

lemma example_steps:
  "verify_insn cfg example_prog (resolver_at example_resolver n) [] [] 0 \<lparr>vregs = example_regs NotInit (PtrContext 0), vstack_init = example_blank\<rparr>
   = Ok ([], [], [(1, \<lparr>vregs = example_regs NotInit (PtrContext 0), vstack_init = example_blank[511 := True]\<rparr>)])"
  "verify_insn cfg example_prog (resolver_at example_resolver n) [] [] 1 \<lparr>vregs = example_regs NotInit (PtrContext 0), vstack_init = i\<rparr>
   = Ok ([example_map], [(1, 0)], [(3, \<lparr>vregs = example_regs NotInit (PtrMap 0), vstack_init = i\<rparr>)])"
  "verify_insn cfg example_prog (resolver_at example_resolver n) ms rl 3 \<lparr>vregs = example_regs NotInit (PtrMap 0), vstack_init = example_blank[511 := True]\<rparr>
   = Ok (ms, rl, [(4, \<lparr>vregs = example_regs Scalar (PtrMap 0), vstack_init = example_blank[511 := True]\<rparr>)])"
  "verify_insn cfg example_prog (resolver_at example_resolver n) ms rl 4 \<lparr>vregs = example_regs Scalar (PtrMap 0), vstack_init = i\<rparr> = Ok (ms, rl, [])"
  using example_stack
  by (simp_all add: example_step verify_store_def verify_ldx_def verify_ld_imm64_def verify_exit_def
      example_resolver_def resolver_at_def find_map_def)

lemma example_verified:
  "verify_program (verifier_config_new Tracepoint) example_prog example_resolver =
   Ok \<lparr>vp_prog_type = Tracepoint, vp_insns = relocate [(1, 0)] example_prog, vp_maps = [example_map]\<rparr>"
proof -
  have "length example_prog = 5" "example_prog \<noteq> []" by (simp_all add: example_prog_def)
  moreover have "replicate 5 False = [False, False, False, False, False]" "replicate 5 ([] :: nat list) = [[], [], [], [], []]"
    by (simp_all add: numeral_eq_Suc)
  moreover have "verify_loop (verifier_config_new Tracepoint) example_prog example_resolver [] [] [(0, verifier_initial)] [] 0 =
     Ok ([example_map], [(1, 0)],
       [(0, verifier_initial), (1, \<lparr>vregs = example_regs NotInit (PtrContext 0), vstack_init = example_blank[511 := True]\<rparr>),
        (3, \<lparr>vregs = example_regs NotInit (PtrMap 0), vstack_init = example_blank[511 := True]\<rparr>),
        (4, \<lparr>vregs = example_regs Scalar (PtrMap 0), vstack_init = example_blank[511 := True]\<rparr>)])"
    by (simp add: verify_loop.simps example_steps [unfolded One_nat_def] example_initial verifier_config_new_def)
  ultimately show ?thesis
    by (simp add: verify_program_def example_pass1 [unfolded One_nat_def] verifier_config_new_def)
qed


lemma example_map_wf: "map_wf example_map"
  by (simp add: map_wf_def example_map_def spec_ok_def storage_ok_def map_key_ok_def map_val_ok_def)

lemma example_same: "same_maps example_resolver"
  by (auto simp: same_maps_def example_resolver_def split: if_splits)

lemma example_others: "others_ok example_env"
  by (simp add: others_ok_def example_env_def)

theorem verified_program_safe_witness:
  "case execute example_env (replicate 16 0) (relocate [(1, 0)] example_prog) [example_map] [1, 2, 3] of
     (depths', maps', r) \<Rightarrow> safe_result r \<and> map spec maps' = map spec [example_map] \<and> (\<forall>m\<in>set maps'. map_wf m)"
  using verified_program_safe [OF example_verified example_same example_others, of "[example_map]" "replicate 16 0" "[1, 2, 3]"]
    example_map_wf by simp

theorem verified_program_halts_witness:
  "steps (fst (exec_loop example_env [] (relocate [(1, 0)] example_prog) (vm_initial [example_map]))) \<le> 5"
  using verified_program_halts [OF example_verified example_same example_others, of "[example_map]" "[]"] example_map_wf
  by (simp add: example_prog_def)

end
