(* ===== verification/Lock_Target.thy ===== *)
theory Lock_Target
  imports Prelude "HOL-Library.RBT"
begin

text \<open>
  The key of the file-lock tables (\<^verbatim>\<open>LockTarget\<close> of \<^verbatim>\<open>pulse_core/src/flock.rs\<close>) and the table both
  lock components keep: an array of 32 ordered maps, of which a target selects one by a hash. The
  array behaves as one map from targets to states, which is what the two clients rely on.
\<close>

datatype lock_target = Location "64 word" "64 word" | FdObject "64 word"

text \<open>The derived \<^verbatim>\<open>Ord\<close>: variants in their order, then the fields lexicographically.\<close>

instantiation lock_target :: linorder
begin

fun less_eq_lock_target :: "lock_target \<Rightarrow> lock_target \<Rightarrow> bool" where
  "less_eq_lock_target (Location f i) (Location g j) = (f < g \<or> f = g \<and> i \<le> j)"
| "less_eq_lock_target (Location f i) (FdObject b) = True"
| "less_eq_lock_target (FdObject a) (Location g j) = False"
| "less_eq_lock_target (FdObject a) (FdObject b) = (a \<le> b)"

definition less_lock_target :: "lock_target \<Rightarrow> lock_target \<Rightarrow> bool" where
  "less_lock_target a b = (a \<le> b \<and> \<not> b \<le> a)"

instance
proof
  fix a b c :: lock_target
  show "(a < b) = (a \<le> b \<and> \<not> b \<le> a)" by (simp add: less_lock_target_def)
  show "a \<le> a" by (cases a) auto
  show "a \<le> b \<Longrightarrow> b \<le> c \<Longrightarrow> a \<le> c" by (cases a; cases b; cases c) auto
  show "a \<le> b \<Longrightarrow> b \<le> a \<Longrightarrow> a = b" by (cases a; cases b) auto
  show "a \<le> b \<or> b \<le> a" by (cases a; cases b) auto
qed

end

text \<open>
  \<open>get_lock_target\<close>: the file system and inode of an object that has a location, otherwise the
  address of the object.
\<close>

definition get_lock_target :: "(64 word \<times> 64 word) option \<Rightarrow> 64 word \<Rightarrow> lock_target" where
  "get_lock_target loc addr =
     (case loc of Some (fs_id, inode) \<Rightarrow> Location fs_id inode | None \<Rightarrow> FdObject addr)"

abbreviation (input) LOCK_TABLE_SHARDS :: nat where "LOCK_TABLE_SHARDS \<equiv> 32"

fun lock_target_hash :: "lock_target \<Rightarrow> 64 word" where
  "lock_target_hash (Location fs_id inode) = word_rotl 13 fs_id XOR word_rotr 7 inode"
| "lock_target_hash (FdObject address) = word_rotr 4 address"

definition lock_target_shard :: "lock_target \<Rightarrow> nat" where
  "lock_target_shard target = unat (lock_target_hash target) mod LOCK_TABLE_SHARDS"

section \<open>The sharded table\<close>

type_synonym 'v shards = "(lock_target, 'v) rbt list"

definition shards_new :: "'v shards" where
  "shards_new = replicate LOCK_TABLE_SHARDS RBT.empty"

text \<open>\<open>TABLE[lock_target_shard(target)].lock()\<close> followed by a map operation on \<open>target\<close>.\<close>

definition shard_get :: "'v shards \<Rightarrow> lock_target \<Rightarrow> 'v option" where
  "shard_get ls t = RBT.lookup (ls ! lock_target_shard t) t"

definition shard_put :: "'v shards \<Rightarrow> lock_target \<Rightarrow> 'v \<Rightarrow> 'v shards" where
  "shard_put ls t v = ls[lock_target_shard t := RBT.insert t v (ls ! lock_target_shard t)]"

definition shard_remove :: "'v shards \<Rightarrow> lock_target \<Rightarrow> 'v shards" where
  "shard_remove ls t = ls[lock_target_shard t := RBT.delete t (ls ! lock_target_shard t)]"

definition shards_wf :: "'v shards \<Rightarrow> bool" where
  "shards_wf ls \<longleftrightarrow> length ls = LOCK_TABLE_SHARDS \<and>
     (\<forall>i<length ls. \<forall>t\<in>set (RBT.keys (ls ! i)). lock_target_shard t = i)"

lemma lock_target_shard_less [simp]: "lock_target_shard t < 32"
  by (simp add: lock_target_shard_def)

lemma shards_wf_length [simp]: "shards_wf ls \<Longrightarrow> length ls = 32"
  by (simp add: shards_wf_def)

lemma rbt_keys_dom: "set (RBT.keys m) = dom (RBT.lookup m)"
  by (simp add: RBT.lookup_keys)

lemma shards_wf_alt:
  "shards_wf ls \<longleftrightarrow> length ls = 32 \<and>
     (\<forall>i<length ls. \<forall>t. RBT.lookup (ls ! i) t \<noteq> None \<longrightarrow> lock_target_shard t = i)"
  unfolding shards_wf_def rbt_keys_dom dom_def Ball_def mem_Collect_eq by blast

lemma shards_wfI:
  assumes "length ls = 32" and "\<And>i t. i < 32 \<Longrightarrow> RBT.lookup (ls ! i) t \<noteq> None \<Longrightarrow> lock_target_shard t = i"
  shows "shards_wf ls"
  unfolding shards_wf_alt using assms by metis

lemma shards_wfD:
  assumes "shards_wf ls" and "i < 32" and "RBT.lookup (ls ! i) t \<noteq> None"
  shows "lock_target_shard t = i"
  using assms unfolding shards_wf_alt by metis

lemma shards_wf_new [simp]: "shards_wf shards_new"
  by (rule shards_wfI) (simp_all add: shards_new_def)

lemma shard_get_new [simp]: "shard_get shards_new t = None"
  by (simp add: shard_get_def shards_new_def)

lemma shard_update_wf:
  assumes "shards_wf ls" and "\<And>u. u \<noteq> t \<Longrightarrow> RBT.lookup m u = RBT.lookup (ls ! lock_target_shard t) u"
  shows "shards_wf (ls[lock_target_shard t := m])"
proof (rule shards_wfI)
  fix i u
  assume "i < 32" and "RBT.lookup (ls[lock_target_shard t := m] ! i) u \<noteq> None"
  then show "lock_target_shard u = i"
    using assms shards_wfD [OF assms(1), of i u] by (cases "i = lock_target_shard t"; cases "u = t") simp_all
qed (use assms in simp)

lemma shard_put_wf [simp]: "shards_wf ls \<Longrightarrow> shards_wf (shard_put ls t v)"
  unfolding shard_put_def by (rule shard_update_wf) simp_all

lemma shard_remove_wf [simp]: "shards_wf ls \<Longrightarrow> shards_wf (shard_remove ls t)"
  unfolding shard_remove_def by (rule shard_update_wf) simp_all

lemma shard_get_put [simp]:
  "shards_wf ls \<Longrightarrow> shard_get (shard_put ls t v) u = (if u = t then Some v else shard_get ls u)"
  by (cases "lock_target_shard u = lock_target_shard t") (auto simp add: shard_get_def shard_put_def)

lemma shard_get_remove [simp]:
  "shards_wf ls \<Longrightarrow> shard_get (shard_remove ls t) u = (if u = t then None else shard_get ls u)"
  by (cases "lock_target_shard u = lock_target_shard t") (auto simp add: shard_get_def shard_remove_def)

end
