(* ===== verification/Record_Lock.thy ===== *)
theory Record_Lock
  imports Lock_Target "HOL-Library.Multiset" "HOL-Library.Product_Lexorder"
begin

text \<open>
  POSIX and open-file-description record locks (\<^verbatim>\<open>pulse_core/src/record_lock.rs\<close>): the entries of one
  file with their conflict query, insertion, clearing and coalescing, and the sharded table of all
  files with the critical sections of the operations on it. The entries are a representation of a
  function from owners and bytes to lock types; every operation is proved against that function.
\<close>

section \<open>Entries of one file\<close>

datatype record_lock_type = Read | Write

datatype record_lock_owner = Posix "64 word" | Ofd "64 word"

instantiation record_lock_type :: linorder
begin

fun less_eq_record_lock_type :: "record_lock_type \<Rightarrow> record_lock_type \<Rightarrow> bool" where
  "less_eq_record_lock_type Read _ = True"
| "less_eq_record_lock_type Write Write = True"
| "less_eq_record_lock_type Write Read = False"

definition less_record_lock_type :: "record_lock_type \<Rightarrow> record_lock_type \<Rightarrow> bool" where
  "less_record_lock_type a b = (a \<le> b \<and> \<not> b \<le> a)"

instance
proof
  fix a b c :: record_lock_type
  show "(a < b) = (a \<le> b \<and> \<not> b \<le> a)" by (simp add: less_record_lock_type_def)
  show "a \<le> a" by (cases a) auto
  show "a \<le> b \<Longrightarrow> b \<le> c \<Longrightarrow> a \<le> c" by (cases a; cases b; cases c) auto
  show "a \<le> b \<Longrightarrow> b \<le> a \<Longrightarrow> a = b" by (cases a; cases b) auto
  show "a \<le> b \<or> b \<le> a" by (cases a; cases b) auto
qed

end

instantiation record_lock_owner :: linorder
begin

fun less_eq_record_lock_owner :: "record_lock_owner \<Rightarrow> record_lock_owner \<Rightarrow> bool" where
  "less_eq_record_lock_owner (Posix a) (Posix b) = (a \<le> b)"
| "less_eq_record_lock_owner (Posix a) (Ofd b) = True"
| "less_eq_record_lock_owner (Ofd a) (Posix b) = False"
| "less_eq_record_lock_owner (Ofd a) (Ofd b) = (a \<le> b)"

definition less_record_lock_owner :: "record_lock_owner \<Rightarrow> record_lock_owner \<Rightarrow> bool" where
  "less_record_lock_owner a b = (a \<le> b \<and> \<not> b \<le> a)"

instance
proof
  fix a b c :: record_lock_owner
  show "(a < b) = (a \<le> b \<and> \<not> b \<le> a)" by (simp add: less_record_lock_owner_def)
  show "a \<le> a" by (cases a) auto
  show "a \<le> b \<Longrightarrow> b \<le> c \<Longrightarrow> a \<le> c" by (cases a; cases b; cases c) auto
  show "a \<le> b \<Longrightarrow> b \<le> a \<Longrightarrow> a = b" by (cases a; cases b) auto
  show "a \<le> b \<or> b \<le> a" by (cases a; cases b) auto
qed

end

record record_lock =
  rl_owner :: record_lock_owner
  rl_start :: int
  rl_end :: int
  rl_type :: record_lock_type

text \<open>\<open>RecordLockState\<close>; a wait queue is known by its number.\<close>

record record_lock_state =
  entries :: "record_lock list"
  rl_wait_queue :: nat
  waiters :: nat

definition ranges_overlap :: "int \<Rightarrow> int \<Rightarrow> int \<Rightarrow> int \<Rightarrow> bool" where
  "ranges_overlap a_start a_end b_start b_end = (a_start < b_end \<and> b_start < a_end)"

definition lock_types_conflict :: "record_lock_type \<Rightarrow> record_lock_type \<Rightarrow> bool" where
  "lock_types_conflict a b = (\<not> (a = Read \<and> b = Read))"

definition validate_range :: "int \<Rightarrow> int \<Rightarrow> unit res" where
  "validate_range s e = (if s < 0 \<or> s \<ge> e then Inl EINVAL else Inr ())"

text \<open>\<^verbatim>\<open>Iterator::min_by_key\<close>: the first of the elements with the least key.\<close>

fun min_by_key :: "('a \<Rightarrow> 'k::linorder) \<Rightarrow> 'a list \<Rightarrow> 'a option" where
  "min_by_key k [] = None"
| "min_by_key k (x # xs) =
     (case min_by_key k xs of None \<Rightarrow> Some x | Some y \<Rightarrow> if k y < k x then Some y else Some x)"

definition entry_key :: "record_lock \<Rightarrow> int \<times> int \<times> record_lock_owner" where
  "entry_key e = (rl_start e, rl_end e, rl_owner e)"

definition conflict ::
  "record_lock list \<Rightarrow> record_lock_owner \<Rightarrow> int \<Rightarrow> int \<Rightarrow> record_lock_type \<Rightarrow> record_lock option" where
  "conflict es own s e ty =
     min_by_key entry_key
       (filter (\<lambda>x. rl_owner x \<noteq> own \<and> ranges_overlap (rl_start x) (rl_end x) s e \<and>
          lock_types_conflict (rl_type x) ty) es)"

text \<open>\<^verbatim>\<open>Vec::swap_remove\<close>: the last element takes the place of the removed one.\<close>

definition swap_remove :: "'a list \<Rightarrow> nat \<Rightarrow> 'a list" where
  "swap_remove xs i = (butlast xs)[i := last xs]"

lemma mset_swap_remove:
  assumes "i < length xs"
  shows "mset (swap_remove xs i) + {#xs ! i#} = mset xs"
proof (cases "i = length xs - 1")
  case True
  then have "swap_remove xs i = butlast xs" and "xs ! i = last xs"
    using assms last_conv_nth [of xs] by (cases "xs = []"; simp add: swap_remove_def list_update_beyond)+
  moreover have "xs = butlast xs @ [last xs]" using assms by (metis append_butlast_last_id length_0_conv not_less_zero)
  ultimately show ?thesis by (metis mset.simps mset_append)
next
  case False
  then have i: "i < length (butlast xs)" and n: "butlast xs ! i = xs ! i"
    using assms by (auto simp: nth_butlast)
  have "mset xs = add_mset (last xs) (mset (butlast xs))"
    using assms by (metis append_butlast_last_id length_0_conv mset.simps mset_append not_less_zero union_mset_add_mset_right add.right_neutral)
  also have "mset (butlast xs) = add_mset (xs ! i) (mset (butlast xs) - {#xs ! i#})"
    using i n by (metis insert_DiffM nth_mem_mset)
  finally show ?thesis using i n by (simp add: swap_remove_def mset_update)
qed

text \<open>The body of the loop of \<open>clear_owner_range\<close> on an entry that overlaps: its remnants.\<close>

definition in_clear :: "record_lock_owner \<Rightarrow> int \<Rightarrow> int \<Rightarrow> record_lock \<Rightarrow> bool" where
  "in_clear own s e x \<longleftrightarrow> rl_owner x = own \<and> ranges_overlap (rl_start x) (rl_end x) s e"

definition remnants :: "int \<Rightarrow> int \<Rightarrow> record_lock \<Rightarrow> record_lock list" where
  "remnants s e x =
     (if rl_start x < s then [x\<lparr>rl_end := s\<rparr>] else []) @ (if rl_end x > e then [x\<lparr>rl_start := e\<rparr>] else [])"

lemma remnants_clear: "x' \<in> set (remnants s e x) \<Longrightarrow> \<not> in_clear own s e x'"
  by (cases "rl_start x < s"; cases "rl_end x > e")
    (auto simp: remnants_def in_clear_def ranges_overlap_def)

lemma swap_remove_remnants_size:
  assumes "i < length es" and "in_clear own s e (es ! i)"
  shows "size (filter_mset (in_clear own s e) (mset (swap_remove es i @ remnants s e (es ! i)))) <
    size (filter_mset (in_clear own s e) (mset es))"
proof -
  have "filter_mset (in_clear own s e) (mset (remnants s e (es ! i))) = {#}"
    using remnants_clear by (metis filter_False mset.simps(1) mset_filter)
  then show ?thesis using assms(2) by (simp flip: mset_swap_remove [OF assms(1)])
qed

function clear_loop ::
  "record_lock_owner \<Rightarrow> int \<Rightarrow> int \<Rightarrow> record_lock list \<Rightarrow> nat \<Rightarrow> bool \<Rightarrow> record_lock list \<times> bool" where
  "clear_loop own s e es i changed =
     (if i < length es
      then let x = es ! i
           in if \<not> in_clear own s e x then clear_loop own s e es (i + 1) changed
              else clear_loop own s e (swap_remove es i @ remnants s e x) i True
      else (es, changed))"
  by pat_completeness auto
termination
  by (relation "measures [\<lambda>(own, s, e, es, i, c). size (filter_mset (in_clear own s e) (mset es)),
      \<lambda>(own, s, e, es, i, c). length es - i]") (simp_all add: swap_remove_remnants_size del: mset_append)

declare clear_loop.simps [simp del]

definition clear_owner_range ::
  "record_lock_owner \<Rightarrow> int \<Rightarrow> int \<Rightarrow> record_lock list \<Rightarrow> record_lock list \<times> bool" where
  "clear_owner_range own s e es = clear_loop own s e es 0 False"

text \<open>\<open>release_owner\<close> of one state.\<close>

definition state_release_owner ::
  "record_lock_owner \<Rightarrow> record_lock list \<Rightarrow> record_lock list \<times> bool" where
  "state_release_owner own es =
     (let es' = filter (\<lambda>x. rl_owner x \<noteq> own) es in (es', length es' \<noteq> length es))"

text \<open>
  \<open>coalesce\<close>: the entries are sorted by all their fields, so the unstable sort has one result, and
  then compacted in place: \<open>output\<close> is the number of entries already written to the front.
\<close>

definition coalesce_key :: "record_lock \<Rightarrow> record_lock_owner \<times> record_lock_type \<times> int \<times> int" where
  "coalesce_key e = (rl_owner e, rl_type e, rl_start e, rl_end e)"

definition mergeable :: "record_lock \<Rightarrow> record_lock \<Rightarrow> bool" where
  "mergeable previous x \<longleftrightarrow>
     rl_owner previous = rl_owner x \<and> rl_type previous = rl_type x \<and> rl_start x \<le> rl_end previous"

definition coalesce_step :: "record_lock list \<times> nat \<Rightarrow> nat \<Rightarrow> record_lock list \<times> nat" where
  "coalesce_step st index =
     (case st of (es, output) \<Rightarrow>
        let x = es ! index; previous = es ! (output - 1)
        in if output > 0 \<and> mergeable previous x
           then (es[output - 1 := previous\<lparr>rl_end := max (rl_end previous) (rl_end x)\<rparr>], output)
           else (es[output := x], output + 1))"

definition coalesce :: "record_lock list \<Rightarrow> record_lock list" where
  "coalesce es =
     (case foldl coalesce_step (sort_key coalesce_key es, 0) [0..<length es] of
        (es', output) \<Rightarrow> take output es')"

definition set_entry ::
  "record_lock list \<Rightarrow> record_lock_owner \<Rightarrow> int \<Rightarrow> int \<Rightarrow> record_lock_type \<Rightarrow> record_lock list res" where
  "set_entry es own s e ty =
     (case validate_range s e of
        Inl err \<Rightarrow> Inl err
      | Inr _ \<Rightarrow>
          if conflict es own s e ty \<noteq> None then Inl EAGAIN
          else Inr (coalesce (fst (clear_owner_range own s e es) @
            [\<lparr>rl_owner = own, rl_start = s, rl_end = e, rl_type = ty\<rparr>])))"

section \<open>Byte ranges\<close>

abbreviation (input) i64_max :: int where "i64_max \<equiv> 9223372036854775807"
abbreviation (input) i64_min :: int where "i64_min \<equiv> -9223372036854775808"

definition checked_add_i64 :: "int \<Rightarrow> int \<Rightarrow> int option" where
  "checked_add_i64 a b = (if i64_min \<le> a + b \<and> a + b \<le> i64_max then Some (a + b) else None)"

definition resolve_range :: "int \<Rightarrow> int \<Rightarrow> int \<Rightarrow> (int \<times> int) res" where
  "resolve_range base relative_start len =
     (case checked_add_i64 base relative_start of
        None \<Rightarrow> Inl EINVAL
      | Some resolved_start \<Rightarrow>
          if len = 0
          then (case validate_range resolved_start i64_max of
                  Inl err \<Rightarrow> Inl err | Inr _ \<Rightarrow> Inr (resolved_start, i64_max))
          else
            (case checked_add_i64 resolved_start len of
               None \<Rightarrow> Inl EINVAL
             | Some other \<Rightarrow>
                 (let (s, e) = (if len > 0 then (resolved_start, other) else (other, resolved_start))
                  in case validate_range s e of Inl err \<Rightarrow> Inl err | Inr _ \<Rightarrow> Inr (s, e))))"

section \<open>The table of all files\<close>

text \<open>\<open>RECORD_LOCKS\<close> and the next number for a wait queue that \<open>or_default\<close> creates.\<close>

record record_locks =
  rl_table :: "record_lock_state shards"
  next_queue :: nat

definition record_locks_new :: record_locks where
  "record_locks_new = \<lparr>rl_table = shards_new, next_queue = 0\<rparr>"

definition rl_get :: "record_locks \<Rightarrow> lock_target \<Rightarrow> record_lock_state option" where
  "rl_get rls t = shard_get (rl_table rls) t"

definition rl_put :: "record_locks \<Rightarrow> lock_target \<Rightarrow> record_lock_state \<Rightarrow> record_locks" where
  "rl_put rls t st = rls\<lparr>rl_table := shard_put (rl_table rls) t st\<rparr>"

text \<open>\<open>locks.entry(target).or_default()\<close>\<close>

definition entry_or_default :: "record_locks \<Rightarrow> lock_target \<Rightarrow> record_locks \<times> record_lock_state" where
  "entry_or_default rls t =
     (case rl_get rls t of
        Some st \<Rightarrow> (rls, st)
      | None \<Rightarrow>
          (let st = \<lparr>entries = [], rl_wait_queue = next_queue rls, waiters = 0\<rparr>
           in (rl_put (rls\<lparr>next_queue := next_queue rls + 1\<rparr>) t st, st)))"

definition get_lock ::
  "record_locks \<Rightarrow> record_lock_owner \<Rightarrow> lock_target \<Rightarrow> int \<Rightarrow> int \<Rightarrow> record_lock_type \<Rightarrow> record_lock option res" where
  "get_lock rls own t s e ty =
     (case validate_range s e of
        Inl err \<Rightarrow> Inl err
      | Inr _ \<Rightarrow>
          Inr (case rl_get rls t of None \<Rightarrow> None | Some st \<Rightarrow> conflict (entries st) own s e ty))"

text \<open>
  The critical section of \<open>set_lock\<close>: the lock is acquired (the wait queue is then notified), the call
  fails, or the caller is counted as a waiter and goes on to wait on the queue.
\<close>

datatype set_attempt = Acquired nat | Failed errno | MustWait nat

definition set_lock_attempt ::
  "record_locks \<Rightarrow> record_lock_owner \<Rightarrow> lock_target \<Rightarrow> int \<Rightarrow> int \<Rightarrow> record_lock_type \<Rightarrow> bool \<Rightarrow>
   record_locks \<times> set_attempt" where
  "set_lock_attempt rls own t s e ty blocking =
     (case entry_or_default rls t of (rls', st) \<Rightarrow>
        if conflict (entries st) own s e ty = None
        then (case set_entry (entries st) own s e ty of
                Inl err \<Rightarrow> (rls', Failed err)
              | Inr es \<Rightarrow> (rl_put rls' t (st\<lparr>entries := es\<rparr>), Acquired (rl_wait_queue st)))
        else if \<not> blocking then (rls', Failed EAGAIN)
        else (rl_put rls' t (st\<lparr>waiters := waiters st + 1\<rparr>), MustWait (rl_wait_queue st)))"

text \<open>The condition \<open>set_lock\<close> waits for.\<close>

definition lock_free ::
  "record_locks \<Rightarrow> record_lock_owner \<Rightarrow> lock_target \<Rightarrow> int \<Rightarrow> int \<Rightarrow> record_lock_type \<Rightarrow> bool" where
  "lock_free rls own t s e ty =
     (case rl_get rls t of None \<Rightarrow> True | Some st \<Rightarrow> conflict (entries st) own s e ty = None)"

text \<open>An updated state is removed when it has neither entries nor waiters.\<close>

definition rl_unused :: "record_lock_state \<Rightarrow> bool" where
  "rl_unused st \<longleftrightarrow> entries st = [] \<and> waiters st = 0"

definition put_or_remove :: "record_locks \<Rightarrow> lock_target \<Rightarrow> record_lock_state \<Rightarrow> record_locks" where
  "put_or_remove rls t st =
     (if rl_unused st then rls\<lparr>rl_table := shard_remove (rl_table rls) t\<rparr> else rl_put rls t st)"

definition finish_wait :: "record_locks \<Rightarrow> lock_target \<Rightarrow> record_locks" where
  "finish_wait rls t =
     (case rl_get rls t of
        None \<Rightarrow> rls
      | Some st \<Rightarrow> put_or_remove rls t (st\<lparr>waiters := waiters st - 1\<rparr>))"

text \<open>
  \<open>unlock_lock\<close> and \<open>release_owner_target\<close> up to the notification: the new table and the wait queue to
  notify, when entries changed.
\<close>

definition update_target ::
  "record_locks \<Rightarrow> lock_target \<Rightarrow> (record_lock list \<Rightarrow> record_lock list \<times> bool) \<Rightarrow> record_locks \<times> nat list" where
  "update_target rls t f =
     (case rl_get rls t of
        None \<Rightarrow> (rls, [])
      | Some st \<Rightarrow>
          (case f (entries st) of (es, changed) \<Rightarrow>
             (put_or_remove rls t (st\<lparr>entries := es\<rparr>), if changed then [rl_wait_queue st] else [])))"

definition unlock_lock ::
  "record_locks \<Rightarrow> record_lock_owner \<Rightarrow> lock_target \<Rightarrow> int \<Rightarrow> int \<Rightarrow> (record_locks \<times> nat list) res" where
  "unlock_lock rls own t s e =
     (case validate_range s e of
        Inl err \<Rightarrow> Inl err
      | Inr _ \<Rightarrow> Inr (update_target rls t (clear_owner_range own s e)))"

definition release_owner_target :: "record_locks \<Rightarrow> record_lock_owner \<Rightarrow> lock_target \<Rightarrow> record_locks \<times> nat list" where
  "release_owner_target rls own t = update_target rls t (state_release_owner own)"

text \<open>
  The critical section of \<open>release_owner\<close> on one shard: the owner is taken out of every state, the states that are no longer
  used are dropped, and the queues of the changed states are kept for later.
\<close>

definition release_owner_section :: "record_locks \<Rightarrow> record_lock_owner \<Rightarrow> nat \<Rightarrow> record_locks \<times> nat list" where
  "release_owner_section rls own k =
     (let shard = rl_table rls ! k
      in (rls\<lparr>rl_table := (rl_table rls)[k :=
             RBT.filter (\<lambda>_ st. \<not> rl_unused st)
               (RBT.map (\<lambda>_ st. st\<lparr>entries := fst (state_release_owner own (entries st))\<rparr>) shard)]\<rparr>,
          map rl_wait_queue (filter (\<lambda>st. snd (state_release_owner own (entries st))) (map snd (RBT.entries shard)))))"

text \<open>\<open>release_owner\<close> takes the shards one by one; the queues are notified afterwards.\<close>

definition release_owner :: "record_locks \<Rightarrow> record_lock_owner \<Rightarrow> record_locks \<times> nat list" where
  "release_owner rls own =
     foldl (\<lambda>(rls, wait_queues) k. case release_owner_section rls own k of (rls', qs) \<Rightarrow> (rls', wait_queues @ qs))
       (rls, []) [0..<LOCK_TABLE_SHARDS]"

definition release_posix_owner_target :: "record_locks \<Rightarrow> 64 word \<Rightarrow> lock_target \<Rightarrow> record_locks \<times> nat list" where
  "release_posix_owner_target rls own t = release_owner_target rls (Posix own) t"

definition release_posix_owner :: "record_locks \<Rightarrow> 64 word \<Rightarrow> record_locks \<times> nat list" where
  "release_posix_owner rls own = release_owner rls (Posix own)"

definition release_ofd_owner :: "record_locks \<Rightarrow> 64 word \<Rightarrow> record_locks \<times> nat list" where
  "release_ofd_owner rls own = release_owner rls (Ofd own)"

section \<open>The entries as a function of owner and byte\<close>

definition covers :: "record_lock_owner \<Rightarrow> int \<Rightarrow> record_lock \<Rightarrow> bool" where
  "covers own b x \<longleftrightarrow> rl_owner x = own \<and> rl_start x \<le> b \<and> b < rl_end x"

definition rl_view :: "record_lock list \<Rightarrow> record_lock_owner \<Rightarrow> int \<Rightarrow> record_lock_type option" where
  "rl_view es own b = (case filter (covers own b) es of [] \<Rightarrow> None | x # _ \<Rightarrow> Some (rl_type x))"

definition entry_ok :: "record_lock \<Rightarrow> bool" where
  "entry_ok x \<longleftrightarrow> 0 \<le> rl_start x \<and> rl_start x < rl_end x \<and> rl_end x \<le> i64_max"

text \<open>Ranges are not empty and no byte is covered twice for the same owner.\<close>

definition entries_wf :: "record_lock list \<Rightarrow> bool" where
  "entries_wf es \<longleftrightarrow> (\<forall>x\<in>set es. entry_ok x) \<and> (\<forall>own b. length (filter (covers own b) es) \<le> 1)"

text \<open>Where two owners hold a lock on the same byte, both are read locks.\<close>

definition exclusive :: "record_lock list \<Rightarrow> bool" where
  "exclusive es \<longleftrightarrow>
     (\<forall>own own' b ty ty'. own \<noteq> own' \<longrightarrow> rl_view es own b = Some ty \<longrightarrow> rl_view es own' b = Some ty' \<longrightarrow>
        ty = Read \<and> ty' = Read)"

text \<open>The lock types that cover a byte, as a multiset: insensitive to the order of the entries.\<close>

definition types_at :: "record_lock_owner \<Rightarrow> int \<Rightarrow> record_lock multiset \<Rightarrow> record_lock_type multiset" where
  "types_at own b M = image_mset rl_type (filter_mset (covers own b) M)"

lemma types_at_simps [simp]:
  "types_at own b {#} = {#}"
  "types_at own b (M + N) = types_at own b M + types_at own b N"
  "types_at own b (add_mset x M) =
     (if covers own b x then add_mset (rl_type x) (types_at own b M) else types_at own b M)"
  by (simp_all add: types_at_def)

lemma length_covering: "length (filter (covers own b) es) = size (types_at own b (mset es))"
  by (simp add: types_at_def flip: mset_filter)

lemma rl_view_types:
  assumes "length (filter (covers own b) es) \<le> 1"
  shows "types_at own b (mset es) = (case rl_view es own b of None \<Rightarrow> {#} | Some ty \<Rightarrow> {#ty#})"
proof (cases "filter (covers own b) es")
  case Nil
  then show ?thesis by (simp add: types_at_def rl_view_def flip: mset_filter)
next
  case (Cons x xs)
  then have "filter (covers own b) es = [x]" using assms by simp
  then show ?thesis by (simp add: types_at_def rl_view_def flip: mset_filter)
qed

lemma entries_wf_types:
  "entries_wf es \<longleftrightarrow> (\<forall>x\<in>set es. entry_ok x) \<and> (\<forall>own b. size (types_at own b (mset es)) \<le> 1)"
  by (simp add: entries_wf_def length_covering)

lemma view_eqI:
  assumes "entries_wf es"
    and "types_at own b (mset es) = (case v of None \<Rightarrow> {#} | Some ty \<Rightarrow> {#ty#})"
  shows "rl_view es own b = v"
  using assms rl_view_types [of own b es]
  by (auto simp: entries_wf_def split: option.splits)

lemma rl_view_Some:
  assumes "entries_wf es"
  shows "rl_view es own b = Some ty \<longleftrightarrow> (\<exists>x\<in>set es. covers own b x \<and> rl_type x = ty)"
proof -
  have "length (filter (covers own b) es) \<le> 1" using assms by (simp add: entries_wf_def)
  then consider "filter (covers own b) es = []" | x where "filter (covers own b) es = [x]"
    by (cases "filter (covers own b) es") auto
  then show ?thesis
  proof cases
    case 1
    then show ?thesis by (auto simp: rl_view_def filter_empty_conv)
  next
    case (2 x)
    then have "{y \<in> set es. covers own b y} = {x}" by (metis empty_set list.simps(15) set_filter)
    then show ?thesis using 2 by (auto simp: rl_view_def)
  qed
qed

section \<open>Clearing\<close>

lemma clear_loop_mset:
  assumes "\<forall>x\<in>set (take i es). \<not> in_clear own s e x"
  shows "mset (fst (clear_loop own s e es i c)) =
    (\<Sum>x\<in>#mset es. if in_clear own s e x then mset (remnants s e x) else {#x#})"
  using assms
proof (induction own s e es i c rule: clear_loop.induct)
  case (1 own s e es i c)
  let ?g = "\<lambda>x. if in_clear own s e x then mset (remnants s e x) else {#x#}"
  show ?case
  proof (cases "i < length es")
    case False
    then have "\<forall>x\<in>set es. \<not> in_clear own s e x" using "1.prems" by simp
    then have "(\<Sum>x\<in>#mset es. ?g x) = (\<Sum>x\<in>#mset es. {#x#})"
      by (intro arg_cong [where f = sum_mset] image_mset_cong) auto
    then show ?thesis using False by (simp add: clear_loop.simps [of own s e es i])
  next
    case i: True
    show ?thesis
    proof (cases "in_clear own s e (es ! i)")
      case False
      have "\<forall>x\<in>set (take (Suc i) es). \<not> in_clear own s e x"
        using "1.prems" False i by (simp add: take_Suc_conv_app_nth)
      then show ?thesis
        using "1.IH"(1) [OF i refl] False i by (simp add: clear_loop.simps [of own s e es i])
    next
      case True
      let ?es = "swap_remove es i @ remnants s e (es ! i)"
      have sub: "mset es = add_mset (es ! i) (mset (swap_remove es i))"
        using mset_swap_remove [OF i] by simp
      have "take i ?es = take i es"
        using i by (auto simp: swap_remove_def take_butlast)
      then have "mset (fst (clear_loop own s e ?es i True)) = (\<Sum>x\<in>#mset ?es. ?g x)"
        using "1.IH"(2) [OF i refl] "1.prems" True by simp
      also have "\<dots> = (\<Sum>x\<in>#mset (swap_remove es i). ?g x) + (\<Sum>x\<in>#mset (remnants s e (es ! i)). ?g x)"
        by simp
      also have "(\<Sum>x\<in>#mset (remnants s e (es ! i)). ?g x) = (\<Sum>x\<in>#mset (remnants s e (es ! i)). {#x#})"
        using remnants_clear by (intro arg_cong [where f = sum_mset] image_mset_cong) auto
      finally show ?thesis using True i sub by (simp add: clear_loop.simps [of own s e es i])
    qed
  qed
qed

lemma types_at_sum: "types_at own b (\<Sum>x\<in>#M. f x) = (\<Sum>x\<in>#M. types_at own b (f x))"
  by (induction M) auto

lemma types_at_remnants:
  assumes "s < e" and "in_clear own s e x"
  shows "types_at own' b (mset (remnants s e x)) =
    (if own' = own \<and> s \<le> b \<and> b < e then {#} else types_at own' b {#x#})"
  using assms
  by (cases "rl_start x < s"; cases "rl_end x > e")
    (auto simp: remnants_def in_clear_def covers_def ranges_overlap_def)

lemma types_at_outside:
  assumes "\<not> in_clear own s e x"
  shows "types_at own' b {#x#} = (if own' = own \<and> s \<le> b \<and> b < e then {#} else types_at own' b {#x#})"
  using assms by (auto simp: in_clear_def covers_def ranges_overlap_def)

lemma clear_mset:
  "mset (fst (clear_owner_range own s e es)) =
     (\<Sum>x\<in>#mset es. if in_clear own s e x then mset (remnants s e x) else {#x#})"
  unfolding clear_owner_range_def by (rule clear_loop_mset) simp

lemma clear_types:
  assumes "s < e"
  shows "types_at own' b (mset (fst (clear_owner_range own s e es))) =
    (if own' = own \<and> s \<le> b \<and> b < e then {#} else types_at own' b (mset es))"
proof -
  have g: "types_at own' b (if in_clear own s e x then mset (remnants s e x) else {#x#}) =
      (if own' = own \<and> s \<le> b \<and> b < e then {#} else types_at own' b {#x#})" for x
    using types_at_remnants [OF assms] types_at_outside by (cases "in_clear own s e x") auto
  have e: "types_at own' b (mset es) = (\<Sum>x\<in>#mset es. types_at own' b {#x#})"
    by (induction es) auto
  show ?thesis unfolding clear_mset types_at_sum g e
    by (cases "own' = own \<and> s \<le> b \<and> b < e") (simp_all only: if_True if_False HOL.simp_thms, simp)
qed

lemma set_clear:
  "set (fst (clear_owner_range own s e es)) =
     (\<Union>x\<in>set es. if in_clear own s e x then set (remnants s e x) else {x})"
proof -
  have "set_mset (mset (fst (clear_owner_range own s e es))) =
      (\<Union>x\<in>set es. if in_clear own s e x then set (remnants s e x) else {x})"
    unfolding clear_mset by auto
  then show ?thesis by simp
qed

lemma clear_entry_ok:
  assumes "\<forall>x\<in>set es. entry_ok x" and "0 \<le> s" and "s < e"
  shows "\<forall>x\<in>set (fst (clear_owner_range own s e es)). entry_ok x"
  using assms unfolding set_clear
  by (auto simp: entry_ok_def remnants_def in_clear_def ranges_overlap_def split: if_splits; force)

lemma clear_wf:
  assumes "entries_wf es" and "0 \<le> s" and "s < e"
  shows "entries_wf (fst (clear_owner_range own s e es))"
  using assms clear_entry_ok by (auto simp: entries_wf_types clear_types)

lemma clear_view:
  assumes "entries_wf es" and "0 \<le> s" and "s < e"
  shows "rl_view (fst (clear_owner_range own s e es)) own' b =
    (if own' = own \<and> s \<le> b \<and> b < e then None else rl_view es own' b)"
proof (rule view_eqI [OF clear_wf [OF assms]])
  have "length (filter (covers own' b) es) \<le> 1" using assms(1) by (simp add: entries_wf_def)
  then show "types_at own' b (mset (fst (clear_owner_range own s e es))) =
    (case if own' = own \<and> s \<le> b \<and> b < e then None else rl_view es own' b of None \<Rightarrow> {#} | Some ty \<Rightarrow> {#ty#})"
    using assms(3) by (simp add: clear_types rl_view_types)
qed

lemma clear_loop_changed:
  assumes "\<forall>x\<in>set (take i es). \<not> in_clear own s e x"
  shows "snd (clear_loop own s e es i c) \<longleftrightarrow> c \<or> (\<exists>x\<in>set es. in_clear own s e x)"
  using assms
proof (induction own s e es i c rule: clear_loop.induct)
  case (1 own s e es i c)
  consider "i \<ge> length es" | "i < length es" "\<not> in_clear own s e (es ! i)"
    | "i < length es" "in_clear own s e (es ! i)" by linarith
  then show ?case
  proof cases
    case 1
    then show ?thesis using "1.prems" by (auto simp: clear_loop.simps [of own s e es i])
  next
    case 2
    then have "\<forall>x\<in>set (take (Suc i) es). \<not> in_clear own s e x"
      using "1.prems" by (simp add: take_Suc_conv_app_nth)
    then show ?thesis using "1.IH"(1) [OF 2(1) refl] 2 by (simp add: clear_loop.simps [of own s e es i])
  next
    case 3
    let ?es = "swap_remove es i @ remnants s e (es ! i)"
    have "take i ?es = take i es" using 3 by (auto simp: swap_remove_def take_butlast)
    then have "snd (clear_loop own s e ?es i True)" using "1.IH"(2) [OF 3(1) refl] "1.prems" 3 by simp
    then show ?thesis using 3 nth_mem [OF 3(1)] by (auto simp: clear_loop.simps [of own s e es i])
  qed
qed

lemma clear_changed:
  "snd (clear_owner_range own s e es) \<longleftrightarrow> (\<exists>x\<in>set es. in_clear own s e x)"
  unfolding clear_owner_range_def by (simp add: clear_loop_changed)

section \<open>Coalescing\<close>

text \<open>The reference: a fold that appends to a separate list.\<close>

definition merge_out :: "record_lock list \<Rightarrow> record_lock \<Rightarrow> record_lock list" where
  "merge_out out x =
     (if out \<noteq> [] \<and> mergeable (last out) x
      then butlast out @ [(last out)\<lparr>rl_end := max (rl_end (last out)) (rl_end x)\<rparr>]
      else out @ [x])"

lemma coalesce_steps:
  assumes "n \<le> length es"
  shows "\<exists>es' k. foldl coalesce_step (es, 0) [0..<n] = (es', k) \<and> k \<le> n \<and> length es' = length es \<and>
    take k es' = foldl merge_out [] (take n es) \<and> drop n es' = drop n es"
  using assms
proof (induction n)
  case (Suc n)
  then obtain es' k where IH: "foldl coalesce_step (es, 0) [0..<n] = (es', k)" "k \<le> n"
      "length es' = length es" "take k es' = foldl merge_out [] (take n es)" "drop n es' = drop n es"
    by auto
  have n: "n < length es" using Suc.prems by simp
  have x: "es' ! n = es ! n" using IH(5) n by (metis hd_drop_conv_nth IH(3))
  have d: "drop (Suc n) es' = drop (Suc n) es" using IH(5) by (metis drop_Suc tl_drop)
  have t: "foldl merge_out [] (take (Suc n) es) = merge_out (take k es') (es ! n)"
    using n by (simp add: take_Suc_conv_app_nth IH(4))
  have l: "k > 0 \<Longrightarrow> last (take k es') = es' ! (k - 1)"
    using IH(2,3) n by (subst last_conv_nth) auto
  show ?case
  proof (cases "k > 0 \<and> mergeable (es' ! (k - 1)) (es ! n)")
    case True
    let ?y = "(es' ! (k - 1))\<lparr>rl_end := max (rl_end (es' ! (k - 1))) (rl_end (es ! n))\<rparr>"
    have "take k (es'[k - 1 := ?y]) = butlast (take k es') @ [?y]"
      using True IH(2,3) n
      by (intro nth_equalityI) (auto simp: nth_append nth_butlast nth_list_update)
    moreover have "drop (Suc n) (es'[k - 1 := ?y]) = drop (Suc n) es" using d IH(2) by simp
    moreover have "coalesce_step (es', k) n = (es'[k - 1 := ?y], k)"
      using True x by (simp add: coalesce_step_def Let_def)
    moreover have "merge_out (take k es') (es ! n) = butlast (take k es') @ [?y]"
      using True l n IH(3) by (auto simp: merge_out_def)
    ultimately show ?thesis using IH(1-3) t by auto
  next
    case False
    have "take (Suc k) (es'[k := es ! n]) = take k es' @ [es ! n]"
      using IH(2,3) n by (simp add: take_Suc_conv_app_nth)
    moreover have "drop (Suc n) (es'[k := es ! n]) = drop (Suc n) es" using d IH(2) by simp
    moreover have "merge_out (take k es') (es ! n) = take k es' @ [es ! n]"
      using False l by (cases "k = 0") (auto simp: merge_out_def)
    moreover have "coalesce_step (es', k) n = (es'[k := es ! n], Suc k)"
      using False x by (auto simp: coalesce_step_def Let_def)
    ultimately show ?thesis using IH(1-3) t by auto
  qed
qed simp

lemma coalesce_fold: "coalesce es = foldl merge_out [] (sort_key coalesce_key es)"
  using coalesce_steps [of "length es" "sort_key coalesce_key es"]
  by (auto simp: coalesce_def split: prod.splits)

text \<open>No two entries of the same owner and type touch, and the entries are in order.\<close>

definition before :: "record_lock \<Rightarrow> record_lock \<Rightarrow> bool" where
  "before x y \<longleftrightarrow> (rl_owner x, rl_type x) < (rl_owner y, rl_type y) \<or>
     (rl_owner x, rl_type x) = (rl_owner y, rl_type y) \<and> rl_end x < rl_start y"

definition canonical :: "record_lock list \<Rightarrow> bool" where
  "canonical es \<longleftrightarrow> sorted_wrt before es"

lemma merge_adjacent:
  assumes "entry_ok p" and "entry_ok x" and "mergeable p x" and "rl_start p \<le> rl_start x"
    and "size (types_at (rl_owner x) (rl_start x) {#p, x#}) \<le> 1"
  shows "types_at own b {#p\<lparr>rl_end := max (rl_end p) (rl_end x)\<rparr>#} = types_at own b {#p, x#}"
    and "entry_ok (p\<lparr>rl_end := max (rl_end p) (rl_end x)\<rparr>)"
  using assms by (auto simp: entry_ok_def mergeable_def covers_def split: if_splits)

lemma types_at_mono: "M \<subseteq># N \<Longrightarrow> size (types_at own b N) \<le> 1 \<Longrightarrow> size (types_at own b M) \<le> 1"
  by (metis (no_types) le_trans multiset_filter_mono size_image_mset size_mset_mono types_at_def)

lemma before_trans_start:
  assumes "before a p" and "rl_owner p = rl_owner x" and "rl_type p = rl_type x" and "rl_start p \<le> rl_start x"
  shows "before a x"
  using assms by (auto simp: before_def)

lemma before_trans:
  assumes "before a b" and "entry_ok b" and "(rl_owner b, rl_type b, rl_start b) \<le> (rl_owner x, rl_type x, rl_start x)"
  shows "before a x"
  using assms by (fastforce simp: before_def)

text \<open>One step of the fold, under the invariant of the loop.\<close>

definition merge_inv :: "record_lock list \<Rightarrow> record_lock list \<Rightarrow> bool" where
  "merge_inv out rest \<longleftrightarrow> entries_wf (out @ rest) \<and> canonical out \<and> sorted (map coalesce_key rest) \<and>
     (out \<noteq> [] \<longrightarrow> (\<forall>x\<in>set rest. (rl_owner (last out), rl_type (last out), rl_start (last out)) \<le>
        (rl_owner x, rl_type x, rl_start x)))"

lemma coalesce_key_le:
  "coalesce_key x \<le> coalesce_key y \<Longrightarrow>
     (rl_owner x, rl_type x, rl_start x) \<le> (rl_owner y, rl_type y, rl_start y)"
  by (auto simp: coalesce_key_def)

lemma merge_out_inv:
  assumes "merge_inv out (x # rest)"
  shows "merge_inv (merge_out out x) rest"
    and "types_at own b (mset (merge_out out x @ rest)) = types_at own b (mset (out @ x # rest))"
proof -
  have wf: "entries_wf (out @ x # rest)" and can: "canonical out"
    and srt: "\<And>y. y \<in> set rest \<Longrightarrow> (rl_owner x, rl_type x, rl_start x) \<le> (rl_owner y, rl_type y, rl_start y)"
    and srt': "sorted (map coalesce_key rest)"
    and lst: "out \<noteq> [] \<Longrightarrow> y \<in> set (x # rest) \<Longrightarrow>
      (rl_owner (last out), rl_type (last out), rl_start (last out)) \<le> (rl_owner y, rl_type y, rl_start y)" for y
    using assms coalesce_key_le by (auto simp: merge_inv_def)
  have ok: "\<forall>y\<in>set (out @ x # rest). entry_ok y" and sz: "size (types_at o1 c (mset (out @ x # rest))) \<le> 1" for o1 c
    using wf by (auto simp: entries_wf_types)
  have "merge_inv (merge_out out x) rest \<and>
    (\<forall>own b. types_at own b (mset (merge_out out x @ rest)) = types_at own b (mset (out @ x # rest)))"
  proof (cases "out \<noteq> [] \<and> mergeable (last out) x")
    case False
    have "before a x" if "a \<in> set out" for a
    proof -
      have ne: "out \<noteq> []" using that by auto
      then have "out = butlast out @ [last out]" by simp
      then have "a = last out \<or> before a (last out)"
        using can that unfolding canonical_def by (metis Un_iff append_is_Nil_conv empty_iff empty_set set_ConsD set_append sorted_wrt_append list.set_intros(1))
      moreover have "before (last out) x" using False lst [OF ne, of x] ne
        by (auto simp: before_def mergeable_def)
      moreover have "entry_ok (last out)" using ok ne by simp
      ultimately show ?thesis using before_trans lst [OF ne, of x] by (metis list.set_intros(1))
    qed
    then have "canonical (out @ [x])" using can by (simp add: canonical_def sorted_wrt_append)
    moreover have "merge_out out x = out @ [x]" using False by (auto simp: merge_out_def)
    ultimately show ?thesis using wf srt srt' by (simp add: merge_inv_def)
  next
    case True
    define p where "p = last out"
    define q where "q = p\<lparr>rl_end := max (rl_end p) (rl_end x)\<rparr>"
    have out: "out = butlast out @ [p]" using True by (simp add: p_def)
    have m: "merge_out out x = butlast out @ [q]" using True by (simp add: merge_out_def p_def q_def)
    have st: "rl_start p \<le> rl_start x" and mg: "mergeable p x" using True lst [of x] by (auto simp: p_def mergeable_def)
    have sub: "{#p, x#} \<subseteq># mset (out @ x # rest)" by (subst out) (simp add: add_mset_commute)
    have "size (types_at (rl_owner x) (rl_start x) {#p, x#}) \<le> 1" by (rule types_at_mono [OF sub sz])
    moreover have "entry_ok p" "entry_ok x" using ok True by (auto simp: p_def)
    ultimately have ty: "types_at o1 c {#q#} = types_at o1 c {#p, x#}" and okq: "entry_ok q" for o1 c
      using merge_adjacent [OF _ _ mg st] by (simp_all only: q_def)
    have types: "types_at o1 c (mset (merge_out out x @ rest)) = types_at o1 c (mset (out @ x # rest))" for o1 c
    proof -
      have "mset (merge_out out x @ rest) = mset (butlast out) + mset rest + {#q#}" by (simp add: m)
      moreover have "mset (out @ x # rest) = mset (butlast out) + mset rest + {#p, x#}"
        by (subst out) (simp add: add_mset_commute)
      ultimately show ?thesis using ty by (simp only: types_at_simps)
    qed
    have "canonical (butlast out @ [p])" using can out by simp
    then have "canonical (merge_out out x)"
      by (auto simp: m canonical_def sorted_wrt_append before_def q_def)
    moreover have "entries_wf (merge_out out x @ rest)"
      using ok okq sz types by (auto simp: entries_wf_types m simp del: mset_append dest: in_set_butlastD)
    ultimately show ?thesis using types srt' lst True by (auto simp: merge_inv_def m q_def p_def simp del: mset_append)
  qed
  then show "merge_inv (merge_out out x) rest"
    and "types_at own b (mset (merge_out out x @ rest)) = types_at own b (mset (out @ x # rest))" by blast+
qed

lemma merge_fold:
  assumes "merge_inv out rest"
  shows "entries_wf (foldl merge_out out rest) \<and> canonical (foldl merge_out out rest) \<and>
    types_at own b (mset (foldl merge_out out rest)) = types_at own b (mset (out @ rest))"
  using assms
proof (induction rest arbitrary: out)
  case (Cons x rest)
  show ?case using Cons.IH [OF merge_out_inv(1) [OF Cons.prems]] merge_out_inv(2) [OF Cons.prems] by simp
qed (simp add: merge_inv_def)

lemma coalesce_correct:
  assumes "entries_wf es"
  shows "entries_wf (coalesce es)" and "canonical (coalesce es)" and "rl_view (coalesce es) own b = rl_view es own b"
proof -
  have ms: "mset (sort_key coalesce_key es) = mset es" by simp
  have "entries_wf (sort_key coalesce_key es)"
    using assms unfolding entries_wf_types ms by simp
  then have "merge_inv [] (sort_key coalesce_key es)" by (simp add: merge_inv_def canonical_def)
  from merge_fold [OF this] have m: "entries_wf (coalesce es)" "canonical (coalesce es)"
      "types_at own b (mset (coalesce es)) = types_at own b (mset es)"
    by (simp_all add: coalesce_fold)
  then show "entries_wf (coalesce es)" and "canonical (coalesce es)" by simp_all
  have "length (filter (covers own b) es) \<le> 1" using assms by (simp add: entries_wf_def)
  then show "rl_view (coalesce es) own b = rl_view es own b"
    by (intro view_eqI m) (simp add: m rl_view_types)
qed

section \<open>Conflicts and insertion\<close>

lemma min_by_key_None [simp]: "min_by_key k xs = None \<longleftrightarrow> xs = []"
  by (cases xs) (auto split: option.splits)

lemma min_by_key_Some: "min_by_key k xs = Some y \<Longrightarrow> y \<in> set xs \<and> (\<forall>x\<in>set xs. k y \<le> k x)"
proof (induction xs arbitrary: y)
  case (Cons x xs)
  show ?case
  proof (cases "min_by_key k xs")
    case None
    then show ?thesis using Cons.prems by simp
  next
    case (Some z)
    then show ?thesis using Cons.prems Cons.IH [OF Some] by (cases "k z < k x") force+
  qed
qed simp

text \<open>A byte of the range on which another owner holds a lock that \<open>ty\<close> is not compatible with.\<close>

definition blocked_at :: "record_lock list \<Rightarrow> record_lock_owner \<Rightarrow> record_lock_type \<Rightarrow> int \<Rightarrow> bool" where
  "blocked_at es own ty b \<longleftrightarrow>
     (\<exists>own' ty'. own' \<noteq> own \<and> rl_view es own' b = Some ty' \<and> lock_types_conflict ty' ty)"

lemma conflicting_byte:
  assumes "entries_wf es" and "x \<in> set es" and "rl_owner x \<noteq> own" and "s < e"
    and "ranges_overlap (rl_start x) (rl_end x) s e" and "lock_types_conflict (rl_type x) ty"
  shows "max s (rl_start x) < e \<and> max s (rl_start x) < rl_end x \<and> blocked_at es own ty (max s (rl_start x))"
proof -
  have "covers (rl_owner x) (max s (rl_start x)) x"
    using assms by (auto simp: covers_def ranges_overlap_def entries_wf_def entry_ok_def)
  then have "rl_view es (rl_owner x) (max s (rl_start x)) = Some (rl_type x)"
    using assms(1,2) rl_view_Some by blast
  then show ?thesis
    using assms by (auto simp: blocked_at_def ranges_overlap_def entries_wf_def entry_ok_def)
qed

lemma conflict_None:
  assumes "entries_wf es" and "s < e"
  shows "conflict es own s e ty = None \<longleftrightarrow> (\<forall>b. s \<le> b \<and> b < e \<longrightarrow> \<not> blocked_at es own ty b)"
proof
  assume none: "conflict es own s e ty = None"
  show "\<forall>b. s \<le> b \<and> b < e \<longrightarrow> \<not> blocked_at es own ty b"
  proof (intro allI impI notI)
    fix b
    assume "s \<le> b \<and> b < e" and "blocked_at es own ty b"
    then obtain x where "x \<in> set es" "rl_owner x \<noteq> own" "rl_start x \<le> b" "b < rl_end x" "lock_types_conflict (rl_type x) ty"
      unfolding blocked_at_def rl_view_Some [OF assms(1)] covers_def by auto
    then show False using none \<open>s \<le> b \<and> b < e\<close> by (auto simp: conflict_def filter_empty_conv ranges_overlap_def)
  qed
next
  assume free: "\<forall>b. s \<le> b \<and> b < e \<longrightarrow> \<not> blocked_at es own ty b"
  then show "conflict es own s e ty = None"
    using conflicting_byte [OF assms(1) _ _ assms(2)] by (fastforce simp: conflict_def filter_empty_conv)
qed

lemma conflict_Some:
  assumes "entries_wf es" and "s < e" and "conflict es own s e ty = Some x"
  shows "x \<in> set es" and "rl_owner x \<noteq> own" and "ranges_overlap (rl_start x) (rl_end x) s e"
    and "lock_types_conflict (rl_type x) ty"
    and "\<And>b. s \<le> b \<Longrightarrow> b < e \<Longrightarrow> b < rl_start x \<Longrightarrow> \<not> blocked_at es own ty b"
    and "\<And>y. y \<in> set es \<Longrightarrow> rl_owner y \<noteq> own \<Longrightarrow> ranges_overlap (rl_start y) (rl_end y) s e \<Longrightarrow>
      lock_types_conflict (rl_type y) ty \<Longrightarrow> entry_key x \<le> entry_key y"
proof -
  let ?P = "\<lambda>x. rl_owner x \<noteq> own \<and> ranges_overlap (rl_start x) (rl_end x) s e \<and> lock_types_conflict (rl_type x) ty"
  from assms(3) have m: "x \<in> set es" "?P x" and least: "\<And>y. y \<in> set es \<Longrightarrow> ?P y \<Longrightarrow> entry_key x \<le> entry_key y"
    unfolding conflict_def using min_by_key_Some by fastforce+
  then show "x \<in> set es" and "rl_owner x \<noteq> own" and "ranges_overlap (rl_start x) (rl_end x) s e"
    and "lock_types_conflict (rl_type x) ty" by auto
  show "entry_key x \<le> entry_key y" if "y \<in> set es" "rl_owner y \<noteq> own" "ranges_overlap (rl_start y) (rl_end y) s e"
    "lock_types_conflict (rl_type y) ty" for y using least that by blast
  fix b
  assume b: "s \<le> b" "b < e" "b < rl_start x"
  show "\<not> blocked_at es own ty b"
  proof
    assume "blocked_at es own ty b"
    then obtain y where "y \<in> set es" "rl_owner y \<noteq> own" "rl_start y \<le> b" "b < rl_end y" "lock_types_conflict (rl_type y) ty"
      unfolding blocked_at_def rl_view_Some [OF assms(1)] covers_def by auto
    then have "entry_key x \<le> entry_key y" using least b by (auto simp: ranges_overlap_def)
    then show False using b \<open>rl_start y \<le> b\<close> by (auto simp: entry_key_def)
  qed
qed

lemma set_entry_ok:
  assumes wf: "entries_wf es" and rng: "0 \<le> s" "s < e" "e \<le> i64_max" and free: "conflict es own s e ty = None"
  obtains es' where "set_entry es own s e ty = Inr es'" and "entries_wf es'" and "canonical es'"
    and "\<And>own' b. rl_view es' own' b = (if own' = own \<and> s \<le> b \<and> b < e then Some ty else rl_view es own' b)"
proof -
  let ?n = "\<lparr>rl_owner = own, rl_start = s, rl_end = e, rl_type = ty\<rparr>"
  let ?c = "fst (clear_owner_range own s e es)"
  have c: "entries_wf ?c" by (rule clear_wf [OF wf rng(1,2)])
  have ty: "types_at own' b (mset (?c @ [?n])) =
      (case if own' = own \<and> s \<le> b \<and> b < e then Some ty else rl_view es own' b of None \<Rightarrow> {#} | Some ty \<Rightarrow> {#ty#})" for own' b
  proof -
    have "length (filter (covers own' b) es) \<le> 1" using wf by (simp add: entries_wf_def)
    then show ?thesis using rng(2) by (auto simp: clear_types rl_view_types covers_def)
  qed
  have "size (types_at own' b (mset (?c @ [?n]))) \<le> 1" for own' b
    unfolding ty by (simp split: option.splits)
  moreover have "\<forall>x\<in>set (?c @ [?n]). entry_ok x" using c rng by (auto simp: entries_wf_def entry_ok_def)
  ultimately have wf': "entries_wf (?c @ [?n])" by (simp add: entries_wf_types del: mset_append)
  have "set_entry es own s e ty = Inr (coalesce (?c @ [?n]))"
    using rng free by (simp add: set_entry_def validate_range_def)
  then show ?thesis
    by (rule that) (use coalesce_correct [OF wf'] view_eqI [OF wf' ty] in simp_all)
qed

lemma exclusive_set:
  assumes "exclusive es" and "\<And>b. s \<le> b \<Longrightarrow> b < e \<Longrightarrow> \<not> blocked_at es own ty b"
    and "\<And>own' b. rl_view es' own' b = (if own' = own \<and> s \<le> b \<and> b < e then Some ty else rl_view es own' b)"
  shows "exclusive es'"
  unfolding exclusive_def
proof (intro allI impI)
  fix o1 o2 b t1 t2
  assume ne: "o1 \<noteq> o2" and v: "rl_view es' o1 b = Some t1" "rl_view es' o2 b = Some t2"
  consider "o1 = own" "s \<le> b" "b < e" | "o2 = own" "s \<le> b" "b < e"
    | "rl_view es o1 b = Some t1" "rl_view es o2 b = Some t2"
    using v by (auto simp: assms(3) split: if_splits)
  then show "t1 = Read \<and> t2 = Read"
  proof cases
    case 1
    then have "t1 = ty" and "rl_view es o2 b = Some t2" using v ne by (simp_all add: assms(3))
    then show ?thesis using assms(2) [OF 1(2,3)] ne 1(1) by (auto simp: blocked_at_def lock_types_conflict_def)
  next
    case 2
    then have "t2 = ty" and "rl_view es o1 b = Some t1" using v ne by (simp_all add: assms(3))
    then show ?thesis using assms(2) [OF 2(2,3)] ne 2(1) by (auto simp: blocked_at_def lock_types_conflict_def)
  next
    case 3
    then show ?thesis using assms(1) ne unfolding exclusive_def by blast
  qed
qed

lemma exclusive_mono:
  assumes "exclusive es" and "\<And>own b ty. rl_view es' own b = Some ty \<Longrightarrow> rl_view es own b = Some ty"
  shows "exclusive es'"
  using assms unfolding exclusive_def by blast

lemma filter_owner_wf:
  assumes "entries_wf es"
  shows "entries_wf (filter P es)"
proof -
  have "types_at own b (mset (filter P es)) \<subseteq># types_at own b (mset es)" for own b
    by (simp add: types_at_def image_mset_subseteq_mono multiset_filter_mono)
  then have "size (types_at own b (mset (filter P es))) \<le> size (types_at own b (mset es))" for own b
    by (rule size_mset_mono)
  then show ?thesis using assms unfolding entries_wf_types by (meson filter_is_subset le_trans subsetD)
qed

lemma release_view:
  "rl_view (fst (state_release_owner own es)) own' b = (if own' = own then None else rl_view es own' b)"
proof -
  have "filter (covers own' b) (filter (\<lambda>x. rl_owner x \<noteq> own) es) = (if own' = own then [] else filter (covers own' b) es)"
    unfolding filter_filter by (auto simp: covers_def intro!: filter_cong)
  then show ?thesis by (simp add: state_release_owner_def rl_view_def Let_def)
qed

lemma release_wf: "entries_wf es \<Longrightarrow> entries_wf (fst (state_release_owner own es))"
  by (simp add: state_release_owner_def Let_def filter_owner_wf)

lemma release_changed:
  "snd (state_release_owner own es) \<longleftrightarrow> (\<exists>x\<in>set es. rl_owner x = own)"
  unfolding state_release_owner_def Let_def snd_conv
  by (metis (mono_tags, lifting) filter_False filter_True filter_id_conv length_filter_less less_not_refl)

section \<open>The table as a function of file, owner and byte\<close>

definition state_wf :: "record_lock_state \<Rightarrow> bool" where
  "state_wf st \<longleftrightarrow> entries_wf (entries st) \<and> exclusive (entries st)"

definition rls_wf :: "record_locks \<Rightarrow> bool" where
  "rls_wf rls \<longleftrightarrow> shards_wf (rl_table rls) \<and>
     (\<forall>t st. rl_get rls t = Some st \<longrightarrow> state_wf st \<and> rl_wait_queue st < next_queue rls) \<and>
     (\<forall>t t' st st'. rl_get rls t = Some st \<longrightarrow> rl_get rls t' = Some st' \<longrightarrow>
        rl_wait_queue st = rl_wait_queue st' \<longrightarrow> t = t')"

definition rls_view :: "record_locks \<Rightarrow> lock_target \<Rightarrow> record_lock_owner \<Rightarrow> int \<Rightarrow> record_lock_type option" where
  "rls_view rls t own b = (case rl_get rls t of None \<Rightarrow> None | Some st \<Rightarrow> rl_view (entries st) own b)"

lemma rl_view_Nil [simp]: "rl_view [] own b = None"
  by (simp add: rl_view_def)

lemma state_wf_new [simp]: "state_wf \<lparr>entries = [], rl_wait_queue = q, waiters = n\<rparr>"
  by (simp add: state_wf_def entries_wf_def exclusive_def)

lemma rls_wf_new: "rls_wf record_locks_new"
  by (simp add: rls_wf_def record_locks_new_def rl_get_def)

lemma rls_wfD:
  assumes "rls_wf rls"
  shows "shards_wf (rl_table rls)" and "rl_get rls t = Some st \<Longrightarrow> entries_wf (entries st)"
    and "rl_get rls t = Some st \<Longrightarrow> exclusive (entries st)"
    and "rl_get rls t = Some st \<Longrightarrow> rl_wait_queue st < next_queue rls"
  using assms by (auto simp: rls_wf_def state_wf_def)

lemma rl_get_put:
  "shards_wf (rl_table rls) \<Longrightarrow> rl_get (rl_put rls t st) u = (if u = t then Some st else rl_get rls u)"
  by (simp add: rl_get_def rl_put_def)

lemma rl_get_put_or_remove:
  "shards_wf (rl_table rls) \<Longrightarrow>
     rl_get (put_or_remove rls t st) u =
       (if u = t then if rl_unused st then None else Some st else rl_get rls u)"
  by (simp add: put_or_remove_def rl_get_put) (simp add: rl_get_def)

lemma next_queue_put [simp]:
  "next_queue (rl_put rls t st) = next_queue rls" "next_queue (put_or_remove rls t st) = next_queue rls"
  by (simp_all add: rl_put_def put_or_remove_def)

lemma shards_wf_put [simp]:
  "shards_wf (rl_table rls) \<Longrightarrow> shards_wf (rl_table (rl_put rls t st))"
  "shards_wf (rl_table rls) \<Longrightarrow> shards_wf (rl_table (put_or_remove rls t st))"
  by (simp_all add: rl_put_def put_or_remove_def)

text \<open>A well-formed table stays so when states keep their queues and stay well-formed.\<close>

lemma rls_wf_update:
  assumes "rls_wf rls" and "shards_wf (rl_table rls')" and "next_queue rls' = next_queue rls"
    and "\<And>t st. rl_get rls' t = Some st \<Longrightarrow>
      state_wf st \<and> (\<exists>st0. rl_get rls t = Some st0 \<and> rl_wait_queue st0 = rl_wait_queue st)"
  shows "rls_wf rls'"
  unfolding rls_wf_def
proof (intro conjI allI impI)
  show "shards_wf (rl_table rls')" by fact
  fix t st
  assume st: "rl_get rls' t = Some st"
  show "state_wf st" and "rl_wait_queue st < next_queue rls'"
    using assms(4) [OF st] rls_wfD(4) [OF assms(1)] assms(3) by metis+
  fix t' st'
  assume "rl_get rls' t' = Some st'" and "rl_wait_queue st = rl_wait_queue st'"
  then show "t = t'" using assms(4) [OF st] assms(4) [of t' st'] assms(1) unfolding rls_wf_def by metis
qed

lemma entry_or_default_get:
  assumes "rls_wf rls" and "entry_or_default rls t = (rls', st)"
  shows "rls_wf rls'" and "rl_get rls' t = Some st" and "state_wf st"
    and "\<And>u. u \<noteq> t \<Longrightarrow> rl_get rls' u = rl_get rls u"
    and "\<And>own b. rl_view (entries st) own b = rls_view rls t own b"
    and "next_queue rls \<le> next_queue rls'"
proof -
  have sh: "shards_wf (rl_table rls)" using assms(1) by (rule rls_wfD)
  have "rls_wf rls' \<and> rl_get rls' t = Some st \<and> state_wf st \<and> (\<forall>u. u \<noteq> t \<longrightarrow> rl_get rls' u = rl_get rls u) \<and>
    (\<forall>own b. rl_view (entries st) own b = rls_view rls t own b) \<and> next_queue rls \<le> next_queue rls'"
  proof (cases "rl_get rls t")
    case (Some st0)
    then show ?thesis using assms by (auto simp: entry_or_default_def rls_wf_def rls_view_def)
  next
    case None
    let ?r = "rls\<lparr>next_queue := Suc (next_queue rls)\<rparr>"
    let ?st = "\<lparr>entries = [], rl_wait_queue = next_queue rls, waiters = 0\<rparr>"
    have eq: "rls' = rl_put ?r t ?st" "st = ?st" using assms(2) None by (auto simp: entry_or_default_def Let_def)
    have g: "rl_get (rl_put ?r t ?st) u = (if u = t then Some ?st else rl_get rls u)" for u
      using sh by (simp add: rl_get_put) (simp add: rl_get_def)
    have lt: "\<And>u st'. rl_get rls u = Some st' \<Longrightarrow> rl_wait_queue st' < next_queue rls" by (rule rls_wfD(4) [OF assms(1)])
    have "rls_wf rls'"
      unfolding rls_wf_def
    proof (intro conjI allI impI)
      show "shards_wf (rl_table rls')" using sh by (simp add: eq)
      fix u st'
      assume u: "rl_get rls' u = Some st'"
      show "state_wf st'" and "rl_wait_queue st' < next_queue rls'"
        using u assms(1) lt [of u st'] by (auto simp: eq g rls_wf_def intro: less_SucI split: if_splits)
      fix v st''
      assume "rl_get rls' v = Some st''" and "rl_wait_queue st' = rl_wait_queue st''"
      then show "u = v" using u lt assms(1) unfolding eq g rls_wf_def
        by (metis (no_types, lifting) option.inject order_less_irrefl record_lock_state.select_convs(2))
    qed
    then show ?thesis using None by (simp add: eq g rls_view_def)
  qed
  then show "rls_wf rls'" and "rl_get rls' t = Some st" and "state_wf st"
    and "\<And>u. u \<noteq> t \<Longrightarrow> rl_get rls' u = rl_get rls u"
    and "\<And>own b. rl_view (entries st) own b = rls_view rls t own b"
    and "next_queue rls \<le> next_queue rls'" by blast+
qed

lemma rls_view_put:
  assumes "shards_wf (rl_table rls)" and "\<And>u. rl_get rls' u = (if u = t then Some st else rl_get rls u)"
  shows "rls_view rls' u own b = (if u = t then rl_view (entries st) own b else rls_view rls u own b)"
  using assms by (simp add: rls_view_def)

text \<open>The effect of the critical section of \<open>set_lock\<close>.\<close>

lemma set_lock_attempt_cases:
  assumes wf: "rls_wf rls" and rng: "0 \<le> s" "s < e" "e \<le> i64_max"
    and att: "set_lock_attempt rls own t s e ty blocking = (rls', r)"
  shows "rls_wf rls'"
    and "rls_view rls' u own' b =
      (if u = t \<and> own' = own \<and> s \<le> b \<and> b < e \<and> (\<exists>q. r = Acquired q) then Some ty else rls_view rls u own' b)"
    and "lock_free rls own t s e ty \<longleftrightarrow> (\<exists>q. r = Acquired q)"
    and "\<not> lock_free rls own t s e ty \<Longrightarrow> r = Failed EAGAIN \<and> \<not> blocking \<or> (\<exists>q. r = MustWait q) \<and> blocking"
proof -
  obtain rls1 st where ed: "entry_or_default rls t = (rls1, st)" by (cases "entry_or_default rls t")
  note d = entry_or_default_get [OF wf ed]
  have sh: "shards_wf (rl_table rls1)" and ewf: "entries_wf (entries st)" and ex: "exclusive (entries st)"
    using rls_wfD(1) [OF d(1)] d(3) by (auto simp: state_wf_def)
  have free: "lock_free rls own t s e ty \<longleftrightarrow> conflict (entries st) own s e ty = None"
    using ed by (auto simp: lock_free_def entry_or_default_def conflict_def Let_def split: option.splits)
  have v1: "rls_view rls1 v o1 c = rls_view rls v o1 c" for v o1 c
    using d(2,4,5) by (cases "v = t") (simp_all add: rls_view_def)
  have upd: "rls_wf (rl_put rls1 t st')" if "state_wf st'" and "rl_wait_queue st' = rl_wait_queue st" for st'
    using that d(2) rls_wfD(1) [OF d(1)] d(1)
    by (intro rls_wf_update [OF d(1)]) (auto simp: rl_get_put rls_wf_def split: if_splits)
  have "rls_wf rls' \<and> (\<forall>u own' b. rls_view rls' u own' b =
      (if u = t \<and> own' = own \<and> s \<le> b \<and> b < e \<and> (\<exists>q. r = Acquired q) then Some ty else rls_view rls u own' b)) \<and>
    (lock_free rls own t s e ty \<longleftrightarrow> (\<exists>q. r = Acquired q)) \<and>
    (\<not> lock_free rls own t s e ty \<longrightarrow> r = Failed EAGAIN \<and> \<not> blocking \<or> (\<exists>q. r = MustWait q) \<and> blocking)"
  proof (cases "conflict (entries st) own s e ty = None")
    case True
    then obtain es where es: "set_entry (entries st) own s e ty = Inr es" "entries_wf es"
      "\<And>own' b. rl_view es own' b = (if own' = own \<and> s \<le> b \<and> b < e then Some ty else rl_view (entries st) own' b)"
      using set_entry_ok [OF ewf rng] by metis
    have "exclusive es"
      by (rule exclusive_set [OF ex _ es(3)]) (use True conflict_None [OF ewf rng(2)] in blast)
    then have "rls_wf (rl_put rls1 t (st\<lparr>entries := es\<rparr>))" using es(2) by (intro upd) (simp_all add: state_wf_def)
    moreover have eq: "rls' = rl_put rls1 t (st\<lparr>entries := es\<rparr>)" "r = Acquired (rl_wait_queue st)"
      using att ed True es(1) by (simp_all add: set_lock_attempt_def)
    ultimately show ?thesis
      using free True rls_view_put [OF sh rl_get_put [OF sh]] by (auto simp: es(3) v1 d(5))
  next
    case False
    have "rls_wf (rl_put rls1 t (st\<lparr>waiters := waiters st + 1\<rparr>))"
      using d(3) by (intro upd) (simp_all add: state_wf_def)
    moreover have "rls_view (rl_put rls1 t (st\<lparr>waiters := waiters st + 1\<rparr>)) v o1 c = rls_view rls v o1 c" for v o1 c
      using rls_view_put [OF sh rl_get_put [OF sh]] d(5) v1 by simp
    moreover have "(rls', r) = (if \<not> blocking then (rls1, Failed EAGAIN)
        else (rl_put rls1 t (st\<lparr>waiters := waiters st + 1\<rparr>), MustWait (rl_wait_queue st)))"
      using att ed False by (simp add: set_lock_attempt_def)
    ultimately show ?thesis using False free d(1) v1 by (cases blocking) auto
  qed
  then show "rls_wf rls'"
    and "rls_view rls' u own' b =
      (if u = t \<and> own' = own \<and> s \<le> b \<and> b < e \<and> (\<exists>q. r = Acquired q) then Some ty else rls_view rls u own' b)"
    and "lock_free rls own t s e ty \<longleftrightarrow> (\<exists>q. r = Acquired q)"
    and "\<not> lock_free rls own t s e ty \<Longrightarrow> r = Failed EAGAIN \<and> \<not> blocking \<or> (\<exists>q. r = MustWait q) \<and> blocking"
    by blast+
qed

text \<open>Shrinking the entries of one target.\<close>

lemma update_target_effect:
  assumes wf: "rls_wf rls" and upd: "update_target rls t f = (rls', qs)"
    and f: "\<And>es. entries_wf es \<Longrightarrow> entries_wf (fst (f es))"
    and v: "\<And>es own b. entries_wf es \<Longrightarrow> rl_view (fst (f es)) own b = (if D own b then None else rl_view es own b)"
  shows "rls_wf rls'" and "rls_view rls' u own b = (if u = t \<and> D own b then None else rls_view rls u own b)"
proof -
  have sh: "shards_wf (rl_table rls)" by (rule rls_wfD(1) [OF wf])
  have "rls_wf rls' \<and> (\<forall>u own b. rls_view rls' u own b = (if u = t \<and> D own b then None else rls_view rls u own b))"
  proof (cases "rl_get rls t")
    case None
    then show ?thesis using wf upd by (auto simp: update_target_def rls_view_def)
  next
    case (Some st)
    then have st: "entries_wf (entries st)" "exclusive (entries st)" using rls_wfD [OF wf] by auto
    have "exclusive (fst (f (entries st)))"
      by (rule exclusive_mono [OF st(2)]) (simp add: v [OF st(1)] split: if_splits)
    then have "state_wf (st\<lparr>entries := fst (f (entries st))\<rparr>)" using f [OF st(1)] by (simp add: state_wf_def)
    then have r: "rls_wf (put_or_remove rls t (st\<lparr>entries := fst (f (entries st))\<rparr>))"
      using wf Some sh
      by (intro rls_wf_update [OF wf]) (auto simp: rl_get_put_or_remove rls_wf_def split: if_splits)
    have eq: "rls' = put_or_remove rls t (st\<lparr>entries := fst (f (entries st))\<rparr>)"
      using upd Some by (simp add: update_target_def split: prod.splits)
    show ?thesis
      using r Some v [OF st(1)] by (auto simp: eq rls_view_def rl_get_put_or_remove [OF sh] rl_unused_def)
        (metis rl_view_Nil)+
  qed
  then show "rls_wf rls'" and "rls_view rls' u own b = (if u = t \<and> D own b then None else rls_view rls u own b)" by blast+
qed

lemma finish_wait_effect:
  assumes "rls_wf rls"
  shows "rls_wf (finish_wait rls t)" and "rls_view (finish_wait rls t) u own b = rls_view rls u own b"
proof -
  have sh: "shards_wf (rl_table rls)" by (rule rls_wfD(1) [OF assms])
  have "rls_wf (finish_wait rls t) \<and> (\<forall>u own b. rls_view (finish_wait rls t) u own b = rls_view rls u own b)"
  proof (cases "rl_get rls t")
    case (Some st)
    have "rls_wf (put_or_remove rls t (st\<lparr>waiters := waiters st - 1\<rparr>))"
      using assms Some sh
      by (intro rls_wf_update [OF assms]) (auto simp: rl_get_put_or_remove rls_wf_def state_wf_def split: if_splits)
    then show ?thesis
      using Some by (auto simp: finish_wait_def rls_view_def rl_get_put_or_remove [OF sh] rl_unused_def)
  qed (simp add: finish_wait_def assms)
  then show "rls_wf (finish_wait rls t)" and "rls_view (finish_wait rls t) u own b = rls_view rls u own b" by blast+
qed

lemma release_owner_section_get:
  assumes "rls_wf rls" and "k < 32" and r: "release_owner_section rls own k = (rls', qs)"
  defines "f \<equiv> \<lambda>st. st\<lparr>entries := fst (state_release_owner own (entries st))\<rparr>"
  shows "shards_wf (rl_table rls')" and "next_queue rls' = next_queue rls"
    and "rl_get rls' t = (if lock_target_shard t = k
      then case rl_get rls t of None \<Rightarrow> None | Some st \<Rightarrow> if rl_unused (f st) then None else Some (f st) else rl_get rls t)"
    and "rl_get rls t = Some st \<Longrightarrow> lock_target_shard t = k \<Longrightarrow> snd (state_release_owner own (entries st)) \<Longrightarrow>
      rl_wait_queue st \<in> set qs"
proof -
  have sh: "shards_wf (rl_table rls)" by (rule rls_wfD(1) [OF assms(1)])
  let ?m = "RBT.filter (\<lambda>_ st. \<not> rl_unused st) (RBT.map (\<lambda>_ st. f st) (rl_table rls ! k))"
  have tab: "rl_table rls' = (rl_table rls)[k := ?m]" and n: "next_queue rls' = next_queue rls"
    and qs: "qs = map rl_wait_queue (filter (\<lambda>st. snd (state_release_owner own (entries st))) (map snd (RBT.entries (rl_table rls ! k))))"
    using r by (auto simp: release_owner_section_def f_def Let_def)
  show "next_queue rls' = next_queue rls" by (rule n)
  show "shards_wf (rl_table rls')"
  proof (rule shards_wfI)
    fix i t assume i: "i < 32" "RBT.lookup (rl_table rls' ! i) t \<noteq> None"
    then show "lock_target_shard t = i"
      using shards_wfD [OF sh, of i t] sh assms(2)
      by (cases "i = k") (auto simp: tab RBT.lookup_filter split: option.splits if_splits)
  qed (use sh in \<open>simp add: tab\<close>)
  show "rl_get rls' t = (if lock_target_shard t = k
      then case rl_get rls t of None \<Rightarrow> None | Some st \<Rightarrow> if rl_unused (f st) then None else Some (f st) else rl_get rls t)"
    using sh assms(2) by (auto simp: rl_get_def shard_get_def tab RBT.lookup_filter split: option.splits)
  assume "rl_get rls t = Some st" "lock_target_shard t = k" "snd (state_release_owner own (entries st))"
  moreover then have "(t, st) \<in> set (RBT.entries (rl_table rls ! k))" by (simp add: rl_get_def shard_get_def RBT.lookup_in_tree)
  ultimately show "rl_wait_queue st \<in> set qs" unfolding qs by force
qed

lemma release_owner_section_effect:
  assumes "rls_wf rls" and "k < 32" and r: "release_owner_section rls own k = (rls', qs)"
  shows "rls_wf rls'"
    and "rls_view rls' u own' b = (if lock_target_shard u = k \<and> own' = own then None else rls_view rls u own' b)"
proof -
  let ?f = "\<lambda>st. st\<lparr>entries := fst (state_release_owner own (entries st))\<rparr>"
  note g = release_owner_section_get [OF assms]
  have "state_wf (?f st)" if "rl_get rls t = Some st" for t st
  proof -
    have "exclusive (fst (state_release_owner own (entries st)))"
      by (rule exclusive_mono [OF rls_wfD(3) [OF assms(1) that]]) (simp add: release_view split: if_splits)
    then show ?thesis using release_wf [OF rls_wfD(2) [OF assms(1) that]] by (simp add: state_wf_def)
  qed
  moreover have "state_wf st" if "rl_get rls t = Some st" for t st
    using rls_wfD(2,3) [OF assms(1) that] by (simp add: state_wf_def)
  ultimately show "rls_wf rls'"
    using g(1,2) by (intro rls_wf_update [OF assms(1)]) (auto simp: g(3) split: option.splits if_splits)
  show "rls_view rls' u own' b = (if lock_target_shard u = k \<and> own' = own then None else rls_view rls u own' b)"
  proof (cases "rl_get rls u")
    case (Some st)
    then show ?thesis
      using release_view [of own "entries st" own' b] by (auto simp: rls_view_def g(3) rl_unused_def)
  qed (simp add: rls_view_def g(3))
qed

lemma release_owner_effect:
  assumes "rls_wf rls"
  shows "rls_wf (fst (release_owner rls own))"
    and "rls_view (fst (release_owner rls own)) u own' b = (if own' = own then None else rls_view rls u own' b)"
proof -
  let ?g = "\<lambda>(rls, wait_queues) k. case release_owner_section rls own k of (rls', qs) \<Rightarrow> (rls', wait_queues @ qs)"
  have *: "rls_wf (fst (foldl ?g (rls, []) [0..<n])) \<and> rls_view (fst (foldl ?g (rls, []) [0..<n])) u own' b =
      (if lock_target_shard u < n \<and> own' = own then None else rls_view rls u own' b)" if "n \<le> 32" for n
    using that
  proof (induction n)
    case (Suc n)
    obtain r1 q1 where f: "foldl ?g (rls, []) [0..<n] = (r1, q1)" by (cases "foldl ?g (rls, []) [0..<n]")
    obtain r2 q2 where s: "release_owner_section r1 own n = (r2, q2)" by (cases "release_owner_section r1 own n")
    have "rls_wf r1" using Suc f by simp
    then show ?case
      using Suc f s release_owner_section_effect [OF _ _ s] by (auto simp: less_Suc_eq)
  qed (simp add: assms)
  show "rls_wf (fst (release_owner rls own))"
    "rls_view (fst (release_owner rls own)) u own' b = (if own' = own then None else rls_view rls u own' b)"
    using * [of 32] by (simp_all add: release_owner_def)
qed

lemma lock_types_conflict_iff: "lock_types_conflict ty' ty \<longleftrightarrow> ty' = Write \<or> ty = Write"
  by (cases ty'; cases ty) (simp_all add: lock_types_conflict_def)

lemma lock_free_view:
  assumes "rls_wf rls" and "s < e"
  shows "lock_free rls own t s e ty \<longleftrightarrow>
    \<not> (\<exists>b own' ty'. s \<le> b \<and> b < e \<and> own' \<noteq> own \<and> rls_view rls t own' b = Some ty' \<and> (ty' = Write \<or> ty = Write))"
proof (cases "rl_get rls t")
  case (Some st)
  show ?thesis
    using conflict_None [OF rls_wfD(2) [OF assms(1) Some] assms(2), of own ty] Some
    by (auto simp: lock_free_def rls_view_def blocked_at_def lock_types_conflict_iff)
qed (simp add: lock_free_def rls_view_def)

section \<open>Properties\<close>

text \<open>
  C5: setting a lock. On a well-formed table and a valid range, the critical section of \<open>set_lock\<close>
  acquires the lock exactly when no byte of the range carries an incompatible lock of another owner;
  it then gives the owner the new type on the bytes of the range (replacing what the owner had there)
  and changes nothing else. Otherwise no lock changes and the call fails with \<open>EAGAIN\<close> or, when
  blocking, goes on to wait. The table stays well-formed, mutual exclusion included.
\<close>

theorem set_lock_refines:
  assumes "rls_wf rls" and "0 \<le> s" and "s < e" and "e \<le> i64_max"
  shows "case set_lock_attempt rls own t s e ty blocking of (rls', r) \<Rightarrow>
    rls_wf rls' \<and>
    (if \<exists>b own' ty'. s \<le> b \<and> b < e \<and> own' \<noteq> own \<and> rls_view rls t own' b = Some ty' \<and> (ty' = Write \<or> ty = Write)
     then r = Failed EAGAIN \<and> \<not> blocking \<and> rls_view rls' = rls_view rls \<or>
       (\<exists>q. r = MustWait q) \<and> blocking \<and> rls_view rls' = rls_view rls
     else (\<exists>q. r = Acquired q) \<and>
       rls_view rls' =
         (\<lambda>u own' b. if u = t \<and> own' = own \<and> s \<le> b \<and> b < e then Some ty else rls_view rls u own' b))"
proof -
  obtain rls' r where att: "set_lock_attempt rls own t s e ty blocking = (rls', r)"
    by (cases "set_lock_attempt rls own t s e ty blocking")
  note c = set_lock_attempt_cases [OF assms att]
  define B where "B \<longleftrightarrow>
    (\<exists>b own' ty'. s \<le> b \<and> b < e \<and> own' \<noteq> own \<and> rls_view rls t own' b = Some ty' \<and> (ty' = Write \<or> ty = Write))"
  have free: "lock_free rls own t s e ty \<longleftrightarrow> \<not> B" unfolding B_def by (rule lock_free_view [OF assms(1,3)])
  have view: "rls_view rls' =
      (\<lambda>u own' b. if u = t \<and> own' = own \<and> s \<le> b \<and> b < e \<and> (\<exists>q. r = Acquired q) then Some ty else rls_view rls u own' b)"
    using c(2) by (intro ext)
  show ?thesis
    unfolding att prod.case B_def [symmetric] view using c(1,3,4) free by (cases B) auto
qed

definition example_locks :: record_locks where
  "example_locks =
     fst (set_lock_attempt record_locks_new (Posix 1) (FdObject 16) 0 100 Read False)"

lemma example_locks:
  "rls_wf example_locks \<and> rls_view example_locks t own b =
    (if t = FdObject 16 \<and> own = Posix 1 \<and> 0 \<le> b \<and> b < 100 then Some Read else None)"
proof -
  obtain rls' r where att: "set_lock_attempt record_locks_new (Posix 1) (FdObject 16) 0 100 Read False = (rls', r)"
    by (cases "set_lock_attempt record_locks_new (Posix 1) (FdObject 16) 0 100 Read False")
  have none: "rl_get record_locks_new u = None" for u by (simp add: rl_get_def record_locks_new_def)
  have "lock_free record_locks_new (Posix 1) (FdObject 16) 0 100 Read" by (simp add: lock_free_def none)
  then have "\<exists>q. r = Acquired q" using set_lock_attempt_cases(3) [OF rls_wf_new _ _ _ att] by simp
  then show ?thesis
    using set_lock_attempt_cases(1,2) [OF rls_wf_new _ _ _ att] att
    by (simp add: example_locks_def rls_view_def none)
qed

lemmas example_locks_wf = example_locks [THEN conjunct1]
lemmas example_locks_view = example_locks [THEN conjunct2]

theorem set_lock_refines_witness:
  "rls_wf example_locks \<and>
   snd (set_lock_attempt example_locks (Posix 2) (FdObject 16) 50 60 Write False) = Failed EAGAIN \<and>
   (\<exists>q. snd (set_lock_attempt example_locks (Ofd 2) (FdObject 16) 50 60 Read False) = Acquired q)"
proof -
  have "\<exists>b own' ty'. 50 \<le> b \<and> b < 60 \<and> own' \<noteq> Posix 2 \<and>
      rls_view example_locks (FdObject 16) own' b = Some ty' \<and> (ty' = Write \<or> Write = Write)"
    by (rule exI [of _ 50], rule exI [of _ "Posix 1"]) (simp add: example_locks_view)
  then have "snd (set_lock_attempt example_locks (Posix 2) (FdObject 16) 50 60 Write False) = Failed EAGAIN"
    using set_lock_refines [OF example_locks_wf, of 50 60 "Posix 2" "FdObject 16" Write False]
    by (auto split: prod.splits if_splits)
  moreover have "\<exists>q. snd (set_lock_attempt example_locks (Ofd 2) (FdObject 16) 50 60 Read False) = Acquired q"
    using set_lock_refines [OF example_locks_wf, of 50 60 "Ofd 2" "FdObject 16" Read False]
    by (auto simp: example_locks_view split: prod.splits if_splits)
  ultimately show ?thesis using example_locks_wf by simp
qed

text \<open>
  C6: releasing. \<open>unlock_lock\<close> takes away what the owner holds on the bytes of the range, whatever the
  entries have to be split into; \<open>release_owner_target\<close> takes away what it holds on the file and
  \<open>release_owner\<close> what it holds on every file. Nothing else changes and the table stays well-formed.
\<close>

theorem unlock_refines:
  assumes "rls_wf rls" and "0 \<le> s" and "s < e"
  shows "(\<exists>rls' qs. unlock_lock rls own t s e = Inr (rls', qs) \<and> rls_wf rls' \<and>
      (\<forall>u own' b. rls_view rls' u own' b =
        (if u = t \<and> own' = own \<and> s \<le> b \<and> b < e then None else rls_view rls u own' b))) \<and>
    rls_wf (fst (release_owner_target rls own t)) \<and>
    (\<forall>u own' b. rls_view (fst (release_owner_target rls own t)) u own' b =
        (if u = t \<and> own' = own then None else rls_view rls u own' b)) \<and>
    rls_wf (fst (release_owner rls own)) \<and>
    (\<forall>u own' b. rls_view (fst (release_owner rls own)) u own' b = (if own' = own then None else rls_view rls u own' b))"
proof (intro conjI)
  obtain rls' qs where u: "update_target rls t (clear_owner_range own s e) = (rls', qs)"
    by (cases "update_target rls t (clear_owner_range own s e)")
  note e1 = update_target_effect [OF assms(1) u clear_wf [OF _ assms(2,3)] clear_view [OF _ assms(2,3)]]
  show "\<exists>rls' qs. unlock_lock rls own t s e = Inr (rls', qs) \<and> rls_wf rls' \<and>
      (\<forall>u own' b. rls_view rls' u own' b =
        (if u = t \<and> own' = own \<and> s \<le> b \<and> b < e then None else rls_view rls u own' b))"
    using assms e1 by (intro exI [of _ rls'] exI [of _ qs]) (simp add: unlock_lock_def validate_range_def u)
  have r: "update_target rls t (state_release_owner own) = (fst (release_owner_target rls own t), snd (release_owner_target rls own t))"
    by (simp add: release_owner_target_def)
  note e2 = update_target_effect [OF assms(1) r, where D = "\<lambda>own' _. own' = own"]
  show "rls_wf (fst (release_owner_target rls own t))" by (rule e2) (simp_all add: release_wf release_view)
  show "\<forall>u own' b. rls_view (fst (release_owner_target rls own t)) u own' b =
        (if u = t \<and> own' = own then None else rls_view rls u own' b)"
    by (intro allI, rule e2) (simp_all add: release_wf release_view)
qed (use release_owner_effect [OF assms(1)] in simp_all)

theorem unlock_refines_witness:
  "rls_wf example_locks \<and>
   (\<exists>rls' qs. unlock_lock example_locks (Posix 1) (FdObject 16) 20 80 = Inr (rls', qs) \<and>
      rls_view rls' (FdObject 16) (Posix 1) 50 = None \<and> rls_view rls' (FdObject 16) (Posix 1) 90 = Some Read)"
  using unlock_refines [OF example_locks_wf, of 20 80 "Posix 1" "FdObject 16"] example_locks_wf
  by (auto simp: example_locks_view)

text \<open>
  C29: querying. On a valid range \<open>get_lock\<close> reports no conflict exactly when an attempt to set the lock
  would acquire it; otherwise it reports an incompatible lock of another owner that overlaps the
  range: of all these the one with the lowest start, and among equal starts the one with the lowest end and owner. It is a
  stored lock that holds on all of its bytes, and no byte of the range below its start carries an incompatible lock.
\<close>

theorem get_lock_reports:
  assumes "rls_wf rls" and "0 \<le> s" and "s < e" and "e \<le> i64_max"
  shows "\<exists>r. get_lock rls own t s e ty = Inr r \<and>
    (r = None \<longleftrightarrow> (\<exists>q. snd (set_lock_attempt rls own t s e ty False) = Acquired q)) \<and>
    (\<forall>x. r = Some x \<longrightarrow> rl_owner x \<noteq> own \<and> (rl_type x = Write \<or> ty = Write) \<and>
      rl_start x < e \<and> s < rl_end x \<and>
      (\<forall>b. rl_start x \<le> b \<and> b < rl_end x \<longrightarrow> rls_view rls t (rl_owner x) b = Some (rl_type x)) \<and>
      (\<exists>st. rl_get rls t = Some st \<and> x \<in> set (entries st) \<and>
        (\<forall>y\<in>set (entries st). rl_owner y \<noteq> own \<and> (rl_type y = Write \<or> ty = Write) \<and> rl_start y < e \<and> s < rl_end y \<longrightarrow>
          (rl_start x, rl_end x, rl_owner x) \<le> (rl_start y, rl_end y, rl_owner y))) \<and>
      (\<forall>b own' ty'. s \<le> b \<and> b < e \<and> b < rl_start x \<and> own' \<noteq> own \<and> rls_view rls t own' b = Some ty' \<longrightarrow>
        ty' = Read \<and> ty = Read))"
proof -
  obtain rls' r where att: "set_lock_attempt rls own t s e ty False = (rls', r)"
    by (cases "set_lock_attempt rls own t s e ty False")
  note free = set_lock_attempt_cases(3) [OF assms att]
  have valid: "validate_range s e = Inr ()" using assms by (simp add: validate_range_def)
  show ?thesis
  proof (cases "rl_get rls t")
    case None
    then show ?thesis using free by (simp add: get_lock_def valid lock_free_def att)
  next
    case (Some st)
    have wf: "entries_wf (entries st)" by (rule rls_wfD(2) [OF assms(1) Some])
    have main: "rl_owner x \<noteq> own \<and> (rl_type x = Write \<or> ty = Write) \<and> rl_start x < e \<and> s < rl_end x \<and>
      (\<forall>b. rl_start x \<le> b \<and> b < rl_end x \<longrightarrow> rls_view rls t (rl_owner x) b = Some (rl_type x)) \<and>
      (\<exists>st. rl_get rls t = Some st \<and> x \<in> set (entries st) \<and>
        (\<forall>y\<in>set (entries st). rl_owner y \<noteq> own \<and> (rl_type y = Write \<or> ty = Write) \<and> rl_start y < e \<and> s < rl_end y \<longrightarrow>
          (rl_start x, rl_end x, rl_owner x) \<le> (rl_start y, rl_end y, rl_owner y))) \<and>
      (\<forall>b own' ty'. s \<le> b \<and> b < e \<and> b < rl_start x \<and> own' \<noteq> own \<and> rls_view rls t own' b = Some ty' \<longrightarrow>
        ty' = Read \<and> ty = Read)"
      if "conflict (entries st) own s e ty = Some x" for x
    proof -
      note c = conflict_Some [OF wf assms(3) that]
      have "rl_view (entries st) (rl_owner x) b = Some (rl_type x)" if "rl_start x \<le> b" "b < rl_end x" for b
        using c(1) that rl_view_Some [OF wf] by (auto simp: covers_def)
      moreover have "ty' = Read \<and> ty = Read" if "s \<le> b" "b < e" "b < rl_start x" "own' \<noteq> own"
          "rl_view (entries st) own' b = Some ty'" for b own' ty'
        using c(5) [OF that(1-3)] that(4,5) unfolding blocked_at_def lock_types_conflict_def by blast
      moreover have "(rl_start x, rl_end x, rl_owner x) \<le> (rl_start y, rl_end y, rl_owner y)"
        if "y \<in> set (entries st)" "rl_owner y \<noteq> own" "rl_type y = Write \<or> ty = Write" "rl_start y < e" "s < rl_end y" for y
        using c(6) [OF that(1,2)] that(3-5) by (simp add: ranges_overlap_def lock_types_conflict_iff entry_key_def)
      ultimately show ?thesis using c(1-4) Some by (auto simp: ranges_overlap_def lock_types_conflict_iff rls_view_def)
    qed
    have g: "get_lock rls own t s e ty = Inr (conflict (entries st) own s e ty)"
      using Some by (simp add: get_lock_def valid)
    have f: "(conflict (entries st) own s e ty = None) = (\<exists>q. r = Acquired q)"
      using free Some by (simp add: lock_free_def)
    show ?thesis unfolding g att snd_conv using main f by blast
  qed
qed

theorem get_lock_reports_witness:
  "rls_wf example_locks \<and>
   (\<exists>x. get_lock example_locks (Posix 2) (FdObject 16) 50 60 Write = Inr (Some x) \<and> rl_owner x \<noteq> Posix 2)"
proof -
  obtain rls' r where att: "set_lock_attempt example_locks (Posix 2) (FdObject 16) 50 60 Write False = (rls', r)"
    by (cases "set_lock_attempt example_locks (Posix 2) (FdObject 16) 50 60 Write False")
  have "\<exists>b own' ty'. 50 \<le> b \<and> b < 60 \<and> own' \<noteq> Posix 2 \<and>
      rls_view example_locks (FdObject 16) own' b = Some ty' \<and> (ty' = Write \<or> Write = Write)"
    by (rule exI [of _ 50], rule exI [of _ "Posix 1"]) (simp add: example_locks_view)
  then have "\<not> lock_free example_locks (Posix 2) (FdObject 16) 50 60 Write"
    using lock_free_view [OF example_locks_wf, of 50 60 "Posix 2" "FdObject 16" Write] by auto
  then have "\<not> (\<exists>q. r = Acquired q)" using set_lock_attempt_cases(3) [OF example_locks_wf _ _ _ att] by simp
  then show ?thesis
    using get_lock_reports [OF example_locks_wf, of 50 60 "Posix 2" "FdObject 16" Write] att example_locks_wf
    by auto
qed

text \<open>
  C22: compaction. The in-place loop of \<open>coalesce\<close> computes the fold that merges the sorted entries into
  a separate list. On well-formed entries the result is ordered, no two entries of one owner and type
  touch or overlap, and every owner holds the same lock on every byte as before.
\<close>

theorem coalesce_canonical:
  "coalesce es = foldl merge_out [] (sort_key coalesce_key es) \<and>
   (entries_wf es \<longrightarrow> canonical (coalesce es) \<and> entries_wf (coalesce es) \<and>
     (\<forall>own b. rl_view (coalesce es) own b = rl_view es own b))"
  using coalesce_fold coalesce_correct by simp

definition example_entries :: "record_lock list" where
  "example_entries =
     [\<lparr>rl_owner = Posix 1, rl_start = 5, rl_end = 10, rl_type = Read\<rparr>,
      \<lparr>rl_owner = Posix 1, rl_start = 0, rl_end = 5, rl_type = Read\<rparr>]"

lemma example_entries_wf: "entries_wf example_entries"
  by (auto simp: entries_wf_def entry_ok_def covers_def example_entries_def)

theorem coalesce_canonical_witness:
  "entries_wf example_entries \<and> canonical (coalesce example_entries) \<and>
   coalesce example_entries = [\<lparr>rl_owner = Posix 1, rl_start = 0, rl_end = 10, rl_type = Read\<rparr>]"
proof -
  have "foldl merge_out [] (sort_key coalesce_key example_entries) =
      [\<lparr>rl_owner = Posix 1, rl_start = 0, rl_end = 10, rl_type = Read\<rparr>]"
    by (simp add: example_entries_def coalesce_key_def merge_out_def mergeable_def)
  then show ?thesis using coalesce_canonical [of example_entries] example_entries_wf by metis
qed

text \<open>
  C31: resolving a range. For a base, a relative start and a length that fit in 64 bits, \<open>resolve_range\<close>
  succeeds exactly when the range denoted (up to the greatest offset for length zero, backwards for a
  negative length) starts at a non-negative offset, is not empty and ends within 64 bits; it then
  returns that range, and \<open>EINVAL\<close> otherwise.
\<close>

theorem resolve_range_exact:
  assumes "i64_min \<le> base" "base \<le> i64_max" "i64_min \<le> rel" "rel \<le> i64_max" "i64_min \<le> len" "len \<le> i64_max"
  shows "resolve_range base rel len =
    (let start = base + rel; lo = (if len < 0 then start + len else start);
         hi = (if len = 0 then i64_max else if len < 0 then start else start + len)
     in if 0 \<le> lo \<and> lo < hi \<and> hi \<le> i64_max then Inr (lo, hi) else Inl EINVAL)"
  using assms by (auto simp: resolve_range_def checked_add_i64_def validate_range_def Let_def)

theorem resolve_range_exact_witness:
  "resolve_range 0 10 (-5) = Inr (5, 10) \<and> resolve_range 0 4 (-5) = Inl EINVAL \<and>
   resolve_range i64_max 1 1 = Inl EINVAL"
  using resolve_range_exact [of 0 10 "-5"] resolve_range_exact [of 0 4 "-5"] resolve_range_exact [of i64_max 1 1]
  by simp

end
