(* ===== verification/Wait_Queue.thy ===== *)
theory Wait_Queue
  imports Prelude
begin

text \<open>
  The wait queues of the scheduler (\<^verbatim>\<open>modules/axtask/src/wait_queue.rs\<close>): the queue of blocked tasks,
  the registered wakers of polling futures and the operations on them. A wait queue and a task are
  known by numbers; the state of the tasks and the wake-ups delivered to wakers are part of the
  world. The run queues that a readied task enters and the tracing contexts are left out.
\<close>

datatype task_state = Running | Ready | Blocked | Exited

text \<open>\<open>WakerEntry\<close>; the notification flag is shared under the entry's number.\<close>

record waker_entry =
  we_id :: "64 word"
  we_task :: nat
  we_waker :: nat

record wait_world =
  wqueue :: "nat \<Rightarrow> nat list"
  wwakers :: "nat \<Rightarrow> waker_entry list"
  task_st :: "nat \<Rightarrow> task_state"
  in_wait_queue :: "nat \<Rightarrow> bool"
  notified :: "64 word \<Rightarrow> bool"
  woken :: "nat list"
  waker_entry_id :: "64 word"

definition set_in_wait_queue :: "wait_world \<Rightarrow> nat \<Rightarrow> bool \<Rightarrow> wait_world" where
  "set_in_wait_queue w t b = w\<lparr>in_wait_queue := (in_wait_queue w)(t := b)\<rparr>"

text \<open>\<open>TaskInner::transition_state\<close>: a compare-and-exchange.\<close>

definition transition_state :: "wait_world \<Rightarrow> nat \<Rightarrow> task_state \<Rightarrow> task_state \<Rightarrow> wait_world \<times> bool" where
  "transition_state w t old new =
     (if task_st w t = old then (w\<lparr>task_st := (task_st w)(t := new)\<rparr>, True) else (w, False))"

text \<open>
  The part of \<open>blocked_resched\<close> under the lock of the queue; the assertion that the current task runs
  is its panic.
\<close>

definition blocked_resched :: "wait_world \<Rightarrow> nat \<Rightarrow> nat \<Rightarrow> (errno, wait_world) outcome" where
  "blocked_resched w q t =
     (if task_st w t \<noteq> Running then Panic
      else Ok (w\<lparr>task_st := (task_st w)(t := Blocked), in_wait_queue := (in_wait_queue w)(t := True),
                 wqueue := (wqueue w)(q := wqueue w q @ [t])\<rparr>))"

definition cancel_events :: "wait_world \<Rightarrow> nat \<Rightarrow> nat \<Rightarrow> wait_world" where
  "cancel_events w q t =
     (if t \<in> set (wqueue w q)
      then set_in_wait_queue (w\<lparr>wqueue := (wqueue w)(q := filter (\<lambda>u. u \<noteq> t) (wqueue w q))\<rparr>) t False
      else w)"

definition unblock_one_task :: "wait_world \<Rightarrow> nat \<Rightarrow> wait_world" where
  "unblock_one_task w t = fst (transition_state (set_in_wait_queue w t False) t Blocked Ready)"

text \<open>
  The loop of \<open>notify_one\<close>: it pops tasks until one is blocked (which it returns) or a running task had
  enrolled itself (which consumes the notification).
\<close>

fun notify_scan :: "wait_world \<Rightarrow> nat list \<Rightarrow> wait_world \<times> nat list \<times> nat option \<times> bool" where
  "notify_scan w [] = (w, [], None, False)"
| "notify_scan w (t # q) =
     (if task_st w t = Blocked then (w, q, Some t, False)
      else if task_st w t = Running \<and> in_wait_queue w t
      then (set_in_wait_queue w t False, q, None, True)
      else notify_scan (set_in_wait_queue w t False) q)"

definition notify_one :: "wait_world \<Rightarrow> nat \<Rightarrow> wait_world \<times> bool" where
  "notify_one w q =
     (case notify_scan w (wqueue w q) of (w1, rest, target, consumed_running) \<Rightarrow>
        let w2 = w1\<lparr>wqueue := (wqueue w1)(q := rest)\<rparr>
        in case target of
             Some t \<Rightarrow> (unblock_one_task w2 t, True)
           | None \<Rightarrow>
               if consumed_running then (w2, True)
               else (case wwakers w2 q of
                       [] \<Rightarrow> (w2, False)
                     | e # es \<Rightarrow>
                         (w2\<lparr>wwakers := (wwakers w2)(q := es), notified := (notified w2)(we_id e := True),
                             woken := woken w2 @ [we_waker e]\<rparr>, True)))"

text \<open>\<open>notify_all\<close> takes the whole queue under its lock and then unblocks the tasks one by one.\<close>

definition take_queue :: "wait_world \<Rightarrow> nat \<Rightarrow> wait_world \<times> nat list" where
  "take_queue w q = (w\<lparr>wqueue := (wqueue w)(q := [])\<rparr>, wqueue w q)"

definition notify_task_in_all :: "wait_world \<Rightarrow> nat \<Rightarrow> wait_world" where
  "notify_task_in_all w t =
     (if task_st w t = Blocked then unblock_one_task w t else set_in_wait_queue w t False)"

definition notify_wakers :: "wait_world \<Rightarrow> nat \<Rightarrow> wait_world" where
  "notify_wakers w q =
     w\<lparr>notified := (\<lambda>i. i \<in> we_id ` set (wwakers w q) \<or> notified w i),
       wwakers := (wwakers w)(q := []), woken := woken w @ map we_waker (wwakers w q)\<rparr>"

definition notify_all :: "wait_world \<Rightarrow> nat \<Rightarrow> wait_world" where
  "notify_all w q =
     (case take_queue w q of (w1, tasks) \<Rightarrow> notify_wakers (foldl notify_task_in_all w1 tasks) q)"

definition notify_task :: "wait_world \<Rightarrow> nat \<Rightarrow> nat \<Rightarrow> wait_world \<times> bool" where
  "notify_task w q t =
     (if t \<in> set (wqueue w q)
      then (unblock_one_task (w\<lparr>wqueue := (wqueue w)(q := remove1 t (wqueue w q))\<rparr>) t, True)
      else (w, False))"

definition requeue :: "wait_world \<Rightarrow> nat \<Rightarrow> nat \<Rightarrow> nat \<Rightarrow> wait_world \<times> nat" where
  "requeue w q count target =
     (let n = min count (length (wqueue w q)); tasks = take n (wqueue w q);
          w1 = w\<lparr>wqueue := (wqueue w)(q := drop n (wqueue w q))\<rparr>
      in (if tasks = [] then w1 else w1\<lparr>wqueue := (wqueue w1)(target := wqueue w1 target @ tasks)\<rparr>, n))"

definition wq_len :: "wait_world \<Rightarrow> nat \<Rightarrow> nat" where
  "wq_len w q = length (wqueue w q)"

definition wq_is_empty :: "wait_world \<Rightarrow> nat \<Rightarrow> bool" where
  "wq_is_empty w q = (if wqueue w q \<noteq> [] then False else wwakers w q = [])"

definition prune_exited :: "wait_world \<Rightarrow> nat \<Rightarrow> wait_world" where
  "prune_exited w q = w\<lparr>wqueue := (wqueue w)(q := filter (\<lambda>t. task_st w t \<noteq> Exited) (wqueue w q))\<rparr>"

text \<open>\<^verbatim>\<open>iter_mut().find(..)\<close> followed by an assignment.\<close>

fun update_first :: "('a \<Rightarrow> bool) \<Rightarrow> ('a \<Rightarrow> 'a) \<Rightarrow> 'a list \<Rightarrow> 'a list" where
  "update_first P f [] = []"
| "update_first P f (x # xs) = (if P x then f x # xs else x # update_first P f xs)"

text \<open>
  \<open>register_waker_inner\<close> for the current task; two wakers wake the same task exactly when they are
  equal.
\<close>

definition register_waker_inner :: "wait_world \<Rightarrow> nat \<Rightarrow> nat \<Rightarrow> nat \<Rightarrow> bool \<Rightarrow> wait_world \<times> 64 word" where
  "register_waker_inner w q current waker deduplicate_task =
     (case (if deduplicate_task then find (\<lambda>e. we_task e = current) (wwakers w q) else None) of
        Some e \<Rightarrow>
          (w\<lparr>wwakers := (wwakers w)(q := 
              update_first (\<lambda>x. we_task x = current) (\<lambda>x. x\<lparr>we_waker := waker\<rparr>) (wwakers w q))\<rparr>,
           we_id e)
      | None \<Rightarrow>
          (let i = waker_entry_id w
           in (w\<lparr>waker_entry_id := i + 1, notified := (notified w)(i := False),
                 wwakers := (wwakers w)(q := wwakers w q @ [\<lparr>we_id = i, we_task = current, we_waker = waker\<rparr>])\<rparr>, i)))"

definition update_registered_waker :: "wait_world \<Rightarrow> nat \<Rightarrow> 64 word \<Rightarrow> nat \<Rightarrow> wait_world" where
  "update_registered_waker w q i waker =
     w\<lparr>wwakers := (wwakers w)(q := update_first (\<lambda>x. we_id x = i) (\<lambda>x. x\<lparr>we_waker := waker\<rparr>) (wwakers w q))\<rparr>"

definition unregister_waker :: "wait_world \<Rightarrow> nat \<Rightarrow> 64 word \<Rightarrow> wait_world" where
  "unregister_waker w q i = w\<lparr>wwakers := (wwakers w)(q := filter (\<lambda>e. we_id e \<noteq> i) (wwakers w q))\<rparr>"

section \<open>Effect of the notifications\<close>

lemma set_in_wait_queue_simps [simp]:
  "task_st (set_in_wait_queue w t b) = task_st w" "wqueue (set_in_wait_queue w t b) = wqueue w"
  "wwakers (set_in_wait_queue w t b) = wwakers w" "notified (set_in_wait_queue w t b) = notified w"
  "woken (set_in_wait_queue w t b) = woken w" "waker_entry_id (set_in_wait_queue w t b) = waker_entry_id w"
  "in_wait_queue (set_in_wait_queue w t b) = (in_wait_queue w)(t := b)"
  by (simp_all add: set_in_wait_queue_def)

lemma unblock_one_task_simps [simp]:
  "task_st (unblock_one_task w t) = (if task_st w t = Blocked then (task_st w)(t := Ready) else task_st w)"
  "wqueue (unblock_one_task w t) = wqueue w" "wwakers (unblock_one_task w t) = wwakers w"
  "notified (unblock_one_task w t) = notified w" "woken (unblock_one_task w t) = woken w"
  "in_wait_queue (unblock_one_task w t) = (in_wait_queue w)(t := False)" "waker_entry_id (unblock_one_task w t) = waker_entry_id w"
  by (simp_all add: unblock_one_task_def transition_state_def)

lemma notify_task_in_all_simps [simp]:
  "task_st (notify_task_in_all w t) = (if task_st w t = Blocked then (task_st w)(t := Ready) else task_st w)"
  "wqueue (notify_task_in_all w t) = wqueue w" "wwakers (notify_task_in_all w t) = wwakers w"
  "notified (notify_task_in_all w t) = notified w" "woken (notify_task_in_all w t) = woken w"
  "in_wait_queue (notify_task_in_all w t) = (in_wait_queue w)(t := False)"
  "waker_entry_id (notify_task_in_all w t) = waker_entry_id w"
  by (simp_all add: notify_task_in_all_def)

lemma take_queue_simps [simp]:
  "task_st (fst (take_queue w q)) = task_st w" "wqueue (fst (take_queue w q)) = (wqueue w)(q := [])"
  "wwakers (fst (take_queue w q)) = wwakers w" "snd (take_queue w q) = wqueue w q"
  by (simp_all add: take_queue_def)

lemma blocked_resched_Ok:
  "blocked_resched w q t = Ok w' \<longleftrightarrow> task_st w t = Running \<and>
     w' = w\<lparr>task_st := (task_st w)(t := Blocked), in_wait_queue := (in_wait_queue w)(t := True),
            wqueue := (wqueue w)(q := wqueue w q @ [t])\<rparr>"
  by (auto simp: blocked_resched_def)

lemma cancel_events_simps [simp]:
  "task_st (cancel_events w q t) = task_st w"
  "wqueue (cancel_events w q t) = (wqueue w)(q := filter (\<lambda>u. u \<noteq> t) (wqueue w q))"
  by (auto simp: cancel_events_def fun_eq_iff intro!: filter_True [symmetric])

lemma notify_fold:
  "task_st (foldl notify_task_in_all w ts) u = (if u \<in> set ts \<and> task_st w u = Blocked then Ready else task_st w u)"
  "wqueue (foldl notify_task_in_all w ts) = wqueue w" "wwakers (foldl notify_task_in_all w ts) = wwakers w"
  "notified (foldl notify_task_in_all w ts) = notified w" "woken (foldl notify_task_in_all w ts) = woken w"
  "in_wait_queue (foldl notify_task_in_all w ts) u = (u \<notin> set ts \<and> in_wait_queue w u)"
  "waker_entry_id (foldl notify_task_in_all w ts) = waker_entry_id w"
  by (induction ts arbitrary: w) auto

text \<open>What \<open>notify_one\<close> skips: neither blocked nor enrolled while running.\<close>

definition stale :: "wait_world \<Rightarrow> nat \<Rightarrow> bool" where
  "stale w t \<longleftrightarrow> task_st w t \<noteq> Blocked \<and> \<not> (task_st w t = Running \<and> in_wait_queue w t)"

lemma stale_set_in_wait_queue: "stale w t \<Longrightarrow> stale (set_in_wait_queue w t False) = stale w"
  by (auto simp: stale_def fun_eq_iff)

text \<open>What a scan takes out of the queue: the stale entries at its front, and the receiver behind them.\<close>

definition taken :: "wait_world \<Rightarrow> nat list \<Rightarrow> nat set" where
  "taken w q = set (takeWhile (stale w) q) \<union> set_option (find (\<lambda>t. \<not> stale w t) q)"

lemma notify_scan_spec:
  "notify_scan w q = (w', rest, target, consumed) \<Longrightarrow>
     task_st w' = task_st w \<and> wqueue w' = wqueue w \<and> wwakers w' = wwakers w \<and> woken w' = woken w \<and>
     notified w' = notified w \<and> waker_entry_id w' = waker_entry_id w \<and> rest = tl (dropWhile (stale w) q) \<and>
     (\<forall>t. t \<noteq> the target \<or> target = None \<longrightarrow> in_wait_queue w' t = (t \<notin> taken w q \<and> in_wait_queue w t)) \<and>
     (case find (\<lambda>t. \<not> stale w t) q of
        None \<Rightarrow> target = None \<and> \<not> consumed
      | Some t \<Rightarrow> if task_st w t = Blocked then target = Some t \<and> \<not> consumed else target = None \<and> consumed)"
proof (induction w q rule: notify_scan.induct)
  case (2 w t q)
  show ?case
  proof (cases "stale w t")
    case True
    then have "task_st w t \<noteq> Blocked" "\<not> (task_st w t = Running \<and> in_wait_queue w t)" by (auto simp: stale_def)
    then show ?thesis using 2 True by (auto simp: stale_set_in_wait_queue taken_def split: option.splits if_splits)
  next
    case False
    then show ?thesis using "2.prems" by (cases "task_st w t = Blocked") (auto simp: stale_def taken_def split: if_splits)
  qed
qed (auto simp: taken_def)

text \<open>The whole effect of the two notifications.\<close>

lemma notify_all_effect:
  "notify_all w q = w\<lparr>wqueue := (wqueue w)(q := []), wwakers := (wwakers w)(q := []),
     task_st := (\<lambda>t. if t \<in> set (wqueue w q) \<and> task_st w t = Blocked then Ready else task_st w t),
     in_wait_queue := (\<lambda>t. t \<notin> set (wqueue w q) \<and> in_wait_queue w t),
     notified := (\<lambda>i. i \<in> we_id ` set (wwakers w q) \<or> notified w i),
     woken := woken w @ map we_waker (wwakers w q)\<rparr>"
  by (rule wait_world.equality) (auto simp: notify_all_def take_queue_def notify_wakers_def notify_fold fun_eq_iff)

lemma notify_one_effect:
  defines "receiver \<equiv> \<lambda>w q. find (\<lambda>t. \<not> stale w t) (wqueue w q)"
  shows "notify_one w q =
    (w\<lparr>wqueue := (wqueue w)(q := tl (dropWhile (stale w) (wqueue w q))),
       wwakers := (if receiver w q = None then (wwakers w)(q := tl (wwakers w q)) else wwakers w),
       task_st := (\<lambda>t. if receiver w q = Some t \<and> task_st w t = Blocked then Ready else task_st w t),
       in_wait_queue := (\<lambda>t. t \<notin> taken w (wqueue w q) \<and> in_wait_queue w t),
       notified := (\<lambda>i. receiver w q = None \<and> i \<in> we_id ` set (take 1 (wwakers w q)) \<or> notified w i),
       woken := woken w @ (if receiver w q = None then map we_waker (take 1 (wwakers w q)) else [])\<rparr>,
     \<not> (receiver w q = None \<and> wwakers w q = []))"
proof -
  obtain w1 rest target consumed where scan: "notify_scan w (wqueue w q) = (w1, rest, target, consumed)"
    by (cases "notify_scan w (wqueue w q)") auto
  note sp = notify_scan_spec [OF scan]
  show ?thesis
  proof (cases "find (\<lambda>t. \<not> stale w t) (wqueue w q)")
    case None
    then show ?thesis
      using sp scan unfolding receiver_def
      by (cases "wwakers w q") (auto simp: notify_one_def Let_def fun_eq_iff intro!: wait_world.equality)
  next
    case (Some t)
    then have "t \<in> taken w (wqueue w q)" by (simp add: taken_def)
    then show ?thesis
      using sp scan Some unfolding receiver_def
      by (cases "task_st w t = Blocked") (auto simp: notify_one_def Let_def fun_eq_iff intro!: wait_world.equality)
  qed
qed

text \<open>Notifying one by one, until nobody is left.\<close>

fun notify_each :: "nat \<Rightarrow> wait_world \<Rightarrow> nat \<Rightarrow> wait_world option" where
  "notify_each 0 w q = None"
| "notify_each (Suc n) w q =
     (case notify_one w q of (w', received) \<Rightarrow> if received then notify_each n w' q else Some w')"

lemma set_taken_rest: "set q = taken w q \<union> set (tl (dropWhile (stale w) q))"
  by (induction q) (auto simp: taken_def)

lemma taken_receiver: "t \<in> taken w q \<Longrightarrow> task_st w t = Blocked \<Longrightarrow> find (\<lambda>t. \<not> stale w t) q = Some t"
  by (auto simp: taken_def stale_def dest!: set_takeWhileD)

lemma notify_one_all: "notify_all (fst (notify_one w q)) q = notify_all w q"
proof -
  let ?w = "fst (notify_one w q)" and ?r = "find (\<lambda>t. \<not> stale w t) (wqueue w q)" and ?q = "tl (dropWhile (stale w) (wqueue w q))"
  have sq: "set (wqueue w q) = taken w (wqueue w q) \<union> set ?q" by (rule set_taken_rest)
  have "?r = Some t \<longleftrightarrow> t \<in> taken w (wqueue w q)" if "task_st w t = Blocked" for t
    using taken_receiver [OF _ that] by (auto simp: taken_def)
  then have "(\<lambda>t. if t \<in> set ?q \<and> task_st ?w t = Blocked then Ready else task_st ?w t) =
      (\<lambda>t. if t \<in> set (wqueue w q) \<and> task_st w t = Blocked then Ready else task_st w t)"
    unfolding sq by (auto simp: notify_one_effect fun_eq_iff)
  moreover have "(\<lambda>t. t \<notin> set ?q \<and> in_wait_queue ?w t) = (\<lambda>t. t \<notin> set (wqueue w q) \<and> in_wait_queue w t)"
    unfolding sq by (auto simp: notify_one_effect)
  moreover have "wqueue ?w q = ?q" "(wqueue ?w)(q := []) = (wqueue w)(q := [])" "waker_entry_id ?w = waker_entry_id w"
    by (simp_all add: notify_one_effect)
  moreover have "(wwakers ?w)(q := []) = (wwakers w)(q := [])" by (simp add: notify_one_effect)
  moreover have "(\<lambda>i. i \<in> we_id ` set (wwakers ?w q) \<or> notified ?w i) = (\<lambda>i. i \<in> we_id ` set (wwakers w q) \<or> notified w i)"
    by (cases "wwakers w q") (auto simp: notify_one_effect)
  moreover have "woken ?w @ map we_waker (wwakers ?w q) = woken w @ map we_waker (wwakers w q)"
    by (cases "wwakers w q") (auto simp: notify_one_effect)
  ultimately show ?thesis unfolding notify_all_effect by (intro wait_world.equality) simp_all
qed

lemma notify_one_last: "\<not> snd (notify_one w q) \<Longrightarrow> fst (notify_one w q) = notify_all w q"
proof -
  assume "\<not> snd (notify_one w q)"
  then have n: "find (\<lambda>t. \<not> stale w t) (wqueue w q) = None" "wwakers w q = []" by (simp_all add: notify_one_effect)
  have all: "stale w t" if "t \<in> set (wqueue w q)" for t using n(1) that by (simp add: find_None_iff)
  then have "dropWhile (stale w) (wqueue w q) = []" by simp
  then have "tl (dropWhile (stale w) (wqueue w q)) = []" by (simp only: list.sel)
  moreover have "taken w (wqueue w q) = set (wqueue w q)"
    using n(1) all by (simp add: taken_def takeWhile_eq_all_conv [THEN iffD2])
  moreover have "task_st w t \<noteq> Blocked" if "t \<in> set (wqueue w q)" for t using all [OF that] by (simp add: stale_def)
  ultimately show ?thesis
    using n unfolding notify_all_effect notify_one_effect by (intro wait_world.equality) (auto simp: fun_eq_iff)
qed

lemma notify_one_less:
  assumes "snd (notify_one w q)"
  shows "length (wqueue (fst (notify_one w q)) q) + length (wwakers (fst (notify_one w q)) q) <
    length (wqueue w q) + length (wwakers w q)"
proof -
  have "length (tl (dropWhile (stale w) (wqueue w q))) \<le> length (wqueue w q)"
    by (simp add: length_dropWhile_le le_diff_conv le_SucI)
  moreover have "length (tl (dropWhile (stale w) (wqueue w q))) < length (wqueue w q)"
    if "find (\<lambda>t. \<not> stale w t) (wqueue w q) \<noteq> None"
    using length_dropWhile_le [of "stale w" "wqueue w q"] that by (cases "wqueue w q") (auto simp: less_Suc_eq_le split: if_splits)
  ultimately show ?thesis
    using assms by (cases "wwakers w q") (auto simp: notify_one_effect)
qed

lemma notify_each_all:
  "length (wqueue w q) + length (wwakers w q) < n \<Longrightarrow> notify_each n w q = Some (notify_all w q)"
proof (induction n arbitrary: w)
  case (Suc n)
  obtain w' b where nb: "notify_one w q = (w', b)" by (cases "notify_one w q")
  then show ?case
    using Suc notify_one_less [of w q] notify_one_last [of w q] notify_one_all [of w q] by (cases b) simp_all
qed simp

section \<open>Properties\<close>

text \<open>
  C35: \<open>notify_all\<close> and the repetition of \<open>notify_one\<close>. \<open>notify_all\<close> empties the queue and the list of wakers, readies
  every blocked task of the queue, clears the enrolment of all of its tasks, sets the flag of every registered waker and
  invokes the wakers in order; everything else stays as it was. Calling \<open>notify_one\<close> until it reports that nobody is left
  has exactly the same effect, after at most one call for each entry of the two lists and a last one.
\<close>

theorem notify_all_drains:
  "notify_all w q = w\<lparr>wqueue := (wqueue w)(q := []), wwakers := (wwakers w)(q := []),
     task_st := (\<lambda>t. if t \<in> set (wqueue w q) \<and> task_st w t = Blocked then Ready else task_st w t),
     in_wait_queue := (\<lambda>t. t \<notin> set (wqueue w q) \<and> in_wait_queue w t),
     notified := (\<lambda>i. i \<in> we_id ` set (wwakers w q) \<or> notified w i),
     woken := woken w @ map we_waker (wwakers w q)\<rparr> \<and>
   (\<forall>n. length (wqueue w q) + length (wwakers w q) < n \<longrightarrow> notify_each n w q = Some (notify_all w q))"
  using notify_all_effect notify_each_all by blast

text \<open>
  C36: \<open>notify_one\<close> hands a notification to at most one receiver and reports whether there was one. The
  receiver is the first task of the queue that is blocked or has enrolled itself while running. It and the
  stale entries before it leave the queue and their enrolment is cleared; for a running receiver this is the
  notification. A blocked receiver becomes ready. Only when there is no such task does the waker registered first leave its
  list, with its flag set, and is invoked. Everything else stays as it was.
\<close>

theorem notify_one_wakes_one:
  "let receiver = find (\<lambda>t. \<not> stale w t) (wqueue w q);
       gone = takeWhile (stale w) (wqueue w q) @ (case receiver of Some t \<Rightarrow> [t] | None \<Rightarrow> []);
       entry = (if receiver = None then take 1 (wwakers w q) else [])
   in wqueue w q = gone @ tl (dropWhile (stale w) (wqueue w q)) \<and>
     notify_one w q =
       (w\<lparr>wqueue := (wqueue w)(q := tl (dropWhile (stale w) (wqueue w q))),
          wwakers := (wwakers w)(q := drop (length entry) (wwakers w q)),
          task_st := (\<lambda>t. if receiver = Some t \<and> task_st w t = Blocked then Ready else task_st w t),
          in_wait_queue := (\<lambda>t. t \<notin> set gone \<and> in_wait_queue w t),
          notified := (\<lambda>i. i \<in> we_id ` set entry \<or> notified w i),
          woken := woken w @ map we_waker entry\<rparr>,
        \<not> (receiver = None \<and> wwakers w q = []))"
proof -
  let ?r = "find (\<lambda>t. \<not> stale w t) (wqueue w q)"
  have gone: "set (takeWhile (stale w) (wqueue w q) @ (case ?r of Some t \<Rightarrow> [t] | None \<Rightarrow> [])) = taken w (wqueue w q)"
    by (auto simp: taken_def split: option.splits)
  have parts: "xs = (takeWhile (stale w) xs @ (case find (\<lambda>t. \<not> stale w t) xs of Some t \<Rightarrow> [t] | None \<Rightarrow> [])) @
      tl (dropWhile (stale w) xs)" for xs
    by (induction xs) auto
  have "(if ?r = None then (wwakers w)(q := tl (wwakers w q)) else wwakers w) =
      (wwakers w)(q := drop (length (if ?r = None then take 1 (wwakers w q) else [])) (wwakers w q))"
    by (cases "wwakers w q") auto
  moreover have "(\<lambda>i. ?r = None \<and> i \<in> we_id ` set (take 1 (wwakers w q)) \<or> notified w i) =
      (\<lambda>i. i \<in> we_id ` set (if ?r = None then take 1 (wwakers w q) else []) \<or> notified w i)" by auto
  moreover have "(if ?r = None then map we_waker (take 1 (wwakers w q)) else []) =
      map we_waker (if ?r = None then take 1 (wwakers w q) else [])" by simp
  ultimately show ?thesis
    unfolding Let_def gone notify_one_effect by (intro conjI parts) (simp only: de_Morgan_conj)
qed

text \<open>A queue with a stale task, a blocked one and a registered waker.\<close>

definition example_queue :: wait_world where
  "example_queue =
     \<lparr>wqueue = (\<lambda>_. [])(0 := [1, 2]), wwakers = (\<lambda>_. [])(0 := [\<lparr>we_id = 7, we_task = 3, we_waker = 30\<rparr>]),
      task_st = (\<lambda>_. Running)(1 := Ready, 2 := Blocked), in_wait_queue = (\<lambda>t. t = 1 \<or> t = 2), notified = (\<lambda>_. False),
      woken = [], waker_entry_id = 8\<rparr>"

theorem notify_all_drains_witness:
  "notify_each 4 example_queue 0 = Some (notify_all example_queue 0) \<and> task_st (notify_all example_queue 0) 2 = Ready \<and>
   \<not> in_wait_queue (notify_all example_queue 0) 2 \<and> woken (notify_all example_queue 0) = [30]"
proof -
  have "length (wqueue example_queue 0) + length (wwakers example_queue 0) < 4" by (simp add: example_queue_def)
  then have "notify_each 4 example_queue 0 = Some (notify_all example_queue 0)" using notify_all_drains by blast
  then show ?thesis by (simp add: notify_all_effect) (simp add: example_queue_def)
qed

end
