(* ===== verification/Record_Lock_Sync.thy ===== *)
theory Record_Lock_Sync
  imports Record_Lock Wait_Queue
begin

text \<open>
  Threads that call the record-lock operations concurrently (\<^verbatim>\<open>pulse_core/src/record_lock.rs\<close>). A step
  is one critical section: an access to the table under its lock, or one action on a wait queue. The
  loop of \<open>wait_until\<close> evaluates its condition and enqueues the thread while it holds the lock of the
  queue, which other operations on that queue wait for. Signals are free to be pending or not at
  every test, and a sleeping thread may also be woken by someone else.
\<close>

record rl_request =
  rq_owner :: record_lock_owner
  rq_target :: lock_target
  rq_start :: int
  rq_end :: int
  rq_type :: record_lock_type
  rq_blocking :: bool

text \<open>
  Where a thread is: outside; before the critical section of \<open>set_lock\<close>; past it as a waiter; about to
  evaluate the condition of \<open>wait_until\<close>; about to block, holding the lock of the queue; asleep in the queue; past \<open>wait_until\<close>; before \<open>finish_wait\<close>
  (and whether it then returns \<open>EINTR\<close>); in \<open>release_owner\<close> before a shard, with the queues collected so far; with tasks to
  unblock and queues to notify.
\<close>

datatype rl_pc =
    Idle
  | TrySet rl_request
  | GotQueue rl_request nat
  | Waiting rl_request nat
  | Blocking rl_request nat
  | Asleep rl_request nat
  | LeftWait rl_request nat
  | Finishing rl_request bool
  | Sweeping record_lock_owner nat "nat list"
  | Notifying "nat list" "nat list"

record rl_sys =
  rl_locks :: record_locks
  rl_world :: wait_world
  rl_pc_of :: "nat \<Rightarrow> rl_pc"

definition attempt :: "record_locks \<Rightarrow> rl_request \<Rightarrow> record_locks \<times> set_attempt" where
  "attempt rls r =
     set_lock_attempt rls (rq_owner r) (rq_target r) (rq_start r) (rq_end r) (rq_type r) (rq_blocking r)"

definition request_free :: "record_locks \<Rightarrow> rl_request \<Rightarrow> bool" where
  "request_free rls r = lock_free rls (rq_owner r) (rq_target r) (rq_start r) (rq_end r) (rq_type r)"

definition request_ok :: "rl_request \<Rightarrow> bool" where
  "request_ok r \<longleftrightarrow> 0 \<le> rq_start r \<and> rq_start r < rq_end r \<and> rq_end r \<le> i64_max"

definition goto :: "rl_sys \<Rightarrow> nat \<Rightarrow> rl_pc \<Rightarrow> rl_sys" where
  "goto s t pc = s\<lparr>rl_pc_of := (rl_pc_of s)(t := pc)\<rparr>"

definition queue_unlocked :: "rl_sys \<Rightarrow> nat \<Rightarrow> bool" where
  "queue_unlocked s q \<longleftrightarrow> (\<forall>u r. rl_pc_of s u \<noteq> Blocking r q)"

inductive rl_step :: "nat \<Rightarrow> rl_sys \<Rightarrow> rl_sys \<Rightarrow> bool" where
  call_set: "rl_pc_of s t = Idle \<Longrightarrow> validate_range (rq_start r) (rq_end r) = Inr () \<Longrightarrow> rq_end r \<le> i64_max \<Longrightarrow>
    rl_step t s (goto s t (TrySet r))"
| set_acquired: "rl_pc_of s t = TrySet r \<Longrightarrow> attempt (rl_locks s) r = (rls, Acquired q) \<Longrightarrow>
    rl_step t s (goto (s\<lparr>rl_locks := rls\<rparr>) t (Notifying [] [q]))"
| set_failed: "rl_pc_of s t = TrySet r \<Longrightarrow> attempt (rl_locks s) r = (rls, Failed err) \<Longrightarrow>
    rl_step t s (goto (s\<lparr>rl_locks := rls\<rparr>) t Idle)"
| set_wait: "rl_pc_of s t = TrySet r \<Longrightarrow> attempt (rl_locks s) r = (rls, MustWait q) \<Longrightarrow>
    rl_step t s (goto (s\<lparr>rl_locks := rls\<rparr>) t (GotQueue r q))"
| signal_early: "rl_pc_of s t = GotQueue r q \<Longrightarrow> rl_step t s (goto s t (Finishing r True))"
| enter_wait: "rl_pc_of s t = GotQueue r q \<Longrightarrow> rl_step t s (goto s t (Waiting r q))"
| wait_signal: "rl_pc_of s t = Waiting r q \<Longrightarrow> queue_unlocked s q \<Longrightarrow> rl_step t s (goto s t (LeftWait r q))"
| wait_free: "rl_pc_of s t = Waiting r q \<Longrightarrow> queue_unlocked s q \<Longrightarrow> request_free (rl_locks s) r \<Longrightarrow>
    rl_step t s (goto s t (LeftWait r q))"
| wait_check: "rl_pc_of s t = Waiting r q \<Longrightarrow> queue_unlocked s q \<Longrightarrow> \<not> request_free (rl_locks s) r \<Longrightarrow>
    rl_step t s (goto s t (Blocking r q))"
| wait_block: "rl_pc_of s t = Blocking r q \<Longrightarrow> blocked_resched (rl_world s) q t = Ok w \<Longrightarrow>
    rl_step t s (goto (s\<lparr>rl_world := w\<rparr>) t (Asleep r q))"
| woken_elsewhere: "rl_pc_of s t = Asleep r q \<Longrightarrow> task_st (rl_world s) t = Blocked \<Longrightarrow>
    rl_step t s (s\<lparr>rl_world := fst (transition_state (rl_world s) t Blocked Ready)\<rparr>)"
| resume: "rl_pc_of s t = Asleep r q \<Longrightarrow> task_st (rl_world s) t = Ready \<Longrightarrow>
    rl_step t s (goto (s\<lparr>rl_world := fst (transition_state (rl_world s) t Ready Running)\<rparr>) t (Waiting r q))"
| leave_wait: "rl_pc_of s t = LeftWait r q \<Longrightarrow> queue_unlocked s q \<Longrightarrow>
    rl_step t s (goto (s\<lparr>rl_world := cancel_events (rl_world s) q t\<rparr>) t (Finishing r intr))"
| finish_intr: "rl_pc_of s t = Finishing r True \<Longrightarrow>
    rl_step t s (goto (s\<lparr>rl_locks := finish_wait (rl_locks s) (rq_target r)\<rparr>) t Idle)"
| finish_retry: "rl_pc_of s t = Finishing r False \<Longrightarrow>
    rl_step t s (goto (s\<lparr>rl_locks := finish_wait (rl_locks s) (rq_target r)\<rparr>) t (TrySet r))"
| call_unlock: "rl_pc_of s t = Idle \<Longrightarrow> unlock_lock (rl_locks s) own target a b = Inr (rls, qs) \<Longrightarrow>
    rl_step t s (goto (s\<lparr>rl_locks := rls\<rparr>) t (Notifying [] qs))"
| call_release_target: "rl_pc_of s t = Idle \<Longrightarrow> release_owner_target (rl_locks s) own target = (rls, qs) \<Longrightarrow>
    rl_step t s (goto (s\<lparr>rl_locks := rls\<rparr>) t (Notifying [] qs))"
| call_release: "rl_pc_of s t = Idle \<Longrightarrow> rl_step t s (goto s t (Sweeping own 0 []))"
| release_shard: "rl_pc_of s t = Sweeping own k qs \<Longrightarrow> k < LOCK_TABLE_SHARDS \<Longrightarrow>
    release_owner_section (rl_locks s) own k = (rls, qs') \<Longrightarrow>
    rl_step t s (goto (s\<lparr>rl_locks := rls\<rparr>) t (Sweeping own (Suc k) (qs @ qs')))"
| release_done: "rl_pc_of s t = Sweeping own LOCK_TABLE_SHARDS qs \<Longrightarrow> rl_step t s (goto s t (Notifying [] qs))"
| notify_take: "rl_pc_of s t = Notifying [] (q # qs) \<Longrightarrow> queue_unlocked s q \<Longrightarrow> take_queue (rl_world s) q = (w, ts) \<Longrightarrow>
    rl_step t s (goto (s\<lparr>rl_world := w\<rparr>) t (Notifying ts qs))"
| notify_next: "rl_pc_of s t = Notifying (u # ts) qs \<Longrightarrow>
    rl_step t s (goto (s\<lparr>rl_world := notify_task_in_all (rl_world s) u\<rparr>) t (Notifying ts qs))"
| notify_done: "rl_pc_of s t = Notifying [] [] \<Longrightarrow> rl_step t s (goto s t Idle)"

definition rl_initial :: "wait_world \<Rightarrow> rl_sys \<Rightarrow> bool" where
  "rl_initial w s \<longleftrightarrow> s = \<lparr>rl_locks = record_locks_new, rl_world = w, rl_pc_of = (\<lambda>_. Idle)\<rparr> \<and>
     (\<forall>t. task_st w t = Running)"

inductive rl_reachable :: "rl_sys \<Rightarrow> bool" where
  rl_start: "rl_initial w s \<Longrightarrow> rl_reachable s"
| rl_next: "rl_reachable s \<Longrightarrow> rl_step t s s' \<Longrightarrow> rl_reachable s'"

section \<open>Effect of the operations on the states\<close>

definition state_at :: "record_locks \<Rightarrow> lock_target \<Rightarrow> record_lock_state" where
  "state_at rls t =
     (case rl_get rls t of
        Some st \<Rightarrow> st | None \<Rightarrow> \<lparr>entries = [], rl_wait_queue = next_queue rls, waiters = 0\<rparr>)"

lemma attempt_get:
  assumes "rls_wf rls" and "attempt rls r = (rls', res)"
  defines "st \<equiv> state_at rls (rq_target r)"
  obtains (acquired) es where "res = Acquired (rl_wait_queue st)"
      "\<And>u. rl_get rls' u = (if u = rq_target r then Some (st\<lparr>entries := es\<rparr>) else rl_get rls u)"
  | (failed) err where "res = Failed err"
      "\<And>u. rl_get rls' u = (if u = rq_target r then Some st else rl_get rls u)"
  | (waiting) "res = MustWait (rl_wait_queue st)" "\<not> request_free rls r"
      "\<And>u. rl_get rls' u = (if u = rq_target r then Some (st\<lparr>waiters := Suc (waiters st)\<rparr>) else rl_get rls u)"
proof -
  obtain rls1 st1 where ed: "entry_or_default rls (rq_target r) = (rls1, st1)"
    by (cases "entry_or_default rls (rq_target r)")
  note d = entry_or_default_get [OF assms(1) ed]
  have st: "st1 = st" using ed
    by (auto simp: entry_or_default_def st_def state_at_def Let_def split: option.splits)
  have sh: "shards_wf (rl_table rls1)" using d(1) by (rule rls_wfD)
  have g: "rl_get rls1 u = (if u = rq_target r then Some st else rl_get rls u)" for u using d(2,4) st by simp
  have rf: "request_free rls r \<longleftrightarrow> conflict (entries st) (rq_owner r) (rq_start r) (rq_end r) (rq_type r) = None"
    by (simp add: request_free_def lock_free_def st_def state_at_def conflict_def split: option.splits)
  have put: "rl_get (rl_put rls1 (rq_target r) x) u = (if u = rq_target r then Some x else rl_get rls u)" for x u
    by (simp add: rl_get_put [OF sh] g)
  let ?c = "conflict (entries st) (rq_owner r) (rq_start r) (rq_end r) (rq_type r)"
  have att: "(rls', res) =
      (if ?c = None
       then (case set_entry (entries st) (rq_owner r) (rq_start r) (rq_end r) (rq_type r) of
               Inl err \<Rightarrow> (rls1, Failed err)
             | Inr es \<Rightarrow> (rl_put rls1 (rq_target r) (st\<lparr>entries := es\<rparr>), Acquired (rl_wait_queue st)))
       else if \<not> rq_blocking r then (rls1, Failed EAGAIN)
       else (rl_put rls1 (rq_target r) (st\<lparr>waiters := waiters st + 1\<rparr>), MustWait (rl_wait_queue st)))"
    using assms(2) ed st by (simp add: attempt_def set_lock_attempt_def)
  show ?thesis
  proof (cases "?c = None")
    case True
    then show ?thesis
    proof (cases "set_entry (entries st) (rq_owner r) (rq_start r) (rq_end r) (rq_type r)")
      case (Inl err)
      then show ?thesis using att True g by (intro failed) simp_all
    next
      case (Inr es)
      then show ?thesis using att True put by (intro acquired [of es]) simp_all
    qed
  next
    case False
    show ?thesis
    proof (cases "rq_blocking r")
      case True
      then show ?thesis using att False put rf by (intro waiting) simp_all
    next
      case nb: False
      then show ?thesis using att False g by (intro failed) simp_all
    qed
  qed
qed

text \<open>
  A change of the table that keeps the numbers of waiters: states with waiters stay, and where their
  entries change their queue is among those to notify.
\<close>

definition locks_rel :: "record_locks \<Rightarrow> record_locks \<Rightarrow> nat list \<Rightarrow> bool" where
  "locks_rel rls rls' qs \<longleftrightarrow>
     (\<forall>t. case rl_get rls t of
        None \<Rightarrow> (case rl_get rls' t of None \<Rightarrow> True | Some st' \<Rightarrow> waiters st' = 0)
      | Some st \<Rightarrow>
          (case rl_get rls' t of
             None \<Rightarrow> waiters st = 0
           | Some st' \<Rightarrow> waiters st' = waiters st \<and> rl_wait_queue st' = rl_wait_queue st \<and>
               (entries st' = entries st \<or> rl_wait_queue st \<in> set qs)))"

lemma locks_rel_refl: "locks_rel rls rls []"
  by (simp add: locks_rel_def split: option.splits)

lemma attempt_acquired_rel:
  assumes "rls_wf rls" and "attempt rls r = (rls', Acquired q)"
  shows "locks_rel rls rls' [q]"
  using assms(1,2) by (rule attempt_get) (auto simp: locks_rel_def state_at_def split: option.splits)

lemma attempt_failed_rel:
  assumes "rls_wf rls" and "attempt rls r = (rls', Failed err)"
  shows "locks_rel rls rls' []"
  using assms(1,2) by (rule attempt_get) (auto simp: locks_rel_def state_at_def split: option.splits)

lemma clear_unchanged:
  assumes "\<not> snd (clear_owner_range own s e es)"
  shows "fst (clear_owner_range own s e es) = es"
proof -
  have "\<not> in_clear own s e x" if "x \<in> set es" for x using assms that by (simp add: clear_changed)
  then have "clear_loop own s e es i c = (es, c)" for i c
  proof (induction "length es - i" arbitrary: i)
    case (Suc n)
    then show ?case by (simp add: clear_loop.simps [of own s e es i])
  qed (simp add: clear_loop.simps [of own s e es])
  then show ?thesis by (simp add: clear_owner_range_def)
qed

lemma release_unchanged: "\<not> snd (state_release_owner own es) \<Longrightarrow> fst (state_release_owner own es) = es"
  unfolding release_changed by (auto simp: state_release_owner_def Let_def intro!: filter_True)

lemma update_target_rel:
  assumes "rls_wf rls" and "update_target rls t f = (rls', qs)" and "\<And>es. \<not> snd (f es) \<Longrightarrow> fst (f es) = es"
  shows "locks_rel rls rls' qs"
proof (cases "rl_get rls t")
  case None
  then show ?thesis using assms(2) by (auto simp: update_target_def locks_rel_def split: option.splits)
next
  case (Some st)
  have sh: "shards_wf (rl_table rls)" by (rule rls_wfD [OF assms(1)])
  obtain es changed where f: "f (entries st) = (es, changed)" by (cases "f (entries st)")
  have "rls' = put_or_remove rls t (st\<lparr>entries := es\<rparr>)" and "qs = (if changed then [rl_wait_queue st] else [])"
    using assms(2) Some f by (auto simp: update_target_def)
  then show ?thesis
    using Some assms(3) [of "entries st"] f
    by (auto simp: locks_rel_def rl_get_put_or_remove [OF sh] rl_unused_def split: option.splits)
qed

lemma unlock_rel:
  assumes "rls_wf rls" and "unlock_lock rls own t a b = Inr (rls', qs)"
  shows "locks_rel rls rls' qs" and "rls_wf rls'"
proof -
  have v: "0 \<le> a" "a < b" and u: "update_target rls t (clear_owner_range own a b) = (rls', qs)"
    using assms(2) by (auto simp: unlock_lock_def validate_range_def split: if_splits)
  show "locks_rel rls rls' qs" by (rule update_target_rel [OF assms(1) u clear_unchanged])
  show "rls_wf rls'" by (rule update_target_effect [OF assms(1) u clear_wf [OF _ v] clear_view [OF _ v]])
qed

lemma release_target_rel:
  assumes "rls_wf rls" and "release_owner_target rls own t = (rls', qs)"
  shows "locks_rel rls rls' qs" and "rls_wf rls'"
proof -
  have u: "update_target rls t (state_release_owner own) = (rls', qs)"
    using assms(2) by (simp add: release_owner_target_def)
  show "locks_rel rls rls' qs" by (rule update_target_rel [OF assms(1) u release_unchanged])
  show "rls_wf rls'"
    by (rule update_target_effect [OF assms(1) u, where D = "\<lambda>own' _. own' = own"])
      (simp_all add: release_wf release_view)
qed

lemma release_section_rel:
  assumes "rls_wf rls" and "k < 32" and "release_owner_section rls own k = (rls', qs)"
  shows "locks_rel rls rls' qs" and "rls_wf rls'"
proof -
  note g = release_owner_section_get [OF assms]
  show "locks_rel rls rls' qs"
    using release_unchanged g(4) by (auto simp: locks_rel_def g(3) rl_unused_def split: option.splits)
  show "rls_wf rls'" by (rule release_owner_section_effect(1) [OF assms])
qed

section \<open>The invariant\<close>

fun request_of :: "rl_pc \<Rightarrow> rl_request option" where
  "request_of (TrySet r) = Some r"
| "request_of (GotQueue r q) = Some r"
| "request_of (Waiting r q) = Some r"
| "request_of (Blocking r q) = Some r"
| "request_of (Asleep r q) = Some r"
| "request_of (LeftWait r q) = Some r"
| "request_of (Finishing r b) = Some r"
| "request_of _ = None"

fun queue_of :: "rl_pc \<Rightarrow> nat option" where
  "queue_of (GotQueue r q) = Some q"
| "queue_of (Waiting r q) = Some q"
| "queue_of (Blocking r q) = Some q"
| "queue_of (Asleep r q) = Some q"
| "queue_of (LeftWait r q) = Some q"
| "queue_of _ = None"

text \<open>The target on which a thread counts as a waiter.\<close>

fun waits_on :: "rl_pc \<Rightarrow> lock_target option" where
  "waits_on (GotQueue r q) = Some (rq_target r)"
| "waits_on (Waiting r q) = Some (rq_target r)"
| "waits_on (Blocking r q) = Some (rq_target r)"
| "waits_on (Asleep r q) = Some (rq_target r)"
| "waits_on (LeftWait r q) = Some (rq_target r)"
| "waits_on (Finishing r b) = Some (rq_target r)"
| "waits_on _ = None"

fun asleep :: "rl_pc \<Rightarrow> bool" where
  "asleep (Asleep r q) = True"
| "asleep _ = False"

definition waiting_threads :: "(nat \<Rightarrow> rl_pc) \<Rightarrow> lock_target \<Rightarrow> nat set" where
  "waiting_threads pcs tg = {t. waits_on (pcs t) = Some tg}"

text \<open>The queues that a thread is going to notify, and the tasks that it has taken and is going to unblock.\<close>

fun due_queues :: "rl_pc \<Rightarrow> nat set" where
  "due_queues (Notifying ts qs) = set qs"
| "due_queues (Sweeping own k qs) = set qs"
| "due_queues _ = {}"

fun due_tasks :: "rl_pc \<Rightarrow> nat set" where
  "due_tasks (Notifying ts qs) = set ts"
| "due_tasks _ = {}"

definition will_notify :: "rl_sys \<Rightarrow> nat \<Rightarrow> bool" where
  "will_notify s q \<longleftrightarrow> (\<exists>u. q \<in> due_queues (rl_pc_of s u))"

definition will_unblock :: "rl_sys \<Rightarrow> nat \<Rightarrow> bool" where
  "will_unblock s t \<longleftrightarrow> (\<exists>u. t \<in> due_tasks (rl_pc_of s u))"

definition count_ok :: "rl_sys \<Rightarrow> bool" where
  "count_ok s \<longleftrightarrow> finite {t. rl_pc_of s t \<noteq> Idle} \<and>
     (\<forall>tg. card (waiting_threads (rl_pc_of s) tg) =
        (case rl_get (rl_locks s) tg of None \<Rightarrow> 0 | Some st \<Rightarrow> waiters st))"

text \<open>
  What holds of a thread at a point: its request is valid; a waiter knows the queue of the current
  state of its target; it runs exactly when it is not asleep; before it blocks, its condition is false
  or its queue is going to be notified; when it is asleep and blocked, it is in its queue or about to
  be unblocked, and its condition is false or a wake-up is on its way; a sweep has not passed the last shard.
\<close>

definition thread_ok :: "rl_sys \<Rightarrow> nat \<Rightarrow> rl_pc \<Rightarrow> bool" where
  "thread_ok s t pc \<longleftrightarrow>
     (\<forall>r. request_of pc = Some r \<longrightarrow> request_ok r) \<and>
     (\<forall>r q. request_of pc = Some r \<longrightarrow> queue_of pc = Some q \<longrightarrow>
        (\<exists>st. rl_get (rl_locks s) (rq_target r) = Some st \<and> rl_wait_queue st = q)) \<and>
     (if asleep pc then task_st (rl_world s) t = Blocked \<or> task_st (rl_world s) t = Ready
      else task_st (rl_world s) t = Running) \<and>
     (\<forall>r q. pc = Blocking r q \<longrightarrow> request_free (rl_locks s) r \<longrightarrow> will_notify s q) \<and>
     (\<forall>r q. pc = Asleep r q \<longrightarrow> task_st (rl_world s) t = Blocked \<longrightarrow>
        (t \<in> set (wqueue (rl_world s) q) \<or> will_unblock s t) \<and>
        (request_free (rl_locks s) r \<longrightarrow> will_notify s q \<or> will_unblock s t)) \<and>
     (\<forall>own k qs. pc = Sweeping own k qs \<longrightarrow> k \<le> LOCK_TABLE_SHARDS)"

definition rl_inv :: "rl_sys \<Rightarrow> bool" where
  "rl_inv s \<longleftrightarrow> rls_wf (rl_locks s) \<and> count_ok s \<and> (\<forall>t. thread_ok s t (rl_pc_of s t))"

lemma goto_simps [simp]:
  "rl_locks (goto s t pc) = rl_locks s" "rl_world (goto s t pc) = rl_world s"
  "rl_pc_of (goto s t pc) = (rl_pc_of s)(t := pc)"
  by (simp_all add: goto_def)

lemma queue_waits: "queue_of pc = Some q \<Longrightarrow> request_of pc = Some r \<Longrightarrow> waits_on pc = Some (rq_target r)"
  by (cases pc) auto

lemma count_pos:
  assumes "count_ok s" and "waits_on (rl_pc_of s t) = Some tg"
  shows "\<exists>st. rl_get (rl_locks s) tg = Some st \<and> waiters st = card (waiting_threads (rl_pc_of s) tg) \<and> 0 < waiters st"
proof -
  have "waiting_threads (rl_pc_of s) tg \<subseteq> {t. rl_pc_of s t \<noteq> Idle}" by (auto simp: waiting_threads_def)
  then have "finite (waiting_threads (rl_pc_of s) tg)" using assms(1) by (auto simp: count_ok_def intro: finite_subset)
  moreover have "t \<in> waiting_threads (rl_pc_of s) tg" using assms(2) by (simp add: waiting_threads_def)
  ultimately have "0 < card (waiting_threads (rl_pc_of s) tg)" using card_gt_0_iff by blast
  then show ?thesis using assms(1) by (cases "rl_get (rl_locks s) tg") (auto simp: count_ok_def)
qed

lemma finite_update: "finite {t. f t \<noteq> c} \<Longrightarrow> finite {t. (f(u := x)) t \<noteq> c}"
  by (rule finite_subset [of _ "insert u {t. f t \<noteq> c}"]) auto

lemma waiting_threads_update:
  "waiting_threads (pcs(t := pc)) tg =
     (if waits_on pc = Some tg then insert t (waiting_threads pcs tg) else waiting_threads pcs tg - {t})"
  by (auto simp: waiting_threads_def)

lemma waiting_threads_same:
  "waits_on pc = waits_on (pcs t) \<Longrightarrow> waiting_threads (pcs(t := pc)) tg = waiting_threads pcs tg"
  by (auto simp: waiting_threads_def)

lemma count_ok_same:
  assumes "count_ok s" and "rl_pc_of s' = (rl_pc_of s)(t := pc)" and "waits_on pc = waits_on (rl_pc_of s t)"
    and "\<And>tg. (case rl_get (rl_locks s') tg of None \<Rightarrow> 0 | Some st \<Rightarrow> waiters st) =
      (case rl_get (rl_locks s) tg of None \<Rightarrow> 0 | Some st \<Rightarrow> waiters st)"
  shows "count_ok s'"
  using assms by (simp add: count_ok_def finite_update waiting_threads_same del: fun_upd_apply)

lemma rl_inv_step:
  assumes "rl_pc_of s' = (rl_pc_of s)(t := pc)" and "rls_wf (rl_locks s')" and "count_ok s'"
    and "thread_ok s' t pc" and "\<And>u. u \<noteq> t \<Longrightarrow> thread_ok s' u (rl_pc_of s u)"
  shows "rl_inv s'"
  using assms by (simp add: rl_inv_def)

lemma thread_ok_queue:
  assumes "thread_ok s t pc" and "request_of pc = Some r" and "queue_of pc = Some q"
  shows "\<exists>st. rl_get (rl_locks s) (rq_target r) = Some st \<and> rl_wait_queue st = q"
  using assms unfolding thread_ok_def by blast

text \<open>What another thread has to keep for the invariant of a thread to hold on.\<close>

lemma thread_ok_mono:
  assumes ok: "thread_ok s u pc"
    and q: "\<And>r q. request_of pc = Some r \<Longrightarrow> queue_of pc = Some q \<Longrightarrow>
      (\<exists>st. rl_get (rl_locks s') (rq_target r) = Some st \<and> rl_wait_queue st = q) \<and>
      (request_free (rl_locks s') r \<longrightarrow> request_free (rl_locks s) r \<or> will_notify s' q)"
    and st: "task_st (rl_world s') u = task_st (rl_world s) u \<or>
      asleep pc \<and> task_st (rl_world s) u = Blocked \<and> task_st (rl_world s') u = Ready"
    and wq: "\<And>q. u \<in> set (wqueue (rl_world s) q) \<Longrightarrow> u \<in> set (wqueue (rl_world s') q) \<or> will_unblock s' u"
    and nb: "\<And>r q. pc = Blocking r q \<Longrightarrow> will_notify s q \<Longrightarrow> will_notify s' q"
    and ns: "\<And>r q. pc = Asleep r q \<Longrightarrow> will_notify s q \<Longrightarrow>
      will_notify s' q \<or> (u \<in> set (wqueue (rl_world s) q) \<longrightarrow> will_unblock s' u)"
    and ub: "will_unblock s u \<Longrightarrow> will_unblock s' u \<or> task_st (rl_world s') u \<noteq> Blocked"
  shows "thread_ok s' u pc"
proof (cases pc)
  case (Asleep r q0)
  then show ?thesis
    using ok q [of r q0] st wq [of q0] ns [of r q0] ub unfolding thread_ok_def by auto
qed (use ok q st nb in \<open>auto simp: thread_ok_def\<close>)

fun notifying :: "rl_pc \<Rightarrow> bool" where
  "notifying (Notifying ts qs) = True"
| "notifying (Sweeping own k qs) = True"
| "notifying _ = False"

lemma not_notifying: "\<not> notifying pc \<Longrightarrow> due_queues pc = {} \<and> due_tasks pc = {}"
  by (cases pc) auto

lemma will_update:
  assumes "rl_pc_of s' = (rl_pc_of s)(t := pc)"
  shows "will_notify s q \<Longrightarrow> (q \<in> due_queues (rl_pc_of s t) \<Longrightarrow> q \<in> due_queues pc) \<Longrightarrow> will_notify s' q"
    and "will_unblock s u \<Longrightarrow> (u \<in> due_tasks (rl_pc_of s t) \<Longrightarrow> u \<in> due_tasks pc) \<Longrightarrow> will_unblock s' u"
    and "q \<in> due_queues pc \<Longrightarrow> will_notify s' q" and "u \<in> due_tasks pc \<Longrightarrow> will_unblock s' u"
  using assms unfolding will_notify_def will_unblock_def by (metis fun_upd_apply)+

lemma will_mono:
  assumes "\<not> notifying (rl_pc_of s t)" and "rl_pc_of s' = (rl_pc_of s)(t := pc)"
  shows "will_notify s q \<Longrightarrow> will_notify s' q" and "will_unblock s u \<Longrightarrow> will_unblock s' u"
  using will_update [OF assms(2)] not_notifying [OF assms(1)] by simp_all

text \<open>A waiting thread whose condition the change of the table affects has its queue notified.\<close>

lemma locks_rel_free:
  assumes "count_ok s" and "thread_ok s t (rl_pc_of s t)" and "locks_rel (rl_locks s) rls' qs"
    and "queue_of (rl_pc_of s t) = Some q" and "request_of (rl_pc_of s t) = Some r"
  shows "(\<exists>st. rl_get rls' (rq_target r) = Some st \<and> rl_wait_queue st = q) \<and>
    (request_free rls' r = request_free (rl_locks s) r \<or> q \<in> set qs)"
proof -
  obtain st where st: "rl_get (rl_locks s) (rq_target r) = Some st" "0 < waiters st"
    using count_pos [OF assms(1) queue_waits [OF assms(4,5)]] by auto
  moreover have "rl_wait_queue st = q" using assms(2,4,5) st(1) by (auto simp: thread_ok_def)
  moreover have "case rl_get rls' (rq_target r) of None \<Rightarrow> waiters st = 0
      | Some st' \<Rightarrow> waiters st' = waiters st \<and> rl_wait_queue st' = rl_wait_queue st \<and>
          (entries st' = entries st \<or> rl_wait_queue st \<in> set qs)"
    using assms(3) st(1) unfolding locks_rel_def by (metis (mono_tags, lifting) option.simps(5))
  ultimately show ?thesis by (auto simp: request_free_def lock_free_def split: option.splits)
qed

lemma inv_locks:
  assumes inv: "rl_inv s" and rel: "locks_rel (rl_locks s) rls' qs" and wf: "rls_wf rls'"
    and pc: "waits_on (rl_pc_of s t) = None" "due_tasks (rl_pc_of s t) = {}"
    and pc': "waits_on pc' = None" "request_of pc' = None" "due_queues (rl_pc_of s t) \<union> set qs \<subseteq> due_queues pc'"
      "\<And>own k qs. pc' = Sweeping own k qs \<Longrightarrow> k \<le> LOCK_TABLE_SHARDS"
  shows "rl_inv (goto (s\<lparr>rl_locks := rls'\<rparr>) t pc')"
proof (rule rl_inv_step [of _ s t pc'])
  let ?s = "goto (s\<lparr>rl_locks := rls'\<rparr>) t pc'"
  have c: "count_ok s" and th: "thread_ok s u (rl_pc_of s u)" for u using inv by (auto simp: rl_inv_def)
  note upd = will_update [of ?s s t pc', simplified]
  have mono: "will_notify s n \<Longrightarrow> will_notify ?s n" "will_unblock s u \<Longrightarrow> will_unblock ?s u" for n u
    using upd(1,2) pc(2) pc'(3) by auto
  have new: "n \<in> set qs \<Longrightarrow> will_notify ?s n" for n using upd(3) pc'(3) by auto
  show "count_ok ?s"
  proof (rule count_ok_same [OF c, of _ t pc'])
    fix tg
    show "(case rl_get (rl_locks ?s) tg of None \<Rightarrow> 0 | Some st \<Rightarrow> waiters st) =
        (case rl_get (rl_locks s) tg of None \<Rightarrow> 0 | Some st \<Rightarrow> waiters st)"
      using rel [unfolded locks_rel_def, rule_format, of tg] by (auto split: option.splits)
  qed (use pc pc' in auto)
  have "\<not> asleep pc" if "waits_on pc = None" for pc using that by (cases pc) auto
  then have "\<not> asleep (rl_pc_of s t)" "\<not> asleep pc'" using pc(1) pc'(1) by blast+
  then show "thread_ok ?s t pc'" using th [of t] pc' by (auto simp: thread_ok_def)
  fix u
  show "thread_ok ?s u (rl_pc_of s u)"
    using locks_rel_free [OF c th rel] new mono by (intro thread_ok_mono [OF th]) auto
qed (use wf in simp_all)

text \<open>A thread that neither sleeps nor notifies moves on; no other thread leaves a queue.\<close>

lemma inv_move:
  assumes inv: "rl_inv s" and pc: "\<not> notifying (rl_pc_of s t)" and wt: "waits_on pc' = waits_on (rl_pc_of s t)"
    and ok: "thread_ok (goto (s\<lparr>rl_world := w\<rparr>) t pc') t pc'"
    and w: "\<And>u. u \<noteq> t \<Longrightarrow> task_st w u = task_st (rl_world s) u"
      "\<And>u q. u \<noteq> t \<Longrightarrow> u \<in> set (wqueue (rl_world s) q) \<Longrightarrow> u \<in> set (wqueue w q)"
  shows "rl_inv (goto (s\<lparr>rl_world := w\<rparr>) t pc')"
proof (rule rl_inv_step [of _ s t pc'])
  let ?s = "goto (s\<lparr>rl_world := w\<rparr>) t pc'"
  show "rls_wf (rl_locks ?s)" "thread_ok ?s t pc'" using inv ok by (simp_all add: rl_inv_def)
  show "count_ok ?s" by (rule count_ok_same [of s _ t pc']) (use inv wt in \<open>simp_all add: rl_inv_def\<close>)
  fix u
  assume ne: "u \<noteq> t"
  have th: "thread_ok s u (rl_pc_of s u)" using inv by (simp add: rl_inv_def)
  have mono: "will_notify s n \<Longrightarrow> will_notify ?s n" "will_unblock s v \<Longrightarrow> will_unblock ?s v" for n v
    using will_mono [OF pc, of ?s pc'] by simp_all
  show "thread_ok ?s u (rl_pc_of s u)"
  proof (rule thread_ok_mono [OF th])
    fix q
    assume "u \<in> set (wqueue (rl_world s) q)"
    then have "u \<in> set (wqueue w q)" by (rule w(2) [OF ne])
    then show "u \<in> set (wqueue (rl_world ?s) q) \<or> will_unblock ?s u" by simp
  qed (use thread_ok_queue [OF th] w(1) [OF ne] mono in auto)
qed simp

lemma inv_waiter_change:
  assumes inv: "rl_inv s" and pc: "\<not> notifying (rl_pc_of s t)" and wf: "rls_wf rls'"
    and cnt: "count_ok (goto (s\<lparr>rl_locks := rls'\<rparr>) t pc')"
    and ok: "thread_ok (goto (s\<lparr>rl_locks := rls'\<rparr>) t pc') t pc'"
    and free: "\<And>r. request_free rls' r = request_free (rl_locks s) r"
    and q: "\<And>u r q st. u \<noteq> t \<Longrightarrow> request_of (rl_pc_of s u) = Some r \<Longrightarrow> queue_of (rl_pc_of s u) = Some q \<Longrightarrow>
      rl_get (rl_locks s) (rq_target r) = Some st \<Longrightarrow>
      \<exists>st'. rl_get rls' (rq_target r) = Some st' \<and> rl_wait_queue st' = rl_wait_queue st"
  shows "rl_inv (goto (s\<lparr>rl_locks := rls'\<rparr>) t pc')"
proof (rule rl_inv_step [of _ s t pc'])
  let ?s = "goto (s\<lparr>rl_locks := rls'\<rparr>) t pc'"
  fix u
  assume ne: "u \<noteq> t"
  have th: "thread_ok s u (rl_pc_of s u)" using inv by (simp add: rl_inv_def)
  have "\<exists>st. rl_get rls' (rq_target r) = Some st \<and> rl_wait_queue st = q"
    if rq: "request_of (rl_pc_of s u) = Some r" "queue_of (rl_pc_of s u) = Some q" for r q
  proof -
    obtain st where "rl_get (rl_locks s) (rq_target r) = Some st" "rl_wait_queue st = q"
      using thread_ok_queue [OF th rq] by blast
    then show ?thesis using assms(7) [OF ne rq] by simp
  qed
  moreover have "will_notify s n \<Longrightarrow> will_notify ?s n" "will_unblock s v \<Longrightarrow> will_unblock ?s v" for n v
    using will_mono [OF pc, of ?s pc'] by simp_all
  ultimately show "thread_ok ?s u (rl_pc_of s u)"
    using free by (intro thread_ok_mono [OF th]) auto
qed (use assms in simp_all)

lemma inv_set_wait:
  assumes inv: "rl_inv s" and pc: "rl_pc_of s t = TrySet r" and att: "attempt (rl_locks s) r = (rls', MustWait q)"
  shows "rl_inv (goto (s\<lparr>rl_locks := rls'\<rparr>) t (GotQueue r q))"
proof -
  let ?s = "goto (s\<lparr>rl_locks := rls'\<rparr>) t (GotQueue r q)"
  let ?st = "state_at (rl_locks s) (rq_target r)"
  have wf: "rls_wf (rl_locks s)" and c: "count_ok s" and th: "thread_ok s t (TrySet r)"
    using inv pc unfolding rl_inv_def by metis+
  have g: "rl_get rls' u = (if u = rq_target r then Some (?st\<lparr>waiters := Suc (waiters ?st)\<rparr>) else rl_get (rl_locks s) u)"
    and q: "q = rl_wait_queue ?st" for u
    by (rule attempt_get [OF wf att]; auto)+
  have wf': "rls_wf rls'"
    using set_lock_attempt_cases(1) [OF wf _ _ _ att [unfolded attempt_def]] th
    by (simp add: thread_ok_def request_ok_def)
  have same: "request_free rls' r' = request_free (rl_locks s) r'"  for r'
    by (auto simp: request_free_def lock_free_def g state_at_def conflict_def split: option.splits)
  have fin: "finite (waiting_threads (rl_pc_of s) tg)" for tg
    using c by (auto simp: count_ok_def waiting_threads_def elim!: rev_finite_subset)
  have "t \<notin> waiting_threads (rl_pc_of s) tg" for tg using pc by (simp add: waiting_threads_def)
  then have "card (waiting_threads (rl_pc_of ?s) tg) = (case rl_get rls' tg of None \<Rightarrow> 0 | Some st \<Rightarrow> waiters st)" for tg
    using c fin unfolding g
    by (auto simp: count_ok_def waiting_threads_update state_at_def simp del: fun_upd_apply split: option.splits)
  then have "count_ok ?s" using c by (simp add: count_ok_def finite_update del: fun_upd_apply)
  moreover have "thread_ok ?s t (GotQueue r q)" using th q by (auto simp: thread_ok_def g)
  ultimately show ?thesis
    using pc wf' same by (intro inv_waiter_change [OF inv]) (auto simp: g state_at_def)
qed

lemma inv_finish:
  assumes inv: "rl_inv s" and pc: "rl_pc_of s t = Finishing r b" and pc': "pc' = Idle \<or> pc' = TrySet r"
  shows "rl_inv (goto (s\<lparr>rl_locks := finish_wait (rl_locks s) (rq_target r)\<rparr>) t pc')"
proof -
  let ?rls = "finish_wait (rl_locks s) (rq_target r)"
  let ?s = "goto (s\<lparr>rl_locks := ?rls\<rparr>) t pc'"
  have wf: "rls_wf (rl_locks s)" and c: "count_ok s" and th: "thread_ok s t (Finishing r b)"
    using inv pc unfolding rl_inv_def by metis+
  have sh: "shards_wf (rl_table (rl_locks s))" by (rule rls_wfD(1) [OF wf])
  obtain st where st: "rl_get (rl_locks s) (rq_target r) = Some st" "waiters st = card (waiting_threads (rl_pc_of s) (rq_target r))"
    using count_pos [OF c, of t] pc by auto
  let ?st = "st\<lparr>waiters := waiters st - 1\<rparr>"
  have g: "rl_get ?rls u = (if u = rq_target r then if rl_unused ?st then None else Some ?st else rl_get (rl_locks s) u)" for u
    using st(1) by (simp add: finish_wait_def rl_get_put_or_remove [OF sh])
  have nw: "waits_on pc' = None" using pc' by auto
  have fin: "finite (waiting_threads (rl_pc_of s) tg)" for tg
    using c by (auto simp: count_ok_def waiting_threads_def elim!: rev_finite_subset)
  have t: "t \<in> waiting_threads (rl_pc_of s) tg \<longleftrightarrow> tg = rq_target r" for tg using pc by (auto simp: waiting_threads_def)
  have same: "request_free ?rls r' = request_free (rl_locks s) r'" for r'
    by (auto simp: request_free_def lock_free_def g st conflict_def rl_unused_def split: option.splits)
  have "card (waiting_threads (rl_pc_of ?s) tg) = (case rl_get ?rls tg of None \<Rightarrow> 0 | Some st \<Rightarrow> waiters st)" for tg
  proof (cases "tg = rq_target r")
    case True
    then have "card (waiting_threads (rl_pc_of ?s) tg) = waiters st - 1"
      using t st(2) nw by (simp add: waiting_threads_update card_Diff_singleton del: fun_upd_apply)
    then show ?thesis using True by (simp add: g rl_unused_def)
  next
    case False
    then have "waiting_threads (rl_pc_of ?s) tg = waiting_threads (rl_pc_of s) tg"
      using t nw by (simp add: waiting_threads_update del: fun_upd_apply)
    then show ?thesis using c False by (simp add: count_ok_def g)
  qed
  then have "count_ok ?s" using c by (simp add: count_ok_def finite_update del: fun_upd_apply)
  moreover have "\<exists>st''. rl_get ?rls (rq_target r') = Some st'' \<and> rl_wait_queue st'' = rl_wait_queue st'"
    if u: "u \<noteq> t" "request_of (rl_pc_of s u) = Some r'" "queue_of (rl_pc_of s u) = Some q'"
      "rl_get (rl_locks s) (rq_target r') = Some st'" for u r' q' st'
  proof -
    have "\<not> rl_unused ?st" if "rq_target r' = rq_target r"
    proof -
      have "u \<in> waiting_threads (rl_pc_of s) (rq_target r)"
        using u queue_waits [of "rl_pc_of s u"] that by (simp add: waiting_threads_def)
      then have "card {t, u} \<le> card (waiting_threads (rl_pc_of s) (rq_target r))" using t fin by (intro card_mono) auto
      then show ?thesis using u(1) st(2) by (simp add: rl_unused_def)
    qed
    then show ?thesis using st u(4) by (auto simp: g)
  qed
  moreover have "thread_ok ?s t pc'" using th pc' by (auto simp: thread_ok_def)
  ultimately show ?thesis
    using pc same finish_wait_effect(1) [OF wf] by (intro inv_waiter_change [OF inv]) simp_all
qed

text \<open>The steps of a notifying thread.\<close>

lemma inv_notify_take:
  assumes inv: "rl_inv s" and pc: "rl_pc_of s t = Notifying [] (q # qs)" and free: "queue_unlocked s q"
    and tk: "take_queue (rl_world s) q = (w, ts)"
  shows "rl_inv (goto (s\<lparr>rl_world := w\<rparr>) t (Notifying ts qs))"
proof (rule rl_inv_step [of _ s t "Notifying ts qs"])
  let ?s = "goto (s\<lparr>rl_world := w\<rparr>) t (Notifying ts qs)"
  have w: "task_st w = task_st (rl_world s)" "wqueue w = (wqueue (rl_world s))(q := [])" "ts = wqueue (rl_world s) q"
    using tk take_queue_simps [of "rl_world s" q] by simp_all
  have th: "thread_ok s u (rl_pc_of s u)" for u using inv by (simp add: rl_inv_def)
  show "rls_wf (rl_locks ?s)" using inv by (simp add: rl_inv_def)
  show "count_ok ?s" by (rule count_ok_same [of s _ t "Notifying ts qs"]) (use inv pc in \<open>simp_all add: rl_inv_def\<close>)
  show "thread_ok ?s t (Notifying ts qs)" using th [of t] pc w by (simp add: thread_ok_def)
  fix u
  assume "u \<noteq> t"
  note upd = will_update [of ?s s t "Notifying ts qs", simplified]
  have ts: "v \<in> set ts \<Longrightarrow> will_unblock ?s v" and ub: "will_unblock s v \<Longrightarrow> will_unblock ?s v"
    and nt: "will_notify s n \<Longrightarrow> n \<noteq> q \<Longrightarrow> will_notify ?s n" for v n
    using upd pc by auto
  show "thread_ok ?s u (rl_pc_of s u)"
  proof (rule thread_ok_mono [OF th])
    fix r n
    show "u \<in> set (wqueue (rl_world s) n) \<Longrightarrow> u \<in> set (wqueue (rl_world ?s) n) \<or> will_unblock ?s u"
      using ts w by (cases "n = q") auto
    show "will_notify ?s n" if "rl_pc_of s u = Blocking r n" "will_notify s n"
      using nt [OF that(2)] that(1) free by (auto simp: queue_unlocked_def)
    show "will_notify ?s n \<or> (u \<in> set (wqueue (rl_world s) n) \<longrightarrow> will_unblock ?s u)" if "will_notify s n"
      using nt [OF that] ts w(3) by auto
  qed (use thread_ok_queue [OF th] ub w in auto)
qed simp

lemma inv_notify_next:
  assumes inv: "rl_inv s" and pc: "rl_pc_of s t = Notifying (v # ts) qs"
  shows "rl_inv (goto (s\<lparr>rl_world := notify_task_in_all (rl_world s) v\<rparr>) t (Notifying ts qs))"
proof (rule rl_inv_step [of _ s t "Notifying ts qs"])
  let ?w = "notify_task_in_all (rl_world s) v"
  let ?s = "goto (s\<lparr>rl_world := ?w\<rparr>) t (Notifying ts qs)"
  have th: "thread_ok s u (rl_pc_of s u)" for u using inv by (simp add: rl_inv_def)
  show "rls_wf (rl_locks ?s)" using inv by (simp add: rl_inv_def)
  show "count_ok ?s" by (rule count_ok_same [of s _ t "Notifying ts qs"]) (use inv pc in \<open>simp_all add: rl_inv_def\<close>)
  show "thread_ok ?s t (Notifying ts qs)" using th [of t] pc by (auto simp: thread_ok_def)
  fix u
  assume "u \<noteq> t"
  note upd = will_update [of ?s s t "Notifying ts qs", simplified]
  have ub: "will_unblock s x \<Longrightarrow> x \<noteq> v \<Longrightarrow> will_unblock ?s x" and nt: "will_notify s n \<Longrightarrow> will_notify ?s n" for x n
    using upd pc by auto
  have st: "task_st ?w u = task_st (rl_world s) u \<or>
      asleep (rl_pc_of s u) \<and> task_st (rl_world s) u = Blocked \<and> task_st ?w u = Ready"
    using th [of u] by (auto simp: thread_ok_def split: if_splits)
  show "thread_ok ?s u (rl_pc_of s u)"
    by (rule thread_ok_mono [OF th]) (use thread_ok_queue [OF th] ub nt st in auto)
qed simp

lemma inv_owed_move:
  assumes inv: "rl_inv s" and pc: "waits_on (rl_pc_of s t) = None" "\<not> asleep (rl_pc_of s t)" "due_tasks (rl_pc_of s t) = {}"
    and pc': "waits_on pc' = None" "request_of pc' = None" "\<not> asleep pc'" "due_queues (rl_pc_of s t) \<subseteq> due_queues pc'"
      "\<And>own k qs. pc' = Sweeping own k qs \<Longrightarrow> k \<le> LOCK_TABLE_SHARDS"
  shows "rl_inv (goto s t pc')"
  using inv_locks [OF inv locks_rel_refl, of t pc'] inv pc pc' by (simp add: rl_inv_def)

section \<open>Every step keeps the invariant\<close>

lemma goto_same: "rl_pc_of s t = pc \<Longrightarrow> goto s t pc = s"
  by (auto simp: goto_def)

lemma attempt_wf:
  assumes "rl_inv s" and "rl_pc_of s t = TrySet r" and "attempt (rl_locks s) r = (rls, res)"
  shows "rls_wf rls"
proof -
  have "thread_ok s t (TrySet r)" and wf: "rls_wf (rl_locks s)" using assms unfolding rl_inv_def by metis+
  then have "request_ok r" by (simp add: thread_ok_def)
  then show ?thesis
    using set_lock_attempt_cases(1) [OF wf _ _ _ assms(3) [unfolded attempt_def]] by (simp add: request_ok_def)
qed

lemma inv_world_move:
  assumes "rl_inv s" and "rl_pc_of s t = pc" and "\<not> notifying pc" and "waits_on pc' = waits_on pc"
    and "thread_ok (goto (s\<lparr>rl_world := rl_world s\<rparr>) t pc') t pc'"
  shows "rl_inv (goto s t pc')"
  using inv_move [OF assms(1), of t pc' "rl_world s"] assms by simp

lemma rl_step_inv:
  assumes "rl_step t s s'" and inv: "rl_inv s"
  shows "rl_inv s'"
proof -
  have wf: "rls_wf (rl_locks s)" and th: "\<And>u. thread_ok s u (rl_pc_of s u)" using inv by (auto simp: rl_inv_def)
  have mono: "will_notify s n \<Longrightarrow> will_notify (goto (s\<lparr>rl_world := w\<rparr>) t pc) n" if "\<not> notifying (rl_pc_of s t)" for n w pc
    using will_mono(1) [OF that, of "goto (s\<lparr>rl_world := w\<rparr>) t pc" pc] by simp
  show ?thesis
    using assms(1)
  proof (cases rule: rl_step.cases)
    case (call_set r)
    then show ?thesis using th [of t]
      by (auto simp: thread_ok_def request_ok_def validate_range_def split: if_splits intro!: inv_world_move [OF inv])
  next
    case (set_acquired r rls q)
    then show ?thesis
      using inv_locks [OF inv attempt_acquired_rel [OF wf set_acquired(3)] attempt_wf [OF inv set_acquired(2,3)], of t "Notifying [] [q]"]
      by simp
  next
    case (set_failed r rls err)
    then show ?thesis
      using inv_locks [OF inv attempt_failed_rel [OF wf set_failed(3)] attempt_wf [OF inv set_failed(2,3)], of t Idle] by simp
  next
    case (set_wait r rls q)
    then show ?thesis using inv_set_wait [OF inv] by simp
  next
    case (signal_early r q)
    then show ?thesis using th [of t] by (auto simp: thread_ok_def intro!: inv_world_move [OF inv])
  next
    case (enter_wait r q)
    then show ?thesis using th [of t] by (auto simp: thread_ok_def intro!: inv_world_move [OF inv])
  next
    case (wait_signal r q)
    then show ?thesis using th [of t] by (auto simp: thread_ok_def intro!: inv_world_move [OF inv])
  next
    case (wait_free r q)
    then show ?thesis using th [of t] by (auto simp: thread_ok_def intro!: inv_world_move [OF inv])
  next
    case (wait_check r q)
    then show ?thesis using th [of t] by (auto simp: thread_ok_def intro!: inv_world_move [OF inv])
  next
    case (wait_block r q w)
    then have "thread_ok s t (Blocking r q)" and "\<not> notifying (rl_pc_of s t)" using th [of t] by simp_all
    then show ?thesis
      using wait_block mono by (auto simp: blocked_resched_Ok thread_ok_def intro!: inv_move [OF inv])
  next
    case (woken_elsewhere r q)
    let ?w = "fst (transition_state (rl_world s) t Blocked Ready)"
    have eq: "s' = goto (s\<lparr>rl_world := ?w\<rparr>) t (Asleep r q)" using woken_elsewhere by (simp add: goto_same)
    show ?thesis
      unfolding eq by (rule inv_move [OF inv])
        (use woken_elsewhere th [of t] in \<open>auto simp: thread_ok_def transition_state_def\<close>)
  next
    case (resume r q)
    then show ?thesis using th [of t]
      by (auto simp: thread_ok_def transition_state_def intro!: inv_move [OF inv])
  next
    case (leave_wait r q intr)
    then show ?thesis using th [of t] by (auto simp: thread_ok_def intro!: inv_move [OF inv])
  next
    case (finish_intr r)
    then show ?thesis using inv_finish [OF inv, of t r True Idle] by simp
  next
    case (finish_retry r)
    then show ?thesis using inv_finish [OF inv, of t r False "TrySet r"] by simp
  next
    case (call_unlock own target a b rls qs)
    then show ?thesis using inv_locks [OF inv unlock_rel [OF wf call_unlock(3)], of t "Notifying [] qs"] by simp
  next
    case (call_release_target own target rls qs)
    then show ?thesis using inv_locks [OF inv release_target_rel [OF wf call_release_target(3)], of t "Notifying [] qs"] by simp
  next
    case (call_release own)
    then show ?thesis using inv_owed_move [OF inv, of t "Sweeping own 0 []"] by simp
  next
    case (release_shard own k qs rls qs')
    then show ?thesis
      using inv_locks [OF inv release_section_rel [OF wf release_shard(3,4)], of t "Sweeping own (Suc k) (qs @ qs')"] by auto
  next
    case (release_done own qs)
    then show ?thesis using inv_owed_move [OF inv, of t "Notifying [] qs"] by simp
  next
    case (notify_take q qs w ts)
    then show ?thesis using inv_notify_take [OF inv] by simp
  next
    case (notify_next u ts qs)
    then show ?thesis using inv_notify_next [OF inv] by simp
  next
    case notify_done
    then show ?thesis using inv_owed_move [OF inv, of t Idle] by simp
  qed
qed

lemma rl_reachable_inv: "rl_reachable s \<Longrightarrow> rl_inv s"
proof (induction rule: rl_reachable.induct)
  case (rl_start w s)
  then show ?case
    by (auto simp: rl_initial_def rl_inv_def rls_wf_new [unfolded record_locks_new_def] count_ok_def waiting_threads_def
        thread_ok_def record_locks_new_def rl_get_def)
next
  case (rl_next s t s')
  then show ?case using rl_step_inv by blast
qed

section \<open>A wake-up that is due is delivered\<close>

text \<open>
  What threads other than \<open>t\<close> have begun and still have to do: finish a release, notify, or give back the lock of a
  queue by going to sleep. No new call is among these steps.
\<close>

fun owes :: "rl_pc \<Rightarrow> bool" where
  "owes (Blocking r q) = True"
| "owes (Sweeping own k qs) = True"
| "owes (Notifying ts qs) = True"
| "owes _ = False"

definition pending_step :: "nat \<Rightarrow> rl_sys \<Rightarrow> rl_sys \<Rightarrow> bool" where
  "pending_step t s s' \<longleftrightarrow> (\<exists>u. u \<noteq> t \<and> owes (rl_pc_of s u) \<and> rl_step u s s')"

lemma pending_step_cases:
  assumes "pending_step t s s'"
  obtains (block) u r q w where "u \<noteq> t" "rl_pc_of s u = Blocking r q" "blocked_resched (rl_world s) q u = Ok w"
      "s' = goto (s\<lparr>rl_world := w\<rparr>) u (Asleep r q)"
  | (sweep) u own k qs rls qs' where "u \<noteq> t" "rl_pc_of s u = Sweeping own k qs" "k < LOCK_TABLE_SHARDS"
      "release_owner_section (rl_locks s) own k = (rls, qs')"
      "s' = goto (s\<lparr>rl_locks := rls\<rparr>) u (Sweeping own (Suc k) (qs @ qs'))"
  | (swept) u own qs where "u \<noteq> t" "rl_pc_of s u = Sweeping own LOCK_TABLE_SHARDS qs" "s' = goto s u (Notifying [] qs)"
  | (take) u q qs w ts where "u \<noteq> t" "rl_pc_of s u = Notifying [] (q # qs)" "take_queue (rl_world s) q = (w, ts)"
      "s' = goto (s\<lparr>rl_world := w\<rparr>) u (Notifying ts qs)"
  | (unblock) u v ts qs where "u \<noteq> t" "rl_pc_of s u = Notifying (v # ts) qs"
      "s' = goto (s\<lparr>rl_world := notify_task_in_all (rl_world s) v\<rparr>) u (Notifying ts qs)"
  | (finished) u where "u \<noteq> t" "rl_pc_of s u = Notifying [] []" "s' = goto s u Idle"
proof -
  obtain u where u: "u \<noteq> t" "owes (rl_pc_of s u)" "rl_step u s s'" using assms unfolding pending_step_def by blast
  show thesis
    using u(3,2)
    by (cases rule: rl_step.cases) (use that u(1) in \<open>auto intro: that\<close>)
qed

text \<open>A release only makes more requests free.\<close>

lemma release_section_free:
  assumes "rls_wf rls" and "k < 32" and "release_owner_section rls own k = (rls', qs)" and "request_ok r" and "request_free rls r"
  shows "request_free rls' r"
proof -
  note e = release_owner_section_effect [OF assms(1-3)]
  have "rq_start r < rq_end r" using assms(4) by (simp add: request_ok_def)
  then show ?thesis
    using assms(5) unfolding request_free_def lock_free_view [OF assms(1) \<open>rq_start r < rq_end r\<close>] lock_free_view [OF e(1) \<open>rq_start r < rq_end r\<close>]
    by (auto simp: e(2) split: if_splits)
qed

definition due :: "nat \<Rightarrow> rl_request \<Rightarrow> nat \<Rightarrow> rl_sys \<Rightarrow> bool" where
  "due t r q s \<longleftrightarrow> rl_inv s \<and> rl_pc_of s t = Asleep r q \<and> request_free (rl_locks s) r"

lemma due_facts:
  assumes "due t r q s"
  shows "task_st (rl_world s) t = Blocked \<or> task_st (rl_world s) t = Ready" and "request_ok r"
    and "task_st (rl_world s) t = Blocked \<Longrightarrow> will_notify s q \<or> will_unblock s t"
proof -
  have "thread_ok s t (Asleep r q)" using assms unfolding due_def rl_inv_def by metis
  then show "task_st (rl_world s) t = Blocked \<or> task_st (rl_world s) t = Ready" "request_ok r"
    "task_st (rl_world s) t = Blocked \<Longrightarrow> will_notify s q \<or> will_unblock s t"
    using assms by (auto simp: thread_ok_def due_def)
qed

lemma due_step:
  assumes "due t r q s" and st: "pending_step t s s'"
  shows "due t r q s'"
proof -
  have inv: "rl_inv s" "rls_wf (rl_locks s)" using assms(1) by (simp_all add: due_def rl_inv_def)
  have "rl_inv s'" using st inv(1) rl_step_inv unfolding pending_step_def by blast
  moreover have "rl_pc_of s' t = rl_pc_of s t" using st by (cases rule: pending_step_cases) auto
  moreover have "request_free (rl_locks s') r" using st
  proof (cases rule: pending_step_cases)
    case (sweep u own k qs rls qs')
    then show ?thesis
      using release_section_free [OF inv(2) _ sweep(4) due_facts(2) [OF assms(1)]] assms(1) by (simp add: due_def)
  qed (use assms(1) in \<open>simp_all add: due_def\<close>)
  ultimately show ?thesis using assms(1) by (simp add: due_def)
qed

text \<open>As long as the thread is blocked, one of the pending steps can be made.\<close>

lemma due_enabled:
  assumes "due t r q s" and "task_st (rl_world s) t = Blocked"
  shows "\<exists>s'. pending_step t s s'"
proof -
  have inv: "rl_inv s" and th: "thread_ok s u (rl_pc_of s u)" and pc: "rl_pc_of s t = Asleep r q" for u
    using assms(1) by (simp_all add: due_def rl_inv_def)
  obtain u where u: "q \<in> due_queues (rl_pc_of s u) \<or> t \<in> due_tasks (rl_pc_of s u)"
    using due_facts(3) [OF assms] unfolding will_notify_def will_unblock_def by blast
  have ne: "u \<noteq> t" using u pc by auto
  show ?thesis
  proof (cases "rl_pc_of s u")
    case (Sweeping own k qs)
    then have "k \<le> LOCK_TABLE_SHARDS" using th [of u] by (simp add: thread_ok_def)
    moreover obtain rls qs' where "release_owner_section (rl_locks s) own k = (rls, qs')"
      by (cases "release_owner_section (rl_locks s) own k")
    ultimately have "\<exists>s'. rl_step u s s'"
      using Sweeping rl_step.release_shard [of s u own k qs rls qs'] rl_step.release_done [of s u own qs]
      by (cases "k = LOCK_TABLE_SHARDS") auto
    then show ?thesis using ne Sweeping unfolding pending_step_def by (metis owes.simps(2))
  next
    case (Notifying ts qs)
    show ?thesis
    proof (cases "ts = [] \<and> qs \<noteq> [] \<and> \<not> queue_unlocked s (hd qs)")
      case True
      then obtain v r' where v: "rl_pc_of s v = Blocking r' (hd qs)" unfolding queue_unlocked_def by blast
      then have "task_st (rl_world s) v = Running" using th [of v] by (simp add: thread_ok_def)
      then obtain w where "blocked_resched (rl_world s) (hd qs) v = Ok w" using blocked_resched_Ok by blast
      then have "rl_step v s (goto (s\<lparr>rl_world := w\<rparr>) v (Asleep r' (hd qs)))" by (rule rl_step.wait_block [OF v])
      moreover have "v \<noteq> t" using v pc by auto
      ultimately show ?thesis using v unfolding pending_step_def by (metis owes.simps(1))
    next
      case False
      have "ts \<noteq> [] \<or> qs \<noteq> []" using u Notifying by auto
      then have "\<exists>s'. rl_step u s s'"
        using False Notifying rl_step.notify_next [of s u "hd ts" "tl ts" qs]
          rl_step.notify_take [of s u "hd qs" "tl qs", OF _ _ prod.collapse [symmetric]] by (cases ts; cases qs) auto
      then show ?thesis using ne Notifying unfolding pending_step_def by (metis owes.simps(3))
    qed
  qed (use u in simp_all)
qed

text \<open>The pending steps come to an end: first the shards, then the queues, then the tasks taken from them run out.\<close>

fun shards_left :: "rl_pc \<Rightarrow> nat" where
  "shards_left (Sweeping own k qs) = Suc LOCK_TABLE_SHARDS - k"
| "shards_left _ = 0"

fun queues_left :: "rl_pc \<Rightarrow> nat" where
  "queues_left (Blocking r q) = 1"
| "queues_left (Notifying ts qs) = length qs"
| "queues_left _ = 0"

fun tasks_left :: "rl_pc \<Rightarrow> nat" where
  "tasks_left (Notifying ts qs) = Suc (length ts)"
| "tasks_left _ = 0"

definition amount :: "(rl_pc \<Rightarrow> nat) \<Rightarrow> rl_sys \<Rightarrow> nat" where
  "amount g s = (\<Sum>t | rl_pc_of s t \<noteq> Idle. g (rl_pc_of s t))"

lemma amount_update:
  assumes "finite {t. rl_pc_of s t \<noteq> Idle}" and "g Idle = 0" and pc: "rl_pc_of s' = (rl_pc_of s)(u := p)"
  shows "amount g s' + g (rl_pc_of s u) = amount g s + g p"
proof -
  let ?F = "insert u {t. rl_pc_of s t \<noteq> Idle}"
  have fin: "finite ?F" using assms(1) by simp
  have all: "amount g s'' = (\<Sum>t\<in>?F. g (rl_pc_of s'' t))" if "{t. rl_pc_of s'' t \<noteq> Idle} \<subseteq> ?F" for s''
    unfolding amount_def by (rule sum.mono_neutral_left [OF fin that]) (use assms(2) in auto)
  have "(\<Sum>t\<in>?F - {u}. g (rl_pc_of s' t)) = (\<Sum>t\<in>?F - {u}. g (rl_pc_of s t))" by (rule sum.cong) (auto simp: pc)
  moreover have "amount g s' = (\<Sum>t\<in>?F. g (rl_pc_of s' t))" by (rule all) (auto simp: pc)
  moreover have "amount g s = (\<Sum>t\<in>?F. g (rl_pc_of s t))" by (rule all) auto
  ultimately show ?thesis
    using sum.remove [OF fin, of u "\<lambda>t. g (rl_pc_of s' t)"] sum.remove [OF fin, of u "\<lambda>t. g (rl_pc_of s t)"] by (simp add: pc)
qed

definition work_left :: "rl_sys \<Rightarrow> nat \<times> nat \<times> nat" where
  "work_left s = (amount shards_left s, amount queues_left s, amount tasks_left s)"

lemma pending_step_less:
  assumes "rl_inv s" and "pending_step t s s'"
  shows "(work_left s', work_left s) \<in> less_than <*lex*> less_than <*lex*> less_than"
proof -
  have fin: "finite {t. rl_pc_of s t \<noteq> Idle}" using assms(1) by (simp add: rl_inv_def count_ok_def)
  have tot: "amount shards_left s' + shards_left (rl_pc_of s u) = amount shards_left s + shards_left p"
      "amount queues_left s' + queues_left (rl_pc_of s u) = amount queues_left s + queues_left p"
      "amount tasks_left s' + tasks_left (rl_pc_of s u) = amount tasks_left s + tasks_left p"
    if "rl_pc_of s' = (rl_pc_of s)(u := p)" for u p
    by (rule amount_update [OF fin _ that]; simp)+
  show ?thesis using assms(2)
  proof (cases rule: pending_step_cases)
    case (block u r q w)
    then show ?thesis using tot [of u "Asleep r q"] by (simp add: work_left_def)
  next
    case (sweep u own k qs rls qs')
    then show ?thesis using tot [of u "Sweeping own (Suc k) (qs @ qs')"] by (simp add: work_left_def)
  next
    case (swept u own qs)
    then show ?thesis using tot [of u "Notifying [] qs"] by (simp add: work_left_def)
  next
    case (take u q qs w ts)
    then show ?thesis using tot [of u "Notifying ts qs"] by (simp add: work_left_def)
  next
    case (unblock u v ts qs)
    then show ?thesis using tot [of u "Notifying ts qs"] by (simp add: work_left_def)
  next
    case (finished u)
    then show ?thesis using tot [of u Idle] by (simp add: work_left_def)
  qed
qed

lemma pending_steps_end:
  assumes "rl_inv (f 0)" and steps: "\<And>n. pending_step t (f n) (f (Suc n))"
  shows False
proof -
  have inv: "rl_inv (f n)" for n
  proof (induction n)
    case (Suc n)
    then show ?case using steps [of n] rl_step_inv unfolding pending_step_def by blast
  qed (rule assms(1))
  let ?R = "inv_image (less_than <*lex*> less_than <*lex*> less_than) work_left"
  have "wf ?R" by (intro wf_inv_image wf_lex_prod wf_less_than)
  moreover have "(f (Suc n), f n) \<in> ?R" for n using pending_step_less [OF inv steps] by (simp add: inv_image_def)
  ultimately show False unfolding wf_iff_no_infinite_down_chain by blast
qed

lemma due_delivered: "due t r q s \<Longrightarrow> \<exists>s'. (pending_step t)\<^sup>*\<^sup>* s s' \<and> task_st (rl_world s') t = Ready"
proof (induction "work_left s" arbitrary: s rule: wf_induct_rule
    [OF wf_lex_prod [OF wf_less_than wf_lex_prod [OF wf_less_than wf_less_than]]])
  case less: 1
  show ?case
  proof (cases "task_st (rl_world s) t = Ready")
    case False
    then have "task_st (rl_world s) t = Blocked" using due_facts(1) [OF less.prems] by simp
    then obtain s1 where s1: "pending_step t s s1" using due_enabled [OF less.prems] by blast
    have inv: "rl_inv s" using less.prems by (simp add: due_def)
    obtain s' where "(pending_step t)\<^sup>*\<^sup>* s1 s'" "task_st (rl_world s') t = Ready"
      using less.hyps [OF pending_step_less [OF inv s1] due_step [OF less.prems s1]] by blast
    then show ?thesis using converse_rtranclp_into_rtranclp [of "pending_step t", OF s1] by blast
  qed blast
qed

section \<open>An example run\<close>

text \<open>
  Thread 1 takes a write lock, thread 2 asks for a conflicting one and goes to sleep, thread 1 unlocks
  and is about to notify.
\<close>

definition example_lock_request :: "64 word \<Rightarrow> rl_request" where
  "example_lock_request p =
     \<lparr>rq_owner = Posix p, rq_target = FdObject 16, rq_start = 0, rq_end = 10, rq_type = Write, rq_blocking = True\<rparr>"

definition example_world :: wait_world where
  "example_world =
     \<lparr>wqueue = (\<lambda>_. []), wwakers = (\<lambda>_. []), task_st = (\<lambda>_. Running), in_wait_queue = (\<lambda>_. False),
      notified = (\<lambda>_. False), woken = [], waker_entry_id = 1\<rparr>"

definition example_sys :: "record_locks \<Rightarrow> wait_world \<Rightarrow> rl_pc \<Rightarrow> rl_pc \<Rightarrow> rl_sys" where
  "example_sys rls w p1 p2 = \<lparr>rl_locks = rls, rl_world = w, rl_pc_of = (\<lambda>_. Idle)(1 := p1, 2 := p2)\<rparr>"

lemma example_sys_simps [simp]:
  "rl_locks (example_sys rls w p1 p2) = rls" "rl_world (example_sys rls w p1 p2) = w"
  "rl_pc_of (example_sys rls w p1 p2) 1 = p1" "rl_pc_of (example_sys rls w p1 p2) (Suc 0) = p1"
  "rl_pc_of (example_sys rls w p1 p2) 2 = p2"
  "goto (example_sys rls w p1 p2) 1 p = example_sys rls w p p2" "goto (example_sys rls w p1 p2) 2 p = example_sys rls w p1 p"
  "goto (example_sys rls w p1 p2) (Suc 0) p = example_sys rls w p p2"
  "(example_sys rls w p1 p2)\<lparr>rl_locks := rls'\<rparr> = example_sys rls' w p1 p2"
  "(example_sys rls w p1 p2)\<lparr>rl_world := w'\<rparr> = example_sys rls w' p1 p2"
  by (auto simp: example_sys_def goto_def fun_eq_iff)

lemma example_queue_unlocked [simp]:
  "queue_unlocked (example_sys rls w p1 p2) q \<longleftrightarrow> (\<forall>r. p1 \<noteq> Blocking r q \<and> p2 \<noteq> Blocking r q)"
  by (auto simp: queue_unlocked_def example_sys_def)

lemma example_take_queue: "take_queue example_world q = (example_world, [])"
  by (auto simp: take_queue_def example_world_def)

lemma example_locked:
  obtains rls1 where "rls_wf rls1"
    and "\<And>u own b. rls_view rls1 u own b = (if u = FdObject 16 \<and> own = Posix 1 \<and> 0 \<le> b \<and> b < 10 then Some Write else None)"
    and "rl_reachable (example_sys rls1 example_world Idle Idle)"
proof -
  let ?r = "example_lock_request 1"
  have none: "rl_get record_locks_new u = None" for u by (simp add: rl_get_def record_locks_new_def)
  have free: "lock_free record_locks_new (Posix 1) (FdObject 16) 0 10 Write" by (simp add: lock_free_def none)
  obtain rls1 res where att: "set_lock_attempt record_locks_new (Posix 1) (FdObject 16) 0 10 Write True = (rls1, res)"
    by (cases "set_lock_attempt record_locks_new (Posix 1) (FdObject 16) 0 10 Write True")
  note c = set_lock_attempt_cases [OF rls_wf_new _ _ _ att]
  obtain q where q: "res = Acquired q" using c(3) free by auto
  have "rl_reachable (example_sys record_locks_new example_world Idle Idle)"
    by (rule rl_start [of example_world]) (auto simp: rl_initial_def example_sys_def example_world_def)
  then have "rl_reachable (example_sys record_locks_new example_world (TrySet ?r) Idle)"
    by (rule rl_next [of _ 1]) (use rl_step.call_set [of "example_sys record_locks_new example_world Idle Idle" 1 ?r] in
      \<open>simp add: example_lock_request_def validate_range_def\<close>)
  then have "rl_reachable (example_sys rls1 example_world (Notifying [] [q]) Idle)"
    by (rule rl_next [of _ 1]) (use rl_step.set_acquired [of "example_sys record_locks_new example_world (TrySet ?r) Idle" 1 ?r rls1 q]
      att q in \<open>simp add: attempt_def example_lock_request_def\<close>)
  then have "rl_reachable (example_sys rls1 example_world (Notifying [] []) Idle)"
    by (rule rl_next [of _ 1]) (use rl_step.notify_take [of "example_sys rls1 example_world (Notifying [] [q]) Idle" 1 q "[]" example_world "[]"] in
      \<open>simp add: example_take_queue\<close>)
  then have "rl_reachable (example_sys rls1 example_world Idle Idle)"
    by (rule rl_next [of _ 1]) (use rl_step.notify_done [of "example_sys rls1 example_world (Notifying [] []) Idle" 1] in simp)
  moreover have "rls_wf rls1" using c(1) by simp
  moreover have "rls_view rls1 u own b = (if u = FdObject 16 \<and> own = Posix 1 \<and> 0 \<le> b \<and> b < 10 then Some Write else None)" for u own b
    using c(2) [of u own b] q by (simp add: rls_view_def none)
  ultimately show ?thesis using that by blast
qed

lemma example_blocked:
  obtains rls qs w q where "rl_reachable (example_sys rls w (Notifying [] qs) (Asleep (example_lock_request 2) q))"
    and "task_st w 2 = Blocked" and "request_free rls (example_lock_request 2)"
proof -
  let ?r = "example_lock_request 2"
  obtain rls1 where wf1: "rls_wf rls1" and v1: "\<And>u own b. rls_view rls1 u own b =
      (if u = FdObject 16 \<and> own = Posix 1 \<and> 0 \<le> b \<and> b < 10 then Some Write else None)"
    and r1: "rl_reachable (example_sys rls1 example_world Idle Idle)" using example_locked by metis
  obtain rls2 res where att: "set_lock_attempt rls1 (Posix 2) (FdObject 16) 0 10 Write True = (rls2, res)"
    by (cases "set_lock_attempt rls1 (Posix 2) (FdObject 16) 0 10 Write True")
  note c = set_lock_attempt_cases [OF wf1 _ _ _ att]
  have busy: "\<not> lock_free rls (Posix 2) (FdObject 16) 0 10 Write"
    if "rls_wf rls" "\<And>u own b. rls_view rls u own b = rls_view rls1 u own b" for rls
    using that lock_free_view [OF that(1), of 0 10 "Posix 2" "FdObject 16" Write]
    by (auto simp: v1 intro!: exI [of _ 0] exI [of _ "Posix 1"])
  obtain q where q: "res = MustWait q" using c(4) busy [OF wf1] by auto
  have wf2: "rls_wf rls2" and v2: "rls_view rls2 u own b = rls_view rls1 u own b" for u own b
    using c(1) c(2) [of u own b] q by simp_all
  have "rl_reachable (example_sys rls1 example_world Idle (TrySet ?r))"
    by (rule rl_next [OF r1, of 2]) (use rl_step.call_set [of "example_sys rls1 example_world Idle Idle" 2 ?r] in
      \<open>simp add: example_lock_request_def validate_range_def\<close>)
  then have "rl_reachable (example_sys rls2 example_world Idle (GotQueue ?r q))"
    by (rule rl_next [of _ 2]) (use rl_step.set_wait [of "example_sys rls1 example_world Idle (TrySet ?r)" 2 ?r rls2 q] att q in
      \<open>simp add: attempt_def example_lock_request_def\<close>)
  then have "rl_reachable (example_sys rls2 example_world Idle (Waiting ?r q))"
    by (rule rl_next [of _ 2]) (use rl_step.enter_wait [of "example_sys rls2 example_world Idle (GotQueue ?r q)" 2 ?r q] in simp)
  then have "rl_reachable (example_sys rls2 example_world Idle (Blocking ?r q))"
    by (rule rl_next [of _ 2]) (use rl_step.wait_check [of "example_sys rls2 example_world Idle (Waiting ?r q)" 2 ?r q] busy [OF wf2 v2] in
      \<open>simp add: request_free_def example_lock_request_def\<close>)
  moreover obtain w where w: "blocked_resched example_world q 2 = Ok w" "task_st w 2 = Blocked"
    by (auto simp: blocked_resched_def example_world_def)
  ultimately have "rl_reachable (example_sys rls2 w Idle (Asleep ?r q))"
    using rl_next [of _ 2] rl_step.wait_block [of "example_sys rls2 example_world Idle (Blocking ?r q)" 2 ?r q w] by simp
  moreover obtain rls3 qs where un: "unlock_lock rls2 (Posix 1) (FdObject 16) 0 10 = Inr (rls3, qs)"
    by (cases "update_target rls2 (FdObject 16) (clear_owner_range (Posix 1) 0 10)") (auto simp: unlock_lock_def validate_range_def)
  ultimately have "rl_reachable (example_sys rls3 w (Notifying [] qs) (Asleep ?r q))"
    using rl_next [of _ 1] rl_step.call_unlock [of "example_sys rls2 w Idle (Asleep ?r q)" 1 "Posix 1" "FdObject 16" 0 10 rls3 qs] by simp
  moreover have "request_free rls3 ?r"
  proof -
    have u: "update_target rls2 (FdObject 16) (clear_owner_range (Posix 1) 0 10) = (rls3, qs)"
      using un by (simp add: unlock_lock_def validate_range_def)
    have "rls_wf rls3" and "rls_view rls3 (FdObject 16) own b = None" for own b
      using unlock_rel(2) [OF wf2 un] update_target_effect(2) [OF wf2 u clear_wf clear_view] by (simp_all add: v2 v1)
    then show ?thesis by (simp add: request_free_def example_lock_request_def lock_free_view)
  qed
  ultimately show ?thesis using w(2) that by blast
qed

section \<open>Properties\<close>

text \<open>
  C4: mutual exclusion under concurrency. In every state that threads reach by calling, in any
  interleaving, the set, unlock and release operations, with signals and spurious wake-ups at will, two
  different owners hold locks on the same byte of the same file only if both are read locks.
\<close>

theorem record_lock_mutual_exclusion:
  assumes "rl_reachable s" and "own \<noteq> own'"
    and "rls_view (rl_locks s) f own b = Some ty" and "rls_view (rl_locks s) f own' b = Some ty'"
  shows "ty = Read \<and> ty' = Read"
proof -
  have wf: "rls_wf (rl_locks s)" using rl_reachable_inv [OF assms(1)] by (simp add: rl_inv_def)
  obtain st where st: "rl_get (rl_locks s) f = Some st" using assms(3) by (auto simp: rls_view_def split: option.splits)
  then show ?thesis
    using rls_wfD(3) [OF wf st] assms(2-4) unfolding exclusive_def by (simp add: rls_view_def)
qed

lemma example_shared:
  obtains s where "rl_reachable s"
    and "rls_view (rl_locks s) (FdObject 16) (Posix 1) 5 = Some Read"
    and "rls_view (rl_locks s) (FdObject 16) (Posix 2) 5 = Some Read"
proof -
  let ?r = "\<lambda>p. (example_lock_request p)\<lparr>rq_type := Read\<rparr>"
  have start: "rl_reachable (example_sys record_locks_new example_world Idle Idle)"
    by (rule rl_start [of example_world]) (auto simp: rl_initial_def example_sys_def example_world_def)
  have none: "rl_get record_locks_new u = None" for u by (simp add: rl_get_def record_locks_new_def)
  obtain rls1 res1 where a1: "set_lock_attempt record_locks_new (Posix 1) (FdObject 16) 0 10 Read True = (rls1, res1)"
    by (cases "set_lock_attempt record_locks_new (Posix 1) (FdObject 16) 0 10 Read True")
  note c1 = set_lock_attempt_cases [OF rls_wf_new _ _ _ a1]
  obtain q1 where q1: "res1 = Acquired q1" using c1(3) by (auto simp: lock_free_def none)
  have v1: "rls_view rls1 u own b = (if u = FdObject 16 \<and> own = Posix 1 \<and> 0 \<le> b \<and> b < 10 then Some Read else None)" for u own b
    using c1(2) [of u own b] q1 by (simp add: rls_view_def none)
  have wf1: "rls_wf rls1" using c1(1) by simp
  obtain rls2 res2 where a2: "set_lock_attempt rls1 (Posix 2) (FdObject 16) 0 10 Read True = (rls2, res2)"
    by (cases "set_lock_attempt rls1 (Posix 2) (FdObject 16) 0 10 Read True")
  note c2 = set_lock_attempt_cases [OF wf1 _ _ _ a2]
  obtain q2 where q2: "res2 = Acquired q2" using c2(3) lock_free_view [OF wf1, of 0 10] by (auto simp: v1 split: if_splits)
  have v2: "rls_view rls2 u own b = (if u = FdObject 16 \<and> own = Posix 2 \<and> 0 \<le> b \<and> b < 10 then Some Read else rls_view rls1 u own b)" for u own b
    using c2(2) [of u own b] q2 by simp
  have "rl_reachable (example_sys record_locks_new example_world (TrySet (?r 1)) Idle)"
    by (rule rl_next [OF start, of 1]) (use rl_step.call_set [of "example_sys record_locks_new example_world Idle Idle" 1 "?r 1"] in
      \<open>simp add: example_lock_request_def validate_range_def\<close>)
  then have "rl_reachable (example_sys rls1 example_world (Notifying [] [q1]) Idle)"
    by (rule rl_next [of _ 1]) (use rl_step.set_acquired [of "example_sys record_locks_new example_world (TrySet (?r 1)) Idle" 1 "?r 1" rls1 q1]
      a1 q1 in \<open>simp add: attempt_def example_lock_request_def\<close>)
  then have "rl_reachable (example_sys rls1 example_world (Notifying [] [q1]) (TrySet (?r 2)))"
    by (rule rl_next [of _ 2]) (use rl_step.call_set [of "example_sys rls1 example_world (Notifying [] [q1]) Idle" 2 "?r 2"] in
      \<open>simp add: example_lock_request_def validate_range_def\<close>)
  then have "rl_reachable (example_sys rls2 example_world (Notifying [] [q1]) (Notifying [] [q2]))"
    by (rule rl_next [of _ 2]) (use rl_step.set_acquired [of "example_sys rls1 example_world (Notifying [] [q1]) (TrySet (?r 2))" 2 "?r 2" rls2 q2]
      a2 q2 in \<open>simp add: attempt_def example_lock_request_def\<close>)
  then show ?thesis by (rule that) (simp_all add: v1 v2)
qed

theorem record_lock_mutual_exclusion_witness:
  "\<exists>s ty ty'. rl_reachable s \<and> rls_view (rl_locks s) (FdObject 16) (Posix 1) 5 = Some ty \<and>
     rls_view (rl_locks s) (FdObject 16) (Posix 2) 5 = Some ty' \<and> ty = Read \<and> ty' = Read"
proof (rule example_shared)
  fix s
  assume s: "rl_reachable s" "rls_view (rl_locks s) (FdObject 16) (Posix 1) 5 = Some Read"
    "rls_view (rl_locks s) (FdObject 16) (Posix 2) 5 = Some Read"
  then show ?thesis
    using record_lock_mutual_exclusion [OF s(1) _ s(2,3)] by auto
qed

text \<open>
  C3: no wake-up is lost. Whenever a thread sleeps in \<open>set_lock\<close> although the lock it asks for could be
  granted, what the other threads have already begun wakes it: the notifications that follow their changes of the table,
  the rest of an owner's release, and the return of the lock of a queue by threads that are about to sleep. No new call is
  needed. As long as the sleeper is not ready, one of these steps can be made; they end, in whatever order they are made, after
  finitely many; so the sleeper is made ready. The queue it sleeps in is the one that is notified, also when the last lock
  of the file went away in between.
\<close>

theorem record_lock_no_lost_wakeup:
  assumes "rl_reachable s" and "rl_pc_of s t = Asleep r q" and "task_st (rl_world s) t = Blocked"
    and "request_free (rl_locks s) r"
  shows "(\<exists>s'. (pending_step t)\<^sup>*\<^sup>* s s' \<and> task_st (rl_world s') t = Ready) \<and>
    (\<forall>s'. (pending_step t)\<^sup>*\<^sup>* s s' \<longrightarrow> task_st (rl_world s') t = Ready \<or> (\<exists>s''. pending_step t s' s'')) \<and>
    \<not> (\<exists>run. run 0 = s \<and> (\<forall>n. pending_step t (run n) (run (Suc n))))"
proof -
  have inv: "rl_inv s" by (rule rl_reachable_inv [OF assms(1)])
  then have due: "due t r q s" using assms by (simp add: due_def)
  have "task_st (rl_world s') t = Ready \<or> (\<exists>s''. pending_step t s' s'')" if "(pending_step t)\<^sup>*\<^sup>* s s'" for s'
  proof -
    from that have "due t r q s'" by (induction rule: rtranclp_induct) (use due due_step in blast)+
    then show ?thesis using due_enabled due_facts(1) by blast
  qed
  then show ?thesis using due_delivered [OF due] pending_steps_end inv by blast
qed

theorem record_lock_no_lost_wakeup_witness:
  "\<exists>s r q s'. rl_reachable s \<and> rl_pc_of s 2 = Asleep r q \<and> task_st (rl_world s) 2 = Blocked \<and>
     request_free (rl_locks s) r \<and> (pending_step 2)\<^sup>*\<^sup>* s s' \<and> task_st (rl_world s') 2 = Ready"
proof (rule example_blocked)
  fix rls qs w q
  assume e: "rl_reachable (example_sys rls w (Notifying [] qs) (Asleep (example_lock_request 2) q))"
    "task_st w 2 = Blocked" "request_free rls (example_lock_request 2)"
  then show ?thesis
    using record_lock_no_lost_wakeup [OF e(1), of 2 "example_lock_request 2" q] by fastforce
qed

end
