(* ===== verification/Flock.thy ===== *)
theory Flock
  imports Lock_Target Wait_Queue
begin

text \<open>
  Whole-file locks (\<^verbatim>\<open>pulse_core/src/flock.rs\<close>): the critical sections of \<open>do_flock\<close> and of the release
  operations, and threads that call them concurrently, at the granularity of the two spin locks they
  take: that of a shard of the table and that of a wait queue. The locks exclude each other as they
  should, but the two spin locks are taken in both orders, and a waiter may sleep in a queue that no
  longer belongs to the file.
\<close>

datatype flock_type = Shared | Exclusive

record lock_state =
  lk_type :: flock_type
  lk_owners :: "64 word list"
  lk_queue :: nat

record flock_maps =
  fl_table :: "lock_state shards"
  fl_next_queue :: nat

definition flock_maps_new :: flock_maps where
  "flock_maps_new = \<lparr>fl_table = shards_new, fl_next_queue = 0\<rparr>"

definition fl_get :: "flock_maps \<Rightarrow> lock_target \<Rightarrow> lock_state option" where
  "fl_get m t = shard_get (fl_table m) t"

definition fl_put :: "flock_maps \<Rightarrow> lock_target \<Rightarrow> lock_state \<Rightarrow> flock_maps" where
  "fl_put m t st = m\<lparr>fl_table := shard_put (fl_table m) t st\<rparr>"

definition fl_del :: "flock_maps \<Rightarrow> lock_target \<Rightarrow> flock_maps" where
  "fl_del m t = m\<lparr>fl_table := shard_remove (fl_table m) t\<rparr>"

abbreviation (input) LOCK_SH :: "32 word" where "LOCK_SH \<equiv> 1"
abbreviation (input) LOCK_EX :: "32 word" where "LOCK_EX \<equiv> 2"
abbreviation (input) LOCK_NB :: "32 word" where "LOCK_NB \<equiv> 4"
abbreviation (input) LOCK_UN :: "32 word" where "LOCK_UN \<equiv> 8"

text \<open>The operation argument: an error, an unlock, or a lock of a type that may be non-blocking.\<close>

datatype flock_op = OpUnlock | OpLock flock_type bool

definition flock_operation :: "32 word \<Rightarrow> flock_op res" where
  "flock_operation operation =
     (let is_sh = operation AND LOCK_SH \<noteq> 0; is_ex = operation AND LOCK_EX \<noteq> 0;
          is_un = operation AND LOCK_UN \<noteq> 0; is_nb = operation AND LOCK_NB \<noteq> 0
      in if of_bool is_sh + of_bool is_ex + of_bool is_un \<noteq> (1 :: nat) then Inl EINVAL
         else if operation AND NOT (LOCK_SH OR LOCK_EX OR LOCK_NB OR LOCK_UN) \<noteq> 0 then Inl EINVAL
         else if is_un then Inr OpUnlock
         else Inr (OpLock (if is_sh then Shared else Exclusive) is_nb))"

text \<open>
  Dropping an owner: the state goes away with its last owner. The result names the queue that is
  notified before the lock of the shard is released.
\<close>

definition drop_owner :: "flock_maps \<Rightarrow> lock_target \<Rightarrow> lock_state \<Rightarrow> 64 word \<Rightarrow> flock_maps" where
  "drop_owner m t st own =
     (let owners = remove1 own (lk_owners st)
      in if owners = [] then fl_del m t else fl_put m t (st\<lparr>lk_owners := owners\<rparr>))"

datatype convert_result = Held | Dropped nat | NotHeld

definition flock_convert :: "flock_maps \<Rightarrow> 64 word \<Rightarrow> lock_target \<Rightarrow> flock_type \<Rightarrow> flock_maps \<times> convert_result" where
  "flock_convert m own t ty =
     (case fl_get m t of
        None \<Rightarrow> (m, NotHeld)
      | Some st \<Rightarrow>
          if own \<in> set (lk_owners st)
          then if lk_type st = ty then (m, Held) else (drop_owner m t st own, Dropped (lk_queue st))
          else (m, NotHeld))"

definition can_acquire :: "lock_state \<Rightarrow> 64 word \<Rightarrow> flock_type \<Rightarrow> bool" where
  "can_acquire st own ty =
     (let holds_already = own \<in> set (lk_owners st)
      in case ty of
           Shared \<Rightarrow> (case lk_type st of Shared \<Rightarrow> True | Exclusive \<Rightarrow> length (lk_owners st) = 1 \<and> holds_already)
         | Exclusive \<Rightarrow> if holds_already then length (lk_owners st) = 1 else lk_owners st = [])"

datatype try_result = Granted | Refused errno | WaitOn nat

definition flock_try :: "flock_maps \<Rightarrow> 64 word \<Rightarrow> lock_target \<Rightarrow> flock_type \<Rightarrow> bool \<Rightarrow> flock_maps \<times> try_result" where
  "flock_try m own t ty is_nb =
     (case fl_get m t of
        Some st \<Rightarrow>
          if can_acquire st own ty
          then (fl_put m t (st\<lparr>lk_type := ty, lk_owners := (if own \<in> set (lk_owners st) then lk_owners st else lk_owners st @ [own])\<rparr>),
                Granted)
          else if is_nb then (m, Refused EAGAIN) else (m, WaitOn (lk_queue st))
      | None \<Rightarrow>
          (fl_put (m\<lparr>fl_next_queue := Suc (fl_next_queue m)\<rparr>) t
             \<lparr>lk_type = ty, lk_owners = [own], lk_queue = fl_next_queue m\<rparr>, Granted))"

text \<open>The condition that \<open>do_flock\<close> waits for, signals apart.\<close>

definition flock_ready :: "flock_maps \<Rightarrow> 64 word \<Rightarrow> lock_target \<Rightarrow> flock_type \<Rightarrow> bool" where
  "flock_ready m own t ty = (case fl_get m t of Some st \<Rightarrow> can_acquire st own ty | None \<Rightarrow> True)"

definition flock_release_target_owner :: "flock_maps \<Rightarrow> 64 word \<Rightarrow> lock_target \<Rightarrow> flock_maps \<times> nat option" where
  "flock_release_target_owner m own t =
     (case fl_get m t of
        None \<Rightarrow> (m, None)
      | Some st \<Rightarrow> if own \<in> set (lk_owners st) then (drop_owner m t st own, Some (lk_queue st)) else (m, None))"

text \<open>
  \<open>flock_release_owner\<close> sweeps the shards one by one. Under the lock of a shard it takes the owner out of
  every state, notifies the states that keep other owners, and then removes and notifies the others.
\<close>

definition release_owner_shard :: "flock_maps \<Rightarrow> 64 word \<Rightarrow> nat \<Rightarrow> flock_maps \<times> nat list" where
  "release_owner_shard m own k =
     (let shard = fl_table m ! k;
          owned = filter (\<lambda>st. own \<in> set (lk_owners st)) (map snd (RBT.entries shard));
          emptied = (\<lambda>st. own \<in> set (lk_owners st) \<and> remove1 own (lk_owners st) = [])
      in (m\<lparr>fl_table := (fl_table m)[k :=
             RBT.map (\<lambda>_ st. st\<lparr>lk_owners := remove1 own (lk_owners st)\<rparr>) (RBT.filter (\<lambda>_ st. \<not> emptied st) shard)]\<rparr>,
          map lk_queue (filter (\<lambda>st. \<not> emptied st) owned @ filter emptied owned)))"

definition flock_release_owner :: "flock_maps \<Rightarrow> 64 word \<Rightarrow> flock_maps \<times> nat list" where
  "flock_release_owner m own =
     foldl (\<lambda>(m, qs) k. case release_owner_shard m own k of (m', qs') \<Rightarrow> (m', qs @ qs'))
       (m, []) [0..<LOCK_TABLE_SHARDS]"

section \<open>Threads\<close>

record fl_request =
  fq_owner :: "64 word"
  fq_target :: lock_target
  fq_type :: flock_type
  fq_nb :: bool

text \<open>
  Where a thread is: outside; before the conversion section; in it, holding the lock of the shard and
  about to take that of a queue to notify it; before the section of the loop; past it with a queue to
  wait on; about to take the lock of the queue; holding it and about to evaluate the condition, for
  which it takes the lock of the shard; asleep; in a release, holding the lock of the shard and about to
  notify a queue; sweeping the shards for an owner, before a shard or holding its lock with queues left to
  notify. A notification takes the tasks out of the queue under its lock and then unblocks them one by one, all
  under the lock of the shard.
\<close>

datatype fl_pc =
    FIdle
  | FConvert fl_request
  | FConvNotify fl_request nat
  | FConvUnblock fl_request "nat list"
  | FTry fl_request
  | FGot fl_request nat
  | FWaiting fl_request nat
  | FCond fl_request nat
  | FAsleep fl_request nat
  | FRelNotify lock_target nat
  | FRelUnblock lock_target "nat list"
  | FSweep "64 word" nat
  | FSweepNotify "64 word" nat "nat list"
  | FSweepUnblock "64 word" nat "nat list" "nat list"

record fl_sys =
  fl_maps :: flock_maps
  fl_world :: wait_world
  fl_pc_of :: "nat \<Rightarrow> fl_pc"

fun shard_held :: "fl_pc \<Rightarrow> nat option" where
  "shard_held (FConvNotify r q) = Some (lock_target_shard (fq_target r))"
| "shard_held (FConvUnblock r ts) = Some (lock_target_shard (fq_target r))"
| "shard_held (FRelNotify t q) = Some (lock_target_shard t)"
| "shard_held (FRelUnblock t ts) = Some (lock_target_shard t)"
| "shard_held (FSweepNotify own k qs) = Some k"
| "shard_held (FSweepUnblock own k ts qs) = Some k"
| "shard_held _ = None"

fun queue_held :: "fl_pc \<Rightarrow> nat option" where
  "queue_held (FCond r q) = Some q"
| "queue_held _ = None"

definition shard_free :: "fl_sys \<Rightarrow> nat \<Rightarrow> bool" where
  "shard_free s k \<longleftrightarrow> (\<forall>u. shard_held (fl_pc_of s u) \<noteq> Some k)"

abbreviation shard_available :: "fl_sys \<Rightarrow> lock_target \<Rightarrow> bool" where
  "shard_available s t \<equiv> shard_free s (lock_target_shard t)"

definition queue_available :: "fl_sys \<Rightarrow> nat \<Rightarrow> bool" where
  "queue_available s q \<longleftrightarrow> (\<forall>u. queue_held (fl_pc_of s u) \<noteq> Some q)"

definition fgoto :: "fl_sys \<Rightarrow> nat \<Rightarrow> fl_pc \<Rightarrow> fl_sys" where
  "fgoto s t pc = s\<lparr>fl_pc_of := (fl_pc_of s)(t := pc)\<rparr>"

inductive fl_step :: "nat \<Rightarrow> fl_sys \<Rightarrow> fl_sys \<Rightarrow> bool" where
  fcall: "fl_pc_of s t = FIdle \<Longrightarrow> flock_operation operation = Inr (OpLock (fq_type r) (fq_nb r)) \<Longrightarrow>
    fl_step t s (fgoto s t (FConvert r))"
| fconvert_held: "fl_pc_of s t = FConvert r \<Longrightarrow> shard_available s (fq_target r) \<Longrightarrow>
    flock_convert (fl_maps s) (fq_owner r) (fq_target r) (fq_type r) = (m, Held) \<Longrightarrow>
    fl_step t s (fgoto (s\<lparr>fl_maps := m\<rparr>) t FIdle)"
| fconvert_drop: "fl_pc_of s t = FConvert r \<Longrightarrow> shard_available s (fq_target r) \<Longrightarrow>
    flock_convert (fl_maps s) (fq_owner r) (fq_target r) (fq_type r) = (m, Dropped q) \<Longrightarrow>
    fl_step t s (fgoto (s\<lparr>fl_maps := m\<rparr>) t (FConvNotify r q))"
| fconvert_none: "fl_pc_of s t = FConvert r \<Longrightarrow> shard_available s (fq_target r) \<Longrightarrow>
    flock_convert (fl_maps s) (fq_owner r) (fq_target r) (fq_type r) = (m, NotHeld) \<Longrightarrow>
    fl_step t s (fgoto (s\<lparr>fl_maps := m\<rparr>) t (FTry r))"
| fconvert_notify: "fl_pc_of s t = FConvNotify r q \<Longrightarrow> queue_available s q \<Longrightarrow> take_queue (fl_world s) q = (w, ts) \<Longrightarrow>
    fl_step t s (fgoto (s\<lparr>fl_world := w\<rparr>) t (FConvUnblock r ts))"
| fconvert_unblock: "fl_pc_of s t = FConvUnblock r (u # ts) \<Longrightarrow>
    fl_step t s (fgoto (s\<lparr>fl_world := notify_task_in_all (fl_world s) u\<rparr>) t (FConvUnblock r ts))"
| fconvert_done: "fl_pc_of s t = FConvUnblock r [] \<Longrightarrow> fl_step t s (fgoto s t (FTry r))"
| ftry_granted: "fl_pc_of s t = FTry r \<Longrightarrow> shard_available s (fq_target r) \<Longrightarrow>
    flock_try (fl_maps s) (fq_owner r) (fq_target r) (fq_type r) (fq_nb r) = (m, Granted) \<Longrightarrow>
    fl_step t s (fgoto (s\<lparr>fl_maps := m\<rparr>) t FIdle)"
| ftry_refused: "fl_pc_of s t = FTry r \<Longrightarrow> shard_available s (fq_target r) \<Longrightarrow>
    flock_try (fl_maps s) (fq_owner r) (fq_target r) (fq_type r) (fq_nb r) = (m, Refused err) \<Longrightarrow>
    fl_step t s (fgoto (s\<lparr>fl_maps := m\<rparr>) t FIdle)"
| ftry_wait: "fl_pc_of s t = FTry r \<Longrightarrow> shard_available s (fq_target r) \<Longrightarrow>
    flock_try (fl_maps s) (fq_owner r) (fq_target r) (fq_type r) (fq_nb r) = (m, WaitOn q) \<Longrightarrow>
    fl_step t s (fgoto (s\<lparr>fl_maps := m\<rparr>) t (FGot r q))"
| fsignal: "fl_pc_of s t = FGot r q \<Longrightarrow> fl_step t s (fgoto s t FIdle)"
| fenter: "fl_pc_of s t = FGot r q \<Longrightarrow> fl_step t s (fgoto s t (FWaiting r q))"
| flock_queue: "fl_pc_of s t = FWaiting r q \<Longrightarrow> queue_available s q \<Longrightarrow> fl_step t s (fgoto s t (FCond r q))"
| fcond_leave: "fl_pc_of s t = FCond r q \<Longrightarrow> shard_available s (fq_target r) \<Longrightarrow>
    flock_ready (fl_maps s) (fq_owner r) (fq_target r) (fq_type r) \<Longrightarrow>
    fl_step t s (fgoto (s\<lparr>fl_world := cancel_events (fl_world s) q t\<rparr>) t (FTry r))"
| fcond_signal: "fl_pc_of s t = FCond r q \<Longrightarrow> shard_available s (fq_target r) \<Longrightarrow>
    fl_step t s (fgoto (s\<lparr>fl_world := cancel_events (fl_world s) q t\<rparr>) t FIdle)"
| fcond_block: "fl_pc_of s t = FCond r q \<Longrightarrow> shard_available s (fq_target r) \<Longrightarrow>
    \<not> flock_ready (fl_maps s) (fq_owner r) (fq_target r) (fq_type r) \<Longrightarrow>
    blocked_resched (fl_world s) q t = Ok w \<Longrightarrow>
    fl_step t s (fgoto (s\<lparr>fl_world := w\<rparr>) t (FAsleep r q))"
| fresume: "fl_pc_of s t = FAsleep r q \<Longrightarrow> task_st (fl_world s) t = Ready \<Longrightarrow>
    fl_step t s (fgoto (s\<lparr>fl_world := fst (transition_state (fl_world s) t Ready Running)\<rparr>) t (FWaiting r q))"
| frelease_none: "fl_pc_of s t = FIdle \<Longrightarrow> shard_available s target \<Longrightarrow>
    flock_release_target_owner (fl_maps s) own target = (m, None) \<Longrightarrow>
    fl_step t s (fgoto (s\<lparr>fl_maps := m\<rparr>) t FIdle)"
| frelease_drop: "fl_pc_of s t = FIdle \<Longrightarrow> shard_available s target \<Longrightarrow>
    flock_release_target_owner (fl_maps s) own target = (m, Some q) \<Longrightarrow>
    fl_step t s (fgoto (s\<lparr>fl_maps := m\<rparr>) t (FRelNotify target q))"
| frelease_notify: "fl_pc_of s t = FRelNotify target q \<Longrightarrow> queue_available s q \<Longrightarrow> take_queue (fl_world s) q = (w, ts) \<Longrightarrow>
    fl_step t s (fgoto (s\<lparr>fl_world := w\<rparr>) t (FRelUnblock target ts))"
| frelease_unblock: "fl_pc_of s t = FRelUnblock target (u # ts) \<Longrightarrow>
    fl_step t s (fgoto (s\<lparr>fl_world := notify_task_in_all (fl_world s) u\<rparr>) t (FRelUnblock target ts))"
| frelease_done: "fl_pc_of s t = FRelUnblock target [] \<Longrightarrow> fl_step t s (fgoto s t FIdle)"
| fsweep_start: "fl_pc_of s t = FIdle \<Longrightarrow> fl_step t s (fgoto s t (FSweep own 0))"
| fsweep_shard: "fl_pc_of s t = FSweep own k \<Longrightarrow> k < LOCK_TABLE_SHARDS \<Longrightarrow> shard_free s k \<Longrightarrow>
    release_owner_shard (fl_maps s) own k = (m, qs) \<Longrightarrow>
    fl_step t s (fgoto (s\<lparr>fl_maps := m\<rparr>) t (FSweepNotify own k qs))"
| fsweep_notify: "fl_pc_of s t = FSweepNotify own k (q # qs) \<Longrightarrow> queue_available s q \<Longrightarrow> take_queue (fl_world s) q = (w, ts) \<Longrightarrow>
    fl_step t s (fgoto (s\<lparr>fl_world := w\<rparr>) t (FSweepUnblock own k ts qs))"
| fsweep_unblock: "fl_pc_of s t = FSweepUnblock own k (u # ts) qs \<Longrightarrow>
    fl_step t s (fgoto (s\<lparr>fl_world := notify_task_in_all (fl_world s) u\<rparr>) t (FSweepUnblock own k ts qs))"
| fsweep_unblocked: "fl_pc_of s t = FSweepUnblock own k [] qs \<Longrightarrow> fl_step t s (fgoto s t (FSweepNotify own k qs))"
| fsweep_next: "fl_pc_of s t = FSweepNotify own k [] \<Longrightarrow> fl_step t s (fgoto s t (FSweep own (Suc k)))"
| fsweep_done: "fl_pc_of s t = FSweep own LOCK_TABLE_SHARDS \<Longrightarrow> fl_step t s (fgoto s t FIdle)"

text \<open>A signal, or another waker outside of this code, readies a sleeping thread.\<close>

inductive fl_signal :: "nat \<Rightarrow> fl_sys \<Rightarrow> fl_sys \<Rightarrow> bool" where
  fwoken: "fl_pc_of s t = FAsleep r q \<Longrightarrow> task_st (fl_world s) t = Blocked \<Longrightarrow>
    fl_signal t s (s\<lparr>fl_world := fst (transition_state (fl_world s) t Blocked Ready)\<rparr>)"

definition fl_initial :: fl_sys where
  "fl_initial =
     \<lparr>fl_maps = flock_maps_new,
      fl_world = \<lparr>wqueue = (\<lambda>_. []), wwakers = (\<lambda>_. []), task_st = (\<lambda>_. Running), in_wait_queue = (\<lambda>_. False),
        notified = (\<lambda>_. False), woken = [], waker_entry_id = 1\<rparr>,
      fl_pc_of = (\<lambda>_. FIdle)\<rparr>"

inductive fl_reachable :: "fl_sys \<Rightarrow> bool" where
  fl_start: "fl_reachable fl_initial"
| fl_next: "fl_reachable s \<Longrightarrow> fl_step t s s' \<Longrightarrow> fl_reachable s'"
| fl_woken: "fl_reachable s \<Longrightarrow> fl_signal t s s' \<Longrightarrow> fl_reachable s'"

definition fl_any :: "fl_sys \<Rightarrow> fl_sys \<Rightarrow> bool" where
  "fl_any s s' \<longleftrightarrow> (\<exists>t. fl_step t s s' \<or> fl_signal t s s')"

text \<open>All steps, and the signals to threads other than \<open>t\<close>.\<close>

definition fl_unsignalled :: "nat \<Rightarrow> fl_sys \<Rightarrow> fl_sys \<Rightarrow> bool" where
  "fl_unsignalled t s s' \<longleftrightarrow> (\<exists>u. fl_step u s s' \<or> u \<noteq> t \<and> fl_signal u s s')"

section \<open>The table\<close>

definition lock_state_wf :: "lock_state \<Rightarrow> bool" where
  "lock_state_wf st \<longleftrightarrow> lk_owners st \<noteq> [] \<and> distinct (lk_owners st) \<and>
     (lk_type st = Exclusive \<longrightarrow> length (lk_owners st) = 1)"

definition flock_wf :: "flock_maps \<Rightarrow> bool" where
  "flock_wf m \<longleftrightarrow> shards_wf (fl_table m) \<and>
     (\<forall>t st. fl_get m t = Some st \<longrightarrow> lock_state_wf st \<and> lk_queue st < fl_next_queue m)"

text \<open>The lock that an owner holds on a file.\<close>

definition fl_view :: "flock_maps \<Rightarrow> lock_target \<Rightarrow> 64 word \<Rightarrow> flock_type option" where
  "fl_view m t own =
     (case fl_get m t of None \<Rightarrow> None | Some st \<Rightarrow> if own \<in> set (lk_owners st) then Some (lk_type st) else None)"

lemma fl_get_simps [simp]:
  "shards_wf (fl_table m) \<Longrightarrow> fl_get (fl_put m t st) u = (if u = t then Some st else fl_get m u)"
  "shards_wf (fl_table m) \<Longrightarrow> fl_get (fl_del m t) u = (if u = t then None else fl_get m u)"
  "fl_get (m\<lparr>fl_next_queue := n\<rparr>) u = fl_get m u"
  by (simp_all add: fl_get_def fl_put_def fl_del_def)

lemma fl_fields [simp]:
  "shards_wf (fl_table m) \<Longrightarrow> shards_wf (fl_table (fl_put m t st))"
  "shards_wf (fl_table m) \<Longrightarrow> shards_wf (fl_table (fl_del m t))"
  "fl_next_queue (fl_put m t st) = fl_next_queue m" "fl_next_queue (fl_del m t) = fl_next_queue m"
  by (simp_all add: fl_put_def fl_del_def)

lemma flock_wfD:
  assumes "flock_wf m"
  shows "shards_wf (fl_table m)" and "fl_get m t = Some st \<Longrightarrow> lock_state_wf st"
    and "fl_get m t = Some st \<Longrightarrow> lk_queue st < fl_next_queue m"
  using assms by (auto simp: flock_wf_def)

lemma flock_wf_new: "flock_wf flock_maps_new"
  by (simp add: flock_wf_def flock_maps_new_def fl_get_def)

lemma flock_wf_put:
  assumes "flock_wf m" and "lock_state_wf st" and "lk_queue st < fl_next_queue m"
  shows "flock_wf (fl_put m t st)"
  using assms by (auto simp: flock_wf_def)

lemma drop_owner_wf:
  assumes wf: "flock_wf m" and st: "fl_get m t = Some st" and own: "own \<in> set (lk_owners st)"
  shows "flock_wf (drop_owner m t st own)"
    and "fl_view (drop_owner m t st own) u o' = (if u = t \<and> o' = own then None else fl_view m u o')"
    and "fl_next_queue (drop_owner m t st own) = fl_next_queue m"
proof -
  have sh: "shards_wf (fl_table m)" and ok: "lock_state_wf st" and q: "lk_queue st < fl_next_queue m"
    using flock_wfD [OF wf] st by auto
  have "lock_state_wf (st\<lparr>lk_owners := remove1 own (lk_owners st)\<rparr>)" if "remove1 own (lk_owners st) \<noteq> []"
    using ok that own by (cases "lk_owners st") (auto simp: lock_state_wf_def length_remove1)
  then show "flock_wf (drop_owner m t st own)"
    using wf q sh by (auto simp: drop_owner_def Let_def flock_wf_def)
  show "fl_view (drop_owner m t st own) u o' = (if u = t \<and> o' = own then None else fl_view m u o')"
    using ok st sh own by (auto simp: drop_owner_def Let_def fl_view_def lock_state_wf_def) (metis empty_iff empty_set in_set_remove1)+
  show "fl_next_queue (drop_owner m t st own) = fl_next_queue m" by (simp add: drop_owner_def Let_def)
qed

lemma fl_view_None:
  "fl_get m t = None \<Longrightarrow> fl_view m t own = None"
  "fl_get m t = Some st \<Longrightarrow> own \<notin> set (lk_owners st) \<Longrightarrow> fl_view m t own = None"
  by (simp_all add: fl_view_def)

lemma flock_convert_wf:
  assumes "flock_wf m" and "flock_convert m own t ty = (m', r)"
  shows "flock_wf m'" and "fl_next_queue m' = fl_next_queue m"
    and "fl_view m' u o' = (if (\<exists>q. r = Dropped q) \<and> u = t \<and> o' = own then None else fl_view m u o')"
  using assms drop_owner_wf [OF assms(1), of t _ own]
  by (auto simp: flock_convert_def split: option.splits if_splits)

lemma flock_release_wf:
  assumes "flock_wf m" and "flock_release_target_owner m own t = (m', r)"
  shows "flock_wf m'" and "fl_next_queue m' = fl_next_queue m"
    and "fl_view m' u o' = (if u = t \<and> o' = own then None else fl_view m u o')"
  using assms drop_owner_wf [OF assms(1), of t _ own]
  by (auto simp: flock_release_target_owner_def fl_view_None split: option.splits if_splits)

text \<open>The sweep of one shard, seen through the lookup, and of the whole table.\<close>

lemma release_owner_shard_get:
  assumes "flock_wf m" and "k < 32"
  shows "shards_wf (fl_table (fst (release_owner_shard m own k)))"
    and "fl_next_queue (fst (release_owner_shard m own k)) = fl_next_queue m"
    and "fl_get (fst (release_owner_shard m own k)) t =
      (if lock_target_shard t \<noteq> k then fl_get m t
       else case fl_get m t of None \<Rightarrow> None
            | Some st \<Rightarrow> if own \<in> set (lk_owners st) \<and> remove1 own (lk_owners st) = [] then None
                        else Some (st\<lparr>lk_owners := remove1 own (lk_owners st)\<rparr>))"
proof -
  have wf: "shards_wf (fl_table m)" using flock_wfD(1) [OF assms(1)] .
  show "shards_wf (fl_table (fst (release_owner_shard m own k)))"
  proof (rule shards_wfI)
    fix i t
    assume "i < 32" "RBT.lookup (fl_table (fst (release_owner_shard m own k)) ! i) t \<noteq> None"
    then show "lock_target_shard t = i"
      using shards_wfD [OF wf, of i t] assms(2) wf
      by (cases "i = k") (auto simp: release_owner_shard_def Let_def RBT.lookup_filter split: option.splits if_splits)
  qed (use wf in \<open>simp add: release_owner_shard_def Let_def\<close>)
  show "fl_next_queue (fst (release_owner_shard m own k)) = fl_next_queue m"
    by (simp add: release_owner_shard_def Let_def)
  show "fl_get (fst (release_owner_shard m own k)) t =
      (if lock_target_shard t \<noteq> k then fl_get m t
       else case fl_get m t of None \<Rightarrow> None
            | Some st \<Rightarrow> if own \<in> set (lk_owners st) \<and> remove1 own (lk_owners st) = [] then None
                        else Some (st\<lparr>lk_owners := remove1 own (lk_owners st)\<rparr>))"
    using wf assms(2)
    by (auto simp: release_owner_shard_def Let_def fl_get_def shard_get_def RBT.lookup_filter split: option.splits)
qed

lemma release_owner_shard_wf:
  assumes wf: "flock_wf m" and k: "k < 32"
  shows "flock_wf (fst (release_owner_shard m own k))"
    and "fl_view (fst (release_owner_shard m own k)) t o' =
      (if lock_target_shard t = k \<and> o' = own then None else fl_view m t o')"
proof -
  note g = release_owner_shard_get [OF wf k]
  have keep: "lock_state_wf (st\<lparr>lk_owners := remove1 own (lk_owners st)\<rparr>)"
    if "lock_state_wf st" "own \<in> set (lk_owners st) \<longrightarrow> remove1 own (lk_owners st) \<noteq> []" for st :: lock_state
    using that by (cases "own \<in> set (lk_owners st)"; cases "lk_owners st")
      (auto simp: lock_state_wf_def length_remove1 remove1_idem)
  show "flock_wf (fst (release_owner_shard m own k))"
    using wf keep by (auto simp: flock_wf_def g split: option.splits if_splits)
  have "distinct (lk_owners st)" if "fl_get m t = Some st" for st
    using flock_wfD(2) [OF wf that] by (simp add: lock_state_wf_def)
  then show "fl_view (fst (release_owner_shard m own k)) t o' =
      (if lock_target_shard t = k \<and> o' = own then None else fl_view m t o')"
    by (auto simp: fl_view_def g split: option.splits) (metis empty_iff empty_set in_set_remove1)+
qed

lemma flock_release_owner_wf:
  assumes "flock_wf m"
  shows "flock_wf (fst (flock_release_owner m own))"
    and "fl_view (fst (flock_release_owner m own)) t o' = (if o' = own then None else fl_view m t o')"
proof -
  let ?f = "\<lambda>(m, qs) k. case release_owner_shard m own k of (m', qs') \<Rightarrow> (m', qs @ qs')"
  have fst_f: "fst (?f (m, qs) k) = fst (release_owner_shard m own k)" for m :: flock_maps and qs k
    by (simp split: prod.splits)
  have *: "flock_wf (fst (foldl ?f (m, []) [0..<n])) \<and>
      fl_view (fst (foldl ?f (m, []) [0..<n])) t o' = (if lock_target_shard t < n \<and> o' = own then None else fl_view m t o')"
    if "n \<le> 32" for n
    using that
  proof (induction n)
    case (Suc n)
    obtain m' qs where m': "foldl ?f (m, []) [0..<n] = (m', qs)" by (cases "foldl ?f (m, []) [0..<n]")
    then show ?case using Suc release_owner_shard_wf [of m' n own] fst_f [of m' qs n] by (auto simp: less_Suc_eq)
  qed (simp add: assms)
  show "flock_wf (fst (flock_release_owner m own))"
    "fl_view (fst (flock_release_owner m own)) t o' = (if o' = own then None else fl_view m t o')"
    using * [of 32] by (simp_all add: flock_release_owner_def)
qed

lemma flock_try_Some:
  assumes wf: "flock_wf m" and st: "fl_get m t = Some st" and c: "can_acquire st own ty"
  shows "lock_state_wf (st\<lparr>lk_type := ty, lk_owners := (if own \<in> set (lk_owners st) then lk_owners st else lk_owners st @ [own])\<rparr>)"
    and "\<And>o' ty'. o' \<noteq> own \<Longrightarrow> fl_view m t o' = Some ty' \<Longrightarrow> ty = Shared \<and> ty' = Shared"
  using flock_wfD(2) [OF wf st] c st
  by (auto simp: lock_state_wf_def can_acquire_def Let_def fl_view_def length_Suc_conv
      split: flock_type.splits if_splits)

lemma flock_try_blocked:
  assumes "flock_wf m" and "fl_get m t = Some st" and "\<not> can_acquire st own ty"
  shows "\<exists>o' ty'. o' \<noteq> own \<and> fl_view m t o' = Some ty' \<and> (ty = Exclusive \<or> ty' = Exclusive)"
proof -
  have wf: "lock_state_wf st" using flock_wfD(2) [OF assms(1,2)] .
  have "\<exists>o'. o' \<in> set (lk_owners st) \<and> o' \<noteq> own"
  proof (rule ccontr)
    assume "\<not> ?thesis"
    then have "set (lk_owners st) \<subseteq> {own}" by auto
    moreover have "distinct (lk_owners st)" "lk_owners st \<noteq> []" using wf by (auto simp: lock_state_wf_def)
    ultimately have "lk_owners st = [own]" by (cases "lk_owners st"; cases "tl (lk_owners st)") auto
    then show False using assms(3) by (simp add: can_acquire_def split: flock_type.splits)
  qed
  moreover have "ty = Exclusive \<or> lk_type st = Exclusive"
    using assms(3) by (cases ty; cases "lk_type st") (auto simp: can_acquire_def)
  ultimately show ?thesis using assms(2) by (auto simp: fl_view_def)
qed

lemma flock_try_effect:
  assumes wf: "flock_wf m" and tr: "flock_try m own t ty nb = (m', r)"
  shows "flock_wf m'" and "fl_next_queue m \<le> fl_next_queue m'"
    and "if \<exists>o' ty'. o' \<noteq> own \<and> fl_view m t o' = Some ty' \<and> (ty = Exclusive \<or> ty' = Exclusive)
      then m' = m \<and> (if nb then r = Refused EAGAIN else \<exists>q. r = WaitOn q)
      else r = Granted \<and> (\<forall>u o'. fl_view m' u o' = (if u = t \<and> o' = own then Some ty else fl_view m u o'))"
proof -
  have sh: "shards_wf (fl_table m)" using flock_wfD(1) [OF wf] .
  have "flock_wf m' \<and> fl_next_queue m \<le> fl_next_queue m' \<and>
    (if \<exists>o' ty'. o' \<noteq> own \<and> fl_view m t o' = Some ty' \<and> (ty = Exclusive \<or> ty' = Exclusive)
      then m' = m \<and> (if nb then r = Refused EAGAIN else \<exists>q. r = WaitOn q)
      else r = Granted \<and> (\<forall>u o'. fl_view m' u o' = (if u = t \<and> o' = own then Some ty else fl_view m u o')))"
  proof (cases "fl_get m t")
    case None
    let ?m = "m\<lparr>fl_next_queue := Suc (fl_next_queue m)\<rparr>"
    have "flock_wf ?m" using wf by (auto simp: flock_wf_def intro: less_SucI)
    then have "flock_wf (fl_put ?m t \<lparr>lk_type = ty, lk_owners = [own], lk_queue = fl_next_queue m\<rparr>)"
      by (rule flock_wf_put) (simp_all add: lock_state_wf_def)
    then show ?thesis using tr None sh by (auto simp: flock_try_def fl_view_def)
  next
    case (Some st)
    show ?thesis
    proof (cases "can_acquire st own ty")
      case True
      let ?st = "st\<lparr>lk_type := ty, lk_owners := (if own \<in> set (lk_owners st) then lk_owners st else lk_owners st @ [own])\<rparr>"
      note t = flock_try_Some [OF wf Some True]
      have "flock_wf (fl_put m t ?st)" by (rule flock_wf_put [OF wf t(1)]) (use flock_wfD(3) [OF wf Some] in simp)
      moreover have "fl_view (fl_put m t ?st) u o' = (if u = t \<and> o' = own then Some ty else fl_view m u o')" for u o'
        using t(2) [of o'] Some sh by (auto simp: fl_view_def split: if_splits)
      moreover have "\<not> (\<exists>o' ty'. o' \<noteq> own \<and> fl_view m t o' = Some ty' \<and> (ty = Exclusive \<or> ty' = Exclusive))"
        using t(2) by blast
      moreover have "m' = fl_put m t ?st" "r = Granted" using tr Some True by (simp_all add: flock_try_def)
      ultimately show ?thesis by simp
    next
      case False
      then show ?thesis using tr Some wf flock_try_blocked [OF wf Some False] by (auto simp: flock_try_def split: if_splits)
    qed
  qed
  then show "flock_wf m'" and "fl_next_queue m \<le> fl_next_queue m'"
    and "if \<exists>o' ty'. o' \<noteq> own \<and> fl_view m t o' = Some ty' \<and> (ty = Exclusive \<or> ty' = Exclusive)
      then m' = m \<and> (if nb then r = Refused EAGAIN else \<exists>q. r = WaitOn q)
      else r = Granted \<and> (\<forall>u o'. fl_view m' u o' = (if u = t \<and> o' = own then Some ty else fl_view m u o'))" by blast+
qed

lemma fgoto_simps [simp]:
  "fl_maps (fgoto s t pc) = fl_maps s" "fl_world (fgoto s t pc) = fl_world s"
  "fl_pc_of (fgoto s t pc) = (fl_pc_of s)(t := pc)"
  by (simp_all add: fgoto_def)

lemma release_owner_shard_fst:
  assumes "release_owner_shard m own k = (m', qs)" and "k < 32" and "flock_wf m"
  shows "flock_wf m'" "fl_next_queue m' = fl_next_queue m"
  using release_owner_shard_wf(1) [OF assms(3,2), of own] release_owner_shard_get(2) [OF assms(3,2), of own] assms(1)
  by simp_all

lemma fl_step_wf: "fl_step t s s' \<Longrightarrow> flock_wf (fl_maps s) \<Longrightarrow>
    flock_wf (fl_maps s') \<and> fl_next_queue (fl_maps s) \<le> fl_next_queue (fl_maps s')"
  by (induction rule: fl_step.induct)
    (auto dest: flock_convert_wf(1,2) flock_try_effect(1,2) flock_release_wf(1,2)
      dest: release_owner_shard_fst)

lemma fl_reachable_wf: "fl_reachable s \<Longrightarrow> flock_wf (fl_maps s)"
  by (induction rule: fl_reachable.induct) (auto simp: fl_initial_def flock_wf_new elim!: fl_signal.cases dest: fl_step_wf)

section \<open>Properties\<close>

text \<open>
  C7: the critical sections against the map from files and owners to the lock held. On a well-formed table the
  section of the loop of \<open>do_flock\<close> grants the lock exactly when no other owner holds an incompatible lock on
  the file; it is then the only thing that changes, and otherwise nothing changes and the call is refused with
  \<open>EAGAIN\<close> or waits. The releases take away exactly the lock of the owner on the file, and all locks of the
  owner. All keep the table well-formed.
\<close>

theorem flock_refines:
  assumes "flock_wf m"
  shows "(case flock_try m own t ty nb of (m', r) \<Rightarrow>
    flock_wf m' \<and>
    (if \<exists>o' ty'. o' \<noteq> own \<and> fl_view m t o' = Some ty' \<and> (ty = Exclusive \<or> ty' = Exclusive)
     then m' = m \<and> (if nb then r = Refused EAGAIN else \<exists>q. r = WaitOn q)
     else r = Granted \<and> (\<forall>u o'. fl_view m' u o' = (if u = t \<and> o' = own then Some ty else fl_view m u o')))) \<and>
    flock_wf (fst (flock_release_target_owner m own t)) \<and>
    (\<forall>u o'. fl_view (fst (flock_release_target_owner m own t)) u o' = (if u = t \<and> o' = own then None else fl_view m u o')) \<and>
    flock_wf (fst (flock_release_owner m own)) \<and>
    (\<forall>u o'. fl_view (fst (flock_release_owner m own)) u o' = (if o' = own then None else fl_view m u o'))"
proof (cases "flock_try m own t ty nb")
  case (Pair m' r)
  show ?thesis
    using flock_try_effect(1,3) [OF assms Pair] flock_release_wf(1,3) [OF assms prod.collapse [symmetric]]
      flock_release_owner_wf [OF assms] by (simp only: Pair prod.case) simp
qed

theorem flock_refines_witness:
  "flock_wf flock_maps_new \<and> snd (flock_try flock_maps_new 1 (FdObject 16) Exclusive False) = Granted"
  using flock_refines [OF flock_wf_new, of 1 "FdObject 16" Exclusive False] flock_wf_new
  by (auto simp: fl_view_def flock_maps_new_def fl_get_def split: prod.splits)

text \<open>
  C8: mutual exclusion. In every reachable state of the interleaved system, an owner that holds an
  exclusive lock on a file is the only owner that holds a lock on it.
\<close>

theorem flock_mutual_exclusion:
  assumes "fl_reachable s" and "fl_view (fl_maps s) f own = Some Exclusive" and "fl_view (fl_maps s) f own' = Some ty"
  shows "own' = own"
proof -
  obtain st where st: "fl_get (fl_maps s) f = Some st" "own \<in> set (lk_owners st)" "own' \<in> set (lk_owners st)" "lk_type st = Exclusive"
    using assms(2,3) by (auto simp: fl_view_def split: option.splits if_splits)
  then have "length (lk_owners st) = 1"
    using flock_wfD(2) [OF fl_reachable_wf [OF assms(1)] st(1)] by (simp add: lock_state_wf_def)
  then show ?thesis using st(2,3) by (auto simp: length_Suc_conv)
qed

section \<open>Two runs\<close>

definition fl_example :: "flock_maps \<Rightarrow> wait_world \<Rightarrow> fl_pc \<Rightarrow> fl_pc \<Rightarrow> fl_pc \<Rightarrow> fl_sys" where
  "fl_example m w p1 p2 p3 = \<lparr>fl_maps = m, fl_world = w, fl_pc_of = (\<lambda>_. FIdle)(1 := p1, 2 := p2, 3 := p3)\<rparr>"

definition fl_ask :: "64 word \<Rightarrow> fl_request" where
  "fl_ask own = \<lparr>fq_owner = own, fq_target = FdObject 16, fq_type = Exclusive, fq_nb = False\<rparr>"

lemma fl_example_simps [simp]:
  "fl_maps (fl_example m w p1 p2 p3) = m" "fl_world (fl_example m w p1 p2 p3) = w"
  "fl_pc_of (fl_example m w p1 p2 p3) 1 = p1" "fl_pc_of (fl_example m w p1 p2 p3) (Suc 0) = p1"
  "fl_pc_of (fl_example m w p1 p2 p3) 2 = p2" "fl_pc_of (fl_example m w p1 p2 p3) 3 = p3"
  "fgoto (fl_example m w p1 p2 p3) 1 p = fl_example m w p p2 p3" "fgoto (fl_example m w p1 p2 p3) (Suc 0) p = fl_example m w p p2 p3"
  "fgoto (fl_example m w p1 p2 p3) 2 p = fl_example m w p1 p p3" "fgoto (fl_example m w p1 p2 p3) 3 p = fl_example m w p1 p2 p"
  "(fl_example m w p1 p2 p3)\<lparr>fl_maps := m'\<rparr> = fl_example m' w p1 p2 p3"
  "(fl_example m w p1 p2 p3)\<lparr>fl_world := w'\<rparr> = fl_example m w' p1 p2 p3"
  by (auto simp: fl_example_def fgoto_def fun_eq_iff)

lemma all_three:
  assumes "P d"
  shows "(\<forall>u :: nat. P (((\<lambda>_. d)(1 := a, 2 := b, 3 := c)) u)) \<longleftrightarrow> P a \<and> P b \<and> P c" (is "?l \<longleftrightarrow> ?r")
proof
  assume l: ?l
  show ?r using l [THEN spec, of 1] l [THEN spec, of 2] l [THEN spec, of 3] by simp
next
  assume ?r
  then show ?l using assms by simp
qed

lemma fl_example_available [simp]:
  "shard_available (fl_example m w p1 p2 p3) t \<longleftrightarrow>
     shard_held p1 \<noteq> Some (lock_target_shard t) \<and> shard_held p2 \<noteq> Some (lock_target_shard t) \<and>
     shard_held p3 \<noteq> Some (lock_target_shard t)"
  "queue_available (fl_example m w p1 p2 p3) q \<longleftrightarrow>
     queue_held p1 \<noteq> Some q \<and> queue_held p2 \<noteq> Some q \<and> queue_held p3 \<noteq> Some q"
  using all_three [of "\<lambda>p. shard_held p \<noteq> Some (lock_target_shard t)" FIdle p1 p2 p3]
    all_three [of "\<lambda>p. queue_held p \<noteq> Some q" FIdle p1 p2 p3]
  by (simp_all only: shard_free_def queue_available_def fl_example_def fl_sys.simps shard_held.simps queue_held.simps
      option.distinct not_False_eq_True simp_thms)

lemma fl_ask_simps [simp]:
  "fq_owner (fl_ask own) = own" "fq_target (fl_ask own) = FdObject 16" "fq_type (fl_ask own) = Exclusive"
  "fq_nb (fl_ask own) = False"
  by (simp_all add: fl_ask_def)

lemma flock_operation_ex: "flock_operation LOCK_EX = Inr (OpLock Exclusive False)"
  by (simp add: flock_operation_def)

text \<open>A free file is locked in three steps, whatever the other threads do meanwhile.\<close>

lemma shard_available_goto:
  "shard_available s f \<Longrightarrow> shard_held p = None \<Longrightarrow> shard_available (fgoto s t p) f"
  by (simp add: shard_free_def)

lemma fl_lock_free:
  assumes "fl_reachable s" and idle: "fl_pc_of s t = FIdle" and free: "fl_get (fl_maps s) (FdObject 16) = None"
    and av: "shard_available s (FdObject 16)"
  shows "fl_reachable (s\<lparr>fl_maps := fst (flock_try (fl_maps s) own (FdObject 16) Exclusive False)\<rparr>)"
proof -
  let ?r = "fl_ask own" and ?m = "fst (flock_try (fl_maps s) own (FdObject 16) Exclusive False)"
  let ?s1 = "fgoto s t (FConvert ?r)" and ?s2 = "fgoto s t (FTry ?r)"
  have "fl_step t s ?s1"
    by (rule fl_step.fcall [OF idle, of LOCK_EX]) (simp add: flock_operation_ex)
  moreover have "fl_step t ?s1 ?s2"
    using fl_step.fconvert_none [of ?s1 t ?r "fl_maps s"] av free
    by (simp add: shard_available_goto flock_convert_def) (simp add: fgoto_def)
  moreover have "fl_step t ?s2 (fgoto (?s2\<lparr>fl_maps := ?m\<rparr>) t FIdle)"
    by (rule fl_step.ftry_granted [of _ _ ?r]) (use av free in \<open>simp_all add: shard_available_goto flock_try_def\<close>)
  moreover have "fgoto (?s2\<lparr>fl_maps := ?m\<rparr>) t FIdle = s\<lparr>fl_maps := ?m\<rparr>"
    using idle by (simp add: fgoto_def fun_upd_idem)
  ultimately show ?thesis using assms(1) by (metis fl_next)
qed

text \<open>A thread waits for good: whatever steps follow, without a signal to it, it stays where it is and blocked.\<close>

definition sleeps_forever :: "fl_sys \<Rightarrow> nat \<Rightarrow> bool" where
  "sleeps_forever s t \<longleftrightarrow>
     (\<forall>s'. (fl_unsignalled t)\<^sup>*\<^sup>* s s' \<longrightarrow> fl_pc_of s' t = fl_pc_of s t \<and> task_st (fl_world s') t = Blocked)"

definition stuck_forever :: "fl_sys \<Rightarrow> nat \<Rightarrow> bool" where
  "stuck_forever s t \<longleftrightarrow> (\<forall>s'. fl_any\<^sup>*\<^sup>* s s' \<longrightarrow> fl_pc_of s' t = fl_pc_of s t)"

fun notifies :: "fl_pc \<Rightarrow> nat set" where
  "notifies (FConvNotify r q) = {q}"
| "notifies (FRelNotify t q) = {q}"
| "notifies (FSweepNotify own k qs) = set qs"
| "notifies (FSweepUnblock own k ts qs) = set qs"
| "notifies _ = {}"

fun unblocks :: "fl_pc \<Rightarrow> nat set" where
  "unblocks (FConvUnblock r ts) = set ts"
| "unblocks (FRelUnblock t ts) = set ts"
| "unblocks (FSweepUnblock own k ts qs) = set ts"
| "unblocks _ = {}"

text \<open>A sleeper on a queue that belongs to no file and that nobody is about to notify.\<close>

definition orphan_queue :: "nat \<Rightarrow> flock_maps \<Rightarrow> bool" where
  "orphan_queue q m \<longleftrightarrow> flock_wf m \<and> q < fl_next_queue m \<and> (\<forall>f st. fl_get m f = Some st \<longrightarrow> lk_queue st \<noteq> q)"

definition parked :: "nat \<Rightarrow> nat \<Rightarrow> wait_world \<Rightarrow> bool" where
  "parked t q w \<longleftrightarrow> task_st w t = Blocked \<and> (\<forall>q'. t \<in> set (wqueue w q') \<longrightarrow> q' = q)"

definition forgotten :: "nat \<Rightarrow> fl_request \<Rightarrow> nat \<Rightarrow> fl_sys \<Rightarrow> bool" where
  "forgotten t r q s \<longleftrightarrow> fl_pc_of s t = FAsleep r q \<and> parked t q (fl_world s) \<and> orphan_queue q (fl_maps s) \<and>
     (\<forall>u. q \<notin> notifies (fl_pc_of s u) \<and> t \<notin> unblocks (fl_pc_of s u))"

lemma drop_owner_queue:
  assumes "flock_wf m" and "fl_get m f = Some st" and "fl_get (drop_owner m f st own) g = Some st'"
  shows "\<exists>st''. fl_get m g = Some st'' \<and> lk_queue st'' = lk_queue st'"
  using assms flock_wfD(1) [OF assms(1)] by (auto simp: drop_owner_def Let_def split: if_splits)

lemma flock_convert_queue:
  assumes "flock_wf m" and "flock_convert m own t ty = (m', res)"
  shows "fl_get m' g = Some st' \<Longrightarrow> \<exists>st''. fl_get m g = Some st'' \<and> lk_queue st'' = lk_queue st'"
    and "res = Dropped q \<Longrightarrow> \<exists>st. fl_get m t = Some st \<and> lk_queue st = q"
  using assms(2) drop_owner_queue [OF assms(1)]
  by (fastforce simp: flock_convert_def split: option.splits if_splits)+

lemma flock_release_queue:
  assumes "flock_wf m" and "flock_release_target_owner m own t = (m', res)"
  shows "fl_get m' g = Some st' \<Longrightarrow> \<exists>st''. fl_get m g = Some st'' \<and> lk_queue st'' = lk_queue st'"
    and "res = Some q \<Longrightarrow> \<exists>st. fl_get m t = Some st \<and> lk_queue st = q"
  using assms(2) drop_owner_queue [OF assms(1)]
  by (fastforce simp: flock_release_target_owner_def split: option.splits if_splits)+

lemma flock_try_queue:
  assumes "flock_wf m" and "flock_try m own t ty nb = (m', res)"
  shows "fl_get m' g = Some st' \<Longrightarrow>
    lk_queue st' = fl_next_queue m \<or> (\<exists>st''. fl_get m g = Some st'' \<and> lk_queue st'' = lk_queue st')"
  using assms(2) flock_wfD(1) [OF assms(1)]
  by (auto simp: flock_try_def split: option.splits if_splits)

lemma release_owner_shard_queue:
  assumes wf: "flock_wf m" and k: "k < 32" and r: "release_owner_shard m own k = (m', qs)"
  shows "fl_get m' g = Some st' \<Longrightarrow> \<exists>st''. fl_get m g = Some st'' \<and> lk_queue st'' = lk_queue st'"
    and "q \<in> set qs \<Longrightarrow> \<exists>f st. fl_get m f = Some st \<and> lk_queue st = q"
proof -
  show "\<exists>st''. fl_get m g = Some st'' \<and> lk_queue st'' = lk_queue st'" if "fl_get m' g = Some st'"
    using release_owner_shard_get(3) [OF wf k, of own g] r that by (auto split: option.splits if_splits)
  assume "q \<in> set qs"
  then have "q \<in> lk_queue ` snd ` set (RBT.entries (fl_table m ! k))"
    using r by (auto simp: release_owner_shard_def Let_def intro!: imageI)
  then obtain f st where f: "RBT.lookup (fl_table m ! k) f = Some st" and "q = lk_queue st"
    by (auto simp: RBT.lookup_in_tree)
  then have "lock_target_shard f = k" using shards_wfD [OF flock_wfD(1) [OF wf] k] by simp
  then show "\<exists>f st. fl_get m f = Some st \<and> lk_queue st = q"
    using f \<open>q = lk_queue st\<close> by (auto simp: fl_get_def shard_get_def)
qed

lemma orphan_queue_sections:
  assumes "orphan_queue q m"
  shows "flock_convert m own t ty = (m', res) \<Longrightarrow> orphan_queue q m' \<and> res \<noteq> Dropped q"
    and "flock_try m own t ty nb = (m', res') \<Longrightarrow> orphan_queue q m'"
    and "flock_release_target_owner m own t = (m', res'') \<Longrightarrow> orphan_queue q m' \<and> res'' \<noteq> Some q"
    and "release_owner_shard m own k = (m', qs) \<Longrightarrow> k < 32 \<Longrightarrow> orphan_queue q m' \<and> q \<notin> set qs"
proof -
  have wf: "flock_wf m" and q: "q < fl_next_queue m" and fr: "\<And>f st. fl_get m f = Some st \<Longrightarrow> lk_queue st \<noteq> q"
    using assms by (auto simp: orphan_queue_def)
  show "orphan_queue q m' \<and> res \<noteq> Dropped q" if a: "flock_convert m own t ty = (m', res)"
    using flock_convert_wf(1,2) [OF wf a] flock_convert_queue [OF wf a] q fr unfolding orphan_queue_def by metis
  show "orphan_queue q m'" if a: "flock_try m own t ty nb = (m', res')"
    using flock_try_effect(1,2) [OF wf a] flock_try_queue [OF wf a] q fr
    unfolding orphan_queue_def by (metis order_less_le_trans order_less_irrefl)
  show "orphan_queue q m' \<and> res'' \<noteq> Some q" if a: "flock_release_target_owner m own t = (m', res'')"
    using flock_release_wf(1,2) [OF wf a] flock_release_queue [OF wf a] q fr unfolding orphan_queue_def by metis
  show "orphan_queue q m' \<and> q \<notin> set qs" if a: "release_owner_shard m own k = (m', qs)" and k: "k < 32"
    using release_owner_shard_fst [OF a k wf] release_owner_shard_queue [OF wf k a] q fr unfolding orphan_queue_def by metis
qed

lemma parked_world:
  assumes "parked t q w"
  shows "take_queue w q' = (w', ts) \<Longrightarrow> q \<noteq> q' \<Longrightarrow> parked t q w' \<and> t \<notin> set ts" and "parked t q (cancel_events w q' u)"
    and "u \<noteq> t \<Longrightarrow> parked t q (notify_task_in_all w u)"
    and "u \<noteq> t \<Longrightarrow> blocked_resched w q' u = Ok w' \<Longrightarrow> parked t q w'"
    and "u \<noteq> t \<Longrightarrow> parked t q (fst (transition_state w u old new))"
  using assms by (auto simp: parked_def take_queue_def blocked_resched_Ok transition_state_def split: if_splits)

lemma forgotten_step:
  assumes st: "fl_step u s s'" and "forgotten t r q s"
  shows "forgotten t r q s'"
proof -
  have pc: "fl_pc_of s t = FAsleep r q" and k: "parked t q (fl_world s)" and o: "orphan_queue q (fl_maps s)"
    and n: "\<And>v. q \<notin> notifies (fl_pc_of s v) \<and> t \<notin> unblocks (fl_pc_of s v)"
    using assms(2) by (simp_all add: forgotten_def)
  have u: "u \<noteq> t" using st pc k by (auto simp: parked_def elim!: fl_step.cases)
  note o' = orphan_queue_sections [OF o] and k' = parked_world(1) [OF k] parked_world(2,3) [OF k] parked_world(4,5) [OF k u]
  show ?thesis using st
    by (cases rule: fl_step.cases)
      (use u pc k o n [of u] n in \<open>auto simp: forgotten_def k'(2,3,5) dest: o' k'(1,4)\<close>)
qed

lemma forgotten_signal: "fl_signal u s s' \<Longrightarrow> u \<noteq> t \<Longrightarrow> forgotten t r q s \<Longrightarrow> forgotten t r q s'"
  by (auto simp: forgotten_def parked_world(5) elim!: fl_signal.cases)

lemma forgotten_sleeps: "forgotten t r q s \<Longrightarrow> sleeps_forever s t"
proof -
  assume f: "forgotten t r q s"
  have "forgotten t r q s'" if "(fl_unsignalled t)\<^sup>*\<^sup>* s s'" for s'
    using that by (induction rule: rtranclp_induct) (auto simp: f fl_unsignalled_def dest: forgotten_step forgotten_signal)
  then show ?thesis using f by (auto simp: sleeps_forever_def forgotten_def parked_def)
qed

text \<open>Two threads that each hold the lock the other one needs.\<close>

lemma deadlock_step:
  assumes "fl_step x s s'" and "fl_pc_of s u = FCond r q" and "fl_pc_of s v = FRelNotify (fq_target r) q"
  shows "fl_pc_of s' u = fl_pc_of s u" and "fl_pc_of s' v = fl_pc_of s v"
proof -
  have a: "\<not> shard_available s (fq_target r)" "\<not> queue_available s q"
    unfolding shard_free_def queue_available_def
    by (rule notI, drule spec [of _ v], simp add: assms(3)) (rule notI, drule spec [of _ u], simp add: assms(2))
  show "fl_pc_of s' u = fl_pc_of s u" using assms a by (auto elim!: fl_step.cases)
  show "fl_pc_of s' v = fl_pc_of s v" using assms a by (auto elim!: fl_step.cases)
qed

lemma deadlock_stuck:
  assumes "fl_pc_of s u = FCond r q" and "fl_pc_of s v = FRelNotify (fq_target r) q"
  shows "stuck_forever s u \<and> stuck_forever s v"
proof -
  have "fl_pc_of s' u = FCond r q \<and> fl_pc_of s' v = FRelNotify (fq_target r) q" if "fl_any\<^sup>*\<^sup>* s s'" for s'
    using that by (induction rule: rtranclp_induct) (use assms in \<open>auto simp: fl_any_def deadlock_step elim!: fl_signal.cases\<close>)
  then show ?thesis using assms by (simp add: stuck_forever_def)
qed

text \<open>
  The common beginning: the first thread holds an exclusive lock, the second asked for one and is about
  to wait on the queue of the file.
\<close>

abbreviation (input) one_holder :: "64 word \<Rightarrow> nat \<Rightarrow> lock_state" where
  "one_holder own q \<equiv> \<lparr>lk_type = Exclusive, lk_owners = [own], lk_queue = q\<rparr>"

definition held_by_first :: flock_maps where
  "held_by_first = fst (flock_try flock_maps_new 1 (FdObject 16) Exclusive False)"

definition released_by_first :: flock_maps where
  "released_by_first = fl_del held_by_first (FdObject 16)"

definition held_by_third :: flock_maps where
  "held_by_third = fst (flock_try released_by_first 3 (FdObject 16) Exclusive False)"

lemma new_maps_facts [simp]: "shards_wf (fl_table flock_maps_new)" "fl_get flock_maps_new t = None" "fl_next_queue flock_maps_new = 0"
  by (simp_all add: flock_maps_new_def fl_get_def)

lemma held_by_first_facts [simp]:
  "shards_wf (fl_table held_by_first)" "fl_next_queue held_by_first = 1"
  "fl_get held_by_first t = (if t = FdObject 16 then Some (one_holder 1 0) else None)"
  by (simp_all add: held_by_first_def flock_try_def)

lemma released_by_first_facts [simp]:
  "shards_wf (fl_table released_by_first)" "fl_next_queue released_by_first = 1" "fl_get released_by_first t = None"
  by (simp_all add: released_by_first_def)

lemma held_by_third_facts [simp]:
  "shards_wf (fl_table held_by_third)" "fl_next_queue held_by_third = 2"
  "fl_get held_by_third t = (if t = FdObject 16 then Some (one_holder 3 1) else None)"
  by (simp_all add: held_by_third_def flock_try_def)

lemma fl_initial_example: "fl_initial = fl_example flock_maps_new (fl_world fl_initial) FIdle FIdle FIdle"
  by (simp add: fl_initial_def fl_example_def fun_eq_iff)

lemma example_waiting:
  "fl_reachable (fl_example held_by_first (fl_world fl_initial) FIdle (FWaiting (fl_ask 2) 0) FIdle)"
proof -
  let ?w = "fl_world fl_initial" and ?m = held_by_first and ?r = "fl_ask 2"
  have "fl_reachable (fl_example flock_maps_new ?w FIdle FIdle FIdle)"
    using fl_start fl_initial_example by simp
  then have "fl_reachable (fl_example ?m ?w FIdle FIdle FIdle)"
    using fl_lock_free [of "fl_example flock_maps_new ?w FIdle FIdle FIdle" 1 1] by (simp add: held_by_first_def)
  then have "fl_reachable (fl_example ?m ?w FIdle (FConvert ?r) FIdle)"
    by (rule fl_next [of _ 2]) (use fl_step.fcall [of "fl_example ?m ?w FIdle FIdle FIdle" 2 LOCK_EX ?r] flock_operation_ex in simp)
  then have "fl_reachable (fl_example ?m ?w FIdle (FTry ?r) FIdle)"
    by (rule fl_next [of _ 2])
      (use fl_step.fconvert_none [of "fl_example ?m ?w FIdle (FConvert ?r) FIdle" 2 ?r ?m] in \<open>simp add: flock_convert_def\<close>)
  then have "fl_reachable (fl_example ?m ?w FIdle (FGot ?r 0) FIdle)"
    by (rule fl_next [of _ 2])
      (use fl_step.ftry_wait [of "fl_example ?m ?w FIdle (FTry ?r) FIdle" 2 ?r ?m 0] in
        \<open>simp add: flock_try_def can_acquire_def\<close>)
  then show ?thesis
    by (rule fl_next [of _ 2]) (use fl_step.fenter [of "fl_example ?m ?w FIdle (FGot ?r 0) FIdle" 2 ?r 0] in simp)
qed

theorem flock_mutual_exclusion_witness:
  "\<exists>s. fl_reachable s \<and> fl_view (fl_maps s) (FdObject 16) 1 = Some Exclusive \<and> fl_view (fl_maps s) (FdObject 16) 2 = None"
proof -
  let ?s = "fl_example held_by_first (fl_world fl_initial) FIdle (FWaiting (fl_ask 2) 0) FIdle"
  have v: "fl_view (fl_maps ?s) (FdObject 16) 1 = Some Exclusive" by (simp add: fl_view_def)
  have "fl_view (fl_maps ?s) (FdObject 16) 2 \<noteq> Some ty" for ty
    using flock_mutual_exclusion [OF example_waiting v, of 2 ty] by auto
  then have "fl_view (fl_maps ?s) (FdObject 16) 2 = None" by (cases "fl_view (fl_maps ?s) (FdObject 16) 2") blast+
  then show ?thesis using example_waiting v by blast
qed

lemma release_first:
  "shard_held p = None \<Longrightarrow>
   fl_step 1 (fl_example held_by_first w FIdle p FIdle) (fl_example released_by_first w (FRelNotify (FdObject 16) 0) p FIdle)"
  using fl_step.frelease_drop [of "fl_example held_by_first w FIdle p FIdle" 1 "FdObject 16" 1 released_by_first 0]
  by (simp add: flock_release_target_owner_def drop_owner_def released_by_first_def)

text \<open>
  C32: a deadlock. There is a reachable state in which one thread waits under the lock of the queue for the
  lock of the shard, to evaluate the condition of its wait, and another one, releasing the lock of the
  file, waits under the lock of the shard for the lock of the queue, to notify it. Neither ever moves again, not
  even on a signal.
\<close>

theorem flock_deadlock:
  "\<exists>s r q u v. fl_reachable s \<and> fl_pc_of s u = FCond r q \<and> fl_pc_of s v = FRelNotify (fq_target r) q \<and>
     stuck_forever s u \<and> stuck_forever s v"
proof -
  let ?w = "fl_world fl_initial" and ?r = "fl_ask 2"
  let ?s = "fl_example released_by_first ?w (FRelNotify (FdObject 16) 0) (FCond ?r 0) FIdle"
  have "fl_reachable (fl_example held_by_first ?w FIdle (FCond ?r 0) FIdle)"
    by (rule fl_next [OF example_waiting, of 2])
      (use fl_step.flock_queue [of "fl_example held_by_first ?w FIdle (FWaiting ?r 0) FIdle" 2 ?r 0] in simp)
  then have "fl_reachable ?s" by (rule fl_next [OF _ release_first]) simp
  moreover have "fl_pc_of ?s 2 = FCond ?r 0" "fl_pc_of ?s 1 = FRelNotify (fq_target ?r) 0" by simp_all
  ultimately show ?thesis using deadlock_stuck by blast
qed

lemma release_done:
  assumes "fl_reachable (fl_example m w p1 p2 p3)" and "t = (1::nat) \<and> p1 = FRelNotify f q \<and> p2 = p \<and> p1' = FIdle \<and> p3' = p3 \<or>
      t = 3 \<and> p3 = FRelNotify f q \<and> p2 = p \<and> p3' = FIdle \<and> p1' = p1"
    and "queue_available (fl_example m w p1 p2 p3) q" and "wqueue w q = []"
  shows "fl_reachable (fl_example m w p1' p p3')"
proof -
  have tk: "take_queue w q = (w, [])" using assms(4) by (simp add: take_queue_def fun_upd_idem)
  let ?s = "fl_example m w p1 p2 p3"
  have pc: "fl_pc_of ?s t = FRelNotify f q" using assms(2) by auto
  have "fl_step t ?s (fgoto (?s\<lparr>fl_world := w\<rparr>) t (FRelUnblock f []))"
    by (rule fl_step.frelease_notify [OF pc assms(3)]) (simp add: tk)
  then have r: "fl_reachable (fgoto ?s t (FRelUnblock f []))" using fl_next [OF assms(1)] by simp
  have "fl_step t (fgoto ?s t (FRelUnblock f [])) (fgoto (fgoto ?s t (FRelUnblock f [])) t FIdle)"
    by (rule fl_step.frelease_done) simp
  then have "fl_reachable (fgoto (fgoto ?s t (FRelUnblock f [])) t FIdle)" by (rule fl_next [OF r])
  then show ?thesis using assms(2) by auto
qed

lemma example_released:
  "fl_reachable (fl_example held_by_third (fl_world fl_initial) FIdle (FCond (fl_ask 2) 0) FIdle)"
proof -
  let ?w = "fl_world fl_initial" and ?p = "FWaiting (fl_ask 2) 0"
  have "fl_reachable (fl_example released_by_first ?w (FRelNotify (FdObject 16) 0) ?p FIdle)"
    by (rule fl_next [OF example_waiting release_first]) simp
  then have "fl_reachable (fl_example released_by_first ?w FIdle ?p FIdle)"
    by (rule release_done [where t = 1]) (auto simp: fl_initial_def)
  then have "fl_reachable (fl_example held_by_third ?w FIdle ?p FIdle)"
    using fl_lock_free [of "fl_example released_by_first ?w FIdle ?p FIdle" 3 3] by (simp add: held_by_third_def)
  then show ?thesis
    by (rule fl_next [of _ 2])
      (use fl_step.flock_queue [of "fl_example held_by_third ?w FIdle ?p FIdle" 2 "fl_ask 2" 0] in simp)
qed

lemma example_forgotten:
  "\<exists>s. fl_reachable s \<and> forgotten 2 (fl_ask 2) 0 s \<and> flock_ready (fl_maps s) 2 (FdObject 16) Exclusive \<and>
     (\<forall>u. u = 2 \<or> fl_pc_of s u = FIdle)"
proof -
  let ?m = "fl_del held_by_third (FdObject 16)" and ?p = "FAsleep (fl_ask 2) 0"
  obtain w where w: "blocked_resched (fl_world fl_initial) 0 2 = Ok w" "task_st w 2 = Blocked" "wqueue w = (\<lambda>_. [])(0 := [2])"
    by (simp add: blocked_resched_def fl_initial_def)
  have "fl_reachable (fl_example held_by_third w FIdle ?p FIdle)"
    by (rule fl_next [OF example_released, of 2])
      (use fl_step.fcond_block [of "fl_example held_by_third (fl_world fl_initial) FIdle (FCond (fl_ask 2) 0) FIdle" 2 "fl_ask 2" 0 w] w
        in \<open>simp add: flock_ready_def can_acquire_def\<close>)
  then have "fl_reachable (fl_example ?m w FIdle ?p (FRelNotify (FdObject 16) 1))"
    by (rule fl_next [of _ 3])
      (use fl_step.frelease_drop [of "fl_example held_by_third w FIdle ?p FIdle" 3 "FdObject 16" 3 ?m 1] in
        \<open>simp add: flock_release_target_owner_def drop_owner_def\<close>)
  then have r: "fl_reachable (fl_example ?m w FIdle ?p FIdle)"
    by (rule release_done [where t = 3]) (auto simp: w(3))
  have "parked 2 0 w" using w(2,3) by (simp add: parked_def)
  moreover have "orphan_queue 0 ?m" using fl_reachable_wf [OF r] by (simp add: orphan_queue_def)
  ultimately have "forgotten 2 (fl_ask 2) 0 (fl_example ?m w FIdle ?p FIdle)"
    by (simp add: forgotten_def fl_example_def)
  moreover have "flock_ready ?m 2 (FdObject 16) Exclusive" by (simp add: flock_ready_def)
  moreover have "\<forall>u. u = 2 \<or> fl_pc_of (fl_example ?m w FIdle ?p FIdle) u = FIdle" by (simp add: fl_example_def)
  ultimately show ?thesis using r by (intro exI [of _ "fl_example ?m w FIdle ?p FIdle"]) simp
qed

text \<open>
  C33: a lost wake-up. There is a reachable state in which a thread sleeps for a lock that it could take, and in
  which all other threads are done: the queue it sleeps on belonged to an earlier lock of the file, which
  was released and whose successor has a queue of its own. No later lock or release, by whatever threads and
  interleaving, ever wakes it; only a signal could.
\<close>

theorem flock_lost_wakeup:
  "\<exists>s r q t. fl_reachable s \<and> fl_pc_of s t = FAsleep r q \<and>
     flock_ready (fl_maps s) (fq_owner r) (fq_target r) (fq_type r) \<and>
     (\<forall>u. u = t \<or> fl_pc_of s u = FIdle) \<and> sleeps_forever s t"
proof -
  obtain s where s: "fl_reachable s" "forgotten 2 (fl_ask 2) 0 s" "flock_ready (fl_maps s) 2 (FdObject 16) Exclusive"
    "\<forall>u. u = 2 \<or> fl_pc_of s u = FIdle" using example_forgotten by blast
  show ?thesis
    using s forgotten_sleeps [OF s(2)]
    by (intro exI [of _ s] exI [of _ "fl_ask 2"] exI [of _ 0] exI [of _ 2]) (simp add: forgotten_def)
qed

end
