(* ===== verification/Btree_Map.thy ===== *)
theory Btree_Map
  imports Main
begin

text \<open>
  The ordered map of the standard library (\<^verbatim>\<open>alloc::collections::BTreeMap\<close>) for the code that walks
  over ranges of keys: an association list in ascending order of the keys, with the lookup, insertion
  and removal of a key and the first and last entry of a range.
\<close>

type_synonym ('k, 'v) btree = "('k \<times> 'v) list"

definition bt_sorted :: "('k :: linorder, 'v) btree \<Rightarrow> bool" where
  "bt_sorted m \<longleftrightarrow> sorted_wrt (<) (map fst m)"

definition bt_get :: "('k, 'v) btree \<Rightarrow> 'k \<Rightarrow> 'v option" where
  "bt_get m k = map_of m k"

fun bt_insert :: "'k :: linorder \<Rightarrow> 'v \<Rightarrow> ('k, 'v) btree \<Rightarrow> ('k, 'v) btree" where
  "bt_insert k v [] = [(k, v)]"
| "bt_insert k v ((k', v') # m) =
     (if k < k' then (k, v) # (k', v') # m
      else if k = k' then (k, v) # m
      else (k', v') # bt_insert k v m)"

definition bt_remove :: "'k \<Rightarrow> ('k, 'v) btree \<Rightarrow> ('k, 'v) btree" where
  "bt_remove k m = filter (\<lambda>(k', _). k' \<noteq> k) m"

text \<open>The entries of a range of keys, the first one and the last one.\<close>

definition bt_range :: "('k \<Rightarrow> bool) \<Rightarrow> ('k, 'v) btree \<Rightarrow> ('k, 'v) btree" where
  "bt_range P m = filter (\<lambda>(k, _). P k) m"

definition bt_first :: "('k \<Rightarrow> bool) \<Rightarrow> ('k, 'v) btree \<Rightarrow> ('k \<times> 'v) option" where
  "bt_first P m = (case bt_range P m of [] \<Rightarrow> None | e # _ \<Rightarrow> Some e)"

definition bt_last :: "('k \<Rightarrow> bool) \<Rightarrow> ('k, 'v) btree \<Rightarrow> ('k \<times> 'v) option" where
  "bt_last P m = (case bt_range P m of [] \<Rightarrow> None | es \<Rightarrow> Some (last es))"

lemma bt_sorted_simps [simp]:
  "bt_sorted []" "bt_sorted (e # m) \<longleftrightarrow> (\<forall>e'\<in>set m. fst e < fst e') \<and> bt_sorted m"
  "bt_sorted (m @ m') \<longleftrightarrow> bt_sorted m \<and> bt_sorted m' \<and> (\<forall>e\<in>set m. \<forall>e'\<in>set m'. fst e < fst e')"
  by (auto simp: bt_sorted_def sorted_wrt_append)

lemma bt_sorted_key:
  "bt_sorted m \<Longrightarrow> (k, v) \<in> set m \<Longrightarrow> (k, v') \<in> set m \<Longrightarrow> v = v'"
  by (induction m) fastforce+

lemma bt_get_iff: "bt_sorted m \<Longrightarrow> bt_get m k = Some v \<longleftrightarrow> (k, v) \<in> set m"
  by (induction m) (auto simp: bt_get_def)

lemma bt_get_None: "bt_get m k = None \<longleftrightarrow> (\<forall>v. (k, v) \<notin> set m)"
  by (force simp: bt_get_def map_of_eq_None_iff)

lemma set_bt_insert: "bt_sorted m \<Longrightarrow> set (bt_insert k v m) = insert (k, v) {e \<in> set m. fst e \<noteq> k}"
  by (induction k v m rule: bt_insert.induct) (fastforce split: if_splits)+

lemma bt_sorted_insert [simp]: "bt_sorted m \<Longrightarrow> bt_sorted (bt_insert k v m)"
  by (induction k v m rule: bt_insert.induct) (auto simp: set_bt_insert)

lemma set_bt_remove [simp]: "set (bt_remove k m) = {e \<in> set m. fst e \<noteq> k}"
  by (auto simp: bt_remove_def)

lemma bt_sorted_filter [simp]: "bt_sorted m \<Longrightarrow> bt_sorted (filter P m)"
  by (induction m) auto

lemma bt_sorted_remove [simp]: "bt_sorted m \<Longrightarrow> bt_sorted (bt_remove k m)"
  by (simp add: bt_remove_def)

lemma set_bt_range [simp]: "set (bt_range P m) = {e \<in> set m. P (fst e)}"
  by (auto simp: bt_range_def)

lemma bt_sorted_range [simp]: "bt_sorted m \<Longrightarrow> bt_sorted (bt_range P m)"
  by (simp add: bt_range_def)

lemma bt_range_Nil: "bt_range P m = [] \<longleftrightarrow> (\<forall>e\<in>set m. \<not> P (fst e))"
  by (auto simp: bt_range_def filter_empty_conv)

lemma bt_first_None: "bt_first P m = None \<longleftrightarrow> (\<forall>e\<in>set m. \<not> P (fst e))"
  using bt_range_Nil [of P m] by (auto simp: bt_first_def split: list.splits)

lemma bt_last_None: "bt_last P m = None \<longleftrightarrow> (\<forall>e\<in>set m. \<not> P (fst e))"
  using bt_range_Nil [of P m] by (auto simp: bt_last_def split: list.splits)

lemma bt_first_Some:
  assumes "bt_sorted m" and "bt_first P m = Some (k, v)"
  shows "(k, v) \<in> set m" and "P k" and "(k', v') \<in> set m \<Longrightarrow> P k' \<Longrightarrow> k \<le> k'"
proof -
  obtain es where es: "bt_range P m = (k, v) # es"
    using assms(2) by (auto simp: bt_first_def split: list.splits)
  then have "(k, v) \<in> set (bt_range P m)" by simp
  then show "(k, v) \<in> set m" "P k" by auto
  have so: "bt_sorted ((k, v) # es)" using bt_sorted_range [OF assms(1), of P] es by simp
  assume "(k', v') \<in> set m" "P k'"
  then have "(k', v') \<in> set ((k, v) # es)" unfolding es [symmetric] by simp
  then show "k \<le> k'" using so by fastforce
qed

lemma bt_last_Some:
  assumes "bt_sorted m" and "bt_last P m = Some (k, v)"
  shows "(k, v) \<in> set m" and "P k" and "(k', v') \<in> set m \<Longrightarrow> P k' \<Longrightarrow> k' \<le> k"
proof -
  obtain es where es: "bt_range P m = es @ [(k, v)]"
    using assms(2) append_butlast_last_id [of "bt_range P m"]
    by (cases "bt_range P m") (auto simp: bt_last_def intro: that [of "butlast (bt_range P m)"] simp del: append_butlast_last_id)
  then have "(k, v) \<in> set (bt_range P m)" by simp
  then show "(k, v) \<in> set m" "P k" by auto
  have so: "bt_sorted (es @ [(k, v)])" using bt_sorted_range [OF assms(1), of P] es by simp
  assume "(k', v') \<in> set m" "P k'"
  then have "(k', v') \<in> set (es @ [(k, v)])" unfolding es [symmetric] by simp
  then show "k' \<le> k" using so by fastforce
qed

end
