(* ===== verification/Memory_Addr.thy ===== *)
theory Memory_Addr
  imports Prelude
begin

text \<open>
  Addresses and address ranges (\<^verbatim>\<open>crates/memory_addr/src\<close>): the checked and wrapping arithmetic on
  addresses, the alignment functions, and the half-open ranges with their tests. An address is a
  64-bit word.
\<close>

type_synonym addr = "64 word"

section \<open>Arithmetic\<close>

definition checked_add :: "addr \<Rightarrow> addr \<Rightarrow> addr option" where
  "checked_add a b = (if uint a + uint b < 2 ^ 64 then Some (a + b) else None)"

definition checked_sub :: "addr \<Rightarrow> addr \<Rightarrow> addr option" where
  "checked_sub a b = (if b \<le> a then Some (a - b) else None)"

text \<open>\<open>MemoryAddr::sub_addr\<close> panics when the result would be negative.\<close>

definition sub_addr :: "addr \<Rightarrow> addr \<Rightarrow> ('e, addr) outcome" where
  "sub_addr a b = (case checked_sub a b of Some d \<Rightarrow> Ok d | None \<Rightarrow> Panic)"

definition align_down :: "addr \<Rightarrow> addr \<Rightarrow> addr" where
  "align_down a align = a AND NOT (align - 1)"

definition align_up :: "addr \<Rightarrow> addr \<Rightarrow> addr" where
  "align_up a align = (a + align - 1) AND NOT (align - 1)"

definition align_offset :: "addr \<Rightarrow> addr \<Rightarrow> addr" where
  "align_offset a align = a AND (align - 1)"

definition is_aligned :: "addr \<Rightarrow> addr \<Rightarrow> bool" where
  "is_aligned a align \<longleftrightarrow> align_offset a align = 0"

section \<open>Ranges\<close>

record addr_range =
  rstart :: addr
  rend :: addr

definition range_new :: "addr \<Rightarrow> addr \<Rightarrow> ('e, addr_range) outcome" where
  "range_new s e = (if s \<le> e then Ok \<lparr>rstart = s, rend = e\<rparr> else Panic)"

definition try_new :: "addr \<Rightarrow> addr \<Rightarrow> addr_range option" where
  "try_new s e = (if s \<le> e then Some \<lparr>rstart = s, rend = e\<rparr> else None)"

definition from_start_size :: "addr \<Rightarrow> addr \<Rightarrow> ('e, addr_range) outcome" where
  "from_start_size s n = (case checked_add s n of Some e \<Rightarrow> Ok \<lparr>rstart = s, rend = e\<rparr> | None \<Rightarrow> Panic)"

definition try_from_start_size :: "addr \<Rightarrow> addr \<Rightarrow> addr_range option" where
  "try_from_start_size s n = map_option (\<lambda>e. \<lparr>rstart = s, rend = e\<rparr>) (checked_add s n)"

definition range_is_empty :: "addr_range \<Rightarrow> bool" where
  "range_is_empty r \<longleftrightarrow> rstart r \<ge> rend r"

definition range_size :: "addr_range \<Rightarrow> addr" where
  "range_size r = rend r - rstart r"

definition range_contains :: "addr_range \<Rightarrow> addr \<Rightarrow> bool" where
  "range_contains r a \<longleftrightarrow> rstart r \<le> a \<and> a < rend r"

definition contains_range :: "addr_range \<Rightarrow> addr_range \<Rightarrow> bool" where
  "contains_range r r' \<longleftrightarrow> rstart r \<le> rstart r' \<and> rend r' \<le> rend r"

definition contained_in :: "addr_range \<Rightarrow> addr_range \<Rightarrow> bool" where
  "contained_in r r' \<longleftrightarrow> contains_range r' r"

definition range_overlaps :: "addr_range \<Rightarrow> addr_range \<Rightarrow> bool" where
  "range_overlaps r r' \<longleftrightarrow> rstart r < rend r' \<and> rstart r' < rend r"

section \<open>Facts\<close>

lemma checked_add_eq: "checked_add a b = (if a \<le> a + b then Some (a + b) else None)"
  using no_olen_add [of a b] by (simp add: checked_add_def)

lemma checked_add_Some: "checked_add a b = Some c \<longleftrightarrow> c = a + b \<and> a \<le> c"
  by (auto simp: checked_add_eq)

lemma checked_add_size [simp]: "a \<le> b \<Longrightarrow> checked_add a (b - a) = Some b"
  by (simp add: checked_add_eq)

lemma sub_addr_Ok [simp]: "b \<le> a \<Longrightarrow> sub_addr a b = Ok (a - b)"
  by (simp add: sub_addr_def checked_sub_def)

lemma from_start_size_Ok [simp]: "a \<le> b \<Longrightarrow> from_start_size a (b - a) = Ok \<lparr>rstart = a, rend = b\<rparr>"
  by (simp add: from_start_size_def)

lemma word_diff_less:
  fixes a b c :: "'a :: len word"
  assumes "a \<le> b" and "a \<le> c"
  shows "b - a < c - a \<longleftrightarrow> b < c" and "b - a \<le> c - a \<longleftrightarrow> b \<le> c"
  using assms by (simp_all add: word_less_def word_le_def uint_minus_simple_alt [THEN iffD1] word_le_def)

lemma word_diff_pos:
  fixes a b :: "'a :: len word"
  shows "0 < b - a \<longleftrightarrow> a \<noteq> b"
  by (auto simp: word_greater_zero_iff)

text \<open>The two notions of overlap and the set of addresses of a range.\<close>

lemma range_overlaps_iff:
  assumes "\<not> range_is_empty r" and "\<not> range_is_empty r'"
  shows "range_overlaps r r' \<longleftrightarrow> (\<exists>a. range_contains r a \<and> range_contains r' a)"
proof
  assume "range_overlaps r r'"
  then have "range_contains r (max (rstart r) (rstart r')) \<and> range_contains r' (max (rstart r) (rstart r'))"
    using assms by (auto simp: range_overlaps_def range_contains_def range_is_empty_def max_def)
  then show "\<exists>a. range_contains r a \<and> range_contains r' a" by blast
qed (auto simp: range_overlaps_def range_contains_def)

text \<open>Alignment to a power of two.\<close>

lemma align_down_bits: "k < 64 \<Longrightarrow> align_down a (2 ^ k) = push_bit k (drop_bit k a)"
  by (rule bit_word_eqI) (auto simp: align_down_def bit_simps mask_eq_decr_exp [symmetric] simp flip: mask_eq_exp_minus_1)

lemma uint_align_down:
  assumes "k < 64"
  shows "uint (align_down a (2 ^ k)) = uint a div 2 ^ k * 2 ^ k"
proof -
  have "0 \<le> uint a mod 2 ^ k" by simp
  then have "uint a div 2 ^ k * 2 ^ k \<le> uint a" using minus_mod_eq_div_mult [of "uint a" "2 ^ k"] by linarith
  then have "uint a div 2 ^ k * 2 ^ k < 2 ^ 64" using uint_lt2p [of a] by simp
  then have "take_bit 64 (push_bit k (drop_bit k (uint a))) = uint a div 2 ^ k * 2 ^ k"
    by (simp add: take_bit_int_eq_self_iff push_bit_eq_mult drop_bit_eq_div pos_imp_zdiv_nonneg_iff)
  moreover have "take_bit 64 (uint a) = uint a" using uint_lt2p [of a] by (simp add: take_bit_int_eq_self_iff)
  ultimately show ?thesis
    by (simp only: align_down_bits [OF assms] unsigned_push_bit_eq unsigned_drop_bit_eq len_num1 len_bit0) simp
qed

lemma is_aligned_iff: "is_aligned a (2 ^ k) \<longleftrightarrow> 2 ^ k dvd uint a"
proof -
  have "align_offset a (2 ^ k) = take_bit k a"
    by (simp add: align_offset_def take_bit_eq_mask mask_eq_exp_minus_1)
  then have "is_aligned a (2 ^ k) \<longleftrightarrow> uint (take_bit k a) = 0"
    by (simp only: is_aligned_def uint_0_iff)
  also have "\<dots> \<longleftrightarrow> take_bit k (uint a) = 0" by (simp only: unsigned_take_bit_eq)
  finally show ?thesis by (simp add: take_bit_eq_0_iff)
qed

lemma align_up_uint:
  assumes "k < 64" and "uint a + (2 ^ k - 1) < 2 ^ 64"
  shows "uint (align_up a (2 ^ k)) = (uint a + (2 ^ k - 1)) div 2 ^ k * 2 ^ k"
proof -
  have p: "uint (2 ^ k :: addr) = 2 ^ k" by (rule uint_2p) (use assms(1) in \<open>simp add: word_greater_zero_iff\<close>)
  have "uint (2 ^ k - 1 :: addr) = 2 ^ k - 1" using p by (simp add: uint_sub_if')
  then have "uint (a + (2 ^ k - 1)) = uint a + (2 ^ k - 1)"
    using assms(2) by (simp add: uint_plus_if')
  moreover have "align_up a (2 ^ k) = align_down (a + (2 ^ k - 1)) (2 ^ k)"
    by (simp add: align_up_def align_down_def add_diff_eq)
  ultimately show ?thesis using uint_align_down [OF assms(1), of "a + (2 ^ k - 1)"] by simp
qed

text \<open>The least aligned address that is not below the given one.\<close>

lemma align_up_least:
  assumes k: "k < 64" and no: "uint a + (2 ^ k - 1) < 2 ^ 64"
  shows "is_aligned (align_up a (2 ^ k)) (2 ^ k)" and "a \<le> align_up a (2 ^ k)"
    and "a \<le> b \<Longrightarrow> is_aligned b (2 ^ k) \<Longrightarrow> align_up a (2 ^ k) \<le> b"
proof -
  note u = align_up_uint [OF k no]
  have p: "(0 :: int) < 2 ^ k" by simp
  show "is_aligned (align_up a (2 ^ k)) (2 ^ k)" using u k by (simp add: is_aligned_iff)
  have "uint a \<le> (uint a + (2 ^ k - 1)) div 2 ^ k * 2 ^ k"
    using p minus_mod_eq_div_mult [of "uint a + (2 ^ k - 1)" "2 ^ k"] pos_mod_bound [of "2 ^ k" "uint a + (2 ^ k - 1)"]
    by linarith
  then show "a \<le> align_up a (2 ^ k)" using u by (simp add: word_le_def)
  assume "a \<le> b" "is_aligned b (2 ^ k)"
  then obtain m where m: "uint b = 2 ^ k * m" "uint a \<le> uint b" using k by (auto simp: is_aligned_iff word_le_def)
  have "(uint a + (2 ^ k - 1)) div 2 ^ k \<le> (2 ^ k * m + (2 ^ k - 1)) div 2 ^ k"
    by (rule zdiv_mono1) (use m p in linarith)+
  also have "\<dots> = m + (2 ^ k - 1) div 2 ^ k" using p by simp
  also have "(2 ^ k - 1) div 2 ^ k = (0 :: int)" by (rule div_pos_pos_trivial) (use p in linarith)+
  finally have "(uint a + (2 ^ k - 1)) div 2 ^ k * 2 ^ k \<le> m * 2 ^ k"
    using p by (intro mult_right_mono) auto
  then show "align_up a (2 ^ k) \<le> b" using u m by (simp add: word_le_def mult.commute)
qed

end
