(* ===== verification/Page_Iter.thy ===== *)
theory Page_Iter
  imports Memory_Addr
begin

text \<open>
  The page iterators of \<^verbatim>\<open>crates/memory_addr/src/iter.rs\<close>. \<open>PageIter\<close> and \<open>DynPageIter\<close> differ in where the page
  size is kept, a constant of the type or a field.
\<close>

definition is_power_of_two :: "addr \<Rightarrow> bool" where
  "is_power_of_two w \<longleftrightarrow> count_ones w = 1"

record page_iter =
  pi_start :: addr
  pi_end :: addr
  pi_page_size :: addr

definition page_iter_new :: "addr \<Rightarrow> addr \<Rightarrow> addr \<Rightarrow> page_iter option" where
  "page_iter_new s e page_size =
     (if \<not> is_power_of_two page_size \<or> \<not> is_aligned s page_size \<or> \<not> is_aligned e page_size then None
      else Some \<lparr>pi_start = s, pi_end = e, pi_page_size = page_size\<rparr>)"

text \<open>\<open>add\<close> panics on overflow.\<close>

definition page_iter_next :: "page_iter \<Rightarrow> ('e, page_iter \<times> addr option) outcome" where
  "page_iter_next it =
     (if pi_start it < pi_end it
      then (case checked_add (pi_start it) (pi_page_size it) of
              Some a \<Rightarrow> Ok (it\<lparr>pi_start := a\<rparr>, Some (pi_start it)) | None \<Rightarrow> Panic)
      else Ok (it, None))"

text \<open>A loop over the iterator: it stops at the first \<open>None\<close>, or after as many turns as the fuel allows.\<close>

fun page_iter_run :: "nat \<Rightarrow> page_iter \<Rightarrow> ('e, addr list option) outcome" where
  "page_iter_run 0 it = Ok None"
| "page_iter_run (Suc n) it =
     bind_outcome (page_iter_next it) (\<lambda>(it', r).
       case r of None \<Rightarrow> Ok (Some [])
       | Some a \<Rightarrow> bind_outcome (page_iter_run n it') (\<lambda>as. Ok (map_option (\<lambda>as. a # as) as)))"

lemma is_power_of_two_exp:
  assumes "is_power_of_two w"
  shows "\<exists>k<64. w = 2 ^ k"
proof -
  have "length (filter (bit w) [0..<64]) = 1" using assms by (simp add: is_power_of_two_def count_ones_def)
  then obtain k where f: "filter (bit w) [0..<64] = [k]" by (auto simp: length_Suc_conv)
  have b: "i < 64 \<and> bit w i \<longleftrightarrow> i = k" for i
  proof -
    have "i \<in> set (filter (bit w) [0..<64]) \<longleftrightarrow> i = k" unfolding f by simp
    then show ?thesis by simp
  qed
  then have "w = 2 ^ k" by (intro bit_word_eqI) (auto simp: bit_exp_iff)
  then show ?thesis using b by blast
qed

lemma exp_is_power_of_two: "k < 64 \<Longrightarrow> is_power_of_two (2 ^ k)"
proof -
  assume k: "k < 64"
  have "filter (bit (2 ^ k :: addr)) [0..<64] = filter ((=) k) [0..<64]"
    by (rule filter_cong) (auto simp: bit_exp_iff)
  moreover have "length (filter ((=) k) [0..<64]) = card {i. i < 64 \<and> k = i}"
    using distinct_card [of "filter ((=) k) [0..<64]"] by (simp add: conj_commute lessThan_def)
  moreover have "{i. i < 64 \<and> k = i} = {k}" using k by auto
  ultimately show ?thesis by (simp add: is_power_of_two_def count_ones_def)
qed

lemma uint_exp: "k < 64 \<Longrightarrow> uint (2 ^ k :: addr) = 2 ^ k"
  by (intro uint_2p) (simp add: word_greater_zero_iff)

text \<open>One page further: the next aligned address exists, and no aligned address is skipped.\<close>

lemma next_page:
  assumes k: "k < 64" and s: "is_aligned s (2 ^ k)" and e: "is_aligned e (2 ^ k)" and less: "s < e"
  shows "checked_add s (2 ^ k) = Some (s + 2 ^ k)" and "is_aligned (s + 2 ^ k) (2 ^ k)" and "s < s + 2 ^ k"
    and "uint (s + 2 ^ k) = uint s + 2 ^ k"
    and "is_aligned a (2 ^ k) \<Longrightarrow> s < a \<Longrightarrow> s + 2 ^ k \<le> a"
proof -
  have step: "uint s + 2 ^ k \<le> uint b" if b: "is_aligned b (2 ^ k)" "s < b" for b
  proof -
    obtain x where x: "uint s = 2 ^ k * x" using s by (auto simp: is_aligned_iff elim: dvdE)
    obtain y where y: "uint b = 2 ^ k * y" using b(1) by (auto simp: is_aligned_iff elim: dvdE)
    have "2 ^ k * x < 2 ^ k * y" using b(2) x y by (simp add: word_less_def)
    then have "x + 1 \<le> y" by simp
    then have "2 ^ k * (x + 1) \<le> 2 ^ k * y" by (intro mult_left_mono) auto
    then show ?thesis using x y by (simp add: distrib_left)
  qed
  have "uint s + 2 ^ k < 2 ^ 64" using step [OF e less] uint_lt2p [of e] by simp
  then have no: "uint s + uint (2 ^ k :: addr) < 2 ^ 64" by (simp add: uint_exp [OF k])
  then show "checked_add s (2 ^ k) = Some (s + 2 ^ k)" by (simp add: checked_add_def)
  show u: "uint (s + 2 ^ k) = uint s + 2 ^ k" using no by (simp add: uint_plus_if' uint_exp [OF k])
  show "is_aligned (s + 2 ^ k) (2 ^ k)" using s by (simp add: is_aligned_iff u)
  show "s < s + 2 ^ k" by (simp add: word_less_def u)
  show "s + 2 ^ k \<le> a" if "is_aligned a (2 ^ k)" "s < a" using step [OF that] by (simp add: word_le_def u)
qed

lemma page_iter_run_pages:
  assumes "k < 64" and "is_aligned s (2 ^ k)" and "is_aligned e (2 ^ k)" and "nat ((uint e - uint s) div 2 ^ k) < fuel"
  shows "\<exists>as. page_iter_run fuel \<lparr>pi_start = s, pi_end = e, pi_page_size = 2 ^ k\<rparr> = (Ok (Some as) :: ('e, _) outcome) \<and>
    sorted_wrt (<) as \<and> set as = {a. s \<le> a \<and> a < e \<and> is_aligned a (2 ^ k)}"
  using assms(2,4)
proof (induction fuel arbitrary: s)
  case (Suc fuel)
  show ?case
  proof (cases "s < e")
    case False
    then show ?thesis by (auto simp: page_iter_next_def)
  next
    case True
    note n = next_page [OF assms(1) Suc.prems(1) assms(3) True]
    have "(uint e - uint (s + 2 ^ k)) div 2 ^ k = (uint e - uint s) div 2 ^ k - 1"
      using div_mult_self1 [of "2 ^ k" "uint e - uint s" "-1"] by (simp add: n(4) algebra_simps)
    moreover have "0 < (uint e - uint s) div 2 ^ k"
      using n(4) n(5) [OF assms(3) True] by (simp add: word_le_def pos_imp_zdiv_pos_iff)
    ultimately have f: "nat ((uint e - uint (s + 2 ^ k)) div 2 ^ k) < fuel" using Suc.prems(2) by linarith
    obtain as where as: "page_iter_run fuel \<lparr>pi_start = s + 2 ^ k, pi_end = e, pi_page_size = 2 ^ k\<rparr> = (Ok (Some as) :: ('e, _) outcome)"
      "sorted_wrt (<) as" "set as = {a. s + 2 ^ k \<le> a \<and> a < e \<and> is_aligned a (2 ^ k)}"
      using Suc.IH [OF n(2) f] by blast
    have "set (s # as) = {a. s \<le> a \<and> a < e \<and> is_aligned a (2 ^ k)}"
      using as(3) True Suc.prems(1) n(3,5) by (auto simp: order_le_less)
    moreover have "s < a" if "a \<in> set as" for a using that as(3) n(3) by (auto intro: less_le_trans)
    then have "sorted_wrt (<) (s # as)" using as(2) by simp
    moreover have "page_iter_run (Suc fuel) \<lparr>pi_start = s, pi_end = e, pi_page_size = 2 ^ k\<rparr> = (Ok (Some (s # as)) :: ('e, _) outcome)"
      using as(1) True n(1) by (simp add: page_iter_next_def)
    ultimately show ?thesis by (intro exI [of _ "s # as"] conjI)
  qed
qed simp

text \<open>
  C30: a loop over a page iterator, for any page size and bounds that \<open>new\<close> accepts, ends without overflow and
  yields the page-aligned addresses from the start up to the end in increasing order, each once.
\<close>

theorem page_iter_exact:
  assumes "page_iter_new s e page_size = Some it" and "nat ((uint e - uint s) div uint page_size) < fuel"
  shows "\<exists>as. page_iter_run fuel it = (Ok (Some as) :: ('e, _) outcome) \<and> sorted_wrt (<) as \<and>
    set as = {a. s \<le> a \<and> a < e \<and> is_aligned a page_size}"
proof -
  have it: "it = \<lparr>pi_start = s, pi_end = e, pi_page_size = page_size\<rparr>" and p: "is_power_of_two page_size"
    and al: "is_aligned s page_size" "is_aligned e page_size"
    using assms(1) by (auto simp: page_iter_new_def split: if_splits)
  obtain k where k: "k < 64" "page_size = 2 ^ k" using is_power_of_two_exp [OF p] by blast
  show ?thesis using page_iter_run_pages [of k s e fuel, where ?'e = 'e] al assms(2) k it by (simp add: uint_exp)
qed

theorem page_iter_exact_witness:
  "page_iter_new 0x1000 0x3000 0x1000 = Some \<lparr>pi_start = 0x1000, pi_end = 0x3000, pi_page_size = 0x1000\<rparr> \<and>
   (\<exists>as. page_iter_run 3 \<lparr>pi_start = 0x1000, pi_end = 0x3000, pi_page_size = 0x1000\<rparr> = (Ok (Some as) :: (errno, _) outcome) \<and>
      set as = {a. 0x1000 \<le> a \<and> a < 0x3000 \<and> is_aligned a 0x1000})"
proof -
  have n: "page_iter_new 0x1000 0x3000 0x1000 = Some \<lparr>pi_start = 0x1000, pi_end = 0x3000, pi_page_size = 0x1000\<rparr>"
    using exp_is_power_of_two [of 12] by (simp add: page_iter_new_def is_aligned_def align_offset_def)
  have "nat ((uint (0x3000 :: addr) - uint (0x1000 :: addr)) div uint (0x1000 :: addr)) < 3" by simp
  from page_iter_exact [OF n this, where ?'e = errno] show ?thesis using n by blast
qed

end
