(* ===== verification/Memory_Set.thy ===== *)
theory Memory_Set
  imports Memory_Addr Btree_Map
begin

text \<open>
  The set of memory areas of an address space (\<^verbatim>\<open>crates/memory_set/src\<close>): the areas, ordered by their
  start address, and the operations that map, unmap, protect and clear ranges of addresses, look areas
  up and find free ranges. The backend of an area, which changes the page table, is a parameter; it may
  fail in the middle of its work. An operation returns the areas it leaves behind also when it fails.
\<close>

datatype mapping_error = InvalidParam | AlreadyExists | BadState

record ('f, 'b) memory_area =
  va_range :: addr_range
  ma_flags :: 'f
  ma_backend :: 'b

abbreviation ma_start :: "('f, 'b) memory_area \<Rightarrow> addr" where "ma_start a \<equiv> rstart (va_range a)"
abbreviation ma_end :: "('f, 'b) memory_area \<Rightarrow> addr" where "ma_end a \<equiv> rend (va_range a)"

text \<open>
  \<open>MappingBackend\<close>: the functions change the page table, append to the reclaim list what they detached and
  record the ranges they changed; the Boolean tells success.
\<close>

type_synonym mutation = "(addr \<times> addr) list"

record ('f, 'b, 'pt, 'rc) mapping_backend =
  mb_map :: "'b \<Rightarrow> addr \<Rightarrow> addr \<Rightarrow> 'f \<Rightarrow> 'pt \<Rightarrow> 'pt \<times> bool"
  mb_unmap :: "'b \<Rightarrow> addr \<Rightarrow> addr \<Rightarrow> 'pt \<Rightarrow> 'rc \<Rightarrow> 'pt \<times> 'rc \<times> bool"
  mb_unmap_tracked :: "'b \<Rightarrow> addr \<Rightarrow> addr \<Rightarrow> 'pt \<Rightarrow> 'rc \<Rightarrow> mutation \<Rightarrow> 'pt \<times> 'rc \<times> mutation \<times> bool"
  mb_protect_tracked :: "'b \<Rightarrow> addr \<Rightarrow> addr \<Rightarrow> 'f \<Rightarrow> 'pt \<Rightarrow> mutation \<Rightarrow> 'pt \<times> mutation \<times> bool"

text \<open>The provided methods of the trait: a backend without tracking records the whole range on success.\<close>

definition default_unmap_tracked ::
  "('b \<Rightarrow> addr \<Rightarrow> addr \<Rightarrow> 'pt \<Rightarrow> 'rc \<Rightarrow> 'pt \<times> 'rc \<times> bool) \<Rightarrow>
   'b \<Rightarrow> addr \<Rightarrow> addr \<Rightarrow> 'pt \<Rightarrow> 'rc \<Rightarrow> mutation \<Rightarrow> 'pt \<times> 'rc \<times> mutation \<times> bool" where
  "default_unmap_tracked unmap b start sz pt rc mu =
     (case unmap b start sz pt rc of (pt', rc', success) \<Rightarrow>
        (pt', rc', if success then mu @ [(start, sz)] else mu, success))"

definition default_protect_tracked ::
  "('b \<Rightarrow> addr \<Rightarrow> addr \<Rightarrow> 'f \<Rightarrow> 'pt \<Rightarrow> 'pt \<times> bool) \<Rightarrow>
   'b \<Rightarrow> addr \<Rightarrow> addr \<Rightarrow> 'f \<Rightarrow> 'pt \<Rightarrow> mutation \<Rightarrow> 'pt \<times> mutation \<times> bool" where
  "default_protect_tracked protect b start sz flags pt mu =
     (case protect b start sz flags pt of (pt', success) \<Rightarrow>
        (pt', if success then mu @ [(start, sz)] else mu, success))"

text \<open>What an operation works on besides the areas.\<close>

record ('pt, 'rc) mm =
  page_table :: 'pt
  reclaim :: 'rc
  mutation :: mutation

section \<open>One area\<close>

definition area_new :: "addr \<Rightarrow> addr \<Rightarrow> 'f \<Rightarrow> 'b \<Rightarrow> (mapping_error, ('f, 'b) memory_area) outcome" where
  "area_new start sz flags b =
     bind_outcome (from_start_size start sz) (\<lambda>r. Ok \<lparr>va_range = r, ma_flags = flags, ma_backend = b\<rparr>)"

definition area_size :: "('f, 'b) memory_area \<Rightarrow> addr" where
  "area_size a = range_size (va_range a)"

definition set_backend :: "'b \<Rightarrow> ('f, 'b) memory_area \<Rightarrow> ('f, 'b) memory_area" where
  "set_backend backend a = a\<lparr>ma_backend := backend\<rparr>"

definition set_flags :: "'f \<Rightarrow> ('f, 'b) memory_area \<Rightarrow> ('f, 'b) memory_area" where
  "set_flags new_flags a = a\<lparr>ma_flags := new_flags\<rparr>"

definition set_end :: "addr \<Rightarrow> ('f, 'b) memory_area \<Rightarrow> ('f, 'b) memory_area" where
  "set_end new_end a = a\<lparr>va_range := (va_range a)\<lparr>rend := new_end\<rparr>\<rparr>"

definition ok_or_bad_state :: "bool \<Rightarrow> (mapping_error, unit) outcome" where
  "ok_or_bad_state b = (if b then Ok () else Err BadState)"

definition map_area ::
  "('f, 'b, 'pt, 'rc) mapping_backend \<Rightarrow> ('f, 'b) memory_area \<Rightarrow> ('pt, 'rc) mm \<Rightarrow>
   ('pt, 'rc) mm \<times> (mapping_error, unit) outcome" where
  "map_area mb a w =
     (case mb_map mb (ma_backend a) (ma_start a) (area_size a) (ma_flags a) (page_table w) of (pt, ok) \<Rightarrow>
        (w\<lparr>page_table := pt\<rparr>, ok_or_bad_state ok))"

definition unmap_range ::
  "('f, 'b, 'pt, 'rc) mapping_backend \<Rightarrow> 'b \<Rightarrow> addr \<Rightarrow> addr \<Rightarrow> ('pt, 'rc) mm \<Rightarrow>
   ('pt, 'rc) mm \<times> (mapping_error, unit) outcome" where
  "unmap_range mb b start sz w =
     (case mb_unmap_tracked mb b start sz (page_table w) (reclaim w) (mutation w) of (pt, rc, mu, ok) \<Rightarrow>
        (\<lparr>page_table = pt, reclaim = rc, mutation = mu\<rparr>, ok_or_bad_state ok))"

definition unmap_area_tracked ::
  "('f, 'b, 'pt, 'rc) mapping_backend \<Rightarrow> ('f, 'b) memory_area \<Rightarrow> ('pt, 'rc) mm \<Rightarrow>
   ('pt, 'rc) mm \<times> (mapping_error, unit) outcome" where
  "unmap_area_tracked mb a w = unmap_range mb (ma_backend a) (ma_start a) (area_size a) w"

definition protect_area_tracked ::
  "('f, 'b, 'pt, 'rc) mapping_backend \<Rightarrow> ('f, 'b) memory_area \<Rightarrow> 'f \<Rightarrow> ('pt, 'rc) mm \<Rightarrow>
   ('pt, 'rc) mm \<times> (mapping_error, unit) outcome" where
  "protect_area_tracked mb a new_flags w =
     (case mb_protect_tracked mb (ma_backend a) (ma_start a) (area_size a) new_flags (page_table w) (mutation w) of
        (pt, mu, ok) \<Rightarrow> (w\<lparr>page_table := pt, mutation := mu\<rparr>, ok_or_bad_state ok))"

definition area_unmap_prefix ::
  "('f, 'b, 'pt, 'rc) mapping_backend \<Rightarrow> addr \<Rightarrow> ('f, 'b) memory_area \<Rightarrow> ('pt, 'rc) mm \<Rightarrow>
   ('f, 'b) memory_area \<times> ('pt, 'rc) mm \<times> (mapping_error, unit) outcome" where
  "area_unmap_prefix mb max_size a w =
     (if max_size = 0 \<or> range_is_empty (va_range a) then (a, w, Err InvalidParam)
      else let sz = min (area_size a) max_size
           in case mb_unmap mb (ma_backend a) (ma_start a) sz (page_table w) (reclaim w) of
                (pt, rc, ok) \<Rightarrow>
                  (if ok then a\<lparr>va_range := (va_range a)\<lparr>rstart := ma_start a + sz\<rparr>\<rparr> else a,
                   w\<lparr>page_table := pt, reclaim := rc\<rparr>, ok_or_bad_state ok))"

definition shrink_right ::
  "('f, 'b, 'pt, 'rc) mapping_backend \<Rightarrow> addr \<Rightarrow> ('f, 'b) memory_area \<Rightarrow> ('pt, 'rc) mm \<Rightarrow>
   ('f, 'b) memory_area \<times> ('pt, 'rc) mm \<times> (mapping_error, unit) outcome" where
  "shrink_right mb new_size a w =
     (if \<not> (new_size > 0 \<and> new_size < area_size a) then (a, w, Panic)
      else let unmap_size = area_size a - new_size; unmap_start = ma_start a + new_size
           in case unmap_range mb (ma_backend a) unmap_start unmap_size w of
                (w', Ok _) \<Rightarrow> (set_end (ma_end a - unmap_size) a, w', Ok ())
              | (w', r) \<Rightarrow> (a, w', r))"

text \<open>\<open>split\<close> leaves the left part and returns the right one.\<close>

definition area_split :: "addr \<Rightarrow> ('f, 'b) memory_area \<Rightarrow> (mapping_error, (('f, 'b) memory_area \<times> ('f, 'b) memory_area) option) outcome" where
  "area_split pos a =
     (if ma_start a < pos \<and> pos < ma_end a
      then bind_outcome (area_new pos (ma_end a - pos) (ma_flags a) (ma_backend a)) (\<lambda>right. Ok (Some (set_end pos a, right)))
      else Ok None)"

section \<open>Queries\<close>

type_synonym ('f, 'b) areas = "(addr, ('f, 'b) memory_area) btree"

definition first_overlapping_key :: "('f, 'b) areas \<Rightarrow> addr_range \<Rightarrow> addr" where
  "first_overlapping_key areas rng =
     (if range_is_empty rng then rend rng
      else case bt_last (\<lambda>k. k \<le> rstart rng) areas of
             Some (start, a) \<Rightarrow> if ma_end a > rstart rng then start else rstart rng
           | None \<Rightarrow> rstart rng)"

text \<open>\<open>BTreeMap::range\<close> panics when the lower bound is above the upper one.\<close>

definition iter_overlapping :: "('f, 'b) areas \<Rightarrow> addr_range \<Rightarrow> (mapping_error, ('f, 'b) areas) outcome" where
  "iter_overlapping areas rng =
     (let first = first_overlapping_key areas rng
      in if first > rend rng then Panic else Ok (bt_range (\<lambda>k. first \<le> k \<and> k < rend rng) areas))"

definition set_overlaps :: "('f, 'b) areas \<Rightarrow> addr_range \<Rightarrow> bool" where
  "set_overlaps areas rng \<longleftrightarrow>
     (case bt_last (\<lambda>k. k < rstart rng) areas of
        Some (_, before) \<Rightarrow> range_overlaps (va_range before) rng | None \<Rightarrow> False) \<or>
     (case bt_first (\<lambda>k. rstart rng \<le> k) areas of
        Some (_, after) \<Rightarrow> range_overlaps (va_range after) rng | None \<Rightarrow> False)"

definition find_area :: "('f, 'b) areas \<Rightarrow> addr \<Rightarrow> ('f, 'b) memory_area option" where
  "find_area areas a =
     (case bt_last (\<lambda>k. k \<le> a) areas of
        Some (_, x) \<Rightarrow> if range_contains (va_range x) a then Some x else None
      | None \<Rightarrow> None)"

text \<open>
  Direct access to one area: \<open>get_area_mut\<close> gives the caller a reference, so it is modelled with what the caller
  does to the area; \<open>insert\<close> asserts that the key is new.
\<close>

definition get_area_mut :: "('f, 'b) areas \<Rightarrow> addr \<Rightarrow> (('f, 'b) memory_area \<Rightarrow> ('f, 'b) memory_area) \<Rightarrow> ('f, 'b) areas option" where
  "get_area_mut areas start f = map_option (\<lambda>x. bt_insert start (f x) areas) (bt_get areas start)"

definition mset_remove :: "addr \<Rightarrow> ('f, 'b) areas \<Rightarrow> ('f, 'b) areas \<times> ('f, 'b) memory_area option" where
  "mset_remove start areas = (bt_remove start areas, bt_get areas start)"

definition mset_insert :: "addr \<Rightarrow> ('f, 'b) memory_area \<Rightarrow> ('f, 'b) areas \<Rightarrow> (mapping_error, ('f, 'b) areas) outcome" where
  "mset_insert start x areas = (if bt_get areas start = None then Ok (bt_insert start x areas) else Panic)"

text \<open>\<open>find_free_area\<close>: its loop over the areas above the hint, and the final test against the limit.\<close>

definition fits_below :: "addr \<Rightarrow> addr \<Rightarrow> addr \<Rightarrow> bool" where
  "fits_below a sz bound = (case checked_add a sz of Some e \<Rightarrow> e \<le> bound | None \<Rightarrow> False)"

fun free_loop :: "('f, 'b) areas \<Rightarrow> addr \<Rightarrow> addr \<Rightarrow> addr \<Rightarrow> addr \<Rightarrow> addr option" where
  "free_loop [] last_end sz limit_end align = (if fits_below last_end sz limit_end then Some last_end else None)"
| "free_loop ((k, x) # areas) last_end sz limit_end align =
     (if fits_below last_end sz k then Some last_end
      else free_loop areas (align_up (ma_end x) align) sz limit_end align)"

definition find_free_area :: "('f, 'b) areas \<Rightarrow> addr \<Rightarrow> addr \<Rightarrow> addr_range \<Rightarrow> addr \<Rightarrow> (mapping_error, addr option) outcome" where
  "find_free_area areas hint sz limit align =
     (if align = 0 then Panic
      else if sz mod align \<noteq> 0 then Ok None
      else let last_end = align_up (max hint (rstart limit)) align;
               last_end = (case bt_last (\<lambda>k. k < last_end) areas of
                             Some (_, x) \<Rightarrow> align_up (max last_end (ma_end x)) align
                           | None \<Rightarrow> last_end)
           in Ok (free_loop (bt_range (\<lambda>k. last_end \<le> k) areas) last_end sz (rend limit) align))"

section \<open>Unmapping\<close>

definition next_contained :: "(addr \<Rightarrow> bool) \<Rightarrow> addr_range \<Rightarrow> ('f, 'b) areas \<Rightarrow> addr option" where
  "next_contained P rng areas =
     map_option fst (List.find (\<lambda>(k, x). P k \<and> k < rend rng \<and> contained_in (va_range x) rng) areas)"

text \<open>
  The loop over the areas that lie in the range: an area whose backend fails stays, and the first error
  is kept.
\<close>

function unmap_contained ::
  "('f, 'b, 'pt, 'rc) mapping_backend \<Rightarrow> addr_range \<Rightarrow> addr option \<Rightarrow> ('f, 'b) areas \<Rightarrow> ('pt, 'rc) mm \<Rightarrow>
   mapping_error option \<Rightarrow> ('f, 'b) areas \<times> ('pt, 'rc) mm \<times> (mapping_error, mapping_error option) outcome" where
  "unmap_contained mb rng None areas w err = (areas, w, Ok err)"
| "unmap_contained mb rng (Some key) areas w err =
     (if key \<ge> rend rng then (areas, w, Panic)
      else let next = next_contained (\<lambda>k. key < k) rng areas
           in case bt_get areas key of
                None \<Rightarrow> (areas, w, Panic)
              | Some a \<Rightarrow>
                  (case unmap_area_tracked mb a w of
                     (w', Ok _) \<Rightarrow> unmap_contained mb rng next (bt_remove key areas) w' err
                   | (w', Err e) \<Rightarrow> unmap_contained mb rng next areas w' (case err of None \<Rightarrow> Some e | Some e' \<Rightarrow> Some e')
                   | (w', Panic) \<Rightarrow> (areas, w', Panic)))"
  by pat_completeness auto

definition keys_from :: "addr option \<Rightarrow> ('f, 'b) areas \<Rightarrow> nat" where
  "keys_from key areas = (case key of None \<Rightarrow> 0 | Some k \<Rightarrow> length (filter (\<lambda>(k', _). k \<le> k') areas))"

lemma length_filter_less_imp:
  assumes "x \<in> set xs" and "Q x" and "\<not> P x" and "\<And>y. P y \<Longrightarrow> Q y"
  shows "length (filter P xs) < length (filter Q xs)"
proof -
  obtain ys zs where xs: "xs = ys @ x # zs" using assms(1) by (meson split_list)
  have "length (filter P us) \<le> length (filter Q us)" for us
    using assms(4) by (induction us) auto
  then show ?thesis using assms(2,3) by (simp add: xs add_le_less_mono less_Suc_eq_le add_mono)
qed

lemma keys_from_less:
  assumes "bt_get areas key = Some a" and "\<And>k. next = Some k \<Longrightarrow> key < k"
  shows "keys_from next (filter P areas) < keys_from (Some key) areas"
proof (cases "next")
  case None
  have "(key, a) \<in> set areas" using assms(1) map_of_SomeD by (simp add: bt_get_def map_of_SomeD)
  then have "length (filter (\<lambda>_. False) areas) < length (filter (\<lambda>(k', _). key \<le> k') areas)"
    by (rule length_filter_less_imp) auto
  then show ?thesis using None by (simp add: keys_from_def)
next
  case (Some k)
  have "(key, a) \<in> set areas" using assms(1) by (simp add: bt_get_def map_of_SomeD)
  then have "length (filter (\<lambda>e. P e \<and> (case e of (k', _) \<Rightarrow> k \<le> k')) areas) < length (filter (\<lambda>(k', _). key \<le> k') areas)"
    by (rule length_filter_less_imp) (use assms(2) [OF Some] in auto)
  then show ?thesis using Some by (simp add: keys_from_def filter_filter conj_commute)
qed

lemma next_contained_Some:
  "next_contained P rng areas = Some k \<Longrightarrow> \<exists>x. (k, x) \<in> set areas \<and> P k \<and> k < rend rng \<and> contained_in (va_range x) rng"
  by (auto simp: next_contained_def find_Some_iff in_set_conv_nth) (metis)

termination unmap_contained
proof (relation "measure (\<lambda>(mb, rng, key, areas, w, err). keys_from key areas)", simp, goal_cases)
  case (1 mb rng key areas w err x y z u v)
  then show ?case using keys_from_less [of areas key _ "next_contained (\<lambda>k. key < k) rng areas" "\<lambda>(k', _). k' \<noteq> key"]
    by (auto simp: bt_remove_def dest: next_contained_Some)
next
  case (2 mb rng key areas w err x y z u v)
  then show ?case using keys_from_less [of areas key _ "next_contained (\<lambda>k. key < k) rng areas" "\<lambda>_. True"]
    by (auto dest: next_contained_Some)
qed

text \<open>The area that begins before the range: it loses its right end, or its middle.\<close>

definition unmap_left ::
  "('f, 'b, 'pt, 'rc) mapping_backend \<Rightarrow> addr \<Rightarrow> addr \<Rightarrow> ('f, 'b) areas \<Rightarrow> ('pt, 'rc) mm \<Rightarrow>
   ('f, 'b) areas \<times> ('pt, 'rc) mm \<times> (mapping_error, unit) outcome" where
  "unmap_left mb start end' areas w =
     (case bt_last (\<lambda>k. k < start) areas of
        None \<Rightarrow> (areas, w, Ok ())
      | Some (before_start, before) \<Rightarrow>
          if \<not> ma_end before > start then (areas, w, Ok ())
          else if ma_end before \<le> end' then
            (case (sub_addr start before_start :: (mapping_error, addr) outcome) of
               Ok new_size \<Rightarrow>
                 (case shrink_right mb new_size before w of
                    (before', w', r) \<Rightarrow> (bt_insert before_start before' areas, w', r))
             | _ \<Rightarrow> (areas, w, Panic))
          else
            (case bind_outcome (sub_addr end' start) (\<lambda>n. area_new start n (ma_flags before) (ma_backend before)) of
               Ok middle_part \<Rightarrow>
                 (case unmap_area_tracked mb middle_part w of
                    (w', Ok _) \<Rightarrow>
                      (case area_split end' before of
                         Ok (Some (before', right_part)) \<Rightarrow>
                           if ma_start right_part = end'
                           then (bt_insert end' right_part (bt_insert before_start (set_end start before') areas), w', Ok ())
                           else (areas, w', Panic)
                       | _ \<Rightarrow> (areas, w', Panic))
                  | (w', r) \<Rightarrow> (areas, w', r))
             | _ \<Rightarrow> (areas, w, Panic)))"

text \<open>The area that begins in the range and ends behind it.\<close>

definition unmap_right ::
  "('f, 'b, 'pt, 'rc) mapping_backend \<Rightarrow> addr \<Rightarrow> addr \<Rightarrow> ('f, 'b) areas \<Rightarrow> ('pt, 'rc) mm \<Rightarrow>
   ('f, 'b) areas \<times> ('pt, 'rc) mm \<times> (mapping_error, unit) outcome" where
  "unmap_right mb start end' areas w =
     (case bt_first (\<lambda>k. start \<le> k) areas of
        None \<Rightarrow> (areas, w, Ok ())
      | Some (after_start, after) \<Rightarrow>
          if \<not> after_start < end' then (areas, w, Ok ())
          else
            (case bind_outcome (sub_addr end' after_start) (\<lambda>n. area_new after_start n (ma_flags after) (ma_backend after)) of
               Ok prefix' \<Rightarrow>
                 (case unmap_area_tracked mb prefix' w of
                    (w', Ok _) \<Rightarrow>
                      (case area_split end' after of
                         Ok (Some (_, right_part)) \<Rightarrow>
                           if ma_end right_part = ma_end after
                           then (bt_insert end' right_part (bt_remove after_start areas), w', Ok ())
                           else (areas, w', Panic)
                       | _ \<Rightarrow> (areas, w', Panic))
                  | (w', r) \<Rightarrow> (areas, w', r))
             | _ \<Rightarrow> (areas, w, Panic)))"

definition unmap_tracked ::
  "('f, 'b, 'pt, 'rc) mapping_backend \<Rightarrow> addr \<Rightarrow> addr \<Rightarrow> ('f, 'b) areas \<Rightarrow> ('pt, 'rc) mm \<Rightarrow>
   ('f, 'b) areas \<times> ('pt, 'rc) mm \<times> (mapping_error, unit) outcome" where
  "unmap_tracked mb start sz areas w =
     (case try_from_start_size start sz of
        None \<Rightarrow> (areas, w, Err InvalidParam)
      | Some rng \<Rightarrow>
          if range_is_empty rng then (areas, w, Ok ())
          else if first_overlapping_key areas rng > rend rng then (areas, w, Panic)
          else
            (case unmap_contained mb rng (next_contained (\<lambda>k. first_overlapping_key areas rng \<le> k) rng areas) areas w None of
               (areas1, w1, Ok None) \<Rightarrow>
                 (case unmap_left mb start (rend rng) areas1 w1 of
                    (areas2, w2, Ok _) \<Rightarrow> unmap_right mb start (rend rng) areas2 w2
                  | other \<Rightarrow> other)
             | (areas1, w1, Ok (Some e)) \<Rightarrow> (areas1, w1, Err e)
             | (areas1, w1, Err e) \<Rightarrow> (areas1, w1, Err e)
             | (areas1, w1, Panic) \<Rightarrow> (areas1, w1, Panic)))"

text \<open>The operations without tracking pass \<open>()\<close> as the record of mutations.\<close>

definition mset_unmap ::
  "('f, 'b, 'pt, 'rc) mapping_backend \<Rightarrow> addr \<Rightarrow> addr \<Rightarrow> ('f, 'b) areas \<Rightarrow> ('pt, 'rc) mm \<Rightarrow>
   ('f, 'b) areas \<times> ('pt, 'rc) mm \<times> (mapping_error, unit) outcome" where
  "mset_unmap mb start sz areas w =
     (case unmap_tracked mb start sz areas w of (areas', w', r) \<Rightarrow> (areas', w'\<lparr>mutation := mutation w\<rparr>, r))"

definition mset_map ::
  "('f, 'b, 'pt, 'rc) mapping_backend \<Rightarrow> ('f, 'b) memory_area \<Rightarrow> bool \<Rightarrow> ('f, 'b) areas \<Rightarrow> ('pt, 'rc) mm \<Rightarrow>
   ('f, 'b) areas \<times> ('pt, 'rc) mm \<times> (mapping_error, unit) outcome" where
  "mset_map mb area unmap_overlap areas w =
     (if range_is_empty (va_range area) then (areas, w, Err InvalidParam)
      else
        (case (if set_overlaps areas (va_range area)
               then if unmap_overlap then mset_unmap mb (ma_start area) (area_size area) areas w
                    else (areas, w, Err AlreadyExists)
               else (areas, w, Ok ())) of
           (areas1, w1, Ok _) \<Rightarrow>
             (case map_area mb area w1 of
                (w2, Ok _) \<Rightarrow>
                  if bt_get areas1 (ma_start area) = None
                  then (bt_insert (ma_start area) area areas1, w2, Ok ()) else (areas1, w2, Panic)
              | (w2, r) \<Rightarrow> (areas1, w2, r))
         | other \<Rightarrow> other))"

section \<open>Clearing and protecting\<close>

fun clear_loop_areas ::
  "('f, 'b, 'pt, 'rc) mapping_backend \<Rightarrow> ('f, 'b) areas \<Rightarrow> ('pt, 'rc) mm \<Rightarrow> mapping_error option \<Rightarrow>
   ('pt, 'rc) mm \<times> mapping_error option" where
  "clear_loop_areas mb [] w err = (w, err)"
| "clear_loop_areas mb ((k, x) # areas) w err =
     (case unmap_area_tracked mb x w of
        (w', Err e) \<Rightarrow> clear_loop_areas mb areas w' (case err of None \<Rightarrow> Some e | Some e' \<Rightarrow> Some e')
      | (w', _) \<Rightarrow> clear_loop_areas mb areas w' err)"

definition clear_tracked ::
  "('f, 'b, 'pt, 'rc) mapping_backend \<Rightarrow> ('f, 'b) areas \<Rightarrow> ('pt, 'rc) mm \<Rightarrow>
   ('f, 'b) areas \<times> ('pt, 'rc) mm \<times> (mapping_error, unit) outcome" where
  "clear_tracked mb areas w =
     (case clear_loop_areas mb areas w None of
        (w', None) \<Rightarrow> ([], w', Ok ()) | (w', Some e) \<Rightarrow> ([], w', Err e))"

definition mset_clear ::
  "('f, 'b, 'pt, 'rc) mapping_backend \<Rightarrow> ('f, 'b) areas \<Rightarrow> ('pt, 'rc) mm \<Rightarrow>
   ('f, 'b) areas \<times> ('pt, 'rc) mm \<times> (mapping_error, unit) outcome" where
  "mset_clear mb areas w =
     (case clear_tracked mb areas w of (areas', w', r) \<Rightarrow> (areas', w'\<lparr>mutation := mutation w\<rparr>, r))"

text \<open>
  The protection of one area that meets the range: the area that stays at its key, the new areas, and the
  result. Only the part in the range gets the new flags.
\<close>

definition protect_one ::
  "('f, 'b, 'pt, 'rc) mapping_backend \<Rightarrow> addr \<Rightarrow> addr \<Rightarrow> 'f \<Rightarrow> ('f, 'b) memory_area \<Rightarrow> ('pt, 'rc) mm \<Rightarrow>
   ('f, 'b) memory_area \<times> ('f, 'b) areas \<times> ('pt, 'rc) mm \<times> (mapping_error, unit) outcome" where
  "protect_one mb start end' new_flags a w =
     (if ma_start a \<ge> start \<and> ma_end a \<le> end' then
        (case protect_area_tracked mb a new_flags w of
           (w', Ok _) \<Rightarrow> (set_flags new_flags a, [], w', Ok ())
         | (w', r) \<Rightarrow> (a, [], w', r))
      else if ma_start a < start \<and> ma_end a > end' then
        (case area_new start (end' - start) (ma_flags a) (ma_backend a) of
           Ok middle_part \<Rightarrow>
             (case protect_area_tracked mb middle_part new_flags w of
                (w', Ok _) \<Rightarrow>
                  (case area_split end' a of
                     Ok (Some (a', right_part)) \<Rightarrow>
                       (set_end start a', [(ma_start right_part, right_part), (ma_start middle_part, set_flags new_flags middle_part)],
                        w', Ok ())
                   | _ \<Rightarrow> (a, [], w', Panic))
              | (w', r) \<Rightarrow> (a, [], w', r))
         | _ \<Rightarrow> (a, [], w, Panic))
      else if ma_end a > end' then
        (case bind_outcome (sub_addr end' (ma_start a)) (\<lambda>n. area_new (ma_start a) n (ma_flags a) (ma_backend a)) of
           Ok protected_part \<Rightarrow>
             (case protect_area_tracked mb protected_part new_flags w of
                (w', Ok _) \<Rightarrow>
                  (case area_split end' a of
                     Ok (Some (a', right_part)) \<Rightarrow>
                       (set_flags new_flags a', [(ma_start right_part, right_part)], w', Ok ())
                   | _ \<Rightarrow> (a, [], w', Panic))
              | (w', r) \<Rightarrow> (a, [], w', r))
         | _ \<Rightarrow> (a, [], w, Panic))
      else
        (case bind_outcome (sub_addr (ma_end a) start) (\<lambda>n. area_new start n (ma_flags a) (ma_backend a)) of
           Ok protected_part \<Rightarrow>
             (case protect_area_tracked mb protected_part new_flags w of
                (w', Ok _) \<Rightarrow>
                  (case area_split start a of
                     Ok (Some (a', right_part)) \<Rightarrow>
                       (a', [(ma_start right_part, set_flags new_flags right_part)], w', Ok ())
                   | _ \<Rightarrow> (a, [], w', Panic))
              | (w', r) \<Rightarrow> (a, [], w', r))
         | _ \<Rightarrow> (a, [], w, Panic)))"

text \<open>The loop over the areas that meet the range; it stops at the first error.\<close>

fun protect_loop ::
  "('f, 'b, 'pt, 'rc) mapping_backend \<Rightarrow> addr \<Rightarrow> addr \<Rightarrow> ('f \<Rightarrow> 'f option) \<Rightarrow> ('f, 'b) areas \<Rightarrow> ('pt, 'rc) mm \<Rightarrow>
   ('f, 'b) areas \<times> ('f, 'b) areas \<times> ('pt, 'rc) mm \<times> (mapping_error, unit) outcome" where
  "protect_loop mb start end' update_flags [] w = ([], [], w, Ok ())"
| "protect_loop mb start end' update_flags ((k, a) # areas) w =
     (case update_flags (ma_flags a) of
        None \<Rightarrow>
          (case protect_loop mb start end' update_flags areas w of
             (areas', ins, w', r) \<Rightarrow> ((k, a) # areas', ins, w', r))
      | Some new_flags \<Rightarrow>
          (case protect_one mb start end' new_flags a w of
             (a', ins, w', Ok _) \<Rightarrow>
               (case protect_loop mb start end' update_flags areas w' of
                  (areas', ins', w'', r) \<Rightarrow> ((k, a') # areas', ins @ ins', w'', r))
           | (a', ins, w', r) \<Rightarrow> ((k, a') # areas, ins, w', r)))"

definition bt_extend :: "('k :: linorder, 'v) btree \<Rightarrow> ('k, 'v) btree \<Rightarrow> ('k, 'v) btree" where
  "bt_extend m es = foldl (\<lambda>m (k, v). bt_insert k v m) m es"

definition protect_tracked ::
  "('f, 'b, 'pt, 'rc) mapping_backend \<Rightarrow> addr \<Rightarrow> addr \<Rightarrow> ('f \<Rightarrow> 'f option) \<Rightarrow> ('f, 'b) areas \<Rightarrow> ('pt, 'rc) mm \<Rightarrow>
   ('f, 'b) areas \<times> ('pt, 'rc) mm \<times> (mapping_error, unit) outcome" where
  "protect_tracked mb start sz update_flags areas w =
     (case checked_add start sz of
        None \<Rightarrow> (areas, w, Err InvalidParam)
      | Some end' \<Rightarrow>
          (case (range_new start end' :: (mapping_error, addr_range) outcome) of
             Ok rng \<Rightarrow>
               (let first = first_overlapping_key areas rng
                in if first > end' then (areas, w, Panic)
                   else case protect_loop mb start end' update_flags (bt_range (\<lambda>k. first \<le> k \<and> k < end') areas) w of
                          (mid, to_insert, w', r) \<Rightarrow>
                            (bt_extend (bt_range (\<lambda>k. k < first) areas @ mid @ bt_range (\<lambda>k. end' \<le> k) areas) to_insert, w', r))
           | _ \<Rightarrow> (areas, w, Panic)))"

definition mset_protect ::
  "('f, 'b, 'pt, 'rc) mapping_backend \<Rightarrow> addr \<Rightarrow> addr \<Rightarrow> ('f \<Rightarrow> 'f option) \<Rightarrow> ('f, 'b) areas \<Rightarrow> ('pt, 'rc) mm \<Rightarrow>
   ('f, 'b) areas \<times> ('pt, 'rc) mm \<times> (mapping_error, unit) outcome" where
  "mset_protect mb start sz update_flags areas w =
     (case protect_tracked mb start sz update_flags areas w of (areas', w', r) \<Rightarrow> (areas', w'\<lparr>mutation := mutation w\<rparr>, r))"

section \<open>Draining\<close>

text \<open>\<open>MemoryAreaDrain\<close>: the first area taken out of the set, consumed from its start, and put back on drop.\<close>

definition drain_first_area :: "('f, 'b) areas \<Rightarrow> (('f, 'b) areas \<times> ('f, 'b) memory_area) option" where
  "drain_first_area areas = (case areas of [] \<Rightarrow> None | (_, a) # rest \<Rightarrow> Some (rest, a))"

definition drain_drop :: "('f, 'b) areas \<Rightarrow> ('f, 'b) memory_area \<Rightarrow> (mapping_error, ('f, 'b) areas) outcome" where
  "drain_drop areas a =
     (if range_is_empty (va_range a) then Ok areas
      else if bt_get areas (ma_start a) = None then Ok (bt_insert (ma_start a) a areas) else Panic)"

end
