(* ===== verification/Memory_Set_Refine.thy ===== *)
theory Memory_Set_Refine
  imports Memory_Set
begin

text \<open>
  Correctness of the set of memory areas: its well-formedness (areas are not empty and do not overlap), the
  map from addresses to flags and backends that it represents, and that every operation keeps the first and
  changes the second as it should, whatever the backend does. None of the assertions of the code can fail.
\<close>

section \<open>Well-formedness and the address map\<close>

definition area_entry :: "addr \<times> ('f, 'b) memory_area \<Rightarrow> bool" where
  "area_entry e \<longleftrightarrow> fst e = ma_start (snd e) \<and> ma_start (snd e) < ma_end (snd e)"

definition apart :: "('f, 'b) memory_area \<Rightarrow> ('f, 'b) memory_area \<Rightarrow> bool" where
  "apart x y \<longleftrightarrow> ma_end x \<le> ma_start y \<or> ma_end y \<le> ma_start x"

definition areas_disjoint :: "(addr \<times> ('f, 'b) memory_area) set \<Rightarrow> bool" where
  "areas_disjoint S \<longleftrightarrow> (\<forall>e\<in>S. \<forall>e'\<in>S. e = e' \<or> apart (snd e) (snd e'))"

definition mset_wf :: "('f, 'b) areas \<Rightarrow> bool" where
  "mset_wf areas \<longleftrightarrow> bt_sorted areas \<and> (\<forall>e\<in>set areas. area_entry e) \<and> areas_disjoint (set areas)"

text \<open>The flags and the backend of an address.\<close>

definition covers :: "('f, 'b) memory_area \<Rightarrow> addr \<Rightarrow> bool" where
  "covers x a \<longleftrightarrow> ma_start x \<le> a \<and> a < ma_end x"

definition maps_to :: "(addr \<times> ('f, 'b) memory_area) set \<Rightarrow> addr \<Rightarrow> 'f \<times> 'b \<Rightarrow> bool" where
  "maps_to S a p \<longleftrightarrow> (\<exists>e\<in>S. covers (snd e) a \<and> p = (ma_flags (snd e), ma_backend (snd e)))"

definition page_of :: "('f, 'b) areas \<Rightarrow> addr \<Rightarrow> ('f \<times> 'b) option" where
  "page_of areas a =
     map_option (\<lambda>e. (ma_flags (snd e), ma_backend (snd e))) (List.find (\<lambda>e. covers (snd e) a) areas)"

lemma mset_wfD:
  assumes "mset_wf areas"
  shows "bt_sorted areas" and "(k, x) \<in> set areas \<Longrightarrow> k = ma_start x \<and> ma_start x < ma_end x"
    and "(k, x) \<in> set areas \<Longrightarrow> (k', y) \<in> set areas \<Longrightarrow> k < k' \<Longrightarrow> ma_end x \<le> k'"
    and "e \<in> set areas \<Longrightarrow> e' \<in> set areas \<Longrightarrow> e = e' \<or> apart (snd e) (snd e')"
    and "e \<in> set areas \<Longrightarrow> area_entry e"
proof -
  show "bt_sorted areas" "e \<in> set areas \<Longrightarrow> area_entry e"
    "e \<in> set areas \<Longrightarrow> e' \<in> set areas \<Longrightarrow> e = e' \<or> apart (snd e) (snd e')"
    using assms by (auto simp: mset_wf_def areas_disjoint_def)
  show *: "k = ma_start x \<and> ma_start x < ma_end x" if "(k, x) \<in> set areas" for k x
    using assms that by (auto simp: mset_wf_def area_entry_def)
  assume a: "(k, x) \<in> set areas" "(k', y) \<in> set areas" "k < k'"
  then have "apart x y" using assms by (fastforce simp: mset_wf_def areas_disjoint_def)
  then show "ma_end x \<le> k'" using * [OF a(1)] * [OF a(2)] a(3) by (auto simp: apart_def)
qed

lemma covers_unique:
  assumes "mset_wf areas" and "e \<in> set areas" and "e' \<in> set areas" and "covers (snd e) a" and "covers (snd e') a"
  shows "e = e'"
  using mset_wfD(4) [OF assms(1-3)] assms(4,5) by (auto simp: apart_def covers_def)

lemma page_of_iff:
  assumes "mset_wf areas"
  shows "page_of areas a = Some p \<longleftrightarrow> maps_to (set areas) a p"
proof
  assume "page_of areas a = Some p"
  then show "maps_to (set areas) a p"
    by (auto simp: page_of_def maps_to_def find_Some_iff in_set_conv_nth) (metis nth_mem snd_conv)
next
  assume "maps_to (set areas) a p"
  then obtain e where e: "e \<in> set areas" "covers (snd e) a" "p = (ma_flags (snd e), ma_backend (snd e))"
    by (auto simp: maps_to_def)
  then have "List.find (\<lambda>e. covers (snd e) a) areas \<noteq> None" by (simp add: find_None_iff) (metis prod.collapse)
  then obtain e' where f: "List.find (\<lambda>e. covers (snd e) a) areas = Some e'" by blast
  then have "e' \<in> set areas" "covers (snd e') a" by (auto simp: find_Some_iff)
  then have "e' = e" using covers_unique [OF assms] e by blast
  then show "page_of areas a = Some p" using f e by (simp add: page_of_def)
qed

lemma page_of_eqI:
  assumes "mset_wf areas" and "mset_wf areas'" and "\<And>p. maps_to (set areas') a p \<longleftrightarrow> maps_to (set areas) a p"
  shows "page_of areas' a = page_of areas a"
proof -
  have "page_of areas' a = Some p \<longleftrightarrow> page_of areas a = Some p" for p
    using page_of_iff [OF assms(1)] page_of_iff [OF assms(2)] assms(3) by blast
  then show ?thesis by (metis not_Some_eq)
qed

lemma page_of_NoneI:
  assumes "mset_wf areas" and "\<And>e. e \<in> set areas \<Longrightarrow> \<not> covers (snd e) a"
  shows "page_of areas a = None"
  using page_of_iff [OF assms(1), of a] assms(2) by (cases "page_of areas a") (auto simp: maps_to_def)

section \<open>Replacing areas by parts of them\<close>

lemma maps_to_simps [simp]:
  "maps_to {} a p = False"
  "maps_to (insert e S) a p \<longleftrightarrow> (covers (snd e) a \<and> p = (ma_flags (snd e), ma_backend (snd e))) \<or> maps_to S a p"
  "maps_to (S \<union> T) a p \<longleftrightarrow> maps_to S a p \<or> maps_to T a p"
  by (auto simp: maps_to_def)

definition part_of :: "('f, 'b) memory_area \<Rightarrow> ('f, 'b) memory_area \<Rightarrow> bool" where
  "part_of y x \<longleftrightarrow> ma_start x \<le> ma_start y \<and> ma_end y \<le> ma_end x"

definition parts_of :: "(addr \<times> ('f, 'b) memory_area) set \<Rightarrow> (addr \<times> ('f, 'b) memory_area) set \<Rightarrow> bool" where
  "parts_of N S \<longleftrightarrow> areas_disjoint N \<and> (\<forall>e\<in>N. area_entry e \<and> (\<exists>e'\<in>S. part_of (snd e) (snd e')))"

lemma apart_parts: "apart x y \<Longrightarrow> part_of x' x \<Longrightarrow> part_of y' y \<Longrightarrow> apart x' y'"
  by (auto simp: apart_def part_of_def)

lemma apart_commute: "apart x y \<longleftrightarrow> apart y x"
  by (auto simp: apart_def)

lemma part_of_refl [simp]: "part_of x x"
  by (simp add: part_of_def)

lemma areas_disjoint_Un:
  assumes "areas_disjoint N" and "areas_disjoint N'" and "\<And>e e'. e \<in> N \<Longrightarrow> e' \<in> N' \<Longrightarrow> apart (snd e) (snd e')"
  shows "areas_disjoint (N \<union> N')"
  unfolding areas_disjoint_def
proof (intro ballI)
  fix e e'
  assume "e \<in> N \<union> N'" "e' \<in> N \<union> N'"
  then consider "e \<in> N" "e' \<in> N" | "e \<in> N'" "e' \<in> N'" | "e \<in> N" "e' \<in> N'" | "e' \<in> N" "e \<in> N'" by blast
  then show "e = e' \<or> apart (snd e) (snd e')"
    by cases (use assms(1,2) assms(3) [of e e'] assms(3) [of e' e] apart_commute [of "snd e" "snd e'"] in
        \<open>auto simp only: areas_disjoint_def\<close>)
qed

lemma parts_of_Un:
  assumes "parts_of N S" and "parts_of N' S'" and "\<And>e e'. e \<in> S \<Longrightarrow> e' \<in> S' \<Longrightarrow> apart (snd e) (snd e')"
  shows "parts_of (N \<union> N') (S \<union> S')"
proof -
  have "apart (snd e) (snd e')" if a: "e \<in> N" "e' \<in> N'" for e e'
  proof -
    obtain f f' where "f \<in> S" "part_of (snd e) (snd f)" "f' \<in> S'" "part_of (snd e') (snd f')"
      using assms(1,2) a unfolding parts_of_def by blast
    then show ?thesis using assms(3) apart_parts by blast
  qed
  then have "areas_disjoint (N \<union> N')" using assms(1,2) by (intro areas_disjoint_Un) (auto simp: parts_of_def)
  then show ?thesis using assms(1,2) by (auto simp: parts_of_def)
qed

lemma parts_of_refl: "areas_disjoint S \<Longrightarrow> (\<And>e. e \<in> S \<Longrightarrow> area_entry e) \<Longrightarrow> parts_of S S"
  by (auto simp: parts_of_def intro: part_of_refl)

lemma areas_disjoint_mono: "areas_disjoint S \<Longrightarrow> T \<subseteq> S \<Longrightarrow> areas_disjoint T"
  unfolding areas_disjoint_def by (meson subsetD)

text \<open>An area is replaced by disjoint parts of it: the set stays well-formed and changes only below the area.\<close>

lemma replace_parts:
  assumes wf: "mset_wf areas" and x: "(k, x) \<in> set areas" and s: "bt_sorted areas'"
    and set': "set areas' = (set areas - {(k, x)}) \<union> N" and N: "parts_of N {(k, x)}"
  shows "mset_wf areas'"
    and "maps_to (set areas') a p \<longleftrightarrow> (if covers x a then maps_to N a p else maps_to (set areas) a p)"
proof -
  let ?R = "set areas - {(k, x)}"
  have "parts_of ?R ?R"
    by (rule parts_of_refl [OF areas_disjoint_mono [of "set areas"]]) (use wf in \<open>auto simp: mset_wf_def\<close>)
  then have "parts_of (?R \<union> N) (?R \<union> {(k, x)})"
    by (rule parts_of_Un [OF _ N]) (use mset_wfD(4) [OF wf _ x] in blast)
  then show "mset_wf areas'" using s by (simp add: mset_wf_def set' parts_of_def)
  have "\<not> maps_to ?R a p" if "covers x a"
    using covers_unique [OF wf x _ _, of _ a] that unfolding maps_to_def by auto
  moreover have "\<not> maps_to N a p" if "\<not> covers x a"
    using N that by (auto simp: maps_to_def parts_of_def part_of_def covers_def)
  moreover have "maps_to (set areas) a p \<longleftrightarrow> maps_to ?R a p \<or> maps_to {(k, x)} a p"
    using x maps_to_simps(3) [of ?R "{(k, x)}" a p] by (simp add: insert_absorb)
  ultimately show "maps_to (set areas') a p \<longleftrightarrow> (if covers x a then maps_to N a p else maps_to (set areas) a p)"
    by (simp add: set')
qed

section \<open>The parts of an area\<close>

lemma area_new_Ok [simp]:
  "s \<le> e \<Longrightarrow> area_new s (e - s) f b = Ok \<lparr>va_range = \<lparr>rstart = s, rend = e\<rparr>, ma_flags = f, ma_backend = b\<rparr>"
  by (simp add: area_new_def)

lemma area_split_Ok [simp]:
  "ma_start a < pos \<Longrightarrow> pos < ma_end a \<Longrightarrow>
   area_split pos a = Ok (Some (set_end pos a,
     \<lparr>va_range = \<lparr>rstart = pos, rend = ma_end a\<rparr>, ma_flags = ma_flags a, ma_backend = ma_backend a\<rparr>))"
  by (simp add: area_split_def)

lemma set_end_simps [simp]:
  "ma_start (set_end e a) = ma_start a" "ma_end (set_end e a) = e"
  "ma_flags (set_end e a) = ma_flags a" "ma_backend (set_end e a) = ma_backend a"
  "set_end e (set_end e' a) = set_end e a"
  by (simp_all add: set_end_def)

lemma set_flags_simps [simp]:
  "va_range (set_flags f a) = va_range a" "ma_flags (set_flags f a) = f" "ma_backend (set_flags f a) = ma_backend a"
  by (simp_all add: set_flags_def)

lemma ok_or_bad_state_cases: "ok_or_bad_state b = Ok () \<or> ok_or_bad_state b = Err BadState"
  by (simp add: ok_or_bad_state_def)

lemma unmap_range_result:
  obtains w' where "unmap_range mb b lo n w = (w', Ok ())" | w' where "unmap_range mb b lo n w = (w', Err BadState)"
proof (cases "unmap_range mb b lo n w")
  case (Pair w' r)
  then have "r = Ok () \<or> r = Err BadState"
    using ok_or_bad_state_cases by (auto simp: unmap_range_def split: prod.splits)
  then show ?thesis using Pair that by blast
qed

lemma protect_area_result:
  obtains w' where "protect_area_tracked mb a f w = (w', Ok ())" | w' where "protect_area_tracked mb a f w = (w', Err BadState)"
proof (cases "protect_area_tracked mb a f w")
  case (Pair w' r)
  then have "r = Ok () \<or> r = Err BadState"
    using ok_or_bad_state_cases by (auto simp: protect_area_tracked_def split: prod.splits)
  then show ?thesis using Pair that by blast
qed

lemma shrink_right_result:
  assumes "ma_start a < pos" and "pos < ma_end a"
  obtains w' where "unmap_range mb (ma_backend a) pos (ma_end a - pos) w = (w', Ok ())"
      "shrink_right mb (pos - ma_start a) a w = (set_end pos a, w', Ok ())"
  | w' where "unmap_range mb (ma_backend a) pos (ma_end a - pos) w = (w', Err BadState)"
      "shrink_right mb (pos - ma_start a) a w = (a, w', Err BadState)"
proof -
  have g: "pos - ma_start a > 0 \<and> pos - ma_start a < area_size a"
    using assms by (auto simp: area_size_def range_size_def word_diff_less word_diff_pos)
  have e: "area_size a - (pos - ma_start a) = ma_end a - pos" by (simp add: area_size_def range_size_def)
  show ?thesis
    using unmap_range_result [of mb "ma_backend a" pos "ma_end a - pos" w] that g e
    by (auto simp: shrink_right_def Let_def)
qed

text \<open>Which addresses of an area a list of parts maps, and how.\<close>

lemma parts_of_simps:
  "parts_of {} S"
  "parts_of {e} {e'} \<longleftrightarrow> area_entry e \<and> part_of (snd e) (snd e')"
  by (auto simp: parts_of_def areas_disjoint_def)

lemma parts_of_insertI:
  assumes "area_entry e" and "e' \<in> S" "part_of (snd e) (snd e')" and N: "parts_of N S"
    and "\<And>f. f \<in> N \<Longrightarrow> apart (snd e) (snd f)"
  shows "parts_of (insert e N) S"
proof -
  have "areas_disjoint ({e} \<union> N)"
    by (rule areas_disjoint_Un) (use N assms(5) in \<open>auto simp: areas_disjoint_def parts_of_def\<close>)
  then show ?thesis using assms(1-3) N by (auto simp: parts_of_def)
qed

section \<open>Unmapping\<close>

definition in_rng :: "addr \<Rightarrow> addr \<Rightarrow> addr \<Rightarrow> bool" where
  "in_rng start end' a \<longleftrightarrow> start \<le> a \<and> a < end'"

definition tail_part :: "addr \<Rightarrow> ('f, 'b) memory_area \<Rightarrow> ('f, 'b) memory_area" where
  "tail_part pos x = \<lparr>va_range = \<lparr>rstart = pos, rend = ma_end x\<rparr>, ma_flags = ma_flags x, ma_backend = ma_backend x\<rparr>"

lemma tail_part_simps [simp]:
  "ma_start (tail_part pos x) = pos" "ma_end (tail_part pos x) = ma_end x"
  "ma_flags (tail_part pos x) = ma_flags x" "ma_backend (tail_part pos x) = ma_backend x"
  by (simp_all add: tail_part_def)

lemma maps_to_covered:
  assumes "mset_wf areas" and "(k, x) \<in> set areas" and "covers x a"
  shows "maps_to (set areas) a p \<longleftrightarrow> p = (ma_flags x, ma_backend x)"
proof
  assume "maps_to (set areas) a p"
  then obtain e where e: "e \<in> set areas" "covers (snd e) a" "p = (ma_flags (snd e), ma_backend (snd e))"
    by (auto simp: maps_to_def)
  then have "e = (k, x)" using covers_unique [OF assms(1) e(1) assms(2) e(2)] assms(3) by simp
  then show "p = (ma_flags x, ma_backend x)" using e by simp
qed (use assms in \<open>auto simp: maps_to_def intro!: bexI [of _ "(k, x)"]\<close>)

text \<open>A hole in an area: what is left of the area is at most a head and a tail.\<close>

definition hole_parts :: "addr \<Rightarrow> ('f, 'b) memory_area \<Rightarrow> addr \<Rightarrow> addr \<Rightarrow> (addr \<times> ('f, 'b) memory_area) set" where
  "hole_parts k x lo hi =
     (if ma_start x < lo then {(k, set_end lo x)} else {}) \<union> (if hi < ma_end x then {(hi, tail_part hi x)} else {})"

lemma maps_to_hole_parts:
  assumes "covers x a" and "ma_start x \<le> lo" "lo < hi" and "hi \<le> ma_end x"
  shows "maps_to (hole_parts k x lo hi) a p \<longleftrightarrow> p = (ma_flags x, ma_backend x) \<and> \<not> in_rng lo hi a"
proof -
  have a: "ma_start x \<le> a" "a < ma_end x" using assms(1) by (simp_all add: covers_def)
  consider "a < lo" | "lo \<le> a" "a < hi" | "hi \<le> a" by fastforce
  then show ?thesis
  proof cases
    case 1
    then have "ma_start x < lo" "\<not> hi \<le> a" "\<not> lo \<le> a"
      using order_le_less_trans [OF a(1) 1] order_less_trans [OF 1 assms(3)] by (simp_all add: linorder_not_le)
    then show ?thesis using 1 a by (simp add: hole_parts_def covers_def in_rng_def)
  next
    case 2
    then have "\<not> a < lo" "\<not> hi \<le> a" by (simp_all add: linorder_not_le linorder_not_less)
    then show ?thesis using 2 by (simp add: hole_parts_def covers_def in_rng_def)
  next
    case 3
    then have "hi < ma_end x" "\<not> a < lo" "\<not> a < hi"
      using order_le_less_trans [OF 3 a(2)] order_less_le_trans [OF assms(3) 3] by (simp_all add: linorder_not_less)
    then show ?thesis using 3 a by (simp add: hole_parts_def covers_def in_rng_def)
  qed
qed

lemma hole_parts_of:
  assumes "area_entry (k, x)" and "ma_start x \<le> lo" "lo < hi" "hi \<le> ma_end x"
  shows "parts_of (hole_parts k x lo hi) {(k, x)}"
  unfolding hole_parts_def using assms
  by (auto intro!: parts_of_insertI [of _ "(k, x)"] simp: parts_of_simps area_entry_def part_of_def apart_def)

lemma hole:
  assumes wf: "mset_wf areas" and x: "(k, x) \<in> set areas" and lo: "ma_start x \<le> lo" "lo < hi" and hi: "hi \<le> ma_end x"
    and s: "bt_sorted areas'" and set': "set areas' = (set areas - {(k, x)}) \<union> hole_parts k x lo hi"
  shows "mset_wf areas'" and "maps_to (set areas') a p \<longleftrightarrow> maps_to (set areas) a p \<and> \<not> in_rng lo hi a"
proof -
  have k: "k = ma_start x" using mset_wfD(2) [OF wf x] by simp
  have "parts_of (hole_parts k x lo hi) {(k, x)}"
    by (rule hole_parts_of [OF mset_wfD(5) [OF wf x] lo hi])
  note r = replace_parts [OF wf x s set' this]
  show "mset_wf areas'" by (rule r(1))
  show "maps_to (set areas') a p \<longleftrightarrow> maps_to (set areas) a p \<and> \<not> in_rng lo hi a"
  proof (cases "covers x a")
    case True
    then show ?thesis
      using r(2) [of a p] maps_to_covered [OF wf x True, of p] maps_to_hole_parts [OF True lo hi, of k p] by simp
  next
    case False
    then have "\<not> in_rng lo hi a" using lo hi by (auto simp: covers_def in_rng_def)
    then show ?thesis using r(2) [of a p] False by simp
  qed
qed

text \<open>
  One call of the backend during an unmapping: a part of an area, inside the range, is unmapped and exactly
  its addresses leave the set; or the backend fails and the set stays.
\<close>

inductive unmap_call ::
  "('f, 'b, 'pt, 'rc) mapping_backend \<Rightarrow> addr \<Rightarrow> addr \<Rightarrow> ('f, 'b) areas \<times> ('pt, 'rc) mm \<Rightarrow> ('f, 'b) areas \<times> ('pt, 'rc) mm \<Rightarrow> bool"
  for mb start end' where
  call_ok: "(k, x) \<in> set areas \<Longrightarrow> ma_start x \<le> lo \<Longrightarrow> start \<le> lo \<Longrightarrow> lo < hi \<Longrightarrow> hi \<le> ma_end x \<Longrightarrow> hi \<le> end' \<Longrightarrow>
    unmap_range mb (ma_backend x) lo (hi - lo) w = (w', Ok ()) \<Longrightarrow> bt_sorted areas' \<Longrightarrow>
    set areas' = (set areas - {(k, x)}) \<union> hole_parts k x lo hi \<Longrightarrow>
    unmap_call mb start end' (areas, w) (areas', w')"
| call_failed: "(k, x) \<in> set areas \<Longrightarrow> ma_start x \<le> lo \<Longrightarrow> start \<le> lo \<Longrightarrow> lo < hi \<Longrightarrow> hi \<le> ma_end x \<Longrightarrow> hi \<le> end' \<Longrightarrow>
    unmap_range mb (ma_backend x) lo (hi - lo) w = (w', Err BadState) \<Longrightarrow>
    unmap_call mb start end' (areas, w) (areas, w')"

lemma unmap_call_effect:
  assumes c: "unmap_call mb start end' s s'" and wf: "mset_wf (fst s)"
  shows "mset_wf (fst s')" and "\<not> in_rng start end' a \<Longrightarrow> maps_to (set (fst s')) a p = maps_to (set (fst s)) a p"
    and "maps_to (set (fst s')) a p \<Longrightarrow> maps_to (set (fst s)) a p"
proof -
  have "mset_wf (fst s') \<and> (maps_to (set (fst s')) a p \<longrightarrow> maps_to (set (fst s)) a p) \<and>
    (\<not> in_rng start end' a \<longrightarrow> maps_to (set (fst s')) a p = maps_to (set (fst s)) a p)"
    using c
  proof cases
    case (call_ok k x areas lo hi w w' areas')
    then have h: "mset_wf areas'" "maps_to (set areas') a p \<longleftrightarrow> maps_to (set areas) a p \<and> \<not> in_rng lo hi a"
      using hole(1) [of areas k x lo hi areas'] hole(2) [of areas k x lo hi areas' a p] wf by simp_all
    have "in_rng start end' a" if "in_rng lo hi a" using that call_ok(5,8) by (auto simp: in_rng_def)
    then show ?thesis using h call_ok(1,2) by auto
  qed (use wf in simp)
  then show "mset_wf (fst s')" and "\<not> in_rng start end' a \<Longrightarrow> maps_to (set (fst s')) a p = maps_to (set (fst s)) a p"
    and "maps_to (set (fst s')) a p \<Longrightarrow> maps_to (set (fst s)) a p" by blast+
qed

lemma unmap_calls_effect:
  assumes "(unmap_call mb start end')\<^sup>*\<^sup>* s s'" and "mset_wf (fst s)"
  shows "mset_wf (fst s') \<and> (\<forall>a p. \<not> in_rng start end' a \<longrightarrow> maps_to (set (fst s')) a p = maps_to (set (fst s)) a p) \<and>
    (\<forall>a p. maps_to (set (fst s')) a p \<longrightarrow> maps_to (set (fst s)) a p)"
  using assms(1)
proof (induction rule: rtranclp_induct)
  case (step s' s'')
  then have "mset_wf (fst s')" by blast
  note e = unmap_call_effect [OF step.hyps(2) this]
  show ?case
  proof (intro conjI allI impI)
    show "mset_wf (fst s'')" by (rule e(1))
    show "maps_to (set (fst s'')) a p = maps_to (set (fst s)) a p" if "\<not> in_rng start end' a" for a p
      using step.IH e(2) [OF that, of p] that by blast
    show "maps_to (set (fst s)) a p" if "maps_to (set (fst s'')) a p" for a p
      using step.IH e(3) [OF that] by blast
  qed
qed (use assms(2) in simp)

lemma bt_insert_same: "bt_sorted m \<Longrightarrow> (k, v) \<in> set m \<Longrightarrow> bt_insert k v m = m"
  by (induction k v m rule: bt_insert.induct) fastforce+

lemma other_keys:
  assumes "bt_sorted areas" and "(k, x) \<in> set areas"
  shows "{e \<in> set areas. fst e \<noteq> k} = set areas - {(k, x)}"
proof -
  have "fst e \<noteq> k \<longleftrightarrow> e \<noteq> (k, x)" if "e \<in> set areas" for e
    using bt_sorted_key [OF assms, of "snd e"] that by (cases e) auto
  then show ?thesis by blast
qed

lemma no_key_inside:
  assumes "mset_wf areas" and "(k, x) \<in> set areas" and "k < k'" and "k' < ma_end x"
  shows "(k', y) \<notin> set areas"
  using mset_wfD(3) [OF assms(1,2) _ assms(3), of y] assms(4) by (meson linorder_not_less)

text \<open>The three places that call the backend for a part of one area have the same shape.\<close>

definition punch ::
  "('f, 'b, 'pt, 'rc) mapping_backend \<Rightarrow> 'b \<Rightarrow> addr \<Rightarrow> addr \<Rightarrow> ('f, 'b) areas \<Rightarrow> ('f, 'b) areas \<Rightarrow> ('pt, 'rc) mm \<Rightarrow>
   ('f, 'b) areas \<times> ('pt, 'rc) mm \<times> (mapping_error, unit) outcome" where
  "punch mb b lo hi areas areas' w =
     (case unmap_range mb b lo (hi - lo) w of (w', Ok _) \<Rightarrow> (areas', w', Ok ()) | (w', r) \<Rightarrow> (areas, w', r))"

lemma punch_call:
  assumes "(k, x) \<in> set areas" and "ma_start x \<le> lo" "start \<le> lo" "lo < hi" "hi \<le> ma_end x" "hi \<le> end'"
    and "bt_sorted n" and "set n = (set areas - {(k, x)}) \<union> hole_parts k x lo hi"
    and p: "punch mb (ma_backend x) lo hi areas n w = (areas', w', r)"
  shows "unmap_call mb start end' (areas, w) (areas', w')"
    and "r = Ok () \<and> areas' = n \<or> r = Err BadState \<and> areas' = areas"
proof -
  have "unmap_call mb start end' (areas, w) (areas', w') \<and> (r = Ok () \<and> areas' = n \<or> r = Err BadState \<and> areas' = areas)"
  proof (rule unmap_range_result [of mb "ma_backend x" lo "hi - lo" w])
    fix w1
    assume u: "unmap_range mb (ma_backend x) lo (hi - lo) w = (w1, Ok ())"
    then have "areas' = n" "w' = w1" "r = Ok ()" using p by (simp_all add: punch_def)
    then show ?thesis using call_ok [OF assms(1-6) u assms(7,8)] by simp
  next
    fix w1
    assume u: "unmap_range mb (ma_backend x) lo (hi - lo) w = (w1, Err BadState)"
    then have "areas' = areas" "w' = w1" "r = Err BadState" using p by (simp_all add: punch_def)
    then show ?thesis using call_failed [OF assms(1-6) u] by simp
  qed
  then show "unmap_call mb start end' (areas, w) (areas', w')"
    and "r = Ok () \<and> areas' = n \<or> r = Err BadState \<and> areas' = areas" by simp_all
qed

lemma unmap_left_cases:
  assumes so: "bt_sorted areas" and l: "bt_last (\<lambda>k. k < start) areas = Some (k, x)"
    and k: "k = ma_start x" and se: "start < end'"
  shows "ma_end x \<le> start \<Longrightarrow> unmap_left mb start end' areas w = (areas, w, Ok ())"
    and "start < ma_end x \<Longrightarrow> ma_end x \<le> end' \<Longrightarrow>
      unmap_left mb start end' areas w = punch mb (ma_backend x) start (ma_end x) areas (bt_insert k (set_end start x) areas) w"
    and "start < ma_end x \<Longrightarrow> end' < ma_end x \<Longrightarrow>
      unmap_left mb start end' areas w =
        punch mb (ma_backend x) start end' areas (bt_insert end' (tail_part end' x) (bt_insert k (set_end start x) areas)) w"
proof -
  have ks: "ma_start x < start" using bt_last_Some(2) [OF so l] k by simp
  have same: "bt_insert k x areas = areas" by (rule bt_insert_same [OF so bt_last_Some(1) [OF so l]])
  show "unmap_left mb start end' areas w = (areas, w, Ok ())" if "ma_end x \<le> start"
  proof -
    have "\<not> start < ma_end x" using that by (rule leD)
    then show ?thesis using l by (simp add: unmap_left_def)
  qed
  show "unmap_left mb start end' areas w = punch mb (ma_backend x) start (ma_end x) areas (bt_insert k (set_end start x) areas) w"
    if a: "start < ma_end x" "ma_end x \<le> end'"
  proof (rule shrink_right_result [OF ks a(1), of mb w])
    fix w'
    assume "unmap_range mb (ma_backend x) start (ma_end x - start) w = (w', Ok ())"
      "shrink_right mb (start - ma_start x) x w = (set_end start x, w', Ok ())"
    then show ?thesis using l a ks k by (simp add: unmap_left_def punch_def)
  next
    fix w'
    assume "unmap_range mb (ma_backend x) start (ma_end x - start) w = (w', Err BadState)"
      "shrink_right mb (start - ma_start x) x w = (x, w', Err BadState)"
    then show ?thesis using l a ks k same by (simp add: unmap_left_def punch_def)
  qed
  show "unmap_left mb start end' areas w =
      punch mb (ma_backend x) start end' areas (bt_insert end' (tail_part end' x) (bt_insert k (set_end start x) areas)) w"
    if a: "start < ma_end x" "end' < ma_end x"
  proof -
    have b: "\<not> ma_end x \<le> end'" "ma_start x < end'" "start \<le> end'"
      using leD [of "ma_end x" end'] a(2) order_less_trans [OF ks se] se by (auto simp only: order_less_imp_le)
    show ?thesis
    proof (rule unmap_range_result [of mb "ma_backend x" start "end' - start" w])
      fix w'
      assume "unmap_range mb (ma_backend x) start (end' - start) w = (w', Ok ())"
      then show ?thesis using l a b
        by (simp add: unmap_left_def punch_def unmap_area_tracked_def area_size_def range_size_def tail_part_def)
    next
      fix w'
      assume "unmap_range mb (ma_backend x) start (end' - start) w = (w', Err BadState)"
      then show ?thesis using l a b
        by (simp add: unmap_left_def punch_def unmap_area_tracked_def area_size_def range_size_def tail_part_def)
    qed
  qed
qed

text \<open>After the step on the left no area reaches into the range from below.\<close>

definition left_clear :: "addr \<Rightarrow> addr \<Rightarrow> ('f, 'b) areas \<Rightarrow> ('f, 'b) areas \<Rightarrow> bool" where
  "left_clear start end' areas areas' \<longleftrightarrow>
     (\<forall>e\<in>set areas'. (fst e < start \<longrightarrow> ma_end (snd e) \<le> start) \<and> (start \<le> fst e \<longrightarrow> fst e < end' \<longrightarrow> e \<in> set areas))"

lemma left_clearI:
  assumes "\<And>e. e \<in> set areas - {(k, x)} \<Longrightarrow> fst e < start \<Longrightarrow> ma_end (snd e) \<le> start"
    and "set areas' = (set areas - {(k, x)}) \<union> hole_parts k x start hi" and "k < start" "start < hi" "end' \<le> hi \<or> hi = ma_end x"
  shows "left_clear start end' areas areas'"
  unfolding left_clear_def
proof (intro ballI conjI impI)
  fix e
  assume e: "e \<in> set areas'"
  then consider "e \<in> set areas - {(k, x)}" | "e = (k, set_end start x)" | "e = (hi, tail_part hi x)" "hi < ma_end x"
    unfolding assms(2) by (auto simp: hole_parts_def split: if_splits)
  note c = this
  show "ma_end (snd e) \<le> start" if "fst e < start"
    using c by cases (use assms(1) [of e] assms(4) that in auto)
  show "e \<in> set areas" if "start \<le> fst e" "fst e < end'"
    using c by cases (use assms(3,5) that in auto)
qed

lemma unmap_left_spec:
  assumes wf: "mset_wf areas" and se: "start < end'" and u: "unmap_left mb start end' areas w = (areas', w', r)"
  shows "(unmap_call mb start end')\<^sup>*\<^sup>* (areas, w) (areas', w') \<and>
    (r = Err BadState \<or> r = Ok () \<and> left_clear start end' areas areas')"
proof (cases "bt_last (\<lambda>k. k < start) areas")
  case None
  then have "areas' = areas" "w' = w" "r = Ok ()" using u by (auto simp: unmap_left_def)
  then show ?thesis using None by (simp add: bt_last_None left_clear_def)
next
  case (Some e)
  obtain k x where e: "e = (k, x)" by (cases e)
  have so: "bt_sorted areas" using mset_wfD(1) [OF wf] .
  note l = bt_last_Some [OF so Some [unfolded e]]
  have kx: "k = ma_start x" "ma_start x < ma_end x" using mset_wfD(2) [OF wf l(1)] by auto
  have ks: "ma_start x < start" using l(2) kx by simp
  have others: "ma_end (snd e) \<le> start" if "e \<in> set areas - {(k, x)}" "fst e < start" for e
  proof -
    have "fst e \<le> k" using l(3) [of "fst e" "snd e"] that by simp
    moreover have "fst e \<noteq> k" using that other_keys [OF so l(1)] by auto
    ultimately have "ma_end (snd e) \<le> k" using mset_wfD(3) [OF wf _ l(1), of "fst e" "snd e"] that(1) by simp
    then show ?thesis using l(2) by simp
  qed
  note c = unmap_left_cases [OF so Some [unfolded e] kx(1) se, of mb w]
  consider "ma_end x \<le> start" | "start < ma_end x" "ma_end x \<le> end'" | "start < ma_end x" "end' < ma_end x" by fastforce
  then show ?thesis
  proof cases
    case 1
    then have r: "areas' = areas" "w' = w" "r = Ok ()" using u c(1) by auto
    have "ma_end (snd e) \<le> start" if "e \<in> set areas" "fst e < start" for e
      using others [of e] 1 that by (cases "e = (k, x)") auto
    then show ?thesis unfolding r by (auto simp: left_clear_def)
  next
    case 2
    let ?n = "bt_insert k (set_end start x) areas"
    have n: "set ?n = (set areas - {(k, x)}) \<union> hole_parts k x start (ma_end x)"
      using ks by (simp add: set_bt_insert so other_keys [OF so l(1)] hole_parts_def)
    note p = punch_call [OF l(1) _ _ 2(1) _ 2(2) bt_sorted_insert [OF so] n, of start mb w areas' w' r]
    have "left_clear start end' areas ?n" by (rule left_clearI [OF others n l(2) 2(1)]) simp_all
    then show ?thesis using p c(2) [OF 2] u ks by auto
  next
    case 3
    let ?n = "bt_insert end' (tail_part end' x) (bt_insert k (set_end start x) areas)"
    have ke: "k < end'" using l(2) se by (rule order_less_trans)
    have key: "e \<in> set areas - {(k, x)} \<Longrightarrow> fst e \<noteq> end'" for e
      using no_key_inside [OF wf l(1) ke 3(2), of "snd e"] by (cases e) auto
    have "set ?n = insert (end', tail_part end' x) {e \<in> insert (k, set_end start x) (set areas - {(k, x)}). fst e \<noteq> end'}"
      by (simp add: set_bt_insert so other_keys [OF so l(1)])
    also have "\<dots> = (set areas - {(k, x)}) \<union> hole_parts k x start end'"
      using ke ks 3(2) key by (auto simp: hole_parts_def)
    finally have n: "set ?n = (set areas - {(k, x)}) \<union> hole_parts k x start end'" .
    note p = punch_call [OF l(1) _ _ se _ _ _ n, of start end' mb w areas' w' r]
    have "left_clear start end' areas ?n" by (rule left_clearI [OF others n l(2) se]) simp_all
    then show ?thesis using p c(3) [OF 3] u ks 3 so by auto
  qed
qed

lemma unmap_right_eq:
  assumes f: "bt_first (\<lambda>k. start \<le> k) areas = Some (k, x)" and k: "k = ma_start x" and "k < end'" and "end' < ma_end x"
  shows "unmap_right mb start end' areas w =
    punch mb (ma_backend x) k end' areas (bt_insert end' (tail_part end' x) (bt_remove k areas)) w"
proof (rule unmap_range_result [of mb "ma_backend x" k "end' - k" w])
  fix w'
  assume "unmap_range mb (ma_backend x) k (end' - k) w = (w', Ok ())"
  then show ?thesis using assms
    by (simp add: unmap_right_def punch_def unmap_area_tracked_def area_size_def range_size_def tail_part_def)
next
  fix w'
  assume "unmap_range mb (ma_backend x) k (end' - k) w = (w', Err BadState)"
  then show ?thesis using assms
    by (simp add: unmap_right_def punch_def unmap_area_tracked_def area_size_def range_size_def tail_part_def)
qed

lemma unmap_right_spec:
  assumes wf: "mset_wf areas" and se: "start < end'" and u: "unmap_right mb start end' areas w = (areas', w', r)"
    and no: "\<And>e. e \<in> set areas \<Longrightarrow> start \<le> fst e \<Longrightarrow> fst e < end' \<Longrightarrow> end' < ma_end (snd e)"
  shows "(unmap_call mb start end')\<^sup>*\<^sup>* (areas, w) (areas', w') \<and>
    (r = Err BadState \<or>
     r = Ok () \<and> (\<forall>e\<in>set areas'. (start \<le> fst e \<longrightarrow> end' \<le> fst e) \<and> (fst e < start \<longrightarrow> e \<in> set areas)))"
proof (cases "bt_first (\<lambda>k. start \<le> k) areas")
  case None
  then have "areas' = areas" "w' = w" "r = Ok ()" using u by (auto simp: unmap_right_def)
  then show ?thesis using None by (auto simp: bt_first_None)
next
  case (Some e)
  obtain k x where e: "e = (k, x)" by (cases e)
  have so: "bt_sorted areas" using mset_wfD(1) [OF wf] .
  note f = bt_first_Some [OF so Some [unfolded e]]
  have kx: "k = ma_start x" "ma_start x < ma_end x" using mset_wfD(2) [OF wf f(1)] by auto
  show ?thesis
  proof (cases "k < end'")
    case False
    then have r: "areas' = areas" "w' = w" "r = Ok ()" using u Some e by (simp_all add: unmap_right_def)
    have "end' \<le> fst e" if "e \<in> set areas" "start \<le> fst e" for e
      using f(3) [of "fst e" "snd e"] that False by (simp add: linorder_not_less)
    then show ?thesis unfolding r by blast
  next
    case True
    let ?n = "bt_insert end' (tail_part end' x) (bt_remove k areas)"
    have ex: "end' < ma_end x" using no [OF f(1)] f(2) True by simp
    have key: "e \<in> set areas - {(k, x)} \<Longrightarrow> fst e \<noteq> end'" for e
      using no_key_inside [OF wf f(1) True ex, of "snd e"] by (cases e) auto
    have "set ?n = insert (end', tail_part end' x) {e \<in> set areas - {(k, x)}. fst e \<noteq> end'}"
      by (simp add: set_bt_insert so other_keys [OF so f(1)])
    also have "\<dots> = (set areas - {(k, x)}) \<union> hole_parts k x k end'"
      using ex kx key by (auto simp: hole_parts_def)
    finally have n: "set ?n = (set areas - {(k, x)}) \<union> hole_parts k x k end'" .
    note p = punch_call [OF f(1) _ f(2) True _ _ _ n, of end' mb w areas' w' r]
    have above: "end' \<le> fst e" if "e \<in> set ?n" "start \<le> fst e" for e
    proof (cases "e \<in> set areas - {(k, x)}")
      case True
      then have "k < fst e" using f(3) [of "fst e" "snd e"] that other_keys [OF so f(1)] by (simp add: order_less_le) blast
      then have "ma_end x \<le> fst e" using mset_wfD(3) [OF wf f(1), of "fst e" "snd e"] True by simp
      then show ?thesis using ex by simp
    next
      case False
      then show ?thesis using that kx unfolding n by (auto simp: hole_parts_def split: if_splits)
    qed
    have "e \<in> set areas" if "e \<in> set ?n" "fst e < start" for e
      using that se kx unfolding n by (auto simp: hole_parts_def split: if_splits)
    then show ?thesis
      using above p unmap_right_eq [OF Some [unfolded e] kx(1) True ex, of mb w] u kx ex so by auto
  qed
qed

lemma next_contained_None:
  "next_contained P rng areas = None \<Longrightarrow> e \<in> set areas \<Longrightarrow> P (fst e) \<Longrightarrow> fst e < rend rng \<Longrightarrow>
   \<not> contained_in (va_range (snd e)) rng"
  by (cases e) (auto simp: next_contained_def find_None_iff)

lemma next_contained_le:
  assumes "bt_sorted areas" and "next_contained P rng areas = Some k"
    and "e \<in> set areas" "P (fst e)" "fst e < rend rng" "contained_in (va_range (snd e)) rng"
  shows "k \<le> fst e"
  using assms
proof (induction areas)
  case (Cons f areas)
  show ?case
  proof (cases "P (fst f) \<and> fst f < rend rng \<and> contained_in (va_range (snd f)) rng")
    case True
    then have "k = fst f" using Cons.prems(2) by (cases f) (simp add: next_contained_def)
    then show ?thesis using Cons.prems(1,3) by auto
  next
    case False
    then have "next_contained P rng areas = Some k" using Cons.prems(2) by (cases f) (auto simp: next_contained_def)
    then show ?thesis using Cons False by auto
  qed
qed (simp add: next_contained_def)

definition loop_ready :: "addr_range \<Rightarrow> addr option \<Rightarrow> ('f, 'b) areas \<Rightarrow> bool" where
  "loop_ready rng key areas \<longleftrightarrow>
     (\<forall>k. key = Some k \<longrightarrow> (\<exists>x. (k, x) \<in> set areas \<and> k < rend rng \<and> contained_in (va_range x) rng))"

lemma loop_ready_next:
  assumes "set areas' = set areas \<or> set areas' = {e \<in> set areas. fst e \<noteq> key}"
  shows "loop_ready rng (next_contained (\<lambda>k. key < k) rng areas) areas'"
  using assms next_contained_Some [of "\<lambda>k. key < k" rng areas] unfolding loop_ready_def by fastforce

text \<open>The loop: calls of the backend on whole areas; without an error no area in the range is left.\<close>

lemma unmap_contained_spec:
  assumes "unmap_contained mb rng key areas w err = (areas', w', r)" and "mset_wf areas" and "loop_ready rng key areas"
    and "err \<in> {None, Some BadState}"
  shows "(unmap_call mb (rstart rng) (rend rng))\<^sup>*\<^sup>* (areas, w) (areas', w') \<and> set areas' \<subseteq> set areas \<and>
    (r = Ok (Some BadState) \<or>
     r = Ok None \<and> err = None \<and>
     (\<forall>e\<in>set areas'. (\<exists>k. key = Some k \<and> k \<le> fst e) \<longrightarrow> fst e < rend rng \<longrightarrow> \<not> contained_in (va_range (snd e)) rng))"
  using assms
proof (induction mb rng key areas w err arbitrary: areas' w' r rule: unmap_contained.induct)
  case (1 mb rng areas w err)
  then show ?case by auto
next
  case (2 mb rng key areas w err)
  let ?next = "next_contained (\<lambda>k. key < k) rng areas"
  obtain x where x: "(key, x) \<in> set areas" "key < rend rng" "contained_in (va_range x) rng"
    using "2.prems"(3) by (auto simp: loop_ready_def)
  have so: "bt_sorted areas" using mset_wfD(1) [OF "2.prems"(2)] .
  have kx: "key = ma_start x" "ma_start x < ma_end x" using mset_wfD(2) [OF "2.prems"(2) x(1)] by auto
  have get: "bt_get areas key = Some x" using x(1) bt_get_iff [OF so] by blast
  have lt: "\<not> rend rng \<le> key" using x(2) by simp
  have un: "unmap_area_tracked mb x w = unmap_range mb (ma_backend x) (ma_start x) (ma_end x - ma_start x) w"
    by (simp add: unmap_area_tracked_def area_size_def range_size_def)
  have in': "rstart rng \<le> ma_start x" "ma_end x \<le> rend rng" using x(3) by (auto simp: contained_in_def contains_range_def)
  have above: "\<not> contained_in (va_range (snd e)) rng"
    if n: "\<And>e. e \<in> set areas' \<Longrightarrow> \<exists>k. ?next = Some k \<and> k \<le> fst e \<Longrightarrow> fst e < rend rng \<Longrightarrow> \<not> contained_in (va_range (snd e)) rng"
      and e: "e \<in> set areas'" "e \<in> set areas" "key < fst e" "fst e < rend rng" for e
  proof (cases ?next)
    case None
    then show ?thesis using next_contained_None [OF None e(2)] e by simp
  next
    case (Some k)
    show ?thesis using n [OF e(1)] next_contained_le [OF so Some e(2)] Some e by blast
  qed
  show ?case
  proof (rule unmap_range_result [of mb "ma_backend x" "ma_start x" "ma_end x - ma_start x" w])
    fix w1
    assume u: "unmap_range mb (ma_backend x) (ma_start x) (ma_end x - ma_start x) w = (w1, Ok ())"
    let ?n = "bt_remove key areas"
    have n: "set ?n = (set areas - {(key, x)}) \<union> hole_parts key x (ma_start x) (ma_end x)"
      by (simp add: hole_parts_def other_keys [OF so x(1)])
    have call: "unmap_call mb (rstart rng) (rend rng) (areas, w) (?n, w1)"
      by (rule call_ok [OF x(1) order_refl in'(1) kx(2) order_refl in'(2) u _ n]) (use so in simp)
    have wf: "mset_wf ?n" using unmap_call_effect(1) [OF call] "2.prems"(2) by simp
    have rec: "unmap_contained mb rng ?next ?n w1 err = (areas', w', r)"
      using "2.prems"(1) lt get un u by (simp add: Let_def)
    have ih: "(unmap_call mb (rstart rng) (rend rng))\<^sup>*\<^sup>* (?n, w1) (areas', w') \<and> set areas' \<subseteq> set ?n \<and>
      (r = Ok (Some BadState) \<or> r = Ok None \<and> err = None \<and>
       (\<forall>e\<in>set areas'. (\<exists>k. ?next = Some k \<and> k \<le> fst e) \<longrightarrow> fst e < rend rng \<longrightarrow> \<not> contained_in (va_range (snd e)) rng))"
      by (rule "2.IH"(1) [OF lt refl get un [unfolded u, symmetric] refl rec wf loop_ready_next "2.prems"(4)]) simp
    have "\<not> contained_in (va_range (snd e)) rng" if a: "r = Ok None" "e \<in> set areas'" "key \<le> fst e" "fst e < rend rng" for e
    proof (rule above)
      show "\<not> contained_in (va_range (snd e)) rng" if "e \<in> set areas'" "\<exists>k. ?next = Some k \<and> k \<le> fst e" "fst e < rend rng" for e
        using ih that a(1) by blast
      have "e \<in> set ?n" using ih a(2) by blast
      then show "e \<in> set areas" "key < fst e" using a(3) by (auto simp: order_less_le)
    qed (use a in simp_all)
    then show ?case using ih call converse_rtranclp_into_rtranclp [of "unmap_call mb (rstart rng) (rend rng)"] n
      by (auto simp: hole_parts_def)
  next
    fix w1
    assume u: "unmap_range mb (ma_backend x) (ma_start x) (ma_end x - ma_start x) w = (w1, Err BadState)"
    have call: "unmap_call mb (rstart rng) (rend rng) (areas, w) (areas, w1)"
      by (rule call_failed [OF x(1) order_refl in'(1) kx(2) order_refl in'(2) u])
    have rec: "unmap_contained mb rng ?next areas w1 (Some BadState) = (areas', w', r)"
      using "2.prems"(1,4) lt get un u by (auto simp: Let_def)
    have ih: "(unmap_call mb (rstart rng) (rend rng))\<^sup>*\<^sup>* (areas, w1) (areas', w') \<and> set areas' \<subseteq> set areas \<and> r = Ok (Some BadState)"
      using "2.IH"(2) [OF lt refl get un [unfolded u, symmetric] refl _ "2.prems"(2) loop_ready_next, of areas' w' r] rec "2.prems"(4)
      by auto
    then show ?case using call by (auto intro: converse_rtranclp_into_rtranclp)
  qed
qed

lemma first_overlapping_key_le:
  assumes "bt_sorted areas" and "\<not> range_is_empty rng"
  shows "first_overlapping_key areas rng \<le> rstart rng"
  using assms bt_last_Some(2) [OF assms(1), of "\<lambda>k. k \<le> rstart rng"]
  by (auto simp: first_overlapping_key_def split: option.splits)

definition clear_of :: "addr \<Rightarrow> addr \<Rightarrow> ('f, 'b) areas \<Rightarrow> bool" where
  "clear_of start end' areas \<longleftrightarrow> (\<forall>e\<in>set areas. ma_end (snd e) \<le> start \<or> end' \<le> ma_start (snd e))"

lemma clear_of_maps_to: "clear_of start end' areas \<Longrightarrow> in_rng start end' a \<Longrightarrow> \<not> maps_to (set areas) a p"
  by (fastforce simp: clear_of_def in_rng_def maps_to_def covers_def)

lemma unmap_phases:
  assumes wf: "mset_wf areas" and se: "start < end'" and rng: "rng = \<lparr>rstart = start, rend = end'\<rparr>"
    and u: "unmap_contained mb rng (next_contained (\<lambda>k. first_overlapping_key areas rng \<le> k) rng areas) areas w None = (areas1, w1, Ok None)"
  shows "(unmap_call mb start end')\<^sup>*\<^sup>* (areas, w) (areas1, w1)"
    and "e \<in> set areas1 \<Longrightarrow> start \<le> fst e \<Longrightarrow> fst e < end' \<Longrightarrow> end' < ma_end (snd e)"
proof -
  let ?first = "first_overlapping_key areas rng"
  let ?key = "next_contained (\<lambda>k. ?first \<le> k) rng areas"
  have so: "bt_sorted areas" using mset_wfD(1) [OF wf] .
  have f: "?first \<le> start" using first_overlapping_key_le [OF so, of rng] se by (simp add: rng range_is_empty_def)
  have "loop_ready rng ?key areas" using next_contained_Some [of "\<lambda>k. ?first \<le> k" rng areas] by (auto simp: loop_ready_def)
  note sp = unmap_contained_spec [OF u wf this]
  show "(unmap_call mb start end')\<^sup>*\<^sup>* (areas, w) (areas1, w1)" using sp by (simp add: rng)
  assume e: "e \<in> set areas1" "start \<le> fst e" "fst e < end'"
  have ea: "e \<in> set areas" using sp e(1) by auto
  have "\<not> contained_in (va_range (snd e)) rng"
  proof (cases ?key)
    case None
    then show ?thesis using next_contained_None [OF None ea] f e by (simp add: rng)
  next
    case (Some k)
    show ?thesis
      using sp next_contained_le [OF so Some ea] Some e f by (auto simp: rng)
  qed
  moreover have "fst e = ma_start (snd e)" using mset_wfD(5) [OF wf ea] by (simp add: area_entry_def)
  ultimately show "end' < ma_end (snd e)" using e by (auto simp: contained_in_def contains_range_def rng)
qed

lemma unmap_right_clears:
  assumes wf2: "mset_wf areas2" and se: "start < end'" and rt: "unmap_right mb start end' areas2 w2 = (areas', w', r)"
    and lc: "left_clear start end' areas1 areas2"
    and no: "\<And>e. e \<in> set areas1 \<Longrightarrow> start \<le> fst e \<Longrightarrow> fst e < end' \<Longrightarrow> end' < ma_end (snd e)"
  shows "(unmap_call mb start end')\<^sup>*\<^sup>* (areas2, w2) (areas', w') \<and> (r = Err BadState \<or> r = Ok () \<and> clear_of start end' areas')"
proof -
  have "end' < ma_end (snd e)" if "e \<in> set areas2" "start \<le> fst e" "fst e < end'" for e
    using lc no that by (auto simp: left_clear_def)
  note rs = unmap_right_spec [OF wf2 se rt this]
  have wf3: "mset_wf areas'" using unmap_calls_effect [OF rs [THEN conjunct1]] wf2 by simp
  have "clear_of start end' areas'" if "r = Ok ()"
    unfolding clear_of_def
  proof
    fix e assume e: "e \<in> set areas'"
    have k: "fst e = ma_start (snd e)" using mset_wfD(5) [OF wf3 e] by (simp add: area_entry_def)
    show "ma_end (snd e) \<le> start \<or> end' \<le> ma_start (snd e)"
      using rs that e lc k by (cases "fst e < start") (auto simp: left_clear_def linorder_not_less)
  qed
  then show ?thesis using rs by blast
qed

lemma unmap_tracked_spec:
  assumes wf: "mset_wf areas" and end': "checked_add start sz = Some end'"
    and u: "unmap_tracked mb start sz areas w = (areas', w', r)"
  shows "(unmap_call mb start end')\<^sup>*\<^sup>* (areas, w) (areas', w') \<and> (r = Err BadState \<or> r = Ok () \<and> (start < end' \<longrightarrow> clear_of start end' areas'))"
proof (cases "start < end'")
  case False
  then have "areas' = areas" "w' = w" "r = Ok ()"
    using u end' by (simp_all add: unmap_tracked_def try_from_start_size_def range_is_empty_def linorder_not_less)
  then show ?thesis using False by simp
next
  case se: True
  let ?rng = "\<lparr>rstart = start, rend = end'\<rparr>"
  let ?key = "next_contained (\<lambda>k. first_overlapping_key areas ?rng \<le> k) ?rng areas"
  have so: "bt_sorted areas" using mset_wfD(1) [OF wf] .
  have ne: "\<not> range_is_empty ?rng" using se by (simp add: range_is_empty_def)
  have "first_overlapping_key areas ?rng \<le> end'" using first_overlapping_key_le [OF so ne] se by simp
  then have np: "\<not> end' < first_overlapping_key areas ?rng" by simp
  obtain areas1 w1 r1 where c: "unmap_contained mb ?rng ?key areas w None = (areas1, w1, r1)" by (metis surj_pair)
  have "loop_ready ?rng ?key areas" using next_contained_Some [of "\<lambda>k. first_overlapping_key areas ?rng \<le> k" ?rng areas]
    by (auto simp: loop_ready_def)
  then have sp: "(unmap_call mb start end')\<^sup>*\<^sup>* (areas, w) (areas1, w1)" "r1 = Ok (Some BadState) \<or> r1 = Ok None"
    using unmap_contained_spec [OF c wf] by auto
  show ?thesis
  proof (cases "r1 = Ok None")
    case False
    then have "areas' = areas1" "w' = w1" "r = Err BadState"
      using u end' ne np c sp(2) by (simp_all add: unmap_tracked_def try_from_start_size_def)
    then show ?thesis using sp(1) by simp
  next
    case True
    note ph = unmap_phases [OF wf se refl c [unfolded True]]
    have wf1: "mset_wf areas1" using unmap_calls_effect [OF ph(1)] wf by simp
    obtain areas2 w2 r2 where l: "unmap_left mb start end' areas1 w1 = (areas2, w2, r2)" by (metis surj_pair)
    note ls = unmap_left_spec [OF wf1 se l]
    have wf2: "mset_wf areas2" using unmap_calls_effect [OF ls [THEN conjunct1]] wf1 by simp
    show ?thesis
    proof (cases "r2 = Ok ()")
      case False
      then have "areas' = areas2" "w' = w2" "r = Err BadState"
        using u end' ne np c True l ls by (auto simp: unmap_tracked_def try_from_start_size_def)
      then show ?thesis using ph(1) ls by auto
    next
      case ok: True
      have rt: "unmap_right mb start end' areas2 w2 = (areas', w', r)"
        using u end' ne np c True l ok by (simp add: unmap_tracked_def try_from_start_size_def)
      have "left_clear start end' areas1 areas2" using ls ok by simp
      note rs = unmap_right_clears [OF wf2 se rt this ph(2)]
      then show ?thesis using ph(1) ls rs by auto
    qed
  qed
qed

section \<open>Queries\<close>

lemma overlap_partition:
  assumes wf: "mset_wf areas" and se: "rstart rng < rend rng" and e: "e \<in> set areas"
  shows "fst e < first_overlapping_key areas rng \<Longrightarrow> ma_end (snd e) \<le> rstart rng"
    and "first_overlapping_key areas rng \<le> fst e \<Longrightarrow> rstart rng < ma_end (snd e)"
proof -
  have so: "bt_sorted areas" using mset_wfD(1) [OF wf] .
  have ne: "\<not> range_is_empty rng" using se by (simp add: range_is_empty_def)
  have en: "fst e = ma_start (snd e)" "ma_start (snd e) < ma_end (snd e)" using mset_wfD(5) [OF wf e] by (simp_all add: area_entry_def)
  have "(fst e < first_overlapping_key areas rng \<longrightarrow> ma_end (snd e) \<le> rstart rng) \<and>
    (first_overlapping_key areas rng \<le> fst e \<longrightarrow> rstart rng < ma_end (snd e))"
  proof (cases "bt_last (\<lambda>k. k \<le> rstart rng) areas")
    case None
    then have "first_overlapping_key areas rng = rstart rng" using ne by (simp add: first_overlapping_key_def)
    moreover have "rstart rng < fst e" using None e by (auto simp: bt_last_None linorder_not_le)
    ultimately show ?thesis using en by auto
  next
    case (Some f)
    obtain k x where f: "f = (k, x)" by (cases f)
    note l = bt_last_Some [OF so Some [unfolded f]]
    have first: "first_overlapping_key areas rng = (if rstart rng < ma_end x then k else rstart rng)"
      using ne Some f by (simp add: first_overlapping_key_def)
    have below: "ma_end (snd e) \<le> k" if "fst e < k" using mset_wfD(3) [OF wf _ l(1), of "fst e" "snd e"] e that by simp
    have at: "snd e = x" if "fst e = k" using bt_sorted_key [OF so l(1), of "snd e"] e that by (cases e) auto
    have up: "rstart rng < fst e" if "k < fst e" using l(3) [of "fst e" "snd e"] e that by (cases "rstart rng < fst e") (auto simp: linorder_not_less)
    consider "fst e < k" | "fst e = k" | "k < fst e" by fastforce
    then show ?thesis
    proof cases
      case 1
      then show ?thesis using below l(2) first by (auto simp: linorder_not_less)
    next
      case 2
      then show ?thesis using at first l(2) en by (auto simp: linorder_not_less)
    next
      case 3
      then show ?thesis using up first en by auto
    qed
  qed
  then show "fst e < first_overlapping_key areas rng \<Longrightarrow> ma_end (snd e) \<le> rstart rng"
    and "first_overlapping_key areas rng \<le> fst e \<Longrightarrow> rstart rng < ma_end (snd e)" by auto
qed

lemma set_overlaps_iff:
  assumes wf: "mset_wf areas" and se: "rstart rng < rend rng"
  shows "set_overlaps areas rng \<longleftrightarrow> (\<exists>e\<in>set areas. range_overlaps (va_range (snd e)) rng)"
proof
  assume "set_overlaps areas rng"
  then consider k x where "bt_last (\<lambda>k. k < rstart rng) areas = Some (k, x)" "range_overlaps (va_range x) rng"
    | k x where "bt_first (\<lambda>k. rstart rng \<le> k) areas = Some (k, x)" "range_overlaps (va_range x) rng"
    by (auto simp: set_overlaps_def split: option.splits)
  then show "\<exists>e\<in>set areas. range_overlaps (va_range (snd e)) rng"
    by cases (use bt_last_Some(1) bt_first_Some(1) mset_wfD(1) [OF wf] in force)+
next
  have so: "bt_sorted areas" using mset_wfD(1) [OF wf] .
  assume "\<exists>e\<in>set areas. range_overlaps (va_range (snd e)) rng"
  then obtain k x where x: "(k, x) \<in> set areas" "ma_start x < rend rng" "rstart rng < ma_end x"
    by (auto simp: range_overlaps_def)
  have kx: "k = ma_start x" using mset_wfD(2) [OF wf x(1)] by simp
  show "set_overlaps areas rng"
  proof (cases "k < rstart rng")
    case True
    then obtain k' y where l: "bt_last (\<lambda>k. k < rstart rng) areas = Some (k', y)"
      using bt_last_None [of "\<lambda>k. k < rstart rng" areas] x(1) by (cases "bt_last (\<lambda>k. k < rstart rng) areas") auto
    note ls = bt_last_Some [OF so l]
    have "k' = k"
    proof (rule ccontr)
      assume "k' \<noteq> k"
      then have "k < k'" using ls(3) [OF x(1) True] by simp
      then have "ma_end x \<le> k'" using mset_wfD(3) [OF wf x(1) ls(1)] by simp
      then show False using ls(2) x(3) by simp
    qed
    then have "y = x" using bt_sorted_key [OF so x(1)] ls(1) by simp
    then show ?thesis using l x by (simp add: set_overlaps_def range_overlaps_def)
  next
    case False
    then obtain k' y where f: "bt_first (\<lambda>k. rstart rng \<le> k) areas = Some (k', y)"
      using bt_first_None [of "\<lambda>k. rstart rng \<le> k" areas] x(1)
      by (cases "bt_first (\<lambda>k. rstart rng \<le> k) areas") (auto simp: linorder_not_less)
    note fs = bt_first_Some [OF so f]
    have "k' \<le> k" using fs(3) [OF x(1)] False by (simp add: linorder_not_less)
    moreover have "k' = ma_start y" "ma_start y < ma_end y" using mset_wfD(2) [OF wf fs(1)] by auto
    ultimately have "range_overlaps (va_range y) rng" using kx x(2) fs(2) by (auto simp: range_overlaps_def)
    then show ?thesis using f by (simp add: set_overlaps_def)
  qed
qed

lemma find_area_iff:
  assumes wf: "mset_wf areas"
  shows "find_area areas a = Some x \<longleftrightarrow> (\<exists>k. (k, x) \<in> set areas \<and> covers x a)"
proof
  assume "find_area areas a = Some x"
  then show "\<exists>k. (k, x) \<in> set areas \<and> covers x a"
    using bt_last_Some(1) [OF mset_wfD(1) [OF wf], of "\<lambda>k. k \<le> a"]
    by (auto simp: find_area_def covers_def range_contains_def split: option.splits if_splits)
next
  have so: "bt_sorted areas" using mset_wfD(1) [OF wf] .
  assume "\<exists>k. (k, x) \<in> set areas \<and> covers x a"
  then obtain k where x: "(k, x) \<in> set areas" "ma_start x \<le> a" "a < ma_end x" by (auto simp: covers_def)
  have kx: "k = ma_start x" using mset_wfD(2) [OF wf x(1)] by simp
  obtain k' y where l: "bt_last (\<lambda>k. k \<le> a) areas = Some (k', y)"
    using bt_last_None [of "\<lambda>k. k \<le> a" areas] x kx by (cases "bt_last (\<lambda>k. k \<le> a) areas") auto
  note ls = bt_last_Some [OF so l]
  have "k' = k"
  proof (rule ccontr)
    assume "k' \<noteq> k"
    then have "k < k'" using ls(3) [OF x(1)] x kx by simp
    then have "ma_end x \<le> k'" using mset_wfD(3) [OF wf x(1) ls(1)] by simp
    then show False using ls(2) x(3) by simp
  qed
  then have "y = x" using bt_sorted_key [OF so x(1)] ls(1) by simp
  then show "find_area areas a = Some x" using l x by (simp add: find_area_def range_contains_def)
qed

section \<open>Properties\<close>

lemma unmap_calls_page:
  assumes c: "(unmap_call mb start end')\<^sup>*\<^sup>* (areas, w) (areas', w')" and wf: "mset_wf areas"
  shows "mset_wf areas'" and "\<not> in_rng start end' a \<Longrightarrow> page_of areas' a = page_of areas a"
    and "page_of areas' a = None \<or> page_of areas' a = page_of areas a"
proof -
  have eff: "mset_wf areas' \<and> (\<forall>a p. \<not> in_rng start end' a \<longrightarrow> maps_to (set areas') a p = maps_to (set areas) a p) \<and>
    (\<forall>a p. maps_to (set areas') a p \<longrightarrow> maps_to (set areas) a p)"
    using unmap_calls_effect [OF c] wf unfolding fst_conv by blast
  then show wf': "mset_wf areas'" by blast
  show "page_of areas' a = page_of areas a" if "\<not> in_rng start end' a"
    by (rule page_of_eqI [OF wf wf']) (use eff that in blast)
  show "page_of areas' a = None \<or> page_of areas' a = page_of areas a"
  proof (cases "page_of areas' a")
    case (Some p)
    then have "maps_to (set areas) a p" using eff page_of_iff [OF wf'] by blast
    then show ?thesis using Some page_of_iff [OF wf] by metis
  qed simp
qed

text \<open>An example: three pages with a backend that always succeeds.\<close>

definition example_backend :: "(nat, unit, unit, unit) mapping_backend" where
  "example_backend =
     \<lparr>mb_map = \<lambda>b s n f pt. (pt, True), mb_unmap = \<lambda>b s n pt rc. (pt, rc, True),
      mb_unmap_tracked = default_unmap_tracked (\<lambda>b s n pt rc. (pt, rc, True)),
      mb_protect_tracked = default_protect_tracked (\<lambda>b s n f pt. (pt, True))\<rparr>"

definition example_pages :: "(nat, unit) areas" where
  "example_pages = [(4096, \<lparr>va_range = \<lparr>rstart = 4096, rend = 16384\<rparr>, ma_flags = 3, ma_backend = ()\<rparr>)]"

definition example_mm :: "(unit, unit) mm" where
  "example_mm = \<lparr>page_table = (), reclaim = (), mutation = []\<rparr>"

lemma example_pages_wf: "mset_wf example_pages"
  by (simp add: mset_wf_def example_pages_def area_entry_def areas_disjoint_def)

text \<open>
  C11: \<open>MemorySet::unmap\<close> on a well-formed set, for any backend. A range that overflows is refused. On success no
  address of the range is mapped any more; when the backend fails, an address of the range is unmapped or as
  before. Addresses outside the range never change. The set stays well-formed and no assertion fails.
\<close>

theorem unmap_refines:
  assumes wf: "mset_wf areas" and u: "unmap_tracked mb start sz areas w = (areas', w', r)"
  shows "mset_wf areas' \<and>
    (case checked_add start sz of
       None \<Rightarrow> r = Err InvalidParam \<and> areas' = areas \<and> w' = w
     | Some end' \<Rightarrow>
         (\<forall>a. \<not> in_rng start end' a \<longrightarrow> page_of areas' a = page_of areas a) \<and>
         (r = Ok () \<and> (\<forall>a. in_rng start end' a \<longrightarrow> page_of areas' a = None) \<or>
          r = Err BadState \<and> (\<forall>a. page_of areas' a = None \<or> page_of areas' a = page_of areas a)))"
proof (cases "checked_add start sz")
  case None
  then show ?thesis using u wf by (simp add: unmap_tracked_def try_from_start_size_def)
next
  case (Some end')
  note sp = unmap_tracked_spec [OF wf Some u]
  note pe = unmap_calls_page [OF sp [THEN conjunct1] wf]
  have "page_of areas' a = None" if "r = Ok ()" "in_rng start end' a" for a
  proof -
    have "start < end'" using that(2) by (auto simp: in_rng_def)
    then have "clear_of start end' areas'" using sp that(1) by auto
    then show ?thesis using clear_of_maps_to [OF _ that(2)] page_of_iff [OF pe(1), of a] by (metis not_Some_eq)
  qed
  then show ?thesis using pe sp Some by auto
qed

theorem unmap_refines_witness:
  "mset_wf example_pages \<and>
   (case unmap_tracked example_backend 8192 4096 example_pages example_mm of (areas', w', r) \<Rightarrow>
      page_of areas' 8192 = None \<and> page_of areas' 12288 = page_of example_pages 12288)"
proof -
  obtain areas' w' r where u: "unmap_tracked example_backend 8192 4096 example_pages example_mm = (areas', w', r)"
    by (metis surj_pair)
  have "snd (snd (unmap_tracked example_backend 8192 4096 example_pages example_mm)) = Ok ()" by code_simp
  then have r: "r = Ok ()" using u by simp
  have "checked_add 8192 4096 = Some 12288" by code_simp
  then show ?thesis using unmap_refines [OF example_pages_wf u] u r example_pages_wf by (simp add: in_rng_def)
qed

text \<open>Mapping: the range of the new area is free when the area is inserted.\<close>

lemma mset_unmap_refines:
  assumes "mset_wf areas" and "mset_unmap mb start sz areas w = (areas', w', r)" and "checked_add start sz = Some end'"
  shows "mset_wf areas'" and "r = Ok () \<or> r = Err BadState" and "r = Ok () \<Longrightarrow> start < end' \<Longrightarrow> clear_of start end' areas'"
    and "\<not> in_rng start end' a \<Longrightarrow> page_of areas' a = page_of areas a"
    and "page_of areas' a = None \<or> page_of areas' a = page_of areas a"
proof -
  obtain w1 where u: "unmap_tracked mb start sz areas w = (areas', w1, r)"
    using assms(2) by (auto simp: mset_unmap_def split: prod.splits)
  note sp = unmap_tracked_spec [OF assms(1,3) u]
  note pe = unmap_calls_page [OF sp [THEN conjunct1] assms(1)]
  show "mset_wf areas'" "\<not> in_rng start end' a \<Longrightarrow> page_of areas' a = page_of areas a"
    "page_of areas' a = None \<or> page_of areas' a = page_of areas a" using pe by blast+
  show "r = Ok () \<or> r = Err BadState" "r = Ok () \<Longrightarrow> start < end' \<Longrightarrow> clear_of start end' areas'" using sp by auto
qed

lemma insert_area:
  assumes wf: "mset_wf areas" and x: "ma_start x < ma_end x" and cl: "clear_of (ma_start x) (ma_end x) areas"
  shows "bt_get areas (ma_start x) = None" and "mset_wf (bt_insert (ma_start x) x areas)"
    and "page_of (bt_insert (ma_start x) x areas) a =
      (if covers x a then Some (ma_flags x, ma_backend x) else page_of areas a)"
proof -
  have no: "(ma_start x, y) \<notin> set areas" for y
  proof
    assume y: "(ma_start x, y) \<in> set areas"
    then have "ma_start x = ma_start y" "ma_start y < ma_end y" using mset_wfD(2) [OF wf] by blast+
    moreover have "ma_end y \<le> ma_start x \<or> ma_end x \<le> ma_start y" using cl y by (fastforce simp: clear_of_def)
    ultimately show False using x by auto
  qed
  then show g: "bt_get areas (ma_start x) = None" by (simp add: bt_get_None)
  have "{e \<in> set areas. fst e \<noteq> ma_start x} = set areas" using no by auto
  then have s: "set (bt_insert (ma_start x) x areas) = insert (ma_start x, x) (set areas)"
    using mset_wfD(1) [OF wf] by (simp add: set_bt_insert)
  have "areas_disjoint ({(ma_start x, x)} \<union> set areas)"
    by (rule areas_disjoint_Un) (use wf cl in \<open>auto simp: mset_wf_def areas_disjoint_def clear_of_def apart_def\<close>)
  then show wf': "mset_wf (bt_insert (ma_start x) x areas)"
    using wf x s by (simp add: mset_wf_def area_entry_def)
  have "\<not> maps_to (set areas) a p" if "covers x a" for p
    by (rule clear_of_maps_to [OF cl]) (use that in \<open>simp add: covers_def in_rng_def\<close>)
  then have m: "maps_to (set (bt_insert (ma_start x) x areas)) a p \<longleftrightarrow>
      (if covers x a then p = (ma_flags x, ma_backend x) else maps_to (set areas) a p)" for p
    unfolding s by auto
  show "page_of (bt_insert (ma_start x) x areas) a = (if covers x a then Some (ma_flags x, ma_backend x) else page_of areas a)"
  proof (cases "covers x a")
    case True
    then show ?thesis using m page_of_iff [OF wf'] by auto
  next
    case False
    then show ?thesis using page_of_eqI [OF wf wf'] m by simp
  qed
qed

lemma mset_map_overlap:
  assumes wf: "mset_wf areas" and x: "ma_start x < ma_end x"
  shows "\<not> set_overlaps areas (va_range x) \<Longrightarrow> clear_of (ma_start x) (ma_end x) areas"
  using set_overlaps_iff [OF wf x] by (auto simp: clear_of_def range_overlaps_def linorder_not_less)

lemma set_overlaps_page:
  assumes wf: "mset_wf areas" and x: "ma_start x < ma_end x"
  shows "set_overlaps areas (va_range x) \<longleftrightarrow> (\<exists>a. covers x a \<and> page_of areas a \<noteq> None)"
proof
  assume "set_overlaps areas (va_range x)"
  then obtain e where e: "e \<in> set areas" "range_overlaps (va_range (snd e)) (va_range x)"
    using set_overlaps_iff [OF wf x] by blast
  let ?a = "max (ma_start x) (ma_start (snd e))"
  have "ma_start (snd e) < ma_end (snd e)" using mset_wfD(5) [OF wf e(1)] by (simp add: area_entry_def)
  then have "covers x ?a" "covers (snd e) ?a" using e(2) x by (auto simp: covers_def range_overlaps_def max_def)
  moreover from this(2) have "maps_to (set areas) ?a (ma_flags (snd e), ma_backend (snd e))" using e(1) by (auto simp: maps_to_def)
  ultimately show "\<exists>a. covers x a \<and> page_of areas a \<noteq> None" using page_of_iff [OF wf, of ?a] by (metis not_None_eq)
next
  assume "\<exists>a. covers x a \<and> page_of areas a \<noteq> None"
  then obtain a p where a: "covers x a" "maps_to (set areas) a p" using page_of_iff [OF wf] by blast
  then obtain e where "e \<in> set areas" "covers (snd e) a" by (auto simp: maps_to_def)
  then show "set_overlaps areas (va_range x)"
    using a(1) set_overlaps_iff [OF wf x] by (force simp: covers_def range_overlaps_def)
qed

lemma make_room:
  assumes wf: "mset_wf areas" and x: "ma_start x < ma_end x"
    and u: "(if set_overlaps areas (va_range x) then mset_unmap mb (ma_start x) (area_size x) areas w else (areas, w, Ok ())) = (areas1, w1, r1)"
  shows "mset_wf areas1" and "r1 = Ok () \<or> r1 = Err BadState" and "r1 = Ok () \<Longrightarrow> clear_of (ma_start x) (ma_end x) areas1"
    and "page_of areas1 a = page_of areas a \<or> covers x a \<and> page_of areas1 a = None"
proof -
  have ca: "checked_add (ma_start x) (area_size x) = Some (ma_end x)" using x by (simp add: area_size_def range_size_def)
  have "mset_wf areas1 \<and> (r1 = Ok () \<or> r1 = Err BadState) \<and> (r1 = Ok () \<longrightarrow> clear_of (ma_start x) (ma_end x) areas1) \<and>
    (page_of areas1 a = page_of areas a \<or> covers x a \<and> page_of areas1 a = None)"
  proof (cases "set_overlaps areas (va_range x)")
    case True
    then have "mset_unmap mb (ma_start x) (area_size x) areas w = (areas1, w1, r1)" using u by simp
    note m = mset_unmap_refines [OF wf this ca]
    have "in_rng (ma_start x) (ma_end x) a \<longleftrightarrow> covers x a" by (simp add: in_rng_def covers_def)
    then show ?thesis using m x by blast
  next
    case False
    then show ?thesis using u wf mset_map_overlap [OF wf x] by simp
  qed
  then show "mset_wf areas1" and "r1 = Ok () \<or> r1 = Err BadState" and "r1 = Ok () \<Longrightarrow> clear_of (ma_start x) (ma_end x) areas1"
    and "page_of areas1 a = page_of areas a \<or> covers x a \<and> page_of areas1 a = None" by blast+
qed

text \<open>
  C13: \<open>MemorySet::map\<close> on a well-formed set, for any backend. An empty area is refused; an area that overlaps
  another one is refused unless the overlap is to be unmapped. On success exactly the addresses of the area
  have its flags and backend and all others are as before; when the backend fails, addresses outside the area
  are as before and those inside are as before or unmapped. The set stays well-formed and no assertion fails.
\<close>

theorem map_refines:
  assumes wf: "mset_wf areas" and u: "mset_map mb x unmap_overlap areas w = (areas', w', r)"
  shows "mset_wf areas' \<and>
    (if range_is_empty (va_range x) then r = Err InvalidParam \<and> areas' = areas \<and> w' = w
     else if \<not> unmap_overlap \<and> (\<exists>a. covers x a \<and> page_of areas a \<noteq> None) then r = Err AlreadyExists \<and> areas' = areas \<and> w' = w
     else r = Ok () \<and> (\<forall>a. page_of areas' a = (if covers x a then Some (ma_flags x, ma_backend x) else page_of areas a)) \<or>
          r = Err BadState \<and> (\<forall>a. page_of areas' a = page_of areas a \<or> covers x a \<and> page_of areas' a = None))"
proof (cases "range_is_empty (va_range x)")
  case True
  then show ?thesis using u wf by (simp add: mset_map_def)
next
  case ne: False
  then have x: "ma_start x < ma_end x" by (simp add: range_is_empty_def)
  have ov: "set_overlaps areas (va_range x) \<longleftrightarrow> (\<exists>a. covers x a \<and> page_of areas a \<noteq> None)"
    by (rule set_overlaps_page [OF wf x])
  show ?thesis
  proof (cases "set_overlaps areas (va_range x) \<and> \<not> unmap_overlap")
    case True
    then show ?thesis using u wf ne ov by (simp add: mset_map_def)
  next
    case False
    obtain areas1 w1 r1 where o: "(if set_overlaps areas (va_range x) then mset_unmap mb (ma_start x) (area_size x) areas w
        else (areas, w, Ok ())) = (areas1, w1, r1)" by (rule prod_cases3)
    note fr = make_room [OF wf x o]
    have step: "(if set_overlaps areas (va_range x)
        then if unmap_overlap then mset_unmap mb (ma_start x) (area_size x) areas w else (areas, w, Err AlreadyExists)
        else (areas, w, Ok ())) = (areas1, w1, r1)" using False o by (auto split: if_splits)
    have fin: "mset_wf areas' \<and>
      (r = Ok () \<and> (\<forall>a. page_of areas' a = (if covers x a then Some (ma_flags x, ma_backend x) else page_of areas a)) \<or>
       r = Err BadState \<and> (\<forall>a. page_of areas' a = page_of areas a \<or> covers x a \<and> page_of areas' a = None))"
    proof (cases "r1 = Ok ()")
      case ok: True
      obtain pt b where "mb_map mb (ma_backend x) (ma_start x) (area_size x) (ma_flags x) (page_table w1) = (pt, b)"
        by (metis surj_pair)
      then have m: "map_area mb x w1 = (w1\<lparr>page_table := pt\<rparr>, ok_or_bad_state b)" by (simp add: map_area_def)
      note ins = insert_area [OF fr(1) x fr(3) [OF ok]]
      have "areas' = (if b then bt_insert (ma_start x) x areas1 else areas1)" "r = (if b then Ok () else Err BadState)"
        using u ne step ok m ins(1) by (simp_all add: mset_map_def ok_or_bad_state_def split: if_splits)
      then show ?thesis using ins(2,3) fr(1,4) by (cases b) auto
    next
      case False
      then have "areas' = areas1" "r = Err BadState" using u ne step fr(2) by (auto simp: mset_map_def)
      moreover have "\<forall>a. page_of areas1 a = page_of areas a \<or> covers x a \<and> page_of areas1 a = None"
        by (intro allI) (rule fr(4))
      ultimately show ?thesis using fr(1) by simp
    qed
    have "\<not> (\<not> unmap_overlap \<and> (\<exists>a. covers x a \<and> page_of areas a \<noteq> None))" using False ov by blast
    then show ?thesis using fin ne by (simp only: if_False simp_thms)
  qed
qed

theorem map_refines_witness:
  "mset_wf example_pages \<and>
   (case mset_map example_backend \<lparr>va_range = \<lparr>rstart = 8192, rend = 20480\<rparr>, ma_flags = 1, ma_backend = ()\<rparr> True example_pages example_mm of
      (areas', w', r) \<Rightarrow> page_of areas' 8192 = Some (1, ()) \<and> page_of areas' 4096 = Some (3, ()))"
proof -
  let ?x = "\<lparr>va_range = \<lparr>rstart = 8192, rend = 20480\<rparr>, ma_flags = 1, ma_backend = ()\<rparr> :: (nat, unit) memory_area"
  obtain areas' w' r where u: "mset_map example_backend ?x True example_pages example_mm = (areas', w', r)" by (metis surj_pair)
  have "snd (snd (mset_map example_backend ?x True example_pages example_mm)) = Ok ()" by code_simp
  then have r: "r = Ok ()" using u by simp
  have "page_of example_pages 4096 = Some (3, ())" by code_simp
  then show ?thesis
    using map_refines [OF example_pages_wf u] u r example_pages_wf by (simp add: range_is_empty_def covers_def)
qed

end
