(* ===== verification/Memory_Set_Protect.thy ===== *)
theory Memory_Set_Protect
  imports Memory_Set_Refine
begin

text \<open>
  Changing the flags of a range of addresses: the areas that meet the range are split at its borders, the
  parts inside get the new flags, and nothing else changes. When the backend fails, the loop stops and every
  address has its old flags or its new ones.
\<close>

section \<open>Protecting\<close>

text \<open>What the update of the flags makes of an address.\<close>

definition new_flags_of :: "('f \<Rightarrow> 'f option) \<Rightarrow> 'f \<Rightarrow> 'f" where
  "new_flags_of upd f = (case upd f of None \<Rightarrow> f | Some f' \<Rightarrow> f')"

definition reflag :: "addr \<Rightarrow> addr \<Rightarrow> ('f \<Rightarrow> 'f option) \<Rightarrow> addr \<Rightarrow> 'f \<times> 'b \<Rightarrow> 'f \<times> 'b" where
  "reflag start end' upd a p = (if in_rng start end' a then (new_flags_of upd (fst p), snd p) else p)"

definition reflagged ::
  "addr \<Rightarrow> addr \<Rightarrow> ('f \<Rightarrow> 'f option) \<Rightarrow> addr \<Rightarrow> (addr \<times> ('f, 'b) memory_area) set \<Rightarrow> (addr \<times> ('f, 'b) memory_area) set \<Rightarrow> bool" where
  "reflagged start end' upd a S S' \<longleftrightarrow> (\<forall>p. maps_to S' a p \<longleftrightarrow> (\<exists>q. maps_to S a q \<and> p = reflag start end' upd a q))"

definition unchanged_at :: "addr \<Rightarrow> (addr \<times> ('f, 'b) memory_area) set \<Rightarrow> (addr \<times> ('f, 'b) memory_area) set \<Rightarrow> bool" where
  "unchanged_at a S S' \<longleftrightarrow> (\<forall>p. maps_to S' a p \<longleftrightarrow> maps_to S a p)"

definition meets :: "addr \<Rightarrow> addr \<Rightarrow> ('f, 'b) memory_area \<Rightarrow> bool" where
  "meets start end' x \<longleftrightarrow> ma_start x < end' \<and> start < ma_end x"

text \<open>The part of an area in the range with other flags, and the rest of it.\<close>

lemma mid_parts_of:
  assumes k: "area_entry (k, x)" and lo: "ma_start x \<le> lo" "lo < hi" and hi: "hi \<le> ma_end x" and y: "ma_start y = lo" "ma_end y = hi"
  shows "parts_of (insert (lo, y) (hole_parts k x lo hi)) {(k, x)}"
proof (rule parts_of_insertI [of _ "(k, x)", OF _ _ _ hole_parts_of [OF k lo hi]])
  show "apart (snd (lo, y)) (snd f)" if "f \<in> hole_parts k x lo hi" for f
    using that y lo by (auto simp: hole_parts_def apart_def split: if_splits)
qed (use assms in \<open>auto simp: area_entry_def part_of_def\<close>)

lemma mid_maps_to:
  assumes "covers x a" and "ma_start x \<le> lo" "lo < hi" and "hi \<le> ma_end x" and y: "ma_start y = lo" "ma_end y = hi"
  shows "maps_to (insert (lo, y) (hole_parts k x lo hi)) a p \<longleftrightarrow>
    p = (if in_rng lo hi a then (ma_flags y, ma_backend y) else (ma_flags x, ma_backend x))"
  using maps_to_hole_parts [OF assms(1-4), of k p] y by (auto simp: covers_def in_rng_def)

definition flagged_part :: "addr \<Rightarrow> addr \<Rightarrow> 'f \<Rightarrow> ('f, 'b) memory_area \<Rightarrow> ('f, 'b) memory_area" where
  "flagged_part lo hi f x = \<lparr>va_range = \<lparr>rstart = lo, rend = hi\<rparr>, ma_flags = f, ma_backend = ma_backend x\<rparr>"

lemma flagged_part_simps [simp]:
  "ma_start (flagged_part lo hi f x) = lo" "ma_end (flagged_part lo hi f x) = hi"
  "ma_flags (flagged_part lo hi f x) = f" "ma_backend (flagged_part lo hi f x) = ma_backend x"
  by (simp_all add: flagged_part_def)

lemma protect_one_eq:
  assumes k: "area_entry (k, x)" and m: "meets start end' x" and se: "start < end'"
  shows "\<exists>x' ins. insert (k, x') (set ins) =
      insert (max start k, flagged_part (max start k) (min end' (ma_end x)) f x) (hole_parts k x (max start k) (min end' (ma_end x))) \<and>
    ma_start x' = ma_start x \<and>
    protect_one mb start end' f x w =
      (case protect_area_tracked mb (flagged_part (max start k) (min end' (ma_end x)) (ma_flags x) x) f w of
         (w', Ok _) \<Rightarrow> (x', ins, w', Ok ()) | (w', r) \<Rightarrow> (x, [], w', r))"
proof -
  have kx: "k = ma_start x" "ma_start x < ma_end x" using k by (simp_all add: area_entry_def)
  have ms: "ma_start x < end'" "start < ma_end x" using m by (simp_all add: meets_def)
  obtain s e g b where x: "x = \<lparr>va_range = \<lparr>rstart = s, rend = e\<rparr>, ma_flags = g, ma_backend = b\<rparr>"
    by (cases x, cases "va_range x") auto
  note defs = protect_one_def hole_parts_def flagged_part_def tail_part_def set_flags_def set_end_def
  consider (all) "start \<le> s" "e \<le> end'" | (mid) "s < start" "end' < e"
    | (left) "start \<le> s" "end' < e" | (right) "s < start" "e \<le> end'" by fastforce
  then show ?thesis
  proof cases
    case all
    then have mm: "max start k = s" "min end' (ma_end x) = e" using kx x by auto
    show ?thesis unfolding mm
      by (rule exI [of _ "set_flags f x"], rule exI [of _ "[]"]) (use all kx x in \<open>simp add: defs split: prod.split outcome.split\<close>)
  next
    case mid
    then have mm: "max start k = start" "min end' (ma_end x) = end'" using kx x by auto
    have "\<not> start \<le> s" "\<not> e \<le> end'" using mid by simp_all
    then show ?thesis unfolding mm
      by (intro exI [of _ "set_end start x"] exI [of _ "[(end', tail_part end' x), (start, flagged_part start end' f x)]"])
        (use mid kx se ms x in \<open>simp add: defs insert_commute split: prod.split outcome.split\<close>)
  next
    case left
    then have mm: "max start k = s" "min end' (ma_end x) = end'" using kx x by auto
    have "\<not> s < start" "\<not> e \<le> end'" using left by simp_all
    then show ?thesis unfolding mm
      by (intro exI [of _ "set_flags f (set_end end' x)"] exI [of _ "[(end', tail_part end' x)]"])
        (use left kx se ms x in \<open>simp add: defs split: prod.split outcome.split\<close>)
  next
    case right
    then have mm: "max start k = start" "min end' (ma_end x) = e" using kx x by auto
    have "\<not> start \<le> s" "\<not> end' < e" using right by simp_all
    then show ?thesis unfolding mm
      by (intro exI [of _ "set_end start x"] exI [of _ "[(start, flagged_part start e f x)]"])
        (use right kx se ms x in \<open>simp add: defs insert_commute split: prod.split outcome.split\<close>)
  qed
qed

lemma protect_one_spec:
  assumes k: "area_entry (k, x)" and m: "meets start end' x" and se: "start < end'"
    and u: "protect_one mb start end' f x w = (x', ins, w', r)"
  shows "r = Err BadState \<and> x' = x \<and> ins = [] \<or>
    r = Ok () \<and> parts_of (insert (k, x') (set ins)) {(k, x)} \<and>
    (\<forall>a p. covers x a \<longrightarrow> (maps_to (insert (k, x') (set ins)) a p \<longleftrightarrow>
       p = (if in_rng start end' a then f else ma_flags x, ma_backend x)))"
proof -
  let ?lo = "max start k" and ?hi = "min end' (ma_end x)"
  have kx: "k = ma_start x" "ma_start x < ma_end x" using k by (simp_all add: area_entry_def)
  have lo: "ma_start x \<le> ?lo" "?lo < ?hi" "?hi \<le> ma_end x" using kx m se by (auto simp: meets_def)
  obtain y js where y: "insert (k, y) (set js) = insert (?lo, flagged_part ?lo ?hi f x) (hole_parts k x ?lo ?hi)"
    and eq: "protect_one mb start end' f x w =
      (case protect_area_tracked mb (flagged_part ?lo ?hi (ma_flags x) x) f w of
         (w', Ok _) \<Rightarrow> (y, js, w', Ok ()) | (w', r) \<Rightarrow> (x, [], w', r))"
    using protect_one_eq [OF k m se, of f mb w] by blast
  show ?thesis
  proof (rule protect_area_result [of mb "flagged_part ?lo ?hi (ma_flags x) x" f w])
    fix w1
    assume "protect_area_tracked mb (flagged_part ?lo ?hi (ma_flags x) x) f w = (w1, Ok ())"
    then have r: "x' = y" "ins = js" "r = Ok ()" using u eq by simp_all
    have rng: "in_rng ?lo ?hi a \<longleftrightarrow> in_rng start end' a" if "covers x a" for a
      using that kx by (auto simp: in_rng_def covers_def)
    have "maps_to (insert (k, x') (set ins)) a p \<longleftrightarrow> p = (if in_rng start end' a then f else ma_flags x, ma_backend x)"
      if c: "covers x a" for a p
      unfolding r y using mid_maps_to [OF c lo, of "flagged_part ?lo ?hi f x" k p] rng [OF c] by simp
    moreover have "parts_of (insert (k, x') (set ins)) {(k, x)}"
      unfolding r y by (rule mid_parts_of [OF k lo]) simp_all
    ultimately show ?thesis using r by blast
  next
    fix w1
    assume "protect_area_tracked mb (flagged_part ?lo ?hi (ma_flags x) x) f w = (w1, Err BadState)"
    then show ?thesis using u eq by simp
  qed
qed

lemma maps_to_dom: "maps_to S a p \<Longrightarrow> \<exists>e\<in>S. covers (snd e) a"
  by (auto simp: maps_to_def)

lemma parts_not_covered:
  assumes "parts_of N S" and "\<And>e. e \<in> S \<Longrightarrow> \<not> covers (snd e) a" and "e \<in> N"
  shows "\<not> covers (snd e) a"
proof -
  obtain e' where "e' \<in> S" "part_of (snd e) (snd e')" using assms(1,3) unfolding parts_of_def by blast
  then show ?thesis using assms(2) [of e'] by (auto simp: part_of_def covers_def)
qed

text \<open>A relation between what two sets map at an address carries over to unions of separate sets.\<close>

lemma reflagged_empty [simp]: "reflagged start end' upd a {} {}"
  by (simp add: reflagged_def)

lemma unchanged_refl [simp]: "unchanged_at a S S"
  by (simp add: unchanged_at_def)

lemma reflagged_Un: "reflagged start end' upd a S S' \<Longrightarrow> reflagged start end' upd a T T' \<Longrightarrow> reflagged start end' upd a (S \<union> T) (S' \<union> T')"
  unfolding reflagged_def by (simp only: maps_to_simps(3)) blast

lemma unchanged_Un: "unchanged_at a S S' \<Longrightarrow> unchanged_at a T T' \<Longrightarrow> unchanged_at a (S \<union> T) (S' \<union> T')"
  unfolding unchanged_at_def by (simp only: maps_to_simps(3)) simp

lemma reflagged_none:
  assumes "\<And>e. e \<in> S \<Longrightarrow> covers (snd e) a \<Longrightarrow> upd (ma_flags (snd e)) = None \<or> \<not> in_rng start end' a"
  shows "reflagged start end' upd a S S"
proof -
  have "reflag start end' upd a p = p" if "maps_to S a p" for p
    using assms that by (fastforce simp: maps_to_def reflag_def new_flags_of_def)
  then have "maps_to S a p \<longleftrightarrow> (\<exists>q. maps_to S a q \<and> p = reflag start end' upd a q)" for p by metis
  then show ?thesis unfolding reflagged_def by blast
qed

lemma not_covered:
  assumes "\<And>e. e \<in> S \<Longrightarrow> \<not> covers (snd e) a" and "\<And>e. e \<in> S' \<Longrightarrow> \<not> covers (snd e) a"
  shows "reflagged start end' upd a S S'" and "unchanged_at a S S'"
  using assms by (auto simp: reflagged_def unchanged_at_def maps_to_def)

text \<open>The relation that the loop establishes between the areas it visits and what it makes of them.\<close>

definition reflag_result ::
  "addr \<Rightarrow> addr \<Rightarrow> ('f \<Rightarrow> 'f option) \<Rightarrow> (addr \<times> ('f, 'b) memory_area) set \<Rightarrow> (addr \<times> ('f, 'b) memory_area) set \<Rightarrow>
   (mapping_error, unit) outcome \<Rightarrow> bool" where
  "reflag_result start end' upd S S' r \<longleftrightarrow> parts_of S' S \<and>
     (r = Ok () \<and> (\<forall>a. reflagged start end' upd a S S') \<or>
      r = Err BadState \<and> (\<forall>a. reflagged start end' upd a S S' \<or> unchanged_at a S S'))"

lemma reflag_result_Un:
  assumes N: "parts_of N {e}" and h: "\<And>a. covers (snd e) a \<Longrightarrow> reflagged start end' upd a {e} N"
    and T: "reflag_result start end' upd T T' r" and d: "\<And>f. f \<in> T \<Longrightarrow> apart (snd e) (snd f)"
  shows "reflag_result start end' upd ({e} \<union> T) (N \<union> T') r"
proof -
  have p: "parts_of T' T" using T by (simp add: reflag_result_def)
  have h': "reflagged start end' upd a {e} N" for a
    using h not_covered(1) [of "{e}" a N] parts_not_covered [OF N, of a] by (cases "covers (snd e) a") auto
  have out: "reflagged start end' upd a T T'" if "covers (snd e) a" for a
  proof -
    have "\<not> covers (snd f) a" if "f \<in> T" for f using d [OF that] \<open>covers (snd e) a\<close> by (auto simp: apart_def covers_def)
    then show ?thesis using not_covered(1) [of T a T'] parts_not_covered [OF p, of a] by blast
  qed
  have "reflagged start end' upd a ({e} \<union> T) (N \<union> T') \<or> unchanged_at a ({e} \<union> T) (N \<union> T')"
    if c: "reflagged start end' upd a T T' \<or> unchanged_at a T T'" for a
  proof (cases "covers (snd e) a")
    case True
    then show ?thesis using reflagged_Un [OF h' out [OF True]] by blast
  next
    case False
    then have "unchanged_at a {e} N" using not_covered(2) [of "{e}" a N] parts_not_covered [OF N, of a] by auto
    then show ?thesis using c reflagged_Un [OF h'] unchanged_Un by blast
  qed
  moreover have "parts_of (N \<union> T') ({e} \<union> T)" by (rule parts_of_Un [OF N p]) (use d in blast)
  ultimately show ?thesis using T reflagged_Un [OF h'] unfolding reflag_result_def by blast
qed

lemma protect_loop_spec:
  assumes "protect_loop mb start end' upd es w = (es', ins, w', r)" and "bt_sorted es" and "areas_disjoint (set es)"
    and "\<And>e. e \<in> set es \<Longrightarrow> area_entry e \<and> meets start end' (snd e)" and se: "start < end'"
  shows "map fst es' = map fst es \<and> reflag_result start end' upd (set es) (set es' \<union> set ins) r"
  using assms(1-4)
proof (induction es arbitrary: es' ins w w' r)
  case Nil
  then show ?case by (simp add: reflag_result_def parts_of_simps)
next
  case (Cons e es)
  obtain k x where e: "e = (k, x)" by (cases e)
  have d: "apart (snd e) (snd f)" if "f \<in> set es" for f
  proof -
    have "e \<noteq> f" using Cons.prems(2) that by auto
    then show ?thesis using Cons.prems(3) that unfolding areas_disjoint_def by (metis list.set_intros)
  qed
  have dis: "areas_disjoint (set es)" by (rule areas_disjoint_mono [OF Cons.prems(3)]) auto
  have en: "area_entry (k, x)" "meets start end' x" using Cons.prems(4) [of e] e by auto
  have id: "parts_of {e} {e}" using en(1) e by (simp add: parts_of_simps)
  have ih: "map fst es1 = map fst es \<and> reflag_result start end' upd (set es) (set es1 \<union> set ins1) r1"
    if "protect_loop mb start end' upd es w1 = (es1, ins1, w2, r1)" for w1 es1 ins1 w2 r1
    using Cons.IH [OF that _ dis] Cons.prems(2,4) by simp
  show ?case
  proof (cases "upd (ma_flags x)")
    case None
    obtain es1 ins1 w2 r1 where l: "protect_loop mb start end' upd es w = (es1, ins1, w2, r1)" by (metis surj_pair)
    then have res: "es' = e # es1" "ins = ins1" "r = r1" using Cons.prems(1) None e by simp_all
    have "reflagged start end' upd a {e} {e}" for a by (rule reflagged_none) (use None e in simp)
    from reflag_result_Un [OF id this conjunct2 [OF ih [OF l]] d] show ?thesis using ih [OF l] by (simp add: res)
  next
    case (Some f)
    obtain x' ins0 w1 r0 where o: "protect_one mb start end' f x w = (x', ins0, w1, r0)" by (metis surj_pair)
    note sp = protect_one_spec [OF en se o]
    show ?thesis
    proof (cases "r0 = Ok ()")
      case False
      then have res: "es' = e # es" "ins = []" "r = Err BadState" using Cons.prems(1) Some e o sp by auto
      have "parts_of (set (e # es)) (set (e # es))" by (rule parts_of_refl [OF Cons.prems(3)]) (use Cons.prems(4) in blast)
      then show ?thesis by (simp add: res reflag_result_def)
    next
      case True
      obtain es1 ins1 w2 r1 where l: "protect_loop mb start end' upd es w1 = (es1, ins1, w2, r1)" by (metis surj_pair)
      then have res: "es' = (k, x') # es1" "ins = ins0 @ ins1" "r = r1" using Cons.prems(1) Some e o True by simp_all
      let ?N = "insert (k, x') (set ins0)"
      have N: "parts_of ?N {e}" using sp True e by simp
      have "reflagged start end' upd a {e} ?N" if "covers (snd e) a" for a
        using sp True that e Some unfolding reflagged_def by (auto simp: reflag_def new_flags_of_def)
      from reflag_result_Un [OF N this conjunct2 [OF ih [OF l]] d] show ?thesis
        using ih [OF l] e by (simp add: res Un_assoc Un_left_commute insert_commute)
    qed
  qed
qed

section \<open>The whole operation\<close>

lemma bt_split:
  assumes "bt_sorted m" and "lo \<le> hi"
  shows "m = bt_range (\<lambda>k. k < lo) m @ bt_range (\<lambda>k. lo \<le> k \<and> k < hi) m @ bt_range (\<lambda>k. hi \<le> k) m"
  using assms(1)
proof (induction m)
  case (Cons e m)
  then have ih: "m = bt_range (\<lambda>k. k < lo) m @ bt_range (\<lambda>k. lo \<le> k \<and> k < hi) m @ bt_range (\<lambda>k. hi \<le> k) m"
    and above: "\<And>f. f \<in> set m \<Longrightarrow> fst e < fst f" by auto
  consider "fst e < lo" | "lo \<le> fst e" "fst e < hi" | "hi \<le> fst e" by fastforce
  then show ?case
  proof cases
    case 1
    then have "\<not> lo \<le> fst e" "\<not> hi \<le> fst e" using assms(2) by auto
    then show ?thesis using 1 ih by (cases e) (simp add: bt_range_def)
  next
    case 2
    then have "\<not> fst e < lo" "\<not> hi \<le> fst e" by auto
    moreover have "bt_range (\<lambda>k. k < lo) m = []" using above 2 by (fastforce simp: bt_range_Nil)
    ultimately show ?thesis using 2 ih by (cases e) (simp add: bt_range_def)
  next
    case 3
    then have "\<not> fst e < lo" "\<not> fst e < hi" using assms(2) by auto
    moreover have "bt_range (\<lambda>k. k < lo) m = []" "bt_range (\<lambda>k. lo \<le> k \<and> k < hi) m = []"
      using above 3 assms(2) by (fastforce simp: bt_range_Nil)+
    ultimately show ?thesis using 3 ih by (cases e) (simp add: bt_range_def)
  qed
qed (simp add: bt_range_def)

lemma bt_extend_spec:
  assumes "bt_sorted m" and "\<And>e f. e \<in> set m \<union> set es \<Longrightarrow> f \<in> set m \<union> set es \<Longrightarrow> fst e = fst f \<Longrightarrow> e = f"
  shows "bt_sorted (bt_extend m es) \<and> set (bt_extend m es) = set m \<union> set es"
  using assms
proof (induction es arbitrary: m)
  case (Cons e es)
  obtain k v where e: "e = (k, v)" by (cases e)
  have "{f \<in> set m. fst f \<noteq> k} \<union> {(k, v)} = set m \<union> {(k, v)}"
    using Cons.prems(2) e by fastforce
  then have s: "set (bt_insert k v m) = insert e (set m)" using Cons.prems(1) e by (simp add: set_bt_insert)
  have "bt_sorted (bt_extend (bt_insert k v m) es) \<and> set (bt_extend (bt_insert k v m) es) = set (bt_insert k v m) \<union> set es"
    by (rule Cons.IH) (use Cons.prems s in auto)
  then show ?case using s e by (simp add: bt_extend_def)
qed (simp add: bt_extend_def)

lemma disjoint_keys:
  assumes "areas_disjoint S" and "e \<in> S" "f \<in> S" "area_entry e" "area_entry f" "fst e = fst f"
  shows "e = f"
proof -
  have "e = f \<or> apart (snd e) (snd f)" using assms(1-3) unfolding areas_disjoint_def by blast
  then show ?thesis using assms(4-6) by (auto simp: apart_def area_entry_def)
qed

lemma page_of_reflagged:
  assumes "mset_wf areas" and "mset_wf areas'" and "reflagged start end' upd a (set areas) (set areas')"
  shows "page_of areas' a = map_option (reflag start end' upd a) (page_of areas a)"
proof -
  have "page_of areas' a = Some p \<longleftrightarrow> (\<exists>q. page_of areas a = Some q \<and> p = reflag start end' upd a q)" for p
    using assms(3) unfolding reflagged_def page_of_iff [OF assms(1)] page_of_iff [OF assms(2)] by blast
  then have "page_of areas' a = Some p \<longleftrightarrow> map_option (reflag start end' upd a) (page_of areas a) = Some p" for p
    by (cases "page_of areas a") auto
  then show ?thesis by (metis not_Some_eq)
qed

text \<open>The areas that the loop visits meet the range; the others do not.\<close>

lemma protect_mid:
  assumes wf: "mset_wf areas" and se: "start < end'"
  defines "mid \<equiv> bt_range (\<lambda>k. first_overlapping_key areas \<lparr>rstart = start, rend = end'\<rparr> \<le> k \<and> k < end') areas"
  shows "areas_disjoint (set mid)" and "e \<in> set mid \<Longrightarrow> area_entry e \<and> meets start end' (snd e)"
proof -
  show "areas_disjoint (set mid)" by (rule areas_disjoint_mono [of "set areas"]) (use wf in \<open>auto simp: mset_wf_def mid_def\<close>)
  assume e: "e \<in> set mid"
  then have ea: "e \<in> set areas" "fst e < end'" by (auto simp: mid_def)
  have "start < ma_end (snd e)" using overlap_partition(2) [OF wf _ ea(1), of "\<lparr>rstart = start, rend = end'\<rparr>"] e se by (simp add: mid_def)
  then show "area_entry e \<and> meets start end' (snd e)"
    using mset_wfD(5) [OF wf ea(1)] ea(2) by (auto simp: meets_def area_entry_def)
qed

lemma protect_rest:
  assumes wf: "mset_wf areas" and se: "start < end'"
  defines "first \<equiv> first_overlapping_key areas \<lparr>rstart = start, rend = end'\<rparr>"
  defines "rest \<equiv> set (bt_range (\<lambda>k. k < first) areas) \<union> set (bt_range (\<lambda>k. end' \<le> k) areas)"
  shows "parts_of rest rest" and "e \<in> rest \<Longrightarrow> covers (snd e) a \<Longrightarrow> \<not> in_rng start end' a"
    and "e \<in> set (bt_range (\<lambda>k. first \<le> k \<and> k < end') areas) \<Longrightarrow> f \<in> rest \<Longrightarrow> apart (snd e) (snd f)"
proof -
  have sub: "rest \<subseteq> set areas" by (auto simp: rest_def)
  show "parts_of rest rest"
    by (rule parts_of_refl [OF areas_disjoint_mono [OF _ sub]]) (use wf sub in \<open>auto simp: mset_wf_def\<close>)
  show "\<not> in_rng start end' a" if e: "e \<in> rest" and c: "covers (snd e) a"
  proof (cases "fst e < first")
    case True
    have "ma_end (snd e) \<le> start"
      using overlap_partition(1) [OF wf, of "\<lparr>rstart = start, rend = end'\<rparr>" e] True se sub e by (auto simp: first_def)
    then show ?thesis using c by (auto simp: covers_def in_rng_def)
  next
    case False
    then have "end' \<le> fst e" using e by (auto simp: rest_def)
    then show ?thesis using c mset_wfD(5) [OF wf, of e] sub e by (auto simp: covers_def in_rng_def area_entry_def)
  qed
  show "apart (snd e) (snd f)" if "e \<in> set (bt_range (\<lambda>k. first \<le> k \<and> k < end') areas)" "f \<in> rest"
    using mset_wfD(4) [OF wf, of e f] that by (auto simp: rest_def)
qed

lemma reflag_result_rest:
  assumes r: "reflag_result start end' upd M M' r" and R: "parts_of R R"
    and "\<And>e a. e \<in> R \<Longrightarrow> covers (snd e) a \<Longrightarrow> \<not> in_rng start end' a" and d: "\<And>e f. e \<in> M \<Longrightarrow> f \<in> R \<Longrightarrow> apart (snd e) (snd f)"
  shows "reflag_result start end' upd (M \<union> R) (M' \<union> R) r"
proof -
  have h: "reflagged start end' upd a R R" for a by (rule reflagged_none) (use assms(3) in blast)
  have "parts_of (M' \<union> R) (M \<union> R)" by (rule parts_of_Un [OF _ R d]) (use r in \<open>simp_all add: reflag_result_def\<close>)
  then show ?thesis
    using r reflagged_Un [OF _ h] unchanged_Un [OF _ unchanged_refl] unfolding reflag_result_def by blast
qed

lemma protect_tracked_spec:
  assumes wf: "mset_wf areas" and end': "checked_add start sz = Some end'" and se: "start < end'"
    and u: "protect_tracked mb start sz upd areas w = (areas', w', r)"
  shows "mset_wf areas'" and "reflag_result start end' upd (set areas) (set areas') r"
proof -
  let ?rng = "\<lparr>rstart = start, rend = end'\<rparr>"
  let ?first = "first_overlapping_key areas ?rng"
  let ?low = "bt_range (\<lambda>k. k < ?first) areas" and ?high = "bt_range (\<lambda>k. end' \<le> k) areas"
    and ?mid = "bt_range (\<lambda>k. ?first \<le> k \<and> k < end') areas"
  have so: "bt_sorted areas" using mset_wfD(1) [OF wf] .
  have "?first \<le> start" using first_overlapping_key_le [OF so, of ?rng] se by (simp add: range_is_empty_def)
  from order_trans [OF this order_less_imp_le [OF se]] have fe: "?first \<le> end'" .
  obtain es' ins w1 r1 where l: "protect_loop mb start end' upd ?mid w = (es', ins, w1, r1)" by (rule prod_cases4)
  have "range_new start end' = (Ok ?rng :: (mapping_error, addr_range) outcome)" using se by (simp add: range_new_def)
  then have res: "areas' = bt_extend (?low @ es' @ ?high) ins" "r = r1"
    using u end' leD [OF fe] l by (simp_all add: protect_tracked_def Let_def)
  have keys: "map fst es' = map fst ?mid" and rr: "reflag_result start end' upd (set ?mid) (set es' \<union> set ins) r1"
    using protect_loop_spec [OF l bt_sorted_range [OF so] protect_mid [OF wf se] se] by blast+
  define low mid high where d: "low = ?low" "mid = ?mid" "high = ?high"
  define M' R where M': "M' = set es' \<union> set ins" and R: "R = set low \<union> set high"
  have areas: "areas = low @ mid @ high" unfolding d by (rule bt_split [OF so fe])
  have rr': "reflag_result start end' upd (set mid \<union> R) (M' \<union> R) r1"
    by (rule reflag_result_rest) (use rr protect_rest [OF wf se] in \<open>unfold M' R d, blast+\<close>)
  have "map fst es' = map fst mid" using keys by (simp only: d)
  then have "map fst (low @ es' @ high) = map fst areas" by (subst areas) simp
  then have s1: "bt_sorted (low @ es' @ high)" using so by (simp only: bt_sorted_def)
  have dis: "areas_disjoint (M' \<union> R)" and en: "\<And>e. e \<in> M' \<union> R \<Longrightarrow> area_entry e"
    using rr' by (simp_all add: reflag_result_def parts_of_def)
  have u: "set (low @ es' @ high) \<union> set ins = M' \<union> R" by (auto simp: M' R)
  have key: "e = f" if "e \<in> M' \<union> R" "f \<in> M' \<union> R" "fst e = fst f" for e f
    by (rule disjoint_keys [OF dis that(1,2) en en that(3)]) (rule that)+
  have "bt_sorted (bt_extend (low @ es' @ high) ins) \<and> set (bt_extend (low @ es' @ high) ins) = set (low @ es' @ high) \<union> set ins"
    by (rule bt_extend_spec [OF s1]) (unfold u, rule key)
  then have ex: "bt_sorted areas' \<and> set areas' = M' \<union> R"
    unfolding res(1) d [symmetric] u .
  show "mset_wf areas'" using ex dis en by (simp add: mset_wf_def)
  have "set areas = set mid \<union> R" by (auto simp: areas R)
  then show "reflag_result start end' upd (set areas) (set areas') r" using ex rr' res(2) by simp
qed

text \<open>
  C12: \<open>MemorySet::protect\<close> on a well-formed set, for any backend. A range that overflows is refused. On success
  exactly the addresses of the range get the flags that the update function gives (those for which it gives none
  keep theirs), with their backend; when the backend fails, every address has its old flags or its new ones.
  The set stays well-formed and no assertion fails.
\<close>

theorem protect_refines:
  assumes wf: "mset_wf areas" and u: "protect_tracked mb start sz upd areas w = (areas', w', r)"
  shows "mset_wf areas' \<and>
    (case checked_add start sz of
       None \<Rightarrow> r = Err InvalidParam \<and> areas' = areas \<and> w' = w
     | Some end' \<Rightarrow>
         r = Ok () \<and> (\<forall>a. page_of areas' a = map_option (reflag start end' upd a) (page_of areas a)) \<or>
         r = Err BadState \<and>
           (\<forall>a. page_of areas' a = map_option (reflag start end' upd a) (page_of areas a) \<or> page_of areas' a = page_of areas a))"
proof (cases "checked_add start sz")
  case None
  then show ?thesis using u wf by (simp add: protect_tracked_def)
next
  case (Some end')
  have le: "start \<le> end'" using Some checked_add_Some by blast
  show ?thesis
  proof (cases "start < end'")
    case True
    note sp = protect_tracked_spec [OF wf Some True u]
    have "page_of areas' a = page_of areas a" if "unchanged_at a (set areas) (set areas')" for a
      using page_of_eqI [OF wf sp(1)] that unfolding unchanged_at_def by blast
    then show ?thesis
      using sp page_of_reflagged [OF wf sp(1), of start end' upd] Some by (auto simp: reflag_result_def)
  next
    case False
    then have eq: "end' = start" using le by simp
    have "bt_range (\<lambda>k. start \<le> k \<and> k < start) areas = []" by (auto simp: bt_range_Nil)
    then have "areas' = areas \<and> r = Ok ()"
      using u Some eq bt_split [OF mset_wfD(1) [OF wf] order_refl, of start]
      by (auto simp: protect_tracked_def range_new_def first_overlapping_key_def range_is_empty_def bt_extend_def)
    moreover have "\<forall>a. page_of areas a = map_option (reflag start start upd a) (page_of areas a)"
    proof
      fix a
      show "page_of areas a = map_option (reflag start start upd a) (page_of areas a)"
        by (cases "page_of areas a") (auto simp: reflag_def in_rng_def)
    qed
    ultimately show ?thesis using wf Some eq by simp
  qed
qed

theorem protect_refines_witness:
  "mset_wf example_pages \<and>
   (case protect_tracked example_backend 8192 4096 (\<lambda>f. if f = 3 then Some 1 else None) example_pages example_mm of
      (areas', w', r) \<Rightarrow> page_of areas' 8192 = Some (1, ()) \<and> page_of areas' 12288 = Some (3, ()))"
proof -
  let ?upd = "\<lambda>f. if f = 3 then Some 1 else None :: nat option"
  obtain areas' w' r where u: "protect_tracked example_backend 8192 4096 ?upd example_pages example_mm = (areas', w', r)"
    by (metis surj_pair)
  have "snd (snd (protect_tracked example_backend 8192 4096 ?upd example_pages example_mm)) = Ok ()" by code_simp
  then have r: "r = Ok ()" using u by simp
  have "page_of example_pages 8192 = Some (3, ())" "page_of example_pages 12288 = Some (3, ())" by code_simp+
  moreover have "checked_add (8192 :: addr) 4096 = Some 12288" by code_simp
  ultimately show ?thesis
    using protect_refines [OF example_pages_wf u] u r example_pages_wf
    by (simp add: reflag_def in_rng_def new_flags_of_def)
qed

end
