(* ===== verification/Memory_Set_Free.thy ===== *)
theory Memory_Set_Free
  imports Memory_Set_Refine
begin

text \<open>
  The search for a free range. On areas that end on multiples of the alignment it returns the least address
  beside every area from which the size fits below the limit or below an area; this is the least address within
  the limit when no area starts beyond the limit. On other areas it may return an address that is in use.
\<close>

section \<open>Free ranges\<close>

lemma fits_below_iff: "fits_below a n b \<longleftrightarrow> uint a + uint n \<le> uint b"
proof -
  have "uint b < 2 ^ 64" using uint_lt2p [of b] by simp
  moreover have "uint (a + n) = uint a + uint n" if "uint a + uint n < 2 ^ 64"
    using that by (simp add: uint_plus_if')
  ultimately show ?thesis by (auto simp: fits_below_def checked_add_def word_le_def)
qed

lemma fits_below_mono: "fits_below y n b \<Longrightarrow> a \<le> y \<Longrightarrow> b \<le> c \<Longrightarrow> fits_below a n c"
  by (simp add: fits_below_iff word_le_def)

lemma fits_below_le: "fits_below a n b \<Longrightarrow> a \<le> b"
  using uint_ge_0 [of n] unfolding fits_below_iff word_le_def by linarith

lemma align_up_aligned:
  assumes "k < 64" and "is_aligned a (2 ^ k)"
  shows "align_up a (2 ^ k) = a"
proof -
  obtain m where m: "uint a = 2 ^ k * m" using assms by (auto simp: is_aligned_iff)
  have "(2 :: int) ^ 64 = 2 ^ k * 2 ^ (64 - k)" using assms(1) by (simp add: power_add [symmetric])
  moreover have "uint a < 2 ^ 64" using uint_lt2p [of a] by simp
  ultimately have "2 ^ k * m < 2 ^ k * 2 ^ (64 - k)" by (simp only: m)
  then have "m < 2 ^ (64 - k)" by simp
  then have "2 ^ k * (m + 1) \<le> (2 :: int) ^ k * 2 ^ (64 - k)" by (intro mult_left_mono) auto
  then have no: "uint a + (2 ^ k - 1) < 2 ^ 64" using m \<open>2 ^ 64 = 2 ^ k * 2 ^ (64 - k)\<close> by (simp add: distrib_left)
  show ?thesis
    using align_up_least(2) [OF assms(1) no] align_up_least(3) [OF assms(1) no order_refl assms(2)] by simp
qed

text \<open>
  The address the search should return: free, and within the limit. What it looks for instead: free, and from which
  the size fits below the end of the limit or below some area, wherever this area is.
\<close>

definition suitable :: "('f, 'b) areas \<Rightarrow> addr \<Rightarrow> addr \<Rightarrow> addr_range \<Rightarrow> addr \<Rightarrow> addr \<Rightarrow> bool" where
  "suitable areas hint sz limit align a \<longleftrightarrow>
     is_aligned a align \<and> hint \<le> a \<and> rstart limit \<le> a \<and> fits_below a sz (rend limit) \<and>
     (\<forall>e\<in>set areas. ma_end (snd e) \<le> a \<or> fits_below a sz (ma_start (snd e)))"

definition free_candidate :: "('f, 'b) areas \<Rightarrow> addr \<Rightarrow> addr \<Rightarrow> addr_range \<Rightarrow> addr \<Rightarrow> addr \<Rightarrow> bool" where
  "free_candidate areas hint sz limit align a \<longleftrightarrow>
     is_aligned a align \<and> hint \<le> a \<and> rstart limit \<le> a \<and>
     (fits_below a sz (rend limit) \<or> (\<exists>e\<in>set areas. fits_below a sz (ma_start (snd e)))) \<and>
     (\<forall>e\<in>set areas. ma_end (snd e) \<le> a \<or> fits_below a sz (ma_start (snd e)))"

definition least_address :: "(addr \<Rightarrow> bool) \<Rightarrow> addr option \<Rightarrow> bool" where
  "least_address P r \<longleftrightarrow> (case r of Some a \<Rightarrow> P a \<and> (\<forall>b. P b \<longrightarrow> a \<le> b) | None \<Rightarrow> \<forall>b. \<not> P b)"

definition gap_at :: "('f, 'b) areas \<Rightarrow> addr \<Rightarrow> addr \<Rightarrow> addr \<Rightarrow> addr \<Rightarrow> addr \<Rightarrow> bool" where
  "gap_at es low sz lim align a \<longleftrightarrow> is_aligned a align \<and> low \<le> a \<and>
     (fits_below a sz lim \<or> (\<exists>e\<in>set es. fits_below a sz (ma_start (snd e)))) \<and>
     (\<forall>e\<in>set es. ma_end (snd e) \<le> a \<or> fits_below a sz (ma_start (snd e)))"

lemma free_loop_least:
  assumes "mset_wf es" and k: "k < 64" and "\<And>e. e \<in> set es \<Longrightarrow> is_aligned (ma_end (snd e)) (2 ^ k)"
    and "is_aligned low (2 ^ k)" and "\<And>e. e \<in> set es \<Longrightarrow> low \<le> ma_start (snd e)"
  shows "least_address (gap_at es low sz lim (2 ^ k)) (free_loop es low sz lim (2 ^ k))"
  using assms(1,3-5)
proof (induction es arbitrary: low)
  case Nil
  then show ?case using fits_below_mono [of _ sz lim low lim] by (auto simp: least_address_def gap_at_def)
next
  case (Cons e es)
  obtain k' x where e: "e = (k', x)" by (cases e)
  have kx: "k' = ma_start x" "ma_start x < ma_end x" using mset_wfD(2) [OF Cons.prems(1), of k' x] e by auto
  have wf: "mset_wf es" using Cons.prems(1) by (auto simp: mset_wf_def areas_disjoint_def)
  have above: "ma_end x \<le> ma_start (snd f)" if "f \<in> set es" for f
  proof -
    obtain k2 y where f: "f = (k2, y)" by (cases f)
    have "k' < k2" using Cons.prems(1) that e f by (auto simp: mset_wf_def)
    moreover have "k2 = ma_start y" using mset_wfD(2) [OF wf, of k2 y] that f by simp
    ultimately show ?thesis using mset_wfD(3) [OF Cons.prems(1), of k' x k2 y] that e f by simp
  qed
  show ?case
  proof (cases "fits_below low sz k'")
    case True
    have "fits_below low sz (ma_start (snd f))" if "f \<in> set (e # es)" for f
    proof -
      have "k' \<le> ma_start (snd f)" using that above [of f] kx e by auto
      then show ?thesis by (rule fits_below_mono [OF True order_refl])
    qed
    then have "gap_at (e # es) low sz lim (2 ^ k) low" using Cons.prems(3) unfolding gap_at_def by (meson list.set_intros(1) order_refl)
    then show ?thesis using True e by (auto simp: least_address_def gap_at_def)
  next
    case False
    have al: "align_up (ma_end x) (2 ^ k) = ma_end x" using align_up_aligned [OF k] Cons.prems(2) [of e] e by simp
    have ax: "is_aligned (ma_end x) (2 ^ k)" using Cons.prems(2) [of e] e by simp
    have ih: "least_address (gap_at es (ma_end x) sz lim (2 ^ k)) (free_loop es (ma_end x) sz lim (2 ^ k))"
      by (rule Cons.IH [OF wf]) (use Cons.prems(2) ax above in auto)
    have eq: "free_loop (e # es) low sz lim (2 ^ k) = free_loop es (ma_end x) sz lim (2 ^ k)" using False e al by simp
    have "low \<le> ma_end x" using Cons.prems(4) [of e] e kx by simp
    moreover have "ma_end x \<le> a" if "low \<le> a" "ma_end x \<le> a \<or> fits_below a sz (ma_start x)" for a
      using that False fits_below_mono [of a sz k' low k'] kx by auto
    moreover have "\<not> fits_below a sz (ma_start x)" if "low \<le> a" for a
      using that False fits_below_mono [of a sz k' low k'] kx by auto
    ultimately have "gap_at (e # es) low sz lim (2 ^ k) = gap_at es (ma_end x) sz lim (2 ^ k)"
      using e by (auto simp: gap_at_def fun_eq_iff)
    then show ?thesis using ih eq by simp
  qed
qed

text \<open>The address at which the search starts: the areas below it are passed, and no suitable address is.\<close>

lemma search_start:
  assumes wf: "mset_wf areas" and k: "k < 64" and al: "is_aligned low0 (2 ^ k)"
    and ends: "\<And>e. e \<in> set areas \<Longrightarrow> is_aligned (ma_end (snd e)) (2 ^ k)"
    and low: "low = (case bt_last (\<lambda>k. k < low0) areas of
                      Some (_, x) \<Rightarrow> align_up (max low0 (ma_end x)) (2 ^ k) | None \<Rightarrow> low0)"
  shows "is_aligned low (2 ^ k)" and "low0 \<le> low" and "(k', x) \<in> set areas \<Longrightarrow> k' < low \<Longrightarrow> ma_end x \<le> low"
    and "low0 \<le> a \<Longrightarrow> (\<And>e. e \<in> set areas \<Longrightarrow> ma_end (snd e) \<le> a \<or> fits_below a sz (ma_start (snd e))) \<Longrightarrow> low \<le> a"
proof -
  have "is_aligned low (2 ^ k) \<and> low0 \<le> low \<and> (\<forall>k' x. (k', x) \<in> set areas \<longrightarrow> k' < low \<longrightarrow> ma_end x \<le> low) \<and>
    (\<forall>a. low0 \<le> a \<longrightarrow> (\<forall>e\<in>set areas. ma_end (snd e) \<le> a \<or> fits_below a sz (ma_start (snd e))) \<longrightarrow> low \<le> a)"
  proof (cases "bt_last (\<lambda>k. k < low0) areas")
    case None
    then have "low = low0" using low by simp
    then show ?thesis using al None by (auto simp: bt_last_None)
  next
    case (Some e)
    obtain q y where e: "e = (q, y)" by (cases e)
    have y: "(q, y) \<in> set areas" "q < low0" and top: "\<And>k' v'. (k', v') \<in> set areas \<Longrightarrow> k' < low0 \<Longrightarrow> k' \<le> q"
      using bt_last_Some [OF mset_wfD(1) [OF wf], of "\<lambda>k. k < low0" q y] Some e by auto
    have "is_aligned (max low0 (ma_end y)) (2 ^ k)" using al ends [OF y(1)] by (simp add: max_def)
    then have eq: "low = max low0 (ma_end y)" and alg: "is_aligned low (2 ^ k)" using low Some e align_up_aligned [OF k] by auto
    have past: "ma_end x \<le> low" if "(k', x) \<in> set areas" "k' < low" for k' x
    proof (cases "k' = q")
      case True
      then show ?thesis using bt_sorted_key [OF mset_wfD(1) [OF wf] y(1), of x] that eq by simp
    next
      case False
      show ?thesis
      proof (cases "k' < low0")
        case True
        then have "k' < q" using top [OF that(1)] False by simp
        then have "ma_end x \<le> low0" using mset_wfD(3) [OF wf that(1) y(1)] y(2) by simp
        then show ?thesis using eq by (simp add: le_max_iff_disj)
      next
        case F: False
        then have "ma_end y \<le> k'" using mset_wfD(3) [OF wf y(1) that(1)] y(2) by simp
        then show ?thesis using F that(2) eq by (auto simp: max_def split: if_splits)
      qed
    qed
    have "low \<le> a" if "low0 \<le> a" "\<And>e. e \<in> set areas \<Longrightarrow> ma_end (snd e) \<le> a \<or> fits_below a sz (ma_start (snd e))" for a
    proof -
      have "\<not> fits_below a sz (ma_start y)"
        using fits_below_le [of a sz "ma_start y"] mset_wfD(2) [OF wf y(1)] y(2) that(1) by auto
      then show ?thesis using that(1) that(2) [OF y(1)] eq by simp
    qed
    then show ?thesis using alg eq past by simp
  qed
  then show "is_aligned low (2 ^ k)" "low0 \<le> low" "(k', x) \<in> set areas \<Longrightarrow> k' < low \<Longrightarrow> ma_end x \<le> low"
    "low0 \<le> a \<Longrightarrow> (\<And>e. e \<in> set areas \<Longrightarrow> ma_end (snd e) \<le> a \<or> fits_below a sz (ma_start (snd e))) \<Longrightarrow> low \<le> a"
    by blast+
qed

lemma mset_wf_range: "mset_wf areas \<Longrightarrow> mset_wf (bt_range P areas)"
  by (simp add: mset_wf_def areas_disjoint_def)

lemma free_candidate_suitable:
  assumes "\<forall>e\<in>set areas. ma_start (snd e) \<le> rend limit"
  shows "free_candidate areas hint sz limit align = suitable areas hint sz limit align"
  using assms fits_below_mono [of _ sz _ _ "rend limit"] by (auto simp: free_candidate_def suitable_def fun_eq_iff)

lemma gap_at_candidate:
  assumes l0: "max hint (rstart limit) \<le> low0" "is_aligned a (2 ^ k) \<Longrightarrow> max hint (rstart limit) \<le> a \<Longrightarrow> low0 \<le> a"
    and "low0 \<le> low" and past: "\<And>e. e \<in> set areas \<Longrightarrow> fst e < low \<Longrightarrow> ma_end (snd e) \<le> low"
    and least: "low0 \<le> a \<Longrightarrow> (\<And>e. e \<in> set areas \<Longrightarrow> ma_end (snd e) \<le> a \<or> fits_below a sz (ma_start (snd e))) \<Longrightarrow> low \<le> a"
    and key: "\<And>e. e \<in> set areas \<Longrightarrow> fst e = ma_start (snd e)"
  shows "gap_at (bt_range (\<lambda>k. low \<le> k) areas) low sz (rend limit) (2 ^ k) a = free_candidate areas hint sz limit (2 ^ k) a"
proof
  assume g: "gap_at (bt_range (\<lambda>k. low \<le> k) areas) low sz (rend limit) (2 ^ k) a"
  have "ma_end (snd e) \<le> a \<or> fits_below a sz (ma_start (snd e))" if "e \<in> set areas" for e
  proof (cases "low \<le> fst e")
    case True
    then have "e \<in> set (bt_range (\<lambda>k. low \<le> k) areas)" using that by simp
    then show ?thesis using g unfolding gap_at_def by blast
  next
    case False
    then have "ma_end (snd e) \<le> low" using past [OF that] by simp
    then show ?thesis using g unfolding gap_at_def by (meson order_trans)
  qed
  then show "free_candidate areas hint sz limit (2 ^ k) a"
    using g l0(1) assms(3) by (fastforce simp: gap_at_def free_candidate_def)
next
  assume u: "free_candidate areas hint sz limit (2 ^ k) a"
  have "low0 \<le> a" using l0(2) u by (simp add: free_candidate_def)
  then have low: "low \<le> a" using u unfolding free_candidate_def by (intro least) blast+
  have "low \<le> fst e" if "e \<in> set areas" "fits_below a sz (ma_start (snd e))" for e
    using low fits_below_le [OF that(2)] key [OF that(1)] by simp
  then show "gap_at (bt_range (\<lambda>k. low \<le> k) areas) low sz (rend limit) (2 ^ k) a"
    using u low unfolding gap_at_def free_candidate_def by (simp add: Bex_def) (metis fst_conv snd_conv)
qed

text \<open>
  C19: \<open>MemorySet::find_free_area\<close> on a well-formed set whose areas end on multiples of the alignment, a power of two,
  for a size that is a multiple of it and a hint that can be rounded up without overflow. It returns the least
  address that is aligned, not below the hint and the start of the limit, beside every area, and from which the
  size fits below the end of the limit or below some area; \<open>None\<close> is returned only when there is no such address.
  When every area starts by the end of the limit this is the least free address within the limit. Otherwise the
  result may lie past the limit: the loop compares with the next area only, not with the end of the limit.
\<close>

theorem find_free_area_least:
  assumes wf: "mset_wf areas" and k: "k < 64" and sz: "sz mod 2 ^ k = 0"
    and areas: "\<forall>e\<in>set areas. is_aligned (ma_end (snd e)) (2 ^ k)"
    and no: "uint (max hint (rstart limit)) + (2 ^ k - 1) < 2 ^ 64"
  shows "\<exists>r. find_free_area areas hint sz limit (2 ^ k) = Ok r \<and>
    least_address (free_candidate areas hint sz limit (2 ^ k)) r \<and>
    ((\<forall>e\<in>set areas. ma_start (snd e) \<le> rend limit) \<longrightarrow> least_address (suitable areas hint sz limit (2 ^ k)) r)"
proof -
  define low0 where low0: "low0 = align_up (max hint (rstart limit)) (2 ^ k)"
  define low where low: "low = (case bt_last (\<lambda>k. k < low0) areas of
      Some (_, x) \<Rightarrow> align_up (max low0 (ma_end x)) (2 ^ k) | None \<Rightarrow> low0)"
  define es where es: "es = bt_range (\<lambda>k. low \<le> k) areas"
  have l0: "is_aligned low0 (2 ^ k)" "max hint (rstart limit) \<le> low0"
    "\<And>b. max hint (rstart limit) \<le> b \<Longrightarrow> is_aligned b (2 ^ k) \<Longrightarrow> low0 \<le> b"
    using align_up_least [OF k no] low0 by simp_all
  have ends: "is_aligned (ma_end (snd e)) (2 ^ k)" if "e \<in> set areas" for e using areas that by blast
  note st = search_start [OF wf k l0(1) ends low]
  have key: "fst e = ma_start (snd e)" if "e \<in> set areas" for e
    using mset_wfD(5) [OF wf that] by (simp add: area_entry_def)
  have passed: "ma_end (snd e) \<le> low" if "e \<in> set areas" "fst e < low" for e
    using st(3) [of "fst e" "snd e"] that by simp
  have start: "low \<le> ma_start (snd e)" if "e \<in> set es" for e using that key [of e] by (simp add: es)
  have "least_address (gap_at es low sz (rend limit) (2 ^ k)) (free_loop es low sz (rend limit) (2 ^ k))"
    by (rule free_loop_least [OF mset_wf_range [OF wf, of "\<lambda>k. low \<le> k", folded es] k _ st(1) start])
      (use areas in \<open>auto simp: es\<close>)
  moreover have "gap_at es low sz (rend limit) (2 ^ k) = free_candidate areas hint sz limit (2 ^ k)" (is "?g = ?c")
  proof
    show "?g a = ?c a" for a
      unfolding es by (rule gap_at_candidate [OF l0(2) l0(3) st(2) passed st(4) key])
  qed
  moreover have "(2 :: addr) ^ k \<noteq> 0" using k by (simp add: exp_eq_zero_iff)
  then have "find_free_area areas hint sz limit (2 ^ k) = Ok (free_loop es low sz (rend limit) (2 ^ k))"
    unfolding find_free_area_def es low low0 Let_def by (simp only: sz if_False simp_thms)
  ultimately show ?thesis using free_candidate_suitable [of areas limit hint sz "2 ^ k"] by auto
qed

theorem find_free_area_least_witness:
  "mset_wf example_pages \<and> (12 :: nat) < 64 \<and> (8192 :: addr) mod 2 ^ 12 = 0 \<and>
   list_all (\<lambda>e. is_aligned (ma_end (snd e)) (2 ^ 12) \<and> ma_start (snd e) \<le> 65536) example_pages \<and>
   suitable example_pages 0 8192 \<lparr>rstart = 0, rend = 65536\<rparr> (2 ^ 12) 16384 \<and>
   free_candidate example_pages 0 4096 \<lparr>rstart = 0, rend = 2048\<rparr> (2 ^ 12) 0 \<and>
   \<not> suitable example_pages 0 4096 \<lparr>rstart = 0, rend = 2048\<rparr> (2 ^ 12) 0"
proof -
  have h: "\<forall>e\<in>set example_pages. is_aligned (ma_end (snd e)) (2 ^ 12)"
    and b: "\<forall>e\<in>set example_pages. ma_start (snd e) \<le> rend \<lparr>rstart = 0, rend = 65536\<rparr>"
    by (simp_all add: example_pages_def is_aligned_def align_offset_def)
  have "find_free_area example_pages 0 8192 \<lparr>rstart = 0, rend = 65536\<rparr> (2 ^ 12) = Ok (Some 16384)" by code_simp
  then have "suitable example_pages 0 8192 \<lparr>rstart = 0, rend = 65536\<rparr> (2 ^ 12) 16384"
    using find_free_area_least [OF example_pages_wf _ _ h, of 8192 0 "\<lparr>rstart = 0, rend = 65536\<rparr>"] b
    by (auto simp: least_address_def)
  moreover have "find_free_area example_pages 0 4096 \<lparr>rstart = 0, rend = 2048\<rparr> (2 ^ 12) = Ok (Some 0)" by code_simp
  then have "free_candidate example_pages 0 4096 \<lparr>rstart = 0, rend = 2048\<rparr> (2 ^ 12) 0"
    using find_free_area_least [OF example_pages_wf _ _ h, of 4096 0 "\<lparr>rstart = 0, rend = 2048\<rparr>"]
    by (auto simp: least_address_def)
  moreover have "\<not> suitable example_pages 0 4096 \<lparr>rstart = 0, rend = 2048\<rparr> (2 ^ 12) 0" by (simp add: suitable_def fits_below_iff)
  ultimately show ?thesis using h b example_pages_wf by (simp add: list_all_iff)
qed

text \<open>Two areas that end on multiples of a page but not of two megabytes.\<close>

definition skipped_areas :: "(nat, unit) areas" where
  "skipped_areas =
     [(0x100000, \<lparr>va_range = \<lparr>rstart = 0x100000, rend = 0x201000\<rparr>, ma_flags = 3, ma_backend = ()\<rparr>),
      (0x300000, \<lparr>va_range = \<lparr>rstart = 0x300000, rend = 0x500000\<rparr>, ma_flags = 3, ma_backend = ()\<rparr>)]"

lemma free_loop_first:
  "(\<And>e. e \<in> set es \<Longrightarrow> fits_below low sz (fst e)) \<Longrightarrow> fits_below low sz lim \<Longrightarrow> free_loop es low sz lim align = Some low"
  by (cases es rule: list.exhaust) (simp, metis fst_conv free_loop.simps(2) list.set_intros(1) surj_pair)

text \<open>
  C34: when areas do not end on multiples of the alignment, the search can return an address in use. Let \<open>low\<close> be the
  address it starts at: the hint, raised to the end of the last area \<open>x\<close> that starts below it, rounded up. If an area
  \<open>y\<close> starts below \<open>low\<close> and contains it, which is after \<open>x\<close> then, and the size fits between \<open>low\<close> and all areas
  that start from \<open>low\<close> on and the end of the limit, then \<open>low\<close> is returned and mapped: the loop begins with the areas
  that start at \<open>low\<close> or later and never looks at \<open>y\<close>.
\<close>

theorem find_free_area_occupied:
  assumes "mset_wf areas" and "align \<noteq> 0" and "sz mod align = 0"
    and "low0 = align_up (max hint (rstart limit)) align"
    and "bt_last (\<lambda>k. k < low0) areas = Some (q, x)" and "low = align_up (max low0 (ma_end x)) align"
    and "(ma_start y, y) \<in> set areas" and "ma_start y < low" and "low < ma_end y"
    and "\<forall>e\<in>set areas. low \<le> fst e \<longrightarrow> fits_below low sz (fst e)" and "fits_below low sz (rend limit)"
  shows "find_free_area areas hint sz limit align = Ok (Some low) \<and>
    page_of areas low = Some (ma_flags y, ma_backend y)"
proof -
  have "free_loop (bt_range (\<lambda>k. low \<le> k) areas) low sz (rend limit) align = Some low"
    by (rule free_loop_first) (use assms(10,11) in auto)
  then have "find_free_area areas hint sz limit align = Ok (Some low)"
    using assms(2-6) by (simp add: find_free_area_def Let_def)
  moreover have "maps_to (set areas) low (ma_flags y, ma_backend y)"
    using assms(7-9) by (force simp: maps_to_def covers_def intro: bexI [of _ "(ma_start y, y)"])
  ultimately show ?thesis using page_of_iff [OF assms(1)] by simp
qed

theorem find_free_area_occupied_witness:
  "mset_wf skipped_areas \<and>
   find_free_area skipped_areas 0x200000 0x200000 \<lparr>rstart = 0, rend = 0x40000000\<rparr> 0x200000 = Ok (Some 0x400000) \<and>
   page_of skipped_areas 0x400000 = Some (3, ())"
proof -
  have wf: "mset_wf skipped_areas"
    by (simp add: mset_wf_def skipped_areas_def area_entry_def areas_disjoint_def apart_def)
  let ?x = "\<lparr>va_range = \<lparr>rstart = 0x100000, rend = 0x201000\<rparr>, ma_flags = 3, ma_backend = ()\<rparr> :: (nat, unit) memory_area"
  let ?y = "\<lparr>va_range = \<lparr>rstart = 0x300000, rend = 0x500000\<rparr>, ma_flags = 3, ma_backend = ()\<rparr> :: (nat, unit) memory_area"
  have "0x200000 = align_up (max 0x200000 (rstart \<lparr>rstart = 0, rend = 0x40000000\<rparr>)) 0x200000" by code_simp
  moreover have "bt_last (\<lambda>k. k < 0x200000) skipped_areas = Some (0x100000, ?x)" by code_simp
  moreover have "0x400000 = align_up (max 0x200000 (ma_end ?x)) 0x200000" by code_simp
  moreover have "(ma_start ?y, ?y) \<in> set skipped_areas" by (simp add: skipped_areas_def)
  moreover have "\<forall>e\<in>set skipped_areas. 0x400000 \<le> fst e \<longrightarrow> fits_below 0x400000 0x200000 (fst e)"
    by (simp add: skipped_areas_def)
  moreover have "fits_below 0x400000 0x200000 (rend \<lparr>rstart = 0, rend = 0x40000000\<rparr>)" by code_simp
  ultimately show ?thesis
    using find_free_area_occupied [OF wf _ _ _ _ _ _ _ _ _ _, of "0x200000" "0x200000" "0x200000" "0x200000"
        "\<lparr>rstart = 0, rend = 0x40000000\<rparr>" "0x100000" ?x "0x400000" ?y] wf by simp
qed

end
