(* ===== verification/Memory_Set_Drain.thy ===== *)
theory Memory_Set_Drain
  imports Memory_Set_Refine
begin

text \<open>
  The teardown of an address space takes the first area out of the set, unmaps a bounded prefix of it and
  puts the rest back when the drain is dropped.
\<close>

section \<open>The loops\<close>

text \<open>
  \<open>AddrSpace::clear_unpublished\<close>: each round unmaps a prefix of at most the chunk size into a fresh list of frames to
  reclaim; a backend that fails ends the loop. The drain of an area is dropped at the end of its turn, also on failure.
\<close>

function drain_area ::
  "('f, 'b, 'pt, 'rc) mapping_backend \<Rightarrow> addr \<Rightarrow> 'rc \<Rightarrow> ('f, 'b) memory_area \<Rightarrow> ('pt, 'rc) mm \<Rightarrow>
   ('f, 'b) memory_area \<times> ('pt, 'rc) mm \<times> (mapping_error, unit) outcome" where
  "drain_area mb chunk_size for_retirement x w =
     (if range_is_empty (va_range x) then (x, w, Ok ())
      else case area_unmap_prefix mb chunk_size x (w\<lparr>reclaim := for_retirement\<rparr>) of
             (x', w', Ok _) \<Rightarrow> drain_area mb chunk_size for_retirement x' w'
           | (x', w', r) \<Rightarrow> (x', w', r))"
  by pat_completeness auto

lemma add_min_size:
  fixes s e c :: addr
  assumes "s < e" and "0 < c"
  shows "s < s + min (e - s) c" and "s + min (e - s) c \<le> e"
proof -
  have d: "uint (e - s) = uint e - uint s" using assms(1) by (simp add: uint_minus_simple_alt [THEN iffD1] word_less_def word_le_def)
  let ?m = "min (e - s) c"
  have m: "uint ?m \<le> uint e - uint s" "0 < uint ?m"
    using d assms by (auto simp: min_def word_le_def word_less_def)
  then have "uint (s + ?m) = uint s + uint ?m"
    using uint_lt2p [of e] by (simp add: uint_plus_if')
  then show "s < s + ?m" "s + ?m \<le> e" using m by (simp_all add: word_less_def word_le_def)
qed

lemma unmap_prefix_cases:
  assumes "area_unmap_prefix mb c x w = (x', w', r)" and "ma_start x < ma_end x"
  obtains "r = Ok ()" "0 < c" "x' = x\<lparr>va_range := (va_range x)\<lparr>rstart := ma_start x + min (ma_end x - ma_start x) c\<rparr>\<rparr>"
      "snd (snd (mb_unmap mb (ma_backend x) (ma_start x) (min (area_size x) c) (page_table w) (reclaim w)))"
  | "r = Err InvalidParam" "c = 0" "x' = x"
  | "r = Err BadState" "0 < c" "x' = x"
      "\<not> snd (snd (mb_unmap mb (ma_backend x) (ma_start x) (min (area_size x) c) (page_table w) (reclaim w)))"
proof (cases "c = 0")
  case True
  then show thesis using that(2) assms(1) by (simp add: area_unmap_prefix_def)
next
  case False
  obtain pt rc b where m: "mb_unmap mb (ma_backend x) (ma_start x) (min (area_size x) c) (page_table w) (reclaim w) = (pt, rc, b)"
    by (rule prod_cases3)
  have "x' = (if b then x\<lparr>va_range := (va_range x)\<lparr>rstart := ma_start x + min (area_size x) c\<rparr>\<rparr> else x)" "r = ok_or_bad_state b"
    using assms(1) leD [OF less_imp_le] assms(2) m False by (auto simp: area_unmap_prefix_def range_is_empty_def Let_def split: if_splits)
  then show thesis using that(1,3) m False
    by (cases b) (auto simp: ok_or_bad_state_def area_size_def range_size_def word_greater_zero_iff)
qed

lemma prefix_shrinks:
  assumes ne: "\<not> range_is_empty (va_range x)" and a: "area_unmap_prefix mb c x w = (x', w', Ok u)"
  shows "unat (ma_end x' - ma_start x') < unat (ma_end x - ma_start x)"
proof -
  have x: "ma_start x < ma_end x" using ne by (simp add: range_is_empty_def)
  show ?thesis
  proof (rule unmap_prefix_cases [OF a x])
    let ?s = "ma_start x + min (ma_end x - ma_start x) c"
    assume "0 < c" and x': "x' = x\<lparr>va_range := (va_range x)\<lparr>rstart := ?s\<rparr>\<rparr>"
    note l = add_min_size [OF x \<open>0 < c\<close>]
    have "ma_end x - ?s < ma_end x - ma_start x"
      using l x by (simp add: word_less_def word_le_def uint_minus_simple_alt [THEN iffD1])
    then show ?thesis by (simp add: x' word_less_nat_alt)
  qed simp_all
qed

termination drain_area
proof (relation "measure (\<lambda>(mb, c, f, x, w). unat (ma_end x - ma_start x))", goal_cases)
  case (2 mb c f x w x' q w' r u)
  then show ?case using prefix_shrinks [of x mb c "w\<lparr>reclaim := f\<rparr>" x' w' u] by simp
qed simp

declare drain_area.simps [simp del]

definition never_fails :: "('f, 'b, 'pt, 'rc) mapping_backend \<Rightarrow> bool" where
  "never_fails mb \<longleftrightarrow> (\<forall>b s n pt rc. snd (snd (mb_unmap mb b s n pt rc)))"

lemma drain_area_spec:
  assumes "drain_area mb c f x w = (x', w', r)" and "0 < c" and "ma_start x \<le> ma_end x"
  shows "ma_start x \<le> ma_start x' \<and> ma_start x' \<le> ma_end x' \<and> ma_end x' = ma_end x \<and> ma_flags x' = ma_flags x \<and>
    ma_backend x' = ma_backend x \<and> (r = Ok () \<and> ma_start x' = ma_end x' \<or>
      r = Err BadState \<and> \<not> never_fails mb)"
  using assms
proof (induction mb c f x w rule: drain_area.induct)
  case (1 mb c f x w)
  show ?case
  proof (cases "range_is_empty (va_range x)")
    case True
    then show ?thesis using 1(2,4) by (simp add: drain_area.simps range_is_empty_def)
  next
    case False
    then have x: "ma_start x < ma_end x" by (simp add: range_is_empty_def)
    obtain x1 w1 r1 where a: "area_unmap_prefix mb c x (w\<lparr>reclaim := f\<rparr>) = (x1, w1, r1)" by (rule prod_cases3)
    show ?thesis
    proof (rule unmap_prefix_cases [OF a x])
      assume r1: "r1 = Ok ()" and x1: "x1 = x\<lparr>va_range := (va_range x)\<lparr>rstart := ma_start x + min (ma_end x - ma_start x) c\<rparr>\<rparr>"
      have d: "drain_area mb c f x1 w1 = (x', w', r)" using 1(2) False a r1 by (simp add: drain_area.simps [of mb c f x])
      note l = add_min_size [OF x 1(3)]
      have "ma_start x1 \<le> ma_end x1" using l(2) by (simp add: x1)
      note ih = 1(1) [OF False a [symmetric] refl _ d 1(3) this]
      have "ma_start x1 \<le> ma_start x'" using ih r1 by simp
      then have "ma_start x \<le> ma_start x'" using less_le_trans [OF l(1), of "ma_start x'"] by (simp add: x1)
      moreover have "ma_end x1 = ma_end x" "ma_flags x1 = ma_flags x" "ma_backend x1 = ma_backend x" by (simp_all add: x1)
      ultimately show ?thesis using ih [OF r1] by metis
    next
      assume "r1 = Err BadState" "x1 = x"
        and "\<not> snd (snd (mb_unmap mb (ma_backend x) (ma_start x) (min (area_size x) c) (page_table (w\<lparr>reclaim := f\<rparr>)) (reclaim (w\<lparr>reclaim := f\<rparr>))))"
      moreover from this have "x' = x" "r = Err BadState" using 1(2) False a by (simp_all add: drain_area.simps [of mb c f x])
      moreover have "\<not> never_fails mb" using calculation(3) unfolding never_fails_def by blast
      ultimately show ?thesis using x by simp
    qed (use 1(3) in simp)
  qed
qed

function clear_unpublished ::
  "('f, 'b, 'pt, 'rc) mapping_backend \<Rightarrow> addr \<Rightarrow> 'rc \<Rightarrow> ('f, 'b) areas \<Rightarrow> ('pt, 'rc) mm \<Rightarrow>
   (mapping_error, ('f, 'b) areas) outcome \<times> ('pt, 'rc) mm" where
  "clear_unpublished mb chunk_size for_retirement areas w =
     (case drain_first_area areas of
        None \<Rightarrow> (Ok areas, w)
      | Some (rest, x) \<Rightarrow>
          (case drain_area mb chunk_size for_retirement x w of
             (x', w', Ok _) \<Rightarrow>
               (case drain_drop rest x' of
                  Ok areas' \<Rightarrow> clear_unpublished mb chunk_size for_retirement areas' w'
                | r \<Rightarrow> (r, w'))
           | (x', w', _) \<Rightarrow> (drain_drop rest x', w')))"
  by pat_completeness auto

lemma drain_area_Ok: "drain_area mb c f x w = (x', w', Ok u) \<Longrightarrow> range_is_empty (va_range x')"
proof (induction mb c f x w rule: drain_area.induct)
  case (1 mb c f x w)
  show ?case
  proof (cases "range_is_empty (va_range x)")
    case False
    obtain x1 w1 r1 where a: "area_unmap_prefix mb c x (w\<lparr>reclaim := f\<rparr>) = (x1, w1, r1)" by (rule prod_cases3)
    then show ?thesis using 1(1) [OF False a [symmetric] refl] 1(2) False
      by (cases r1) (simp_all add: drain_area.simps [of mb c f x])
  qed (use 1(2) in \<open>simp add: drain_area.simps\<close>)
qed

termination clear_unpublished
proof (relation "measure (\<lambda>(mb, c, f, areas, w). length areas)", goal_cases)
  case (2 mb c f areas w p rest x x' s w' r u areas')
  then have "areas' = rest" using drain_area_Ok [of mb c f x w x' w' u] by (simp add: drain_drop_def)
  then show ?case using 2 by (auto simp: drain_first_area_def split: list.splits)
qed simp

declare clear_unpublished.simps [simp del]

section \<open>Correctness\<close>

lemma first_area_rest:
  assumes wf: "mset_wf ((k, x) # rest)"
  shows "mset_wf rest" and "k = ma_start x" and "ma_start x < ma_end x" and "\<And>e. e \<in> set rest \<Longrightarrow> ma_end x \<le> ma_start (snd e)"
    and "page_of ((k, x) # rest) a = (if covers x a then Some (ma_flags x, ma_backend x) else page_of rest a)"
proof -
  show w: "mset_wf rest" using wf by (auto simp: mset_wf_def areas_disjoint_def)
  show "k = ma_start x" "ma_start x < ma_end x" using mset_wfD(2) [OF wf, of k x] by auto
  show "ma_end x \<le> ma_start (snd e)" if "e \<in> set rest" for e
  proof -
    obtain k' y where e: "e = (k', y)" by (cases e)
    have "k < k'" using wf that e by (auto simp: mset_wf_def)
    then have "ma_end x \<le> k'" using mset_wfD(3) [OF wf, of k x k' y] that e by simp
    then show ?thesis using mset_wfD(2) [OF w, of k' y] that e by simp
  qed
  show "page_of ((k, x) # rest) a = (if covers x a then Some (ma_flags x, ma_backend x) else page_of rest a)"
    by (simp add: page_of_def)
qed

lemma drain_drop_part:
  assumes wf: "mset_wf ((k, x) # rest)" and p: "ma_start x \<le> ma_start y" "ma_end y = ma_end x" "ma_start y \<le> ma_end y"
    and f: "ma_flags y = ma_flags x" "ma_backend y = ma_backend x"
  shows "\<exists>areas'. drain_drop rest y = Ok areas' \<and> mset_wf areas' \<and>
    (\<forall>a. page_of areas' a = (if covers x a \<and> a < ma_start y then None else page_of ((k, x) # rest) a))"
proof -
  note r = first_area_rest [OF wf]
  have none: "page_of rest a = None" if "covers x a" for a
    by (rule page_of_NoneI [OF r(1)]) (use that r(4) in \<open>fastforce simp: covers_def\<close>)
  show ?thesis
  proof (cases "ma_start y < ma_end y")
    case True
    have cl: "clear_of (ma_start y) (ma_end y) rest" using r(4) p by (fastforce simp: clear_of_def)
    note i = insert_area [OF r(1) True cl]
    have "drain_drop rest y = Ok (bt_insert (ma_start y) y rest)"
      using linorder_not_le [THEN iffD2, OF True] i(1) by (simp add: drain_drop_def range_is_empty_def)
    moreover have "covers y a \<longleftrightarrow> covers x a \<and> \<not> a < ma_start y" for a using p by (auto simp: covers_def)
    ultimately show ?thesis using i(2,3) r(5) f none by (auto intro!: exI [of _ "bt_insert (ma_start y) y rest"])
  next
    case False
    then have "drain_drop rest y = Ok rest" by (simp add: drain_drop_def range_is_empty_def linorder_not_less)
    moreover have "a < ma_start y" if "covers x a" for a using that False p by (auto simp: covers_def)
    ultimately show ?thesis using r(1,5) none by auto
  qed
qed

lemma clear_unpublished_Cons:
  assumes wf: "mset_wf ((k, x) # rest)" and c: "0 < c"
  obtains w' where "clear_unpublished mb c f ((k, x) # rest) w = clear_unpublished mb c f rest w'"
  | areas' w' bound where "clear_unpublished mb c f ((k, x) # rest) w = (Ok areas', w')" "mset_wf areas'"
      "\<And>a. page_of areas' a = (if a < bound then None else page_of ((k, x) # rest) a)"
      "\<not> never_fails mb"
proof -
  note r = first_area_rest [OF wf]
  obtain x' w' r' where d: "drain_area mb c f x w = (x', w', r')" by (rule prod_cases3)
  note sp = drain_area_spec [OF d c less_imp_le [OF r(3)]]
  show thesis
  proof (cases "r' = Ok ()")
    case True
    then have "clear_unpublished mb c f ((k, x) # rest) w = clear_unpublished mb c f rest w'"
      using d drain_area_Ok [of mb c f x w x' w' "()"]
      by (simp add: clear_unpublished.simps [of mb c f "(k, x) # rest"] drain_first_area_def drain_drop_def)
    then show thesis by (rule that(1))
  next
    case False
    then have r': "r' = Err BadState" and no: "\<not> never_fails mb" using sp by blast+
    obtain areas' where a: "drain_drop rest x' = Ok areas'" "mset_wf areas'"
      "\<And>a. page_of areas' a = (if covers x a \<and> a < ma_start x' then None else page_of ((k, x) # rest) a)"
      using drain_drop_part [OF wf, of x'] sp by blast
    have "page_of ((k, x) # rest) a = None" if "a < ma_start x'" "\<not> covers x a" for a
    proof -
      have "a < ma_start x" using that sp by (auto simp: covers_def)
      then show ?thesis
        by (intro page_of_NoneI [OF wf]) (use r(3,4) in \<open>fastforce simp: covers_def\<close>)
    qed
    then have "page_of areas' a = (if a < ma_start x' then None else page_of ((k, x) # rest) a)" for a
      using a(3) by auto
    moreover have "clear_unpublished mb c f ((k, x) # rest) w = (Ok areas', w')"
      using d r' a(1) by (simp add: clear_unpublished.simps [of mb c f "(k, x) # rest"] drain_first_area_def)
    ultimately show thesis using that(2) [of areas' w' "ma_start x'"] a(2) no by simp
  qed
qed

text \<open>
  C14: \<open>AddrSpace::clear_unpublished\<close> on a well-formed set with a positive chunk size ends for every backend, without
  a failed assertion. It removes the addresses from below: for some bound, every address below it is unmapped and
  every other one keeps its flags and backend, in a well-formed set. When the backend never fails, no area is left.
\<close>

theorem clear_unpublished_prefix:
  assumes wf: "mset_wf areas" and c: "0 < chunk_size"
  shows "\<exists>areas' w' bound. clear_unpublished mb chunk_size for_retirement areas w = (Ok areas', w') \<and> mset_wf areas' \<and>
    (\<forall>a. page_of areas' a = (if a < bound then None else page_of areas a)) \<and>
    (never_fails mb \<longrightarrow> areas' = [])"
  using wf
proof (induction areas arbitrary: w)
  case Nil
  then show ?case by (auto simp: clear_unpublished.simps drain_first_area_def page_of_def)
next
  case (Cons e rest)
  obtain k x where e: "e = (k, x)" by (cases e)
  note wf = Cons.prems [unfolded e]
  note r = first_area_rest [OF wf]
  show ?case
  proof (rule clear_unpublished_Cons [OF wf c, of mb for_retirement w])
    fix w1
    assume eq: "clear_unpublished mb chunk_size for_retirement ((k, x) # rest) w = clear_unpublished mb chunk_size for_retirement rest w1"
    obtain areas' w' b where ih: "clear_unpublished mb chunk_size for_retirement rest w1 = (Ok areas', w')" "mset_wf areas'"
      "\<And>a. page_of areas' a = (if a < b then None else page_of rest a)"
      "never_fails mb \<longrightarrow> areas' = []" using Cons.IH [OF r(1), of w1] by blast
    have "page_of rest a = None" if "a < ma_end x" for a
      by (rule page_of_NoneI [OF r(1)]) (use that r(4) in \<open>fastforce simp: covers_def\<close>)
    then have "page_of areas' a = (if a < max b (ma_end x) then None else page_of ((k, x) # rest) a)" for a
      using ih(3) r(5) by (auto simp: covers_def less_max_iff_disj)
    then show ?thesis
      by (intro exI [of _ areas'] exI [of _ w'] exI [of _ "max b (ma_end x)"] conjI allI) (use ih eq e in simp_all)
  next
    fix areas' w' bound
    assume "clear_unpublished mb chunk_size for_retirement ((k, x) # rest) w = (Ok areas', w')" "mset_wf areas'"
      "\<And>a. page_of areas' a = (if a < bound then None else page_of ((k, x) # rest) a)"
      "\<not> never_fails mb"
    then show ?thesis
      by (intro exI [of _ areas'] exI [of _ w'] exI [of _ bound] conjI allI) (use e in simp_all)
  qed
qed

theorem clear_unpublished_prefix_witness:
  "mset_wf example_pages \<and> (0 :: addr) < 8192 \<and> never_fails example_backend \<and>
   fst (clear_unpublished example_backend 8192 () example_pages example_mm) = Ok []"
proof -
  have n: "never_fails example_backend" by (simp add: never_fails_def example_backend_def)
  have "(0 :: addr) < 8192" by simp
  from clear_unpublished_prefix [OF example_pages_wf this, of example_backend "()" example_mm]
  show ?thesis using n example_pages_wf by auto
qed

end
