(* ===== verification/Eevdf.thy ===== *)
theory Eevdf
  imports Prelude "HOL-Library.Multiset" "HOL-Library.Product_Lexorder"
begin

text \<open>
  The earliest-eligible-virtual-deadline-first scheduler (\<^verbatim>\<open>crates/eevdf-scheduler/src/eevdf.rs\<close>). A task is
  known by its number; the atomic fields of the tasks are a store that the scheduler's operations change.
  The intrusive trees and lists come from other crates and are parameters, as is the base slice.
  Unsigned integers are natural numbers with the saturation of the code written out, and so are the
  signed ones as integers.
\<close>

section \<open>Constants and arithmetic\<close>

abbreviation (input) NICE_0_WEIGHT :: nat where "NICE_0_WEIGHT \<equiv> 1024"
abbreviation (input) RT_TIME_SLICE_NS :: nat where "RT_TIME_SLICE_NS \<equiv> 50000000"
abbreviation (input) u128_max :: nat where "u128_max \<equiv> 2 ^ 128 - 1"
abbreviation (input) i64_max :: int where "i64_max \<equiv> 2 ^ 63 - 1"
abbreviation (input) i64_min :: int where "i64_min \<equiv> - (2 ^ 63)"

definition NICE_TO_WEIGHT :: "nat list" where
  "NICE_TO_WEIGHT =
     [88761, 71755, 56483, 46273, 36291, 29154, 23254, 18705, 14949, 11916, 9548, 7620, 6100, 4904,
      3906, 3121, 2501, 1991, 1586, 1277, 1024, 820, 655, 526, 423, 335, 272, 215, 172, 137, 110, 87,
      70, 56, 45, 36, 29, 23, 18, 15]"

definition saturating_add_u128 :: "nat \<Rightarrow> nat \<Rightarrow> nat" where
  "saturating_add_u128 a b = min (a + b) u128_max"

definition saturating_mul_u128 :: "nat \<Rightarrow> nat \<Rightarrow> nat" where
  "saturating_mul_u128 a b = min (a * b) u128_max"

definition saturating_i64 :: "int \<Rightarrow> int" where
  "saturating_i64 x = max i64_min (min x i64_max)"

definition clamp_int :: "int \<Rightarrow> int \<Rightarrow> int \<Rightarrow> int" where
  "clamp_int x lo hi = max lo (min x hi)"

definition normal_virtual_slices :: "nat \<Rightarrow> nat list" where
  "normal_virtual_slices base_slice_ns =
     map (\<lambda>w. let slice = min (base_slice_ns * NICE_0_WEIGHT div w) usize_max in if slice = 0 then 1 else slice) NICE_TO_WEIGHT"

definition is_rt_priority :: "int \<Rightarrow> bool" where
  "is_rt_priority p \<longleftrightarrow> 1 \<le> p \<and> p \<le> 99"

definition valid_priority :: "int \<Rightarrow> bool" where
  "valid_priority p \<longleftrightarrow> is_rt_priority p \<or> - 120 \<le> p \<and> p \<le> - 81"

definition weight_for_priority :: "int \<Rightarrow> nat" where
  "weight_for_priority p = (if - 120 \<le> p \<and> p \<le> - 81 then NICE_TO_WEIGHT ! nat (p + 120) else NICE_0_WEIGHT)"

definition calc_delta_fair :: "nat \<Rightarrow> nat \<Rightarrow> nat" where
  "calc_delta_fair delta_exec weight = min (delta_exec * NICE_0_WEIGHT div max weight 1) usize_max"

definition ceil_div_u128 :: "nat \<Rightarrow> nat \<Rightarrow> nat" where
  "ceil_div_u128 v divisor = v div divisor + (if v mod divisor = 0 then 0 else 1)"

definition signed_difference :: "nat \<Rightarrow> nat \<Rightarrow> int" where
  "signed_difference lhs rhs =
     (if lhs \<ge> rhs then min (int (lhs - rhs)) i64_max else - min (int (rhs - lhs)) i64_max)"

definition apply_lag :: "nat \<Rightarrow> int \<Rightarrow> nat" where
  "apply_lag vt lag = (if lag \<ge> 0 then vt - nat lag else saturating_add vt (nat (- lag)))"

section \<open>Tasks\<close>

datatype enqueue_reason = Spawn | Wake | Yield | Preempt | Migration

datatype rt_policy = Fifo | RoundRobin

record eevdf_task =
  priority :: int
  vruntime :: nat
  virtual_deadline :: nat
  exec_start :: nat
  is_running :: bool
  saved_vlag :: int
  lag_vtime :: nat
  has_saved_lag :: bool
  queue_id :: nat
  policy :: rt_policy
  rt_remaining :: nat

definition task_new :: eevdf_task where
  "task_new = \<lparr>priority = - 100, vruntime = 0, virtual_deadline = 0, exec_start = 0, is_running = False, saved_vlag = 0,
     lag_vtime = 0, has_saved_lag = False, queue_id = 0, policy = RoundRobin, rt_remaining = RT_TIME_SLICE_NS\<rparr>"

definition task_set_priority :: "int \<Rightarrow> eevdf_task \<Rightarrow> eevdf_task \<times> bool" where
  "task_set_priority p t = (if \<not> valid_priority p then (t, False) else (t\<lparr>priority := p\<rparr>, True))"

definition is_rt :: "eevdf_task \<Rightarrow> bool" where
  "is_rt t \<longleftrightarrow> 1 \<le> priority t \<and> priority t \<le> 99"

definition is_round_robin :: "eevdf_task \<Rightarrow> bool" where
  "is_round_robin t \<longleftrightarrow> policy t = RoundRobin"

definition nice :: "eevdf_task \<Rightarrow> int option" where
  "nice t = (if - 120 \<le> priority t \<and> priority t \<le> - 81 then Some (priority t + 100) else None)"

definition weight :: "eevdf_task \<Rightarrow> nat" where
  "weight t = (case nice t of Some n \<Rightarrow> NICE_TO_WEIGHT ! nat (n + 20) | None \<Rightarrow> NICE_0_WEIGHT)"

definition start_running :: "nat \<Rightarrow> eevdf_task \<Rightarrow> eevdf_task" where
  "start_running now_ns t = t\<lparr>exec_start := now_ns, is_running := True\<rparr>"

definition reset_rt_slice :: "eevdf_task \<Rightarrow> eevdf_task" where
  "reset_rt_slice t = t\<lparr>rt_remaining := RT_TIME_SLICE_NS\<rparr>"

definition set_rt_policy :: "rt_policy \<Rightarrow> eevdf_task \<Rightarrow> eevdf_task" where
  "set_rt_policy p t = (let t = t\<lparr>policy := p\<rparr> in if p = RoundRobin then reset_rt_slice t else t)"

definition account_runtime :: "nat \<Rightarrow> bool \<Rightarrow> eevdf_task \<Rightarrow> eevdf_task" where
  "account_runtime now_ns keep_running t =
     (if \<not> is_running t then t
      else let delta_exec = now_ns - exec_start t;
               t = t\<lparr>exec_start := now_ns\<rparr>;
               t = (if \<not> keep_running then t\<lparr>is_running := False\<rparr> else t)
           in if is_rt_priority (priority t)
              then if is_round_robin t then t\<lparr>rt_remaining := rt_remaining t - delta_exec\<rparr> else t
              else t\<lparr>vruntime := saturating_add (vruntime t) (calc_delta_fair delta_exec (weight_for_priority (priority t)))\<rparr>)"

definition unaccounted_runtime :: "nat \<Rightarrow> eevdf_task \<Rightarrow> nat" where
  "unaccounted_runtime now_ns t = (if is_running t then now_ns - exec_start t else 0)"

definition eligible_key :: "eevdf_task \<Rightarrow> nat \<times> nat" where
  "eligible_key t = (virtual_deadline t, queue_id t)"

definition ineligible_key :: "eevdf_task \<Rightarrow> nat \<times> nat \<times> nat" where
  "ineligible_key t = (vruntime t, virtual_deadline t, queue_id t)"

section \<open>Containers\<close>

text \<open>
  \<open>RBTree\<close> of \<^verbatim>\<open>intrusive_collections\<close>, with the key of the adapter as an argument, and \<open>List\<close> of \<^verbatim>\<open>linked_list_r4l\<close>.
  The elements of a container are seen through its iterator; a task is linked when it is one of them.
\<close>

record ('k, 'tr) rbtree =
  rb_new :: 'tr
  rb_insert :: "(nat \<Rightarrow> 'k) \<Rightarrow> nat \<Rightarrow> 'tr \<Rightarrow> 'tr"
  rb_remove :: "nat \<Rightarrow> 'tr \<Rightarrow> 'tr"
  rb_iter :: "'tr \<Rightarrow> nat list"

record 'li linked_list =
  ll_new :: 'li
  ll_push_front :: "nat \<Rightarrow> 'li \<Rightarrow> 'li"
  ll_push_back :: "nat \<Rightarrow> 'li \<Rightarrow> 'li"
  ll_pop_front :: "'li \<Rightarrow> 'li \<times> nat option"
  ll_remove :: "nat \<Rightarrow> 'li \<Rightarrow> 'li \<times> bool"
  ll_iter :: "'li \<Rightarrow> nat list"

record ('te, 'ti, 'li) sched_lib =
  eligible_tree :: "(nat \<times> nat, 'te) rbtree"
  ineligible_tree :: "(nat \<times> nat \<times> nat, 'ti) rbtree"
  rt_list :: "'li linked_list"
  base_slice :: nat

definition head_of :: "'a list \<Rightarrow> 'a option" where
  "head_of xs = (case xs of [] \<Rightarrow> None | x # _ \<Rightarrow> Some x)"

section \<open>The scheduler\<close>

record preemption_cache =
  has_preemption :: bool
  preemption_current_deadline :: nat
  preemption_vruntime :: "nat option"

definition cache_covers :: "preemption_cache \<Rightarrow> nat \<Rightarrow> bool" where
  "cache_covers c vt \<longleftrightarrow>
     has_preemption c \<or> (case preemption_vruntime c of None \<Rightarrow> True | Some threshold \<Rightarrow> vt < threshold)"

record ('te, 'ti, 'li) eevdf =
  rt_queues :: "'li list"
  rt_bitmap :: "128 word"
  normal_eligible :: 'te
  normal_ineligible :: 'ti
  deadline_lower_bound :: "nat option"
  normal_task_count :: nat
  normal_total_weight :: nat
  normal_weighted_vruntime :: nat
  normal_preemption_cache :: "preemption_cache option"
  current :: "nat option"
  virtual_time :: nat
  sequence_no :: nat
  clock_ns :: nat
  tasks :: "nat \<Rightarrow> eevdf_task"

definition upd_task :: "nat \<Rightarrow> (eevdf_task \<Rightarrow> eevdf_task) \<Rightarrow> ('te, 'ti, 'li) eevdf \<Rightarrow> ('te, 'ti, 'li) eevdf" where
  "upd_task t f s = s\<lparr>tasks := (tasks s)(t := f (tasks s t))\<rparr>"

definition eevdf_new :: "('te, 'ti, 'li) sched_lib \<Rightarrow> (nat \<Rightarrow> eevdf_task) \<Rightarrow> (errno, ('te, 'ti, 'li) eevdf) outcome" where
  "eevdf_new L ts =
     (if \<not> base_slice L > 0 then Panic
      else Ok \<lparr>rt_queues = replicate 99 (ll_new (rt_list L)), rt_bitmap = 0, normal_eligible = rb_new (eligible_tree L),
        normal_ineligible = rb_new (ineligible_tree L), deadline_lower_bound = None, normal_task_count = 0,
        normal_total_weight = 0, normal_weighted_vruntime = 0, normal_preemption_cache = None, current = None,
        virtual_time = 0, sequence_no = 0, clock_ns = 0, tasks = ts\<rparr>)"

definition advance_clock :: "nat \<Rightarrow> ('te, 'ti, 'li) eevdf \<Rightarrow> ('te, 'ti, 'li) eevdf" where
  "advance_clock now_ns s = s\<lparr>clock_ns := max (clock_ns s) now_ns\<rparr>"

text \<open>The loop of \<open>next_sequence\<close> turns at most twice.\<close>

definition next_sequence :: "('te, 'ti, 'li) eevdf \<Rightarrow> ('te, 'ti, 'li) eevdf" where
  "next_sequence s =
     (let q = (sequence_no s + 1) mod 2 ^ 64
      in s\<lparr>sequence_no := if q \<noteq> 0 then q else (q + 1) mod 2 ^ 64\<rparr>)"

definition virtual_slice :: "('te, 'ti, 'li) sched_lib \<Rightarrow> eevdf_task \<Rightarrow> nat" where
  "virtual_slice L t =
     (if - 120 \<le> priority t \<and> priority t \<le> - 81 then normal_virtual_slices (base_slice L) ! nat (priority t + 120)
      else max (base_slice L) 1)"

definition lag_limit :: "('te, 'ti, 'li) sched_lib \<Rightarrow> eevdf_task \<Rightarrow> int" where
  "lag_limit L t = min (int (saturating_mul (virtual_slice L t) 2)) i64_max"

text \<open>The weight and the weighted virtual runtime of the queued tasks and an ordinary current task.\<close>

definition fair_sums :: "('te, 'ti, 'li) eevdf \<Rightarrow> nat \<times> nat" where
  "fair_sums s =
     (case current s of
        Some c \<Rightarrow>
          if is_rt (tasks s c) then (normal_total_weight s, normal_weighted_vruntime s)
          else (saturating_add_u128 (normal_total_weight s) (weight (tasks s c)),
                saturating_add_u128 (normal_weighted_vruntime s)
                  (saturating_mul_u128 (vruntime (tasks s c)) (weight (tasks s c))))
      | None \<Rightarrow> (normal_total_weight s, normal_weighted_vruntime s))"

definition update_virtual_time :: "('te, 'ti, 'li) eevdf \<Rightarrow> ('te, 'ti, 'li) eevdf" where
  "update_virtual_time s =
     (let (total_weight, weighted_vruntime) = fair_sums s
      in if total_weight = 0 then s
         else s\<lparr>virtual_time := max (virtual_time s) (min (weighted_vruntime div total_weight) usize_max)\<rparr>)"

definition save_lag :: "('te, 'ti, 'li) sched_lib \<Rightarrow> nat \<Rightarrow> eevdf_task \<Rightarrow> eevdf_task" where
  "save_lag L vt t =
     (if is_rt t then t
      else t\<lparr>saved_vlag := clamp_int (signed_difference vt (vruntime t)) (- lag_limit L t) (lag_limit L t),
             lag_vtime := vt, has_saved_lag := True\<rparr>)"

definition place_lag :: "('te, 'ti, 'li) sched_lib \<Rightarrow> enqueue_reason \<Rightarrow> nat \<Rightarrow> eevdf_task \<Rightarrow> int" where
  "place_lag L reason vt t =
     (let lag = (if (reason = Wake \<or> reason = Migration) \<and> has_saved_lag t then saved_vlag t else 0);
          lag = (if reason = Wake
                 then let decay = min (int (vt - lag_vtime t)) i64_max
                      in if lag > 0 then max (saturating_i64 (lag - decay)) 0 else min (saturating_i64 (lag + decay)) 0
                 else lag)
      in clamp_int lag (- lag_limit L t) (lag_limit L t))"

definition place_task :: "('te, 'ti, 'li) sched_lib \<Rightarrow> nat \<Rightarrow> enqueue_reason \<Rightarrow> ('te, 'ti, 'li) eevdf \<Rightarrow> ('te, 'ti, 'li) eevdf" where
  "place_task L t reason s =
     (let s = update_virtual_time s;
          lag = place_lag L reason (virtual_time s) (tasks s t);
          s = (if reason = Wake \<or> reason = Migration then upd_task t (\<lambda>k. k\<lparr>has_saved_lag := False\<rparr>) s else s);
          vr = apply_lag (virtual_time s) lag
      in upd_task t (\<lambda>k. k\<lparr>vruntime := vr, virtual_deadline := saturating_add vr (virtual_slice L k)\<rparr>) s)"

definition refresh_deadline :: "('te, 'ti, 'li) sched_lib \<Rightarrow> bool \<Rightarrow> eevdf_task \<Rightarrow> eevdf_task" where
  "refresh_deadline L force t =
     (if force \<or> virtual_deadline t = 0 \<or> vruntime t \<ge> virtual_deadline t
      then t\<lparr>virtual_deadline := saturating_add (vruntime t) (virtual_slice L t)\<rparr> else t)"

section \<open>The queue of ordinary tasks\<close>

definition note_normal_ineligible_remove :: "('te, 'ti, 'li) sched_lib \<Rightarrow> ('te, 'ti, 'li) eevdf \<Rightarrow> ('te, 'ti, 'li) eevdf" where
  "note_normal_ineligible_remove L s =
     (if rb_iter (ineligible_tree L) (normal_ineligible s) = [] then s\<lparr>deadline_lower_bound := None\<rparr> else s)"

text \<open>
  The loop of \<open>promote_normal_eligible\<close>: each turn takes the first ineligible task, so as many turns as there are
  tasks are enough.
\<close>

fun promote_loop ::
  "('te, 'ti, 'li) sched_lib \<Rightarrow> nat \<Rightarrow> nat \<Rightarrow> bool \<Rightarrow> ('te, 'ti, 'li) eevdf \<Rightarrow> ('te, 'ti, 'li) eevdf \<times> bool" where
  "promote_loop L 0 vt promoted s = (s, promoted)"
| "promote_loop L (Suc n) vt promoted s =
     (case head_of (rb_iter (ineligible_tree L) (normal_ineligible s)) of
        Some t \<Rightarrow>
          if vruntime (tasks s t) \<le> vt
          then promote_loop L n vt True
                 (s\<lparr>normal_ineligible := rb_remove (ineligible_tree L) t (normal_ineligible s),
                    normal_eligible := rb_insert (eligible_tree L) (\<lambda>t. eligible_key (tasks s t)) t (normal_eligible s)\<rparr>)
          else (s, promoted)
      | None \<Rightarrow> (s, promoted))"

definition promote_normal_eligible ::
  "('te, 'ti, 'li) sched_lib \<Rightarrow> nat \<Rightarrow> ('te, 'ti, 'li) eevdf \<Rightarrow> ('te, 'ti, 'li) eevdf" where
  "promote_normal_eligible L vt s =
     (let (s, promoted) = promote_loop L (length (rb_iter (ineligible_tree L) (normal_ineligible s))) vt False s
      in if promoted then note_normal_ineligible_remove L s else s)"

definition normal_eligible_deadline :: "('te, 'ti, 'li) sched_lib \<Rightarrow> ('te, 'ti, 'li) eevdf \<Rightarrow> nat option" where
  "normal_eligible_deadline L s =
     map_option (\<lambda>t. virtual_deadline (tasks s t)) (head_of (rb_iter (eligible_tree L) (normal_eligible s)))"

definition insert_normal_ineligible :: "('te, 'ti, 'li) sched_lib \<Rightarrow> nat \<Rightarrow> ('te, 'ti, 'li) eevdf \<Rightarrow> ('te, 'ti, 'li) eevdf" where
  "insert_normal_ineligible L t s =
     (let d = virtual_deadline (tasks s t)
      in s\<lparr>deadline_lower_bound := Some (case deadline_lower_bound s of None \<Rightarrow> d | Some lower_bound \<Rightarrow> min lower_bound d),
           normal_ineligible := rb_insert (ineligible_tree L) (\<lambda>t. ineligible_key (tasks s t)) t (normal_ineligible s)\<rparr>)"

definition account_normal_insert :: "nat \<Rightarrow> ('te, 'ti, 'li) eevdf \<Rightarrow> ('te, 'ti, 'li) eevdf" where
  "account_normal_insert t s =
     (let w = weight (tasks s t)
      in s\<lparr>normal_total_weight := saturating_add_u128 (normal_total_weight s) w,
           normal_weighted_vruntime :=
             saturating_add_u128 (normal_weighted_vruntime s) (saturating_mul_u128 (vruntime (tasks s t)) w)\<rparr>)"

definition account_normal_remove :: "nat \<Rightarrow> ('te, 'ti, 'li) eevdf \<Rightarrow> ('te, 'ti, 'li) eevdf" where
  "account_normal_remove t s =
     (let w = weight (tasks s t)
      in s\<lparr>normal_total_weight := normal_total_weight s - w,
           normal_weighted_vruntime := normal_weighted_vruntime s - saturating_mul_u128 (vruntime (tasks s t)) w\<rparr>)"

definition insert_normal :: "('te, 'ti, 'li) sched_lib \<Rightarrow> nat \<Rightarrow> ('te, 'ti, 'li) eevdf \<Rightarrow> ('te, 'ti, 'li) eevdf" where
  "insert_normal L t s =
     (let s = update_virtual_time s;
          vt = virtual_time s;
          s = promote_normal_eligible L vt s;
          s = next_sequence s;
          s = upd_task t (\<lambda>k. k\<lparr>queue_id := sequence_no s\<rparr>) s;
          s = account_normal_insert t s;
          s = s\<lparr>normal_task_count := saturating_add (normal_task_count s) 1\<rparr>;
          s = (if vruntime (tasks s t) \<le> vt
               then s\<lparr>normal_eligible := rb_insert (eligible_tree L) (\<lambda>t. eligible_key (tasks s t)) t (normal_eligible s)\<rparr>
               else insert_normal_ineligible L t s);
          s = update_virtual_time s;
          s = promote_normal_eligible L (virtual_time s) s
      in s\<lparr>normal_preemption_cache := None\<rparr>)"

definition finish_normal_remove :: "nat \<Rightarrow> ('te, 'ti, 'li) eevdf \<Rightarrow> ('te, 'ti, 'li) eevdf" where
  "finish_normal_remove t s =
     (account_normal_remove t (s\<lparr>normal_task_count := normal_task_count s - 1\<rparr>))\<lparr>normal_preemption_cache := None\<rparr>"

definition remove_normal_task :: "('te, 'ti, 'li) sched_lib \<Rightarrow> nat \<Rightarrow> ('te, 'ti, 'li) eevdf \<Rightarrow> ('te, 'ti, 'li) eevdf \<times> bool" where
  "remove_normal_task L t s =
     (if t \<in> set (rb_iter (eligible_tree L) (normal_eligible s))
      then (finish_normal_remove t (s\<lparr>normal_eligible := rb_remove (eligible_tree L) t (normal_eligible s)\<rparr>), True)
      else if t \<in> set (rb_iter (ineligible_tree L) (normal_ineligible s))
      then (finish_normal_remove t (note_normal_ineligible_remove L
              (s\<lparr>normal_ineligible := rb_remove (ineligible_tree L) t (normal_ineligible s)\<rparr>)), True)
      else (s, False))"

definition pick_normal_from_eligible ::
  "('te, 'ti, 'li) sched_lib \<Rightarrow> ('te, 'ti, 'li) eevdf \<Rightarrow> ('te, 'ti, 'li) eevdf \<times> nat option" where
  "pick_normal_from_eligible L s =
     (case head_of (rb_iter (eligible_tree L) (normal_eligible s)) of
        Some t \<Rightarrow> (finish_normal_remove t (s\<lparr>normal_eligible := rb_remove (eligible_tree L) t (normal_eligible s)\<rparr>), Some t)
      | None \<Rightarrow> (s, None))"

definition pick_normal_from_ineligible ::
  "('te, 'ti, 'li) sched_lib \<Rightarrow> ('te, 'ti, 'li) eevdf \<Rightarrow> ('te, 'ti, 'li) eevdf \<times> nat option" where
  "pick_normal_from_ineligible L s =
     (case head_of (rb_iter (ineligible_tree L) (normal_ineligible s)) of
        Some t \<Rightarrow> (finish_normal_remove t (note_normal_ineligible_remove L
                    (s\<lparr>normal_ineligible := rb_remove (ineligible_tree L) t (normal_ineligible s)\<rparr>)), Some t)
      | None \<Rightarrow> (s, None))"

definition pick_normal :: "('te, 'ti, 'li) sched_lib \<Rightarrow> ('te, 'ti, 'li) eevdf \<Rightarrow> ('te, 'ti, 'li) eevdf \<times> nat option" where
  "pick_normal L s =
     (let s = update_virtual_time s;
          s = promote_normal_eligible L (virtual_time s) s
      in case pick_normal_from_eligible L s of
           (s', Some t) \<Rightarrow> (s', Some t)
         | (s', None) \<Rightarrow> pick_normal_from_ineligible L s')"

definition detach_normal_from_eligible ::
  "('te, 'ti, 'li) sched_lib \<Rightarrow> (nat \<Rightarrow> bool) \<Rightarrow> ('te, 'ti, 'li) eevdf \<Rightarrow> ('te, 'ti, 'li) eevdf \<times> nat option" where
  "detach_normal_from_eligible L P s =
     (case List.find P (rb_iter (eligible_tree L) (normal_eligible s)) of
        Some t \<Rightarrow> (s\<lparr>normal_eligible := rb_remove (eligible_tree L) t (normal_eligible s)\<rparr>, Some t)
      | None \<Rightarrow> (s, None))"

definition detach_normal_from_ineligible ::
  "('te, 'ti, 'li) sched_lib \<Rightarrow> (nat \<Rightarrow> bool) \<Rightarrow> ('te, 'ti, 'li) eevdf \<Rightarrow> ('te, 'ti, 'li) eevdf \<times> nat option" where
  "detach_normal_from_ineligible L P s =
     (case List.find P (rb_iter (ineligible_tree L) (normal_ineligible s)) of
        Some t \<Rightarrow> (note_normal_ineligible_remove L
                    (s\<lparr>normal_ineligible := rb_remove (ineligible_tree L) t (normal_ineligible s)\<rparr>), Some t)
      | None \<Rightarrow> (s, None))"

definition detach_normal_task ::
  "('te, 'ti, 'li) sched_lib \<Rightarrow> (nat \<Rightarrow> bool) \<Rightarrow> ('te, 'ti, 'li) eevdf \<Rightarrow> ('te, 'ti, 'li) eevdf \<times> nat option" where
  "detach_normal_task L P s =
     (let s = update_virtual_time s;
          vt = virtual_time s;
          s = promote_normal_eligible L vt s
      in case (case detach_normal_from_eligible L P s of
                 (s', Some t) \<Rightarrow> (s', Some t)
               | (s', None) \<Rightarrow> detach_normal_from_ineligible L P s') of
           (s', Some t) \<Rightarrow> (upd_task t (save_lag L vt) (finish_normal_remove t s'), Some t)
         | (s', None) \<Rightarrow> (s', None))"

text \<open>The check for a queued task that may preempt the current request, with its cache.\<close>

definition has_eligible_preemption ::
  "('te, 'ti, 'li) sched_lib \<Rightarrow> nat \<Rightarrow> ('te, 'ti, 'li) eevdf \<Rightarrow> ('te, 'ti, 'li) eevdf \<times> bool" where
  "has_eligible_preemption L current_deadline s =
     (let s = update_virtual_time s;
          s = promote_normal_eligible L (virtual_time s) s
      in case (case normal_preemption_cache s of
                 Some c \<Rightarrow>
                   if cache_covers c (virtual_time s) \<and> preemption_current_deadline c = current_deadline
                   then Some (has_preemption c) else None
               | None \<Rightarrow> None) of
           Some b \<Rightarrow> (s, b)
         | None \<Rightarrow>
             let b = (case normal_eligible_deadline L s of Some d \<Rightarrow> d < current_deadline | None \<Rightarrow> False);
                 may_have = (case deadline_lower_bound s of
                               None \<Rightarrow> rb_iter (ineligible_tree L) (normal_ineligible s) \<noteq> []
                             | Some d \<Rightarrow> d < current_deadline);
                 threshold =
                   (if \<not> b \<and> may_have
                    then map_option (\<lambda>t. vruntime (tasks s t))
                           (List.find (\<lambda>t. virtual_deadline (tasks s t) < current_deadline)
                             (rb_iter (ineligible_tree L) (normal_ineligible s)))
                    else None)
             in (s\<lparr>normal_preemption_cache :=
                     Some \<lparr>has_preemption = b, preemption_current_deadline = current_deadline,
                           preemption_vruntime = threshold\<rparr>\<rparr>, b))"

section \<open>Real-time queues\<close>

definition trailing_zeros_u128 :: "128 word \<Rightarrow> nat" where
  "trailing_zeros_u128 w = length (takeWhile (\<lambda>i. \<not> bit w i) [0..<128])"

definition rt_index :: "eevdf_task \<Rightarrow> nat" where
  "rt_index t = nat (99 - priority t)"

text \<open>The priority that belongs to the lowest bit of the map.\<close>

definition highest_ready :: "('te, 'ti, 'li) eevdf \<Rightarrow> int" where
  "highest_ready s = 99 - int (trailing_zeros_u128 (rt_bitmap s))"

definition clear_if_empty :: "('te, 'ti, 'li) sched_lib \<Rightarrow> nat \<Rightarrow> ('te, 'ti, 'li) eevdf \<Rightarrow> ('te, 'ti, 'li) eevdf" where
  "clear_if_empty L index s =
     (if ll_iter (rt_list L) (rt_queues s ! index) = [] then s\<lparr>rt_bitmap := rt_bitmap s AND NOT (push_bit index 1)\<rparr> else s)"

definition remove_queued :: "('te, 'ti, 'li) sched_lib \<Rightarrow> nat \<Rightarrow> ('te, 'ti, 'li) eevdf \<Rightarrow> ('te, 'ti, 'li) eevdf \<times> bool" where
  "remove_queued L t s =
     (if is_rt (tasks s t)
      then let index = rt_index (tasks s t)
           in case ll_remove (rt_list L) t (rt_queues s ! index) of
                (q, removed) \<Rightarrow>
                  let s = s\<lparr>rt_queues := (rt_queues s)[index := q]\<rparr>
                  in (if removed then clear_if_empty L index s else s, removed)
      else remove_normal_task L t s)"

section \<open>Operations\<close>

definition stop_task :: "('te, 'ti, 'li) sched_lib \<Rightarrow> nat \<Rightarrow> nat \<Rightarrow> ('te, 'ti, 'li) eevdf \<Rightarrow> ('te, 'ti, 'li) eevdf" where
  "stop_task L t now_ns s =
     (let is_current = (current s = Some t)
      in if \<not> is_current \<and> \<not> is_running (tasks s t) then s
         else let s = upd_task t (account_runtime now_ns False) s;
                  s = (if \<not> is_rt (tasks s t)
                       then let s = update_virtual_time s in upd_task t (save_lag L (virtual_time s)) s else s)
              in if is_current then s\<lparr>current := None\<rparr> else s)"

definition enqueue_rt ::
  "('te, 'ti, 'li) sched_lib \<Rightarrow> nat \<Rightarrow> enqueue_reason \<Rightarrow> nat \<Rightarrow> ('te, 'ti, 'li) eevdf \<Rightarrow> ('te, 'ti, 'li) eevdf" where
  "enqueue_rt L t reason now_ns s =
     (let s = stop_task L t now_ns s;
          index = rt_index (tasks s t);
          keep_slice = (is_round_robin (tasks s t) \<and> reason = Preempt \<and> rt_remaining (tasks s t) > 0);
          s = (if reason = Preempt \<and> (\<not> is_round_robin (tasks s t) \<or> keep_slice)
               then s\<lparr>rt_queues := (rt_queues s)[index := ll_push_front (rt_list L) t (rt_queues s ! index)]\<rparr>
               else let s = (if is_round_robin (tasks s t) then upd_task t reset_rt_slice s else s)
                    in s\<lparr>rt_queues := (rt_queues s)[index := ll_push_back (rt_list L) t (rt_queues s ! index)]\<rparr>)
      in s\<lparr>rt_bitmap := rt_bitmap s OR push_bit index 1\<rparr>)"

definition yield_task :: "('te, 'ti, 'li) sched_lib \<Rightarrow> nat \<Rightarrow> nat \<Rightarrow> ('te, 'ti, 'li) eevdf \<Rightarrow> ('te, 'ti, 'li) eevdf" where
  "yield_task L t now_ns s =
     (let s = stop_task L t now_ns s;
          s = update_virtual_time s;
          s = (if vruntime (tasks s t) \<le> virtual_time s
               then upd_task t (\<lambda>k. k\<lparr>vruntime := max (virtual_deadline k) (vruntime k)\<rparr>) s else s)
      in upd_task t (refresh_deadline L True) s)"

definition enqueue_at ::
  "('te, 'ti, 'li) sched_lib \<Rightarrow> nat \<Rightarrow> enqueue_reason \<Rightarrow> nat \<Rightarrow> ('te, 'ti, 'li) eevdf \<Rightarrow> ('te, 'ti, 'li) eevdf" where
  "enqueue_at L t reason now_ns s =
     (let s = advance_clock now_ns s
      in if is_rt (tasks s t) then enqueue_rt L t reason now_ns s
         else let s = (if (reason = Wake \<or> reason = Migration) \<and> current s = Some t then stop_task L t now_ns s else s);
                  s = (case reason of
                         Preempt \<Rightarrow> upd_task t (refresh_deadline L False) (stop_task L t now_ns s)
                       | Yield \<Rightarrow> yield_task L t now_ns s
                       | _ \<Rightarrow> place_task L t reason s)
              in insert_normal L t s)"

definition pick_at :: "('te, 'ti, 'li) sched_lib \<Rightarrow> nat \<Rightarrow> ('te, 'ti, 'li) eevdf \<Rightarrow> ('te, 'ti, 'li) eevdf \<times> nat option" where
  "pick_at L now_ns s =
     (let s = advance_clock now_ns s
      in if rt_bitmap s \<noteq> 0
         then let index = trailing_zeros_u128 (rt_bitmap s)
              in case ll_pop_front (rt_list L) (rt_queues s ! index) of
                   (q, t) \<Rightarrow> (clear_if_empty L index (s\<lparr>rt_queues := (rt_queues s)[index := q]\<rparr>), t)
         else pick_normal L s)"

definition set_priority_inner ::
  "('te, 'ti, 'li) sched_lib \<Rightarrow> nat \<Rightarrow> int \<Rightarrow> nat \<Rightarrow> ('te, 'ti, 'li) eevdf \<Rightarrow> ('te, 'ti, 'li) eevdf \<times> bool" where
  "set_priority_inner L t p now_ns s =
     (if \<not> valid_priority p then (s, False)
      else let s = advance_clock now_ns s;
               is_current = (current s = Some t);
               was_rt = is_rt (tasks s t);
               s = (if is_current
                    then let s = upd_task t (account_runtime now_ns True) s in if \<not> was_rt then update_virtual_time s else s
                    else s);
               (s, queued) = (if is_current then (s, False)
                              else let s = update_virtual_time s
                                   in remove_queued L t (upd_task t (save_lag L (virtual_time s)) s));
               s = upd_task t (\<lambda>k. k\<lparr>priority := p\<rparr>) s;
               s = (if is_rt_priority p
                    then upd_task t (\<lambda>k. let k = k\<lparr>has_saved_lag := False\<rparr> in if is_round_robin k then reset_rt_slice k else k) s
                    else if is_current
                    then let s = update_virtual_time s
                         in upd_task t (\<lambda>k. refresh_deadline L True (k\<lparr>vruntime := virtual_time s\<rparr>)) s
                    else s)
           in (if queued then enqueue_at L t Migration now_ns s else s, True))"

definition set_rt_policy_at :: "nat \<Rightarrow> rt_policy \<Rightarrow> nat \<Rightarrow> ('te, 'ti, 'li) eevdf \<Rightarrow> ('te, 'ti, 'li) eevdf" where
  "set_rt_policy_at t p now_ns s =
     (let s = advance_clock now_ns s;
          s = (if current s = Some t then upd_task t (account_runtime now_ns True) s else s)
      in upd_task t (set_rt_policy p) s)"

definition enqueue_new :: "('te, 'ti, 'li) sched_lib \<Rightarrow> nat \<Rightarrow> ('te, 'ti, 'li) eevdf \<Rightarrow> ('te, 'ti, 'li) eevdf" where
  "enqueue_new L t s = enqueue_at L t Spawn (clock_ns s) s"

definition eevdf_remove :: "('te, 'ti, 'li) sched_lib \<Rightarrow> nat \<Rightarrow> ('te, 'ti, 'li) eevdf \<Rightarrow> ('te, 'ti, 'li) eevdf \<times> bool" where
  "eevdf_remove L t s =
     (if current s = Some t then (s, False)
      else let s = update_virtual_time s in remove_queued L t (upd_task t (save_lag L (virtual_time s)) s))"

definition pick_next :: "('te, 'ti, 'li) sched_lib \<Rightarrow> ('te, 'ti, 'li) eevdf \<Rightarrow> ('te, 'ti, 'li) eevdf \<times> nat option" where
  "pick_next L s = pick_at L (clock_ns s) s"

definition requeue_previous :: "('te, 'ti, 'li) sched_lib \<Rightarrow> nat \<Rightarrow> bool \<Rightarrow> ('te, 'ti, 'li) eevdf \<Rightarrow> ('te, 'ti, 'li) eevdf" where
  "requeue_previous L t preempt s = enqueue_at L t (if preempt then Preempt else Yield) (clock_ns s) s"

definition on_task_start :: "('te, 'ti, 'li) sched_lib \<Rightarrow> nat \<Rightarrow> nat \<Rightarrow> ('te, 'ti, 'li) eevdf \<Rightarrow> ('te, 'ti, 'li) eevdf" where
  "on_task_start L t now_ns s =
     (let s = advance_clock now_ns s;
          s = (if \<not> is_rt (tasks s t) \<and> virtual_deadline (tasks s t) = 0
               then let s = update_virtual_time s
                    in upd_task t (\<lambda>k. refresh_deadline L True (k\<lparr>vruntime := virtual_time s\<rparr>)) s
               else s)
      in upd_task t (start_running now_ns) (s\<lparr>current := Some t\<rparr>))"

definition on_task_stop :: "('te, 'ti, 'li) sched_lib \<Rightarrow> nat \<Rightarrow> nat \<Rightarrow> ('te, 'ti, 'li) eevdf \<Rightarrow> ('te, 'ti, 'li) eevdf" where
  "on_task_stop L t now_ns s = stop_task L t now_ns (advance_clock now_ns s)"

definition tick_at :: "('te, 'ti, 'li) sched_lib \<Rightarrow> nat \<Rightarrow> nat \<Rightarrow> ('te, 'ti, 'li) eevdf \<Rightarrow> ('te, 'ti, 'li) eevdf \<times> bool" where
  "tick_at L t now_ns s =
     (let s = advance_clock now_ns s;
          current_is_running = (current s = Some t);
          current_is_rt = is_rt (tasks s t)
      in if current_is_running \<and> current_is_rt \<and> \<not> is_round_robin (tasks s t)
         then (s, rt_bitmap s \<noteq> 0 \<and> highest_ready s > priority (tasks s t))
         else
           let s = (if \<not> current_is_running then upd_task t (start_running now_ns) (s\<lparr>current := Some t\<rparr>)
                    else upd_task t (account_runtime now_ns True) s)
           in if current_is_rt
              then if rt_bitmap s \<noteq> 0 \<and> highest_ready s > priority (tasks s t) then (s, True)
                   else if rt_bitmap s \<noteq> 0 \<and> is_round_robin (tasks s t) \<and> highest_ready s = priority (tasks s t) \<and>
                           rt_remaining (tasks s t) = 0 then (s, True)
                   else if is_round_robin (tasks s t) \<and> rt_remaining (tasks s t) = 0
                   then (upd_task t reset_rt_slice s, False) else (s, False)
              else if rt_bitmap s \<noteq> 0 then (s, True)
              else if normal_task_count s = 0 then (upd_task t (refresh_deadline L False) s, False)
              else if vruntime (tasks s t) \<ge> virtual_deadline (tasks s t) then (upd_task t (refresh_deadline L True) s, True)
              else has_eligible_preemption L (virtual_deadline (tasks s t)) s)"

definition eevdf_tick :: "('te, 'ti, 'li) sched_lib \<Rightarrow> nat \<Rightarrow> ('te, 'ti, 'li) eevdf \<Rightarrow> ('te, 'ti, 'li) eevdf \<times> bool" where
  "eevdf_tick L t s = tick_at L t (saturating_add (clock_ns s) (base_slice L)) s"

definition candidate_preempts ::
  "nat \<Rightarrow> nat \<Rightarrow> nat \<Rightarrow> ('te, 'ti, 'li) eevdf \<Rightarrow> ('te, 'ti, 'li) eevdf \<times> bool" where
  "candidate_preempts cur candidate now_ns s =
     (let s = advance_clock now_ns s;
          s = (if current s = Some cur then upd_task cur (account_runtime now_ns True) s else s);
          c = tasks s cur; d = tasks s candidate
      in if \<not> is_rt c \<and> is_rt d then (s, True)
         else if is_rt c \<and> \<not> is_rt d then (s, False)
         else if is_rt c \<and> is_rt d
         then (s, priority d > priority c \<or> is_round_robin c \<and> priority d = priority c \<and> rt_remaining c = 0)
         else let s = update_virtual_time s; vt = virtual_time s
              in (s, vruntime d \<le> vt \<and> (vruntime c > vt \<or> virtual_deadline d < virtual_deadline c)))"

definition preemption_deadline :: "nat \<Rightarrow> nat \<Rightarrow> ('te, 'ti, 'li) eevdf \<Rightarrow> nat option" where
  "preemption_deadline t now_ns s =
     (let c = tasks s t
      in if is_rt c
         then if rt_bitmap s = 0 then None
              else if highest_ready s > priority c then Some now_ns
              else if highest_ready s < priority c then None
              else if \<not> is_round_robin c then None
              else Some (saturating_add now_ns (rt_remaining c - unaccounted_runtime now_ns c))
         else if rt_bitmap s \<noteq> 0 then Some now_ns
         else if normal_task_count s = 0 then None
         else let cv = saturating_add (vruntime c) (calc_delta_fair (unaccounted_runtime now_ns c) (weight c));
                  remaining_vruntime = virtual_deadline c - cv
              in Some (saturating_add now_ns
                   (min (ceil_div_u128 (saturating_mul_u128 remaining_vruntime (weight c)) NICE_0_WEIGHT) usize_max)))"

definition queued_is_empty :: "('te, 'ti, 'li) eevdf \<Rightarrow> bool" where
  "queued_is_empty s \<longleftrightarrow> rt_bitmap s = 0 \<and> normal_task_count s = 0"

end
