(* ===== verification/Eevdf_Inv.thy ===== *)
theory Eevdf_Inv
  imports Eevdf
begin

text \<open>
  The invariant of the scheduler: the two trees are ordered and hold the ordinary tasks, the aggregates are
  exact, the cached answers are true, the bit map tells which real-time queues have tasks, and all values fit
  their machine types; and what the documentation of the containers promises.
\<close>

section \<open>What the containers promise\<close>

definition tree_laws :: "('k :: linorder, 'tr) rbtree \<Rightarrow> bool" where
  "tree_laws T \<longleftrightarrow> rb_iter T (rb_new T) = [] \<and>
     (\<forall>key x tr. sorted_wrt (\<lambda>a b. key a \<le> key b) (rb_iter T tr) \<longrightarrow> x \<notin> set (rb_iter T tr) \<longrightarrow>
        sorted_wrt (\<lambda>a b. key a \<le> key b) (rb_iter T (rb_insert T key x tr)) \<and>
        mset (rb_iter T (rb_insert T key x tr)) = add_mset x (mset (rb_iter T tr))) \<and>
     (\<forall>x tr. rb_iter T (rb_remove T x tr) = remove1 x (rb_iter T tr))"

definition list_laws :: "'li linked_list \<Rightarrow> bool" where
  "list_laws M \<longleftrightarrow> ll_iter M (ll_new M) = [] \<and>
     (\<forall>x q. ll_iter M (ll_push_front M x q) = x # ll_iter M q) \<and>
     (\<forall>x q. ll_iter M (ll_push_back M x q) = ll_iter M q @ [x]) \<and>
     (\<forall>q. ll_iter M (fst (ll_pop_front M q)) = tl (ll_iter M q) \<and> snd (ll_pop_front M q) = head_of (ll_iter M q)) \<and>
     (\<forall>x q. ll_iter M (fst (ll_remove M x q)) = remove1 x (ll_iter M q) \<and> (snd (ll_remove M x q) \<longleftrightarrow> x \<in> set (ll_iter M q)))"

definition lib_laws :: "('te, 'ti, 'li) sched_lib \<Rightarrow> bool" where
  "lib_laws L \<longleftrightarrow> tree_laws (eligible_tree L) \<and> tree_laws (ineligible_tree L) \<and> list_laws (rt_list L) \<and>
     0 < base_slice L \<and> base_slice L \<le> usize_max"

section \<open>The invariant\<close>

definition el :: "('te, 'ti, 'li) sched_lib \<Rightarrow> ('te, 'ti, 'li) eevdf \<Rightarrow> nat list" where
  "el L s = rb_iter (eligible_tree L) (normal_eligible s)"

definition il :: "('te, 'ti, 'li) sched_lib \<Rightarrow> ('te, 'ti, 'li) eevdf \<Rightarrow> nat list" where
  "il L s = rb_iter (ineligible_tree L) (normal_ineligible s)"

definition normals :: "('te, 'ti, 'li) sched_lib \<Rightarrow> ('te, 'ti, 'li) eevdf \<Rightarrow> nat set" where
  "normals L s = set (el L s) \<union> set (il L s)"

definition rtq :: "('te, 'ti, 'li) sched_lib \<Rightarrow> ('te, 'ti, 'li) eevdf \<Rightarrow> nat \<Rightarrow> nat list" where
  "rtq L s i = ll_iter (rt_list L) (rt_queues s ! i)"

definition rts :: "('te, 'ti, 'li) sched_lib \<Rightarrow> ('te, 'ti, 'li) eevdf \<Rightarrow> nat set" where
  "rts L s = (\<Union>i<99. set (rtq L s i))"

definition queued :: "('te, 'ti, 'li) sched_lib \<Rightarrow> ('te, 'ti, 'li) eevdf \<Rightarrow> nat set" where
  "queued L s = normals L s \<union> rts L s"

abbreviation (input) max_tasks :: nat where "max_tasks \<equiv> 2 ^ 40"

definition task_ok :: "eevdf_task \<Rightarrow> bool" where
  "task_ok k \<longleftrightarrow> valid_priority (priority k) \<and> vruntime k \<le> usize_max \<and> virtual_deadline k \<le> usize_max \<and>
     exec_start k \<le> usize_max \<and> lag_vtime k \<le> usize_max \<and> queue_id k \<le> usize_max \<and> rt_remaining k \<le> usize_max \<and>
     - i64_max \<le> saved_vlag k \<and> saved_vlag k \<le> i64_max"

definition trees_ok :: "('te, 'ti, 'li) sched_lib \<Rightarrow> ('te, 'ti, 'li) eevdf \<Rightarrow> bool" where
  "trees_ok L s \<longleftrightarrow>
     sorted_wrt (\<lambda>a b. eligible_key (tasks s a) \<le> eligible_key (tasks s b)) (el L s) \<and>
     sorted_wrt (\<lambda>a b. ineligible_key (tasks s a) \<le> ineligible_key (tasks s b)) (il L s) \<and>
     distinct (el L s) \<and> distinct (il L s) \<and> set (el L s) \<inter> set (il L s) = {} \<and>
     (\<forall>t\<in>normals L s. \<not> is_rt (tasks s t)) \<and> (\<forall>t\<in>set (el L s). vruntime (tasks s t) \<le> virtual_time s) \<and>
     (deadline_lower_bound s = None \<longrightarrow> il L s = []) \<and>
     (\<forall>b. deadline_lower_bound s = Some b \<longrightarrow> (\<forall>t\<in>set (il L s). b \<le> virtual_deadline (tasks s t)))"

definition sums_ok :: "('te, 'ti, 'li) sched_lib \<Rightarrow> ('te, 'ti, 'li) eevdf \<Rightarrow> bool" where
  "sums_ok L s \<longleftrightarrow> normal_task_count s = card (normals L s) \<and>
     normal_total_weight s = (\<Sum>t\<in>normals L s. weight (tasks s t)) \<and>
     normal_weighted_vruntime s = (\<Sum>t\<in>normals L s. vruntime (tasks s t) * weight (tasks s t)) \<and>
     card (normals L s) \<le> max_tasks"

text \<open>A positive cached answer stays true; a negative one holds until a task reaches the threshold.\<close>

definition cache_ok :: "('te, 'ti, 'li) sched_lib \<Rightarrow> ('te, 'ti, 'li) eevdf \<Rightarrow> bool" where
  "cache_ok L s \<longleftrightarrow>
     (\<forall>c. normal_preemption_cache s = Some c \<longrightarrow>
         (if has_preemption c
          then \<exists>t\<in>normals L s. vruntime (tasks s t) \<le> virtual_time s \<and> virtual_deadline (tasks s t) < preemption_current_deadline c
          else \<forall>t\<in>normals L s. virtual_deadline (tasks s t) < preemption_current_deadline c \<longrightarrow>
                 (\<exists>v. preemption_vruntime c = Some v \<and> v \<le> vruntime (tasks s t))))"

definition rt_ok :: "('te, 'ti, 'li) sched_lib \<Rightarrow> ('te, 'ti, 'li) eevdf \<Rightarrow> bool" where
  "rt_ok L s \<longleftrightarrow> length (rt_queues s) = 99 \<and> (\<forall>i. bit (rt_bitmap s) i \<longleftrightarrow> i < 99 \<and> rtq L s i \<noteq> []) \<and>
     (\<forall>i<99. distinct (rtq L s i) \<and> (\<forall>t\<in>set (rtq L s i). is_rt (tasks s t) \<and> rt_index (tasks s t) = i))"

definition range_ok :: "('te, 'ti, 'li) eevdf \<Rightarrow> bool" where
  "range_ok s \<longleftrightarrow> (\<forall>t. task_ok (tasks s t)) \<and> virtual_time s \<le> usize_max \<and> clock_ns s \<le> usize_max \<and>
     sequence_no s \<le> usize_max"

definition eevdf_core :: "('te, 'ti, 'li) sched_lib \<Rightarrow> ('te, 'ti, 'li) eevdf \<Rightarrow> bool" where
  "eevdf_core L s \<longleftrightarrow> trees_ok L s \<and> sums_ok L s \<and> rt_ok L s \<and> range_ok s \<and> (\<forall>c. current s = Some c \<longrightarrow> c \<notin> queued L s)"

definition eevdf_inv :: "('te, 'ti, 'li) sched_lib \<Rightarrow> ('te, 'ti, 'li) eevdf \<Rightarrow> bool" where
  "eevdf_inv L s \<longleftrightarrow> eevdf_core L s \<and> cache_ok L s"

section \<open>Weights\<close>

lemma NICE_TO_WEIGHT_bounds: "i < 40 \<Longrightarrow> 15 \<le> NICE_TO_WEIGHT ! i \<and> NICE_TO_WEIGHT ! i \<le> 88761"
proof -
  have "\<forall>w\<in>set NICE_TO_WEIGHT. 15 \<le> w \<and> w \<le> 88761" by (simp add: NICE_TO_WEIGHT_def)
  moreover have "length NICE_TO_WEIGHT = 40" by (simp add: NICE_TO_WEIGHT_def)
  ultimately show "i < 40 \<Longrightarrow> 15 \<le> NICE_TO_WEIGHT ! i \<and> NICE_TO_WEIGHT ! i \<le> 88761" using nth_mem by metis
qed

lemma weight_bounds: "15 \<le> weight k" "weight k \<le> 88761"
  using NICE_TO_WEIGHT_bounds [of "nat (120 + priority k)"] by (auto simp: weight_def nice_def)

lemma weight_pos [simp]: "0 < weight k"
  using weight_bounds(1) [of k] by linarith

lemma weighted_bound: "task_ok k \<Longrightarrow> vruntime k * weight k \<le> 2 ^ 81"
proof -
  assume "task_ok k"
  then have "vruntime k * weight k \<le> usize_max * 88761"
    by (intro mult_le_mono weight_bounds) (simp add: task_ok_def)
  then show ?thesis by simp
qed

lemma weighted_mul [simp]: "task_ok k \<Longrightarrow> saturating_mul_u128 (vruntime k) (weight k) = vruntime k * weight k"
  using weighted_bound [of k] by (simp add: saturating_mul_u128_def)

lemma sums_bound:
  assumes "finite A" and "card A \<le> max_tasks" and "\<And>t. task_ok (ts t)"
  shows "(\<Sum>t\<in>A. weight (ts t)) \<le> 2 ^ 57" and "(\<Sum>t\<in>A. vruntime (ts t) * weight (ts t)) \<le> 2 ^ 121"
proof -
  have "(\<Sum>t\<in>A. weight (ts t)) \<le> card A * 2 ^ 17"
    using sum_bounded_above [of A "\<lambda>t. weight (ts t)" "2 ^ 17"] order_trans [OF weight_bounds(2), of "2 ^ 17"] by simp
  also have "\<dots> \<le> max_tasks * 2 ^ 17" using assms(2) by (rule mult_le_mono1)
  finally show "(\<Sum>t\<in>A. weight (ts t)) \<le> 2 ^ 57" by simp
  have "(\<Sum>t\<in>A. vruntime (ts t) * weight (ts t)) \<le> card A * 2 ^ 81"
    using sum_bounded_above [of A "\<lambda>t. vruntime (ts t) * weight (ts t)" "2 ^ 81"] weighted_bound assms(3) by simp
  also have "\<dots> \<le> max_tasks * 2 ^ 81" using assms(2) by (rule mult_le_mono1)
  finally show "(\<Sum>t\<in>A. vruntime (ts t) * weight (ts t)) \<le> 2 ^ 121" by simp
qed

section \<open>Changes that keep the invariant\<close>

lemmas view_defs = el_def il_def normals_def rtq_def rts_def queued_def

lemma upd_task_simps [simp]:
  "rt_queues (upd_task t f s) = rt_queues s" "rt_bitmap (upd_task t f s) = rt_bitmap s"
  "normal_eligible (upd_task t f s) = normal_eligible s" "normal_ineligible (upd_task t f s) = normal_ineligible s"
  "deadline_lower_bound (upd_task t f s) = deadline_lower_bound s" "normal_task_count (upd_task t f s) = normal_task_count s"
  "normal_total_weight (upd_task t f s) = normal_total_weight s"
  "normal_weighted_vruntime (upd_task t f s) = normal_weighted_vruntime s"
  "normal_preemption_cache (upd_task t f s) = normal_preemption_cache s" "current (upd_task t f s) = current s"
  "virtual_time (upd_task t f s) = virtual_time s" "sequence_no (upd_task t f s) = sequence_no s"
  "clock_ns (upd_task t f s) = clock_ns s" "tasks (upd_task t f s) = (tasks s)(t := f (tasks s t))"
  by (simp_all add: upd_task_def)

lemma view_simps [simp]:
  "el L (s\<lparr>deadline_lower_bound := b\<rparr>) = el L s" "il L (s\<lparr>deadline_lower_bound := b\<rparr>) = il L s" "normals L (s\<lparr>deadline_lower_bound := b\<rparr>) = normals L s"
  "rtq L (s\<lparr>deadline_lower_bound := b\<rparr>) = rtq L s" "rts L (s\<lparr>deadline_lower_bound := b\<rparr>) = rts L s" "queued L (s\<lparr>deadline_lower_bound := b\<rparr>) = queued L s"
  "el L (s\<lparr>rt_bitmap := m\<rparr>) = el L s" "il L (s\<lparr>rt_bitmap := m\<rparr>) = il L s" "normals L (s\<lparr>rt_bitmap := m\<rparr>) = normals L s"
  "rtq L (s\<lparr>rt_bitmap := m\<rparr>) = rtq L s" "rts L (s\<lparr>rt_bitmap := m\<rparr>) = rts L s" "queued L (s\<lparr>rt_bitmap := m\<rparr>) = queued L s"
  "el L (s\<lparr>normal_task_count := n\<rparr>) = el L s" "il L (s\<lparr>normal_task_count := n\<rparr>) = il L s" "normals L (s\<lparr>normal_task_count := n\<rparr>) = normals L s"
  "rtq L (s\<lparr>normal_task_count := n\<rparr>) = rtq L s" "rts L (s\<lparr>normal_task_count := n\<rparr>) = rts L s" "queued L (s\<lparr>normal_task_count := n\<rparr>) = queued L s"
  "el L (s\<lparr>normal_total_weight := n\<rparr>) = el L s" "il L (s\<lparr>normal_total_weight := n\<rparr>) = il L s" "normals L (s\<lparr>normal_total_weight := n\<rparr>) = normals L s"
  "rtq L (s\<lparr>normal_total_weight := n\<rparr>) = rtq L s" "rts L (s\<lparr>normal_total_weight := n\<rparr>) = rts L s" "queued L (s\<lparr>normal_total_weight := n\<rparr>) = queued L s"
  "el L (s\<lparr>normal_weighted_vruntime := n\<rparr>) = el L s" "il L (s\<lparr>normal_weighted_vruntime := n\<rparr>) = il L s" "normals L (s\<lparr>normal_weighted_vruntime := n\<rparr>) = normals L s"
  "rtq L (s\<lparr>normal_weighted_vruntime := n\<rparr>) = rtq L s" "rts L (s\<lparr>normal_weighted_vruntime := n\<rparr>) = rts L s" "queued L (s\<lparr>normal_weighted_vruntime := n\<rparr>) = queued L s"
  "el L (s\<lparr>normal_preemption_cache := pc\<rparr>) = el L s" "il L (s\<lparr>normal_preemption_cache := pc\<rparr>) = il L s" "normals L (s\<lparr>normal_preemption_cache := pc\<rparr>) = normals L s"
  "rtq L (s\<lparr>normal_preemption_cache := pc\<rparr>) = rtq L s" "rts L (s\<lparr>normal_preemption_cache := pc\<rparr>) = rts L s" "queued L (s\<lparr>normal_preemption_cache := pc\<rparr>) = queued L s"
  "el L (s\<lparr>current := r\<rparr>) = el L s" "il L (s\<lparr>current := r\<rparr>) = il L s" "normals L (s\<lparr>current := r\<rparr>) = normals L s"
  "rtq L (s\<lparr>current := r\<rparr>) = rtq L s" "rts L (s\<lparr>current := r\<rparr>) = rts L s" "queued L (s\<lparr>current := r\<rparr>) = queued L s"
  "el L (s\<lparr>virtual_time := n\<rparr>) = el L s" "il L (s\<lparr>virtual_time := n\<rparr>) = il L s" "normals L (s\<lparr>virtual_time := n\<rparr>) = normals L s"
  "rtq L (s\<lparr>virtual_time := n\<rparr>) = rtq L s" "rts L (s\<lparr>virtual_time := n\<rparr>) = rts L s" "queued L (s\<lparr>virtual_time := n\<rparr>) = queued L s"
  "el L (s\<lparr>sequence_no := n\<rparr>) = el L s" "il L (s\<lparr>sequence_no := n\<rparr>) = il L s" "normals L (s\<lparr>sequence_no := n\<rparr>) = normals L s"
  "rtq L (s\<lparr>sequence_no := n\<rparr>) = rtq L s" "rts L (s\<lparr>sequence_no := n\<rparr>) = rts L s" "queued L (s\<lparr>sequence_no := n\<rparr>) = queued L s"
  "el L (s\<lparr>clock_ns := n\<rparr>) = el L s" "il L (s\<lparr>clock_ns := n\<rparr>) = il L s" "normals L (s\<lparr>clock_ns := n\<rparr>) = normals L s"
  "rtq L (s\<lparr>clock_ns := n\<rparr>) = rtq L s" "rts L (s\<lparr>clock_ns := n\<rparr>) = rts L s" "queued L (s\<lparr>clock_ns := n\<rparr>) = queued L s"
  "el L (s\<lparr>tasks := ts\<rparr>) = el L s" "il L (s\<lparr>tasks := ts\<rparr>) = il L s" "normals L (s\<lparr>tasks := ts\<rparr>) = normals L s"
  "rtq L (s\<lparr>tasks := ts\<rparr>) = rtq L s" "rts L (s\<lparr>tasks := ts\<rparr>) = rts L s" "queued L (s\<lparr>tasks := ts\<rparr>) = queued L s"
  "el L (upd_task t f s) = el L s" "il L (upd_task t f s) = il L s" "normals L (upd_task t f s) = normals L s"
  "rtq L (upd_task t f s) = rtq L s" "rts L (upd_task t f s) = rts L s" "queued L (upd_task t f s) = queued L s"
  by (simp_all add: view_defs fun_eq_iff)

text \<open>Tasks that agree in what the queues depend on.\<close>

definition task_same :: "eevdf_task \<Rightarrow> eevdf_task \<Rightarrow> bool" where
  "task_same k k' \<longleftrightarrow> priority k' = priority k \<and> vruntime k' = vruntime k \<and> virtual_deadline k' = virtual_deadline k \<and>
     queue_id k' = queue_id k"

lemma task_same_refl [simp]: "task_same k k"
  by (simp add: task_same_def)

lemma task_sameD:
  assumes "task_same k k'"
  shows "weight k' = weight k" "is_rt k' = is_rt k" "rt_index k' = rt_index k" "eligible_key k' = eligible_key k"
    "ineligible_key k' = ineligible_key k" "vruntime k' = vruntime k" "virtual_deadline k' = virtual_deadline k"
  using assms by (simp_all add: task_same_def weight_def nice_def is_rt_def rt_index_def eligible_key_def ineligible_key_def)

lemma inv_tasks:
  assumes inv: "eevdf_core L s" and same: "\<And>t. t \<in> queued L s \<Longrightarrow> task_same (tasks s t) (ts t)" and ok: "\<And>t. task_ok (ts t)"
  shows "eevdf_core L (s\<lparr>tasks := ts\<rparr>)"
proof -
  let ?s = "s\<lparr>tasks := ts\<rparr>"
  have v: "el L ?s = el L s" "il L ?s = il L s" "normals L ?s = normals L s" "rtq L ?s = rtq L s" "queued L ?s = queued L s"
    by (simp_all add: view_defs fun_eq_iff)
  have n: "task_same (tasks s t) (ts t)" if "t \<in> normals L s" for t using same that by (simp add: queued_def)
  have e: "task_same (tasks s t) (ts t)" if "t \<in> set (el L s)" for t using n that by (simp add: normals_def)
  have i: "task_same (tasks s t) (ts t)" if "t \<in> set (il L s)" for t using n that by (simp add: normals_def)
  have tr: "trees_ok L s" using inv by (simp add: eevdf_core_def)
  have se: "sorted_wrt (\<lambda>a b. eligible_key (ts a) \<le> eligible_key (ts b)) (el L s)"
    by (rule sorted_wrt_mono_rel [of _ "\<lambda>a b. eligible_key (tasks s a) \<le> eligible_key (tasks s b)"])
      (use tr task_sameD(4) [OF e] in \<open>simp_all add: trees_ok_def\<close>)
  have si: "sorted_wrt (\<lambda>a b. ineligible_key (ts a) \<le> ineligible_key (ts b)) (il L s)"
    by (rule sorted_wrt_mono_rel [of _ "\<lambda>a b. ineligible_key (tasks s a) \<le> ineligible_key (tasks s b)"])
      (use tr task_sameD(5) [OF i] in \<open>simp_all add: trees_ok_def\<close>)
  have "trees_ok L ?s"
    using tr se si task_sameD [OF n] task_sameD [OF e] task_sameD [OF i]
    unfolding trees_ok_def v by (simp)
  moreover have "sums_ok L ?s"
    using inv task_sameD [OF n] unfolding eevdf_core_def sums_ok_def v by (simp cong: sum.cong)
  moreover have "rt_ok L ?s"
  proof -
    have "task_same (tasks s t) (ts t)" if "i < 99" "t \<in> set (rtq L s i)" for i t
      using same that by (auto simp: queued_def rts_def)
    then have "is_rt (ts t) = is_rt (tasks s t) \<and> rt_index (ts t) = rt_index (tasks s t)" if "i < 99" "t \<in> set (rtq L s i)" for i t
      using task_sameD(2,3) that by blast
    then show ?thesis using inv unfolding eevdf_core_def rt_ok_def v by simp
  qed
  ultimately show ?thesis using inv ok unfolding eevdf_core_def range_ok_def v by simp
qed

lemma cache_okI:
  assumes "cache_ok L s" and "normals L s' = normals L s" and "\<And>t. t \<in> normals L s \<Longrightarrow> task_same (tasks s t) (tasks s' t)"
    and "virtual_time s \<le> virtual_time s'" and "normal_preemption_cache s' = normal_preemption_cache s"
  shows "cache_ok L s'"
proof -
  have "vruntime (tasks s' t) = vruntime (tasks s t)" "virtual_deadline (tasks s' t) = virtual_deadline (tasks s t)"
    if "t \<in> normals L s" for t using task_sameD [OF assms(3) [OF that]] by simp_all
  moreover have "vruntime (tasks s t) \<le> virtual_time s'" if "vruntime (tasks s t) \<le> virtual_time s" for t
    using that assms(4) by simp
  ultimately show ?thesis using assms(1) unfolding cache_ok_def assms(2,5) by (metis (no_types, lifting))
qed

lemma inv_upd_task:
  assumes inv: "eevdf_core L s" and "t \<notin> queued L s \<or> task_same (tasks s t) (f (tasks s t))" and "task_ok (f (tasks s t))"
  shows "eevdf_core L (upd_task t f s)"
  unfolding upd_task_def
  by (rule inv_tasks [OF inv]) (use assms in \<open>auto simp: eevdf_core_def range_ok_def\<close>)

text \<open>Fields that the invariant does not constrain, or only by their range.\<close>

lemmas inv_defs = eevdf_core_def trees_ok_def sums_ok_def rt_ok_def range_ok_def

lemma inv_range: "eevdf_core L s \<Longrightarrow> range_ok s"
  by (simp add: eevdf_core_def)

lemma inv_clock: "eevdf_core L s \<Longrightarrow> now_ns \<le> usize_max \<Longrightarrow> eevdf_core L (advance_clock now_ns s)"
  by (simp add: inv_defs advance_clock_def)

lemma inv_current:
  "eevdf_core L s \<Longrightarrow> (\<And>c. r = Some c \<Longrightarrow> c \<notin> queued L s) \<Longrightarrow> eevdf_core L (s\<lparr>current := r\<rparr>)"
  by (simp add: inv_defs)

lemma inv_sequence: "eevdf_core L s \<Longrightarrow> eevdf_core L (next_sequence s)"
proof -
  assume i: "eevdf_core L s"
  have m: "n mod 2 ^ 64 \<le> usize_max" for n :: nat
  proof -
    have "n mod 2 ^ 64 < 2 ^ 64" by (rule mod_less_divisor) simp
    then show ?thesis by simp
  qed
  define q where "q = (if (sequence_no s + 1) mod 2 ^ 64 \<noteq> 0 then (sequence_no s + 1) mod 2 ^ 64
    else ((sequence_no s + 1) mod 2 ^ 64 + 1) mod 2 ^ 64)"
  have "q \<le> usize_max" unfolding q_def using m by (simp only: split: if_split) blast
  moreover have "next_sequence s = s\<lparr>sequence_no := q\<rparr>" by (simp only: next_sequence_def Let_def q_def)
  ultimately show ?thesis using i by (simp add: inv_defs)
qed

lemma inv_virtual_time:
  assumes "eevdf_core L s" and "virtual_time s \<le> v" and "v \<le> usize_max"
  shows "eevdf_core L (s\<lparr>virtual_time := v\<rparr>)"
proof -
  have "trees_ok L (s\<lparr>virtual_time := v\<rparr>)" using assms(1,2) by (auto simp: eevdf_core_def trees_ok_def)
  then show ?thesis using assms by (simp add: inv_defs)
qed

lemma update_virtual_time_eq:
  obtains v where "update_virtual_time s = s\<lparr>virtual_time := v\<rparr>" and "virtual_time s \<le> v"
    and "virtual_time s \<le> usize_max \<Longrightarrow> v \<le> usize_max"
proof -
  obtain w v where "fair_sums s = (w, v)" by (cases "fair_sums s")
  then have eq: "update_virtual_time s =
      (if w = 0 then s else s\<lparr>virtual_time := max (virtual_time s) (min (v div w) usize_max)\<rparr>)"
    by (simp add: update_virtual_time_def)
  show thesis
  proof (cases "w = 0")
    case True
    then show thesis by (intro that [of "virtual_time s"]) (simp_all add: eq)
  next
    case False
    then show thesis by (intro that [of "max (virtual_time s) (min (v div w) usize_max)"]) (simp_all add: eq)
  qed
qed

lemma inv_update_virtual_time: "eevdf_core L s \<Longrightarrow> eevdf_core L (update_virtual_time s)"
proof -
  assume i: "eevdf_core L s"
  then have v: "virtual_time s \<le> usize_max" by (simp add: inv_defs)
  show ?thesis by (rule update_virtual_time_eq [of s]) (simp add: inv_virtual_time [OF i] v)
qed

lemma update_virtual_time_simps [simp]:
  "rt_queues (update_virtual_time s) = rt_queues s" "rt_bitmap (update_virtual_time s) = rt_bitmap s"
  "normal_eligible (update_virtual_time s) = normal_eligible s" "normal_ineligible (update_virtual_time s) = normal_ineligible s"
  "deadline_lower_bound (update_virtual_time s) = deadline_lower_bound s" "normal_task_count (update_virtual_time s) = normal_task_count s"
  "normal_total_weight (update_virtual_time s) = normal_total_weight s" "normal_weighted_vruntime (update_virtual_time s) = normal_weighted_vruntime s"
  "normal_preemption_cache (update_virtual_time s) = normal_preemption_cache s" "current (update_virtual_time s) = current s"
  "sequence_no (update_virtual_time s) = sequence_no s" "clock_ns (update_virtual_time s) = clock_ns s"
  "tasks (update_virtual_time s) = tasks s" "el L (update_virtual_time s) = el L s"
  "il L (update_virtual_time s) = il L s" "normals L (update_virtual_time s) = normals L s"
  "rtq L (update_virtual_time s) = rtq L s" "rts L (update_virtual_time s) = rts L s"
  "queued L (update_virtual_time s) = queued L s"
  "virtual_time s \<le> virtual_time (update_virtual_time s)"
  by (rule update_virtual_time_eq [of s], simp)+

lemma next_sequence_simps [simp]:
  "rt_queues (next_sequence s) = rt_queues s" "rt_bitmap (next_sequence s) = rt_bitmap s"
  "normal_eligible (next_sequence s) = normal_eligible s" "normal_ineligible (next_sequence s) = normal_ineligible s"
  "deadline_lower_bound (next_sequence s) = deadline_lower_bound s" "normal_task_count (next_sequence s) = normal_task_count s"
  "normal_total_weight (next_sequence s) = normal_total_weight s" "normal_weighted_vruntime (next_sequence s) = normal_weighted_vruntime s"
  "normal_preemption_cache (next_sequence s) = normal_preemption_cache s" "current (next_sequence s) = current s"
  "clock_ns (next_sequence s) = clock_ns s" "tasks (next_sequence s) = tasks s"
  "virtual_time (next_sequence s) = virtual_time s" "el L (next_sequence s) = el L s"
  "il L (next_sequence s) = il L s" "normals L (next_sequence s) = normals L s"
  "rtq L (next_sequence s) = rtq L s" "rts L (next_sequence s) = rts L s"
  "queued L (next_sequence s) = queued L s"
  by (simp_all add: next_sequence_def Let_def)

lemma advance_clock_simps [simp]:
  "rt_queues (advance_clock now_ns s) = rt_queues s" "rt_bitmap (advance_clock now_ns s) = rt_bitmap s"
  "normal_eligible (advance_clock now_ns s) = normal_eligible s" "normal_ineligible (advance_clock now_ns s) = normal_ineligible s"
  "deadline_lower_bound (advance_clock now_ns s) = deadline_lower_bound s" "normal_task_count (advance_clock now_ns s) = normal_task_count s"
  "normal_total_weight (advance_clock now_ns s) = normal_total_weight s" "normal_weighted_vruntime (advance_clock now_ns s) = normal_weighted_vruntime s"
  "normal_preemption_cache (advance_clock now_ns s) = normal_preemption_cache s" "current (advance_clock now_ns s) = current s"
  "sequence_no (advance_clock now_ns s) = sequence_no s" "tasks (advance_clock now_ns s) = tasks s"
  "virtual_time (advance_clock now_ns s) = virtual_time s" "el L (advance_clock now_ns s) = el L s"
  "il L (advance_clock now_ns s) = il L s" "normals L (advance_clock now_ns s) = normals L s"
  "rtq L (advance_clock now_ns s) = rtq L s" "rts L (advance_clock now_ns s) = rts L s"
  "queued L (advance_clock now_ns s) = queued L s"
  by (simp_all add: advance_clock_def)

section \<open>Promotion\<close>

lemma sorted_wrt_remove1: "sorted_wrt P xs \<Longrightarrow> sorted_wrt P (remove1 x xs)"
  by (induction xs) (auto dest: notin_set_remove1 in_set_remove1 [THEN iffD1, rotated] set_remove1_subset [THEN subsetD])

lemma tree_insert:
  assumes "tree_laws T" and "sorted_wrt (\<lambda>a b. key a \<le> key b) (rb_iter T tr)" and "x \<notin> set (rb_iter T tr)"
    and "distinct (rb_iter T tr)"
  shows "sorted_wrt (\<lambda>a b. key a \<le> key b) (rb_iter T (rb_insert T key x tr))"
    and "set (rb_iter T (rb_insert T key x tr)) = insert x (set (rb_iter T tr))"
    and "distinct (rb_iter T (rb_insert T key x tr))"
proof -
  have m: "mset (rb_iter T (rb_insert T key x tr)) = mset (x # rb_iter T tr)"
    and s: "sorted_wrt (\<lambda>a b. key a \<le> key b) (rb_iter T (rb_insert T key x tr))"
    using assms by (simp_all add: tree_laws_def)
  show "sorted_wrt (\<lambda>a b. key a \<le> key b) (rb_iter T (rb_insert T key x tr))" by (rule s)
  show "set (rb_iter T (rb_insert T key x tr)) = insert x (set (rb_iter T tr))" using mset_eq_setD [OF m] by simp
  show "distinct (rb_iter T (rb_insert T key x tr))" using mset_eq_imp_distinct_iff [OF m] assms(3,4) by simp
qed

lemma tree_remove: "tree_laws T \<Longrightarrow> rb_iter T (rb_remove T x tr) = remove1 x (rb_iter T tr)"
  by (simp add: tree_laws_def)

lemma lib_lawsD:
  assumes "lib_laws L"
  shows "tree_laws (eligible_tree L)" "tree_laws (ineligible_tree L)" "list_laws (rt_list L)" "0 < base_slice L" "base_slice L \<le> usize_max"
  using assms by (simp_all add: lib_laws_def)

lemma inv_trees:
  assumes "eevdf_core L s"
  shows "sorted_wrt (\<lambda>a b. eligible_key (tasks s a) \<le> eligible_key (tasks s b)) (el L s)"
    and "sorted_wrt (\<lambda>a b. ineligible_key (tasks s a) \<le> ineligible_key (tasks s b)) (il L s)"
    and "distinct (el L s)" and "distinct (il L s)" and "t \<in> set (el L s) \<Longrightarrow> t \<notin> set (il L s)"
    and "t \<in> normals L s \<Longrightarrow> \<not> is_rt (tasks s t)" and "t \<in> set (el L s) \<Longrightarrow> vruntime (tasks s t) \<le> virtual_time s"
    and "deadline_lower_bound s = None \<Longrightarrow> il L s = []"
    and "deadline_lower_bound s = Some b \<Longrightarrow> t \<in> set (il L s) \<Longrightarrow> b \<le> virtual_deadline (tasks s t)"
  using assms by (auto simp: eevdf_core_def trees_ok_def)

text \<open>The invariant after a change of the trees that keeps the set of tasks.\<close>

lemma inv_same_normals:
  assumes "eevdf_core L s" and "trees_ok L (s\<lparr>normal_eligible := e, normal_ineligible := i, deadline_lower_bound := b\<rparr>)"
    and "normals L (s\<lparr>normal_eligible := e, normal_ineligible := i, deadline_lower_bound := b\<rparr>) = normals L s"
  shows "eevdf_core L (s\<lparr>normal_eligible := e, normal_ineligible := i, deadline_lower_bound := b\<rparr>)"
proof -
  let ?s = "s\<lparr>normal_eligible := e, normal_ineligible := i, deadline_lower_bound := b\<rparr>"
  have r: "rtq L ?s = rtq L s" "rts L ?s = rts L s" by (simp_all add: rtq_def rts_def fun_eq_iff)
  then have "queued L ?s = queued L s" using assms(3) by (simp add: queued_def)
  then show ?thesis using assms(1,2) r unfolding eevdf_core_def sums_ok_def rt_ok_def range_ok_def assms(3)
    by (simp)
qed

lemma promote_one:
  assumes laws: "lib_laws L" and inv: "eevdf_core L s" and hd: "il L s = t # ts" and le: "vruntime (tasks s t) \<le> virtual_time s"
    and s': "s' = s\<lparr>normal_ineligible := rb_remove (ineligible_tree L) t (normal_ineligible s),
               normal_eligible := rb_insert (eligible_tree L) (\<lambda>t. eligible_key (tasks s t)) t (normal_eligible s)\<rparr>"
  shows "eevdf_core L s'" and "il L s' = ts" and "normals L s' = normals L s"
proof -
  note tr = inv_trees [OF inv]
  have t: "t \<in> set (il L s)" "t \<notin> set (el L s)" using hd tr(5) [of t] by auto
  show i': "il L s' = ts" using hd tree_remove [OF lib_lawsD(2) [OF laws]] by (simp add: s' il_def)
  note ins = tree_insert [OF lib_lawsD(1) [OF laws], of "\<lambda>t. eligible_key (tasks s t)" "normal_eligible s" t, folded el_def]
  have e': "sorted_wrt (\<lambda>a b. eligible_key (tasks s a) \<le> eligible_key (tasks s b)) (el L s')" "set (el L s') = insert t (set (el L s))"
    "distinct (el L s')" using ins tr(1,3) t(2) by (simp_all add: s' el_def)
  show n: "normals L s' = normals L s" using hd i' e'(2) by (auto simp: normals_def)
  have eq: "s' = s\<lparr>normal_eligible := normal_eligible s', normal_ineligible := normal_ineligible s',
      deadline_lower_bound := deadline_lower_bound s\<rparr>" by (simp add: s')
  have d: "distinct ts" "t \<notin> set ts" "sorted_wrt (\<lambda>a b. ineligible_key (tasks s a) \<le> ineligible_key (tasks s b)) ts"
    using tr(2,4) hd by auto
  have "set (el L s') \<inter> set (il L s') = {}" using e'(2) i' d(2) tr(5) hd by auto
  moreover have "vruntime (tasks s x) \<le> virtual_time s" if "x \<in> set (el L s')" for x using that e'(2) le tr(7) by auto
  moreover have "tasks s' = tasks s" "virtual_time s' = virtual_time s" "deadline_lower_bound s' = deadline_lower_bound s"
    by (simp_all add: s')
  ultimately have "trees_ok L s'"
    using e' d i' tr(6,8,9) hd unfolding trees_ok_def n by auto
  then show "eevdf_core L s'" using inv_same_normals [OF inv] n eq by metis
qed

lemma promote_loop_spec:
  assumes "lib_laws L" and "eevdf_core L s" and "vt \<le> virtual_time s" and "length (il L s) \<le> n"
    and "promote_loop L n vt p s = (s', p')"
  shows "eevdf_core L s' \<and> normals L s' = normals L s \<and> (\<forall>t\<in>set (il L s'). vt < vruntime (tasks s t)) \<and>
    s' = s\<lparr>normal_eligible := normal_eligible s', normal_ineligible := normal_ineligible s'\<rparr>"
  using assms(2-)
proof (induction n arbitrary: s p)
  case 0
  then show ?case by simp
next
  case (Suc n)
  show ?case
  proof (cases "il L s")
    case Nil
    then show ?thesis using Suc.prems by (simp add: head_of_def il_def)
  next
    case (Cons t ts)
    show ?thesis
    proof (cases "vruntime (tasks s t) \<le> vt")
      case True
      define s1 where s1: "s1 = s\<lparr>normal_ineligible := rb_remove (ineligible_tree L) t (normal_ineligible s),
               normal_eligible := rb_insert (eligible_tree L) (\<lambda>t. eligible_key (tasks s t)) t (normal_eligible s)\<rparr>"
      note one = promote_one [OF assms(1) Suc.prems(1) Cons order_trans [OF True Suc.prems(2)] s1]
      have "promote_loop L n vt True s1 = (s', p')" using Suc.prems(4) Cons True by (simp add: head_of_def il_def s1)
      moreover have f: "virtual_time s1 = virtual_time s" "tasks s1 = tasks s" by (simp_all add: s1)
      moreover have "length (il L s1) \<le> n" using one(2) Cons Suc.prems(3) by simp
      ultimately have ih: "eevdf_core L s' \<and> normals L s' = normals L s1 \<and> (\<forall>t\<in>set (il L s'). vt < vruntime (tasks s1 t)) \<and>
          s' = s1\<lparr>normal_eligible := normal_eligible s', normal_ineligible := normal_ineligible s'\<rparr>"
        using Suc.IH [OF one(1)] Suc.prems(2) by simp
      have "s1\<lparr>normal_eligible := e, normal_ineligible := i\<rparr> = s\<lparr>normal_eligible := e, normal_ineligible := i\<rparr>" for e i
        by (simp add: s1)
      then show ?thesis using ih one(3) f by metis
    next
      case False
      have "vruntime (tasks s t) \<le> vruntime (tasks s x)" if "x \<in> set ts" for x
        using inv_trees(2) [OF Suc.prems(1)] Cons that by (auto simp: ineligible_key_def less_eq_prod_def)
      then have "vt < vruntime (tasks s x)" if "x \<in> set (il L s)" for x using that Cons False by fastforce
      then show ?thesis using Suc.prems(1,4) Cons False by (simp add: head_of_def il_def)
    qed
  qed
qed

lemma promote_spec:
  assumes laws: "lib_laws L" and inv: "eevdf_core L s" and vt: "vt \<le> virtual_time s"
  obtains e i b where "promote_normal_eligible L vt s = s\<lparr>normal_eligible := e, normal_ineligible := i, deadline_lower_bound := b\<rparr>"
    and "eevdf_core L (promote_normal_eligible L vt s)" and "normals L (promote_normal_eligible L vt s) = normals L s"
    and "\<And>t. t \<in> set (il L (promote_normal_eligible L vt s)) \<Longrightarrow> vt < vruntime (tasks s t)"
proof -
  obtain s1 p where l: "promote_loop L (length (il L s)) vt False s = (s1, p)" by (rule prod.exhaust)
  note sp = promote_loop_spec [OF laws inv vt order_refl l]
  define b where "b = (if p \<and> il L s1 = [] then None else deadline_lower_bound s1)"
  define s' where "s' = s1\<lparr>deadline_lower_bound := b\<rparr>"
  have p: "promote_normal_eligible L vt s = s'"
    using l unfolding promote_normal_eligible_def il_def [symmetric]
    by (simp add: note_normal_ineligible_remove_def il_def [symmetric] s'_def b_def)
  have eq: "s' = s\<lparr>normal_eligible := normal_eligible s1, normal_ineligible := normal_ineligible s1, deadline_lower_bound := b\<rparr>"
    using sp unfolding s'_def by metis
  have v: "el L s' = el L s1" "il L s' = il L s1" "normals L s' = normals L s" using sp by (simp_all add: s'_def)
  have "trees_ok L s1" using sp by (simp add: eevdf_core_def)
  then have "trees_ok L s'" by (auto simp: trees_ok_def s'_def b_def split: if_splits)
  then have "eevdf_core L s'" using inv_same_normals [OF inv] eq v(3) by metis
  then show thesis by (intro that [OF trans [OF p eq]]) (use p v sp in simp_all)
qed

text \<open>The frame of a promotion.\<close>

lemma promote_frame:
  assumes "lib_laws L" and "eevdf_core L s" and "vt \<le> virtual_time s"
  shows "tasks (promote_normal_eligible L vt s) = tasks s" "current (promote_normal_eligible L vt s) = current s"
    "virtual_time (promote_normal_eligible L vt s) = virtual_time s" "rt_queues (promote_normal_eligible L vt s) = rt_queues s"
    "rt_bitmap (promote_normal_eligible L vt s) = rt_bitmap s" "rts L (promote_normal_eligible L vt s) = rts L s"
    "normals L (promote_normal_eligible L vt s) = normals L s" "queued L (promote_normal_eligible L vt s) = queued L s"
    "normal_preemption_cache (promote_normal_eligible L vt s) = normal_preemption_cache s"
    "eevdf_core L (promote_normal_eligible L vt s)"
    "normal_task_count (promote_normal_eligible L vt s) = normal_task_count s"
  by (rule promote_spec [OF assms], simp add: rts_def rtq_def queued_def)+

lemma promote_ineligible:
  assumes "lib_laws L" and "eevdf_core L s" and "vt \<le> virtual_time s" and "t \<in> set (il L (promote_normal_eligible L vt s))"
  shows "vt < vruntime (tasks s t)"
  by (rule promote_spec [OF assms(1-3)]) (use assms(4) in blast)

section \<open>Inserting and removing ordinary tasks\<close>

lemma inv_sums:
  assumes "eevdf_core L s"
  shows "normal_task_count s = card (normals L s)" and "normal_total_weight s = (\<Sum>t\<in>normals L s. weight (tasks s t))"
    and "normal_weighted_vruntime s = (\<Sum>t\<in>normals L s. vruntime (tasks s t) * weight (tasks s t))"
    and "card (normals L s) \<le> max_tasks" and "finite (normals L s)" and "task_ok (tasks s t)"
  using assms by (simp_all add: inv_defs) (simp add: normals_def)

text \<open>
  A state with a task more in one of the trees. The other conditions of the invariant follow from those on
  the trees and the range of the sums.
\<close>

lemma inv_inserted:
  assumes inv: "eevdf_core L s" and t: "t \<notin> queued L s" "current s \<noteq> Some t" and n: "card (normals L s) < max_tasks"
    and s': "normals L s' = insert t (normals L s)" "rts L s' = rts L s" "rtq L s' = rtq L s" "trees_ok L s'" "tasks s' = tasks s"
      "rt_queues s' = rt_queues s" "rt_bitmap s' = rt_bitmap s" "current s' = current s" "range_ok s'"
      "normal_task_count s' = saturating_add (normal_task_count s) 1"
      "normal_total_weight s' = saturating_add_u128 (normal_total_weight s) (weight (tasks s t))"
      "normal_weighted_vruntime s' = saturating_add_u128 (normal_weighted_vruntime s)
         (saturating_mul_u128 (vruntime (tasks s t)) (weight (tasks s t)))"
  shows "eevdf_core L s'"
proof -
  note sm = inv_sums [OF inv]
  have tn: "t \<notin> normals L s" using t(1) by (simp add: queued_def)
  have b: "(\<Sum>t\<in>insert t (normals L s). weight (tasks s t)) \<le> 2 ^ 57"
    "(\<Sum>t\<in>insert t (normals L s). vruntime (tasks s t) * weight (tasks s t)) \<le> 2 ^ 121"
    using sums_bound [of "insert t (normals L s)" "tasks s"] sm(5,6) n tn by simp_all
  have "sums_ok L s'"
    unfolding sums_ok_def s'(1,5,10-12) using sm n tn b
    by (simp add: saturating_add_def saturating_add_u128_def add.commute)
  moreover have "rt_ok L s'" using inv unfolding eevdf_core_def rt_ok_def s' by simp
  moreover have "queued L s' = insert t (queued L s)" by (simp add: queued_def s')
  ultimately show ?thesis using inv t s'(4,8,9) by (auto simp: eevdf_core_def)
qed

text \<open>The two insertions into a tree.\<close>

lemma inv_insert_eligible:
  assumes laws: "lib_laws L" and inv: "eevdf_core L s" and t: "t \<notin> queued L s" "\<not> is_rt (tasks s t)" "vruntime (tasks s t) \<le> virtual_time s"
    and s': "normal_eligible s' = rb_insert (eligible_tree L) (\<lambda>t. eligible_key (tasks s t)) t (normal_eligible s)"
      "normal_ineligible s' = normal_ineligible s" "deadline_lower_bound s' = deadline_lower_bound s" "tasks s' = tasks s"
      "virtual_time s' = virtual_time s"
  shows "trees_ok L s'" and "normals L s' = insert t (normals L s)"
proof -
  note tr = inv_trees [OF inv]
  have nt: "t \<notin> set (el L s)" "t \<notin> set (il L s)" using t(1) by (simp_all add: queued_def normals_def)
  note ins = tree_insert [OF lib_lawsD(1) [OF laws], of "\<lambda>t. eligible_key (tasks s t)" "normal_eligible s" t, folded el_def]
  have e: "sorted_wrt (\<lambda>a b. eligible_key (tasks s a) \<le> eligible_key (tasks s b)) (el L s')" "set (el L s') = insert t (set (el L s))"
    "distinct (el L s')" using ins tr(1,3) nt by (simp_all add: s' el_def)
  have i: "il L s' = il L s" by (simp add: il_def s')
  show n: "normals L s' = insert t (normals L s)" using e(2) i by (simp add: normals_def)
  show "trees_ok L s'" unfolding trees_ok_def n i s' using e tr t nt by (auto simp: s')
qed

lemma inv_insert_ineligible:
  assumes laws: "lib_laws L" and inv: "eevdf_core L s" and t: "t \<notin> queued L s" "\<not> is_rt (tasks s t)"
    and s': "normal_ineligible s' = rb_insert (ineligible_tree L) (\<lambda>t. ineligible_key (tasks s t)) t (normal_ineligible s)"
      "normal_eligible s' = normal_eligible s" "tasks s' = tasks s" "virtual_time s' = virtual_time s"
      "deadline_lower_bound s' = Some (case deadline_lower_bound s of None \<Rightarrow> virtual_deadline (tasks s t)
         | Some b \<Rightarrow> min b (virtual_deadline (tasks s t)))"
  shows "trees_ok L s'" and "normals L s' = insert t (normals L s)"
proof -
  note tr = inv_trees [OF inv]
  have nt: "t \<notin> set (el L s)" "t \<notin> set (il L s)" using t(1) by (simp_all add: queued_def normals_def)
  note ins = tree_insert [OF lib_lawsD(2) [OF laws], of "\<lambda>t. ineligible_key (tasks s t)" "normal_ineligible s" t, folded il_def]
  have i: "sorted_wrt (\<lambda>a b. ineligible_key (tasks s a) \<le> ineligible_key (tasks s b)) (il L s')" "set (il L s') = insert t (set (il L s))"
    "distinct (il L s')" using ins tr(2,4) nt by (simp_all add: s' il_def)
  have e: "el L s' = el L s" by (simp add: el_def s')
  show n: "normals L s' = insert t (normals L s)" using i(2) e by (simp add: normals_def)
  have "b \<le> virtual_deadline (tasks s x)" if "deadline_lower_bound s' = Some b" "x \<in> set (il L s')" for b x
    using that i(2) tr(8,9) by (cases "deadline_lower_bound s") (auto simp: s' min_le_iff_disj)
  then show "trees_ok L s'" unfolding trees_ok_def n e using i tr t nt by (auto simp: s')
qed

lemma insert_normal_spec:
  assumes laws: "lib_laws L" and inv: "eevdf_core L s" and t: "t \<notin> queued L s" "\<not> is_rt (tasks s t)" "current s \<noteq> Some t"
    and n: "card (normals L s) < max_tasks" and s': "s' = insert_normal L t s"
  shows "eevdf_core L s'" and "normals L s' = insert t (normals L s)" and "rts L s' = rts L s" and "current s' = current s"
    and "normal_preemption_cache s' = None"
    and "\<exists>q. tasks s' = (tasks s)(t := (tasks s t)\<lparr>queue_id := q\<rparr>)"
proof -
  define s1 where "s1 = update_virtual_time s"
  define s2 where "s2 = promote_normal_eligible L (virtual_time s1) s1"
  define s3 where "s3 = next_sequence s2"
  define s4 where "s4 = upd_task t (\<lambda>k. k\<lparr>queue_id := sequence_no s3\<rparr>) s3"
  define s5 where "s5 = (account_normal_insert t s4)\<lparr>normal_task_count := saturating_add (normal_task_count (account_normal_insert t s4)) 1\<rparr>"
  define s6 where "s6 = (if vruntime (tasks s5 t) \<le> virtual_time s1
      then s5\<lparr>normal_eligible := rb_insert (eligible_tree L) (\<lambda>t. eligible_key (tasks s5 t)) t (normal_eligible s5)\<rparr>
      else insert_normal_ineligible L t s5)"
  define s7 where "s7 = update_virtual_time s6"
  have c1: "eevdf_core L s1" using inv_update_virtual_time [OF inv] by (simp add: s1_def)
  note p2 = promote_frame [OF laws c1 order_refl, folded s2_def]
  have c3: "eevdf_core L s3" using inv_sequence [OF p2(10)] by (simp add: s3_def)
  have v: "queued L s3 = queued L s" "normals L s3 = normals L s" "rts L s3 = rts L s" "tasks s3 = tasks s" "current s3 = current s"
    "virtual_time s3 = virtual_time s1" using p2 by (simp_all add: s3_def s1_def)
  have "sequence_no s3 \<le> usize_max" using c3 by (simp add: eevdf_core_def range_ok_def)
  then have c4: "eevdf_core L s4" unfolding s4_def
    by (intro inv_upd_task [OF c3]) (use t(1) v c3 inv_sums(6) [OF c3, of t] in \<open>simp_all add: task_ok_def\<close>)
  have t4: "t \<notin> queued L s4" "\<not> is_rt (tasks s4 t)" "current s4 \<noteq> Some t" "card (normals L s4) < max_tasks"
    using t n v by (simp_all add: s4_def is_rt_def)
  have f5: "normal_eligible s5 = normal_eligible s4" "normal_ineligible s5 = normal_ineligible s4" "tasks s5 = tasks s4"
    "deadline_lower_bound s5 = deadline_lower_bound s4" "virtual_time s5 = virtual_time s4"
    by (simp_all add: s5_def account_normal_insert_def Let_def)
  have 6: "trees_ok L s6 \<and> normals L s6 = insert t (normals L s4)"
  proof (cases "vruntime (tasks s5 t) \<le> virtual_time s1")
    case True
    then show ?thesis
      using inv_insert_eligible [OF laws c4 t4(1,2), of s6] f5 v(6) by (simp add: s6_def s4_def)
  next
    case False
    then show ?thesis
      using inv_insert_ineligible [OF laws c4 t4(1,2), of s6] f5 by (simp add: s6_def insert_normal_ineligible_def Let_def)
  qed
  have c6: "eevdf_core L s6"
    by (rule inv_inserted [OF c4 t4(1,3,4)])
      (use 6 c4 in \<open>simp_all add: s6_def s5_def account_normal_insert_def insert_normal_ineligible_def Let_def
        rts_def rtq_def fun_eq_iff eevdf_core_def range_ok_def\<close>)
  have c7: "eevdf_core L s7" using inv_update_virtual_time [OF c6] by (simp add: s7_def)
  note p8 = promote_frame [OF laws c7 order_refl]
  have s': "s' = (promote_normal_eligible L (virtual_time s7) s7)\<lparr>normal_preemption_cache := None\<rparr>"
    unfolding s' insert_normal_def s7_def s6_def s5_def s4_def s3_def s2_def s1_def Let_def by (rule refl)
  show "eevdf_core L s'" using p8(10) by (simp add: s' inv_defs)
  have f6: "tasks s6 = tasks s4" "rts L s6 = rts L s4" "current s6 = current s4"
    by (simp_all add: s6_def s5_def account_normal_insert_def insert_normal_ineligible_def Let_def rts_def rtq_def)
  show "normals L s' = insert t (normals L s)" "rts L s' = rts L s" "current s' = current s" "normal_preemption_cache s' = None"
    using p8 6 f6 v by (simp_all add: s' s7_def s4_def)
  show "\<exists>q. tasks s' = (tasks s)(t := (tasks s t)\<lparr>queue_id := q\<rparr>)"
    using p8(1) f6(1) v(4) by (auto simp: s' s7_def s4_def)
qed

text \<open>The trees without a task, as the three removals leave them.\<close>

definition removed_from_trees :: "('te, 'ti, 'li) sched_lib \<Rightarrow> nat \<Rightarrow> ('te, 'ti, 'li) eevdf \<Rightarrow> ('te, 'ti, 'li) eevdf \<Rightarrow> bool" where
  "removed_from_trees L t s s' \<longleftrightarrow>
     t \<in> set (el L s) \<and> s' = s\<lparr>normal_eligible := rb_remove (eligible_tree L) t (normal_eligible s)\<rparr> \<or>
     t \<in> set (il L s) \<and>
       s' = note_normal_ineligible_remove L (s\<lparr>normal_ineligible := rb_remove (ineligible_tree L) t (normal_ineligible s)\<rparr>)"

lemma removed_from_trees_spec:
  assumes laws: "lib_laws L" and inv: "eevdf_core L s" and r: "removed_from_trees L t s s'"
  shows "trees_ok L s'" and "normals L s' = normals L s - {t}" and "t \<in> normals L s"
    and "\<exists>e i b. s' = s\<lparr>normal_eligible := e, normal_ineligible := i, deadline_lower_bound := b\<rparr>"
proof -
  note tr = inv_trees [OF inv]
  from r consider
      (e) "t \<in> set (el L s)" "s' = s\<lparr>normal_eligible := rb_remove (eligible_tree L) t (normal_eligible s)\<rparr>"
    | (i) "t \<in> set (il L s)"
       "s' = note_normal_ineligible_remove L (s\<lparr>normal_ineligible := rb_remove (ineligible_tree L) t (normal_ineligible s)\<rparr>)"
    by (auto simp: removed_from_trees_def)
  then have "trees_ok L s' \<and> normals L s' = normals L s - {t} \<and> t \<in> normals L s \<and>
    s' = s\<lparr>normal_eligible := normal_eligible s', normal_ineligible := normal_ineligible s', deadline_lower_bound := deadline_lower_bound s'\<rparr>"
  proof cases
    case e
    have v: "el L s' = remove1 t (el L s)" "il L s' = il L s"
      using tree_remove [OF lib_lawsD(1) [OF laws]] by (simp_all add: e(2) el_def il_def)
    have n: "normals L s' = normals L s - {t}" using tr(3) tr(5) [OF e(1)] v by (auto simp: normals_def)
    have "trees_ok L s'" unfolding trees_ok_def v n
      using tr sorted_wrt_remove1 [OF tr(1)] by (auto simp: e(2) distinct_remove1 dest: notin_set_remove1)
    then show ?thesis using n e by (simp add: normals_def)
  next
    case i
    let ?s1 = "s\<lparr>normal_ineligible := rb_remove (ineligible_tree L) t (normal_ineligible s)\<rparr>"
    have i1: "il L ?s1 = remove1 t (il L s)" using tree_remove [OF lib_lawsD(2) [OF laws]] by (simp add: il_def)
    define b where "b = (if remove1 t (il L s) = [] then None else deadline_lower_bound s)"
    have s': "s' = ?s1\<lparr>deadline_lower_bound := b\<rparr>"
      using i1 unfolding il_def by (simp add: i(2) note_normal_ineligible_remove_def b_def il_def)
    have v: "il L s' = remove1 t (il L s)" "el L s' = el L s" using i1 by (simp_all add: s' el_def)
    have n: "normals L s' = normals L s - {t}" using tr(4) tr(5) i(1) v by (auto simp: normals_def)
    have "trees_ok L s'" unfolding trees_ok_def v n
      using tr sorted_wrt_remove1 [OF tr(2)] by (auto simp: s' b_def distinct_remove1 dest: notin_set_remove1 split: if_splits)
    then show ?thesis using n i(1) s' by (simp add: normals_def)
  qed
  then show "trees_ok L s'" "normals L s' = normals L s - {t}" "t \<in> normals L s"
    "\<exists>e i b. s' = s\<lparr>normal_eligible := e, normal_ineligible := i, deadline_lower_bound := b\<rparr>" by blast+
qed

lemma finish_remove_spec:
  assumes laws: "lib_laws L" and inv: "eevdf_core L s" and r: "removed_from_trees L t s s1" and s': "s' = finish_normal_remove t s1"
  shows "eevdf_core L s'" and "normals L s' = normals L s - {t}" and "rts L s' = rts L s" and "rtq L s' = rtq L s"
    and "current s' = current s" and "tasks s' = tasks s" and "normal_preemption_cache s' = None" and "virtual_time s' = virtual_time s"
    and "rt_bitmap s' = rt_bitmap s"
proof -
  note sp = removed_from_trees_spec [OF laws inv r]
  obtain e i b where s1: "s1 = s\<lparr>normal_eligible := e, normal_ineligible := i, deadline_lower_bound := b\<rparr>" using sp(4) by blast
  note sm = inv_sums [OF inv]
  have f: "tasks s' = tasks s" "current s' = current s" "virtual_time s' = virtual_time s" "rt_bitmap s' = rt_bitmap s"
    "rt_queues s' = rt_queues s" "normal_preemption_cache s' = None" "normal_task_count s' = normal_task_count s - 1"
    "normal_total_weight s' = normal_total_weight s - weight (tasks s t)"
    "normal_weighted_vruntime s' = normal_weighted_vruntime s - vruntime (tasks s t) * weight (tasks s t)"
    "clock_ns s' = clock_ns s" "sequence_no s' = sequence_no s" "deadline_lower_bound s' = deadline_lower_bound s1"
    using sm(6) [of t] by (simp_all add: s' finish_normal_remove_def account_normal_remove_def Let_def s1)
  have v: "el L s' = el L s1" "il L s' = il L s1" by (simp_all add: s' finish_normal_remove_def account_normal_remove_def Let_def el_def il_def)
  have r: "rtq L s' = rtq L s" by (simp add: rtq_def f fun_eq_iff)
  have n: "normals L s' = normals L s - {t}" using sp(2) v by (simp add: normals_def)
  show "eevdf_core L s'"
  proof -
    have "trees_ok L s'" using sp(1) unfolding trees_ok_def v n sp(2) f by (simp add: s1)
    moreover have "sums_ok L s'"
      unfolding sums_ok_def n f using sm sp(3) by (simp add: sum_diff1_nat)
    moreover have "rt_ok L s'" "range_ok s'" using inv unfolding eevdf_core_def rt_ok_def range_ok_def r f by simp_all
    moreover have "queued L s' \<subseteq> queued L s" by (auto simp: queued_def n rts_def r)
    ultimately show ?thesis using inv unfolding eevdf_core_def f by blast
  qed
  show "normals L s' = normals L s - {t}" "rts L s' = rts L s" "rtq L s' = rtq L s" "current s' = current s" "tasks s' = tasks s"
    "normal_preemption_cache s' = None" "virtual_time s' = virtual_time s" "rt_bitmap s' = rt_bitmap s"
    using n r f by (simp_all add: rts_def)
qed

section \<open>Real-time queues\<close>

lemma rt_index_less: "is_rt k \<Longrightarrow> rt_index k < 99"
  by (auto simp: is_rt_def rt_index_def)

lemma inv_rt:
  assumes "eevdf_core L s"
  shows "length (rt_queues s) = 99" and "bit (rt_bitmap s) i \<longleftrightarrow> i < 99 \<and> rtq L s i \<noteq> []"
    and "i < 99 \<Longrightarrow> distinct (rtq L s i)" and "i < 99 \<Longrightarrow> t \<in> set (rtq L s i) \<Longrightarrow> is_rt (tasks s t) \<and> rt_index (tasks s t) = i"
  using assms by (simp_all add: inv_defs)

lemma rt_change:
  assumes inv: "eevdf_core L s" and i: "i < 99" and xs: "ll_iter (rt_list L) q = xs" "distinct xs"
      "\<And>t. t \<in> set xs \<Longrightarrow> is_rt (tasks s t) \<and> rt_index (tasks s t) = i"
    and bm: "\<And>j. bit bm j \<longleftrightarrow> (if j = i then xs \<noteq> [] else bit (rt_bitmap s) j)"
    and cur: "\<And>c. current s = Some c \<Longrightarrow> c \<notin> set xs"
    and s': "s' = s\<lparr>rt_queues := (rt_queues s)[i := q], rt_bitmap := bm\<rparr>"
  shows "eevdf_core L s'" and "normals L s' = normals L s" and "rtq L s' = (rtq L s)(i := xs)"
    and "el L s' = el L s" and "il L s' = il L s"
proof -
  note rt = inv_rt [OF inv]
  show e: "el L s' = el L s" "il L s' = il L s" by (simp_all add: s' el_def il_def)
  show n: "normals L s' = normals L s" by (simp add: normals_def e)
  show r: "rtq L s' = (rtq L s)(i := xs)" using i rt(1) xs(1) by (auto simp: rtq_def s' fun_eq_iff)
  have "rt_ok L s'"
    unfolding rt_ok_def r using rt(1) rt(3,4) i xs(2,3) by (auto simp: s' bm rt(2))
  moreover have "trees_ok L s'" "sums_ok L s'" "range_ok s'"
    using inv unfolding eevdf_core_def trees_ok_def sums_ok_def range_ok_def n e by (simp_all add: s')
  moreover have "c \<notin> queued L s'" if "current s' = Some c" for c
  proof -
    have c: "current s = Some c" using that by (simp add: s')
    then have "c \<notin> queued L s" using inv by (simp add: eevdf_core_def)
    then show ?thesis using cur [OF c] by (auto simp: queued_def n rts_def r)
  qed
  ultimately show "eevdf_core L s'" by (simp add: eevdf_core_def)
qed

lemma rts_iff:
  assumes "eevdf_core L s"
  shows "t \<in> rts L s \<longleftrightarrow> is_rt (tasks s t) \<and> t \<in> set (rtq L s (rt_index (tasks s t)))"
  using inv_rt(4) [OF assms] rt_index_less [of "tasks s t"] by (auto simp: rts_def)

text \<open>A task is added to its queue.\<close>

lemma rt_push:
  assumes inv: "eevdf_core L s" and t: "t \<notin> queued L s" "is_rt (tasks s t)" "current s \<noteq> Some t"
    and q: "distinct (ll_iter (rt_list L) q)" "set (ll_iter (rt_list L) q) = insert t (set (rtq L s (rt_index (tasks s t))))"
    and s': "s' = s\<lparr>rt_queues := (rt_queues s)[rt_index (tasks s t) := q], rt_bitmap := rt_bitmap s OR push_bit (rt_index (tasks s t)) 1\<rparr>"
  shows "eevdf_core L s'" and "normals L s' = normals L s" and "rts L s' = insert t (rts L s)"
proof -
  let ?i = "rt_index (tasks s t)"
  have i: "?i < 99" using t(2) by (rule rt_index_less)
  have el: "is_rt (tasks s x) \<and> rt_index (tasks s x) = ?i" if "x \<in> set (ll_iter (rt_list L) q)" for x
    using that q(2) t(2) inv_rt(4) [OF inv i] by auto
  have bm: "bit (rt_bitmap s OR push_bit ?i 1) j \<longleftrightarrow> (if j = ?i then ll_iter (rt_list L) q \<noteq> [] else bit (rt_bitmap s) j)" for j
    using i q(2) by (auto simp: bit_simps)
  have cur: "c \<notin> set (ll_iter (rt_list L) q)" if "current s = Some c" for c
  proof -
    have "c \<notin> queued L s" using inv that by (simp add: eevdf_core_def)
    then show ?thesis using q(2) t(3) that i by (auto simp: queued_def rts_def)
  qed
  note ch = rt_change [OF inv i refl q(1) el bm cur s']
  show "eevdf_core L s'" "normals L s' = normals L s" using ch(1,2) by simp_all
  have "rtq L s' = (rtq L s)(?i := ll_iter (rt_list L) q)" using ch(3) by simp
  then show "rts L s' = insert t (rts L s)" using i q(2) by (auto simp: rts_def split: if_splits)
qed

text \<open>A task is taken out of its queue.\<close>

lemma rt_take:
  assumes inv: "eevdf_core L s" and i: "i < 99" and t: "t \<in> set (rtq L s i)"
    and q: "ll_iter (rt_list L) q = remove1 t (rtq L s i)"
    and s': "s' = clear_if_empty L i (s\<lparr>rt_queues := (rt_queues s)[i := q]\<rparr>)"
  shows "eevdf_core L s'" and "normals L s' = normals L s" and "rts L s' = rts L s - {t}" and "tasks s' = tasks s" and "current s' = current s"
    and "normal_preemption_cache s' = normal_preemption_cache s" and "virtual_time s' = virtual_time s"
proof -
  note rt = inv_rt [OF inv]
  let ?xs = "remove1 t (rtq L s i)"
  define bm where "bm = (if ?xs = [] then rt_bitmap s AND NOT (push_bit i 1) else rt_bitmap s)"
  have s'': "s' = s\<lparr>rt_queues := (rt_queues s)[i := q], rt_bitmap := bm\<rparr>"
    using i rt(1) q by (simp add: s' clear_if_empty_def bm_def)
  have bits: "bit bm j \<longleftrightarrow> (if j = i then ?xs \<noteq> [] else bit (rt_bitmap s) j)" for j
    using i rt(2) [of i] rt(2) [of j] t by (auto simp: bm_def bit_simps)
  have xs: "distinct ?xs" "\<And>x. x \<in> set ?xs \<Longrightarrow> is_rt (tasks s x) \<and> rt_index (tasks s x) = i"
    using rt(3) [OF i] rt(4) [OF i] by (auto simp: distinct_remove1 dest: notin_set_remove1)
  have cur: "c \<notin> set ?xs" if "current s = Some c" for c
    using inv that i by (auto simp: eevdf_core_def queued_def rts_def dest: notin_set_remove1)
  note ch = rt_change [OF inv i q xs bits cur s'']
  show "eevdf_core L s'" "normals L s' = normals L s" using ch(1,2) by simp_all
  have "t \<notin> set (rtq L s j)" if "j < 99" "j \<noteq> i" for j using rt(4) [OF i t] rt(4) [OF that(1)] that(2) by blast
  moreover have "rtq L s' = (rtq L s)(i := ?xs)" using ch(3) by simp
  ultimately show "rts L s' = rts L s - {t}" using i rt(3) [OF i] by (auto simp: rts_def split: if_splits)
  show "tasks s' = tasks s" "current s' = current s" "normal_preemption_cache s' = normal_preemption_cache s"
    "virtual_time s' = virtual_time s" by (simp_all add: s'')
qed

end
