(* ===== verification/Eevdf_Ops.thy ===== *)
theory Eevdf_Ops
  imports Eevdf_Inv
begin

text \<open>
  The steps on the queues keep the invariant: promotion of tasks that became eligible, insertion and removal of
  ordinary tasks with their accounting, the real-time queues, and the placement of a task when it is enqueued.
\<close>

section \<open>Fields of one task\<close>

lemma saturating_add_le [simp]: "saturating_add a b \<le> usize_max"
  by (simp add: saturating_add_def)

lemma lag_limit_bounds: "0 \<le> lag_limit L k" "lag_limit L k \<le> i64_max"
  by (simp_all add: lag_limit_def)

lemma task_ok_account [simp]: "task_ok k \<Longrightarrow> now_ns \<le> usize_max \<Longrightarrow> task_ok (account_runtime now_ns b k)"
  by (auto simp: task_ok_def account_runtime_def Let_def intro: order_trans [OF diff_le_self])

lemma task_ok_save_lag [simp]: "task_ok k \<Longrightarrow> vt \<le> usize_max \<Longrightarrow> task_ok (save_lag L vt k)"
  using lag_limit_bounds [of L k] by (auto simp: task_ok_def save_lag_def clamp_int_def)

lemma task_ok_refresh [simp]: "task_ok k \<Longrightarrow> task_ok (refresh_deadline L b k)"
  by (simp add: task_ok_def refresh_deadline_def)

lemma task_ok_start [simp]: "task_ok k \<Longrightarrow> now_ns \<le> usize_max \<Longrightarrow> task_ok (start_running now_ns k)"
  by (simp add: task_ok_def start_running_def)

lemma task_ok_slice [simp]: "task_ok k \<Longrightarrow> task_ok (reset_rt_slice k)" "task_ok k \<Longrightarrow> task_ok (set_rt_policy p k)"
  by (simp_all add: task_ok_def reset_rt_slice_def set_rt_policy_def Let_def)

lemma priority_simps [simp]:
  "priority (account_runtime now_ns b k) = priority k" "priority (save_lag L vt k) = priority k"
  "priority (refresh_deadline L b k) = priority k" "priority (start_running now_ns k) = priority k"
  "priority (reset_rt_slice k) = priority k" "priority (set_rt_policy p k) = priority k"
  by (simp_all add: account_runtime_def Let_def save_lag_def refresh_deadline_def start_running_def reset_rt_slice_def set_rt_policy_def)

lemma task_same_save_lag [simp]: "task_same k (save_lag L vt k)" "task_same k (reset_rt_slice k)" "task_same k (set_rt_policy p k)"
  by (simp_all add: task_same_def save_lag_def reset_rt_slice_def set_rt_policy_def Let_def)

section \<open>Changes of a task that is not queued\<close>

definition quiet :: "('te, 'ti, 'li) sched_lib \<Rightarrow> nat \<Rightarrow> ('te, 'ti, 'li) eevdf \<Rightarrow> ('te, 'ti, 'li) eevdf \<Rightarrow> bool" where
  "quiet L t s s' \<longleftrightarrow> eevdf_core L s' \<and> normals L s' = normals L s \<and> rts L s' = rts L s \<and>
     (\<forall>x. x \<noteq> t \<longrightarrow> tasks s' x = tasks s x) \<and> priority (tasks s' t) = priority (tasks s t) \<and>
     virtual_time s \<le> virtual_time s' \<and> normal_preemption_cache s' = normal_preemption_cache s \<and>
     (current s' = current s \<or> current s = Some t \<and> current s' = None) \<and>
     rt_queues s' = rt_queues s \<and> rt_bitmap s' = rt_bitmap s"

lemma quiet_refl: "eevdf_core L s \<Longrightarrow> quiet L t s s"
  by (simp add: quiet_def)

lemma quiet_trans: "quiet L t s s1 \<Longrightarrow> quiet L t s1 s2 \<Longrightarrow> quiet L t s s2"
  by (auto simp: quiet_def)

lemma quietD:
  assumes "quiet L t s s'"
  shows "eevdf_core L s'" "normals L s' = normals L s" "rts L s' = rts L s" "queued L s' = queued L s"
    "is_rt (tasks s' t) = is_rt (tasks s t)" "virtual_time s \<le> virtual_time s'"
    "normal_preemption_cache s' = normal_preemption_cache s" "x \<noteq> t \<Longrightarrow> tasks s' x = tasks s x"
    "current s \<noteq> Some t \<Longrightarrow> current s' = current s"
  using assms by (auto simp: quiet_def queued_def is_rt_def)

lemma quiet_cache:
  assumes "quiet L t s s'" and "cache_ok L s" and "t \<notin> queued L s"
  shows "cache_ok L s'"
proof (rule cache_okI [OF assms(2)])
  show "task_same (tasks s x) (tasks s' x)" if "x \<in> normals L s" for x
    using that assms(3) quietD(8) [OF assms(1), of x] by (cases "x = t") (simp_all add: queued_def)
qed (use quietD [OF assms(1)] in simp_all)

lemma quiet_clock: "eevdf_core L s \<Longrightarrow> now_ns \<le> usize_max \<Longrightarrow> quiet L t s (advance_clock now_ns s)"
  by (simp add: quiet_def inv_clock)

lemma quiet_virtual_time: "eevdf_core L s \<Longrightarrow> quiet L t s (update_virtual_time s)"
  by (simp add: quiet_def inv_update_virtual_time)

lemma quiet_upd:
  assumes "eevdf_core L s" and "t \<notin> queued L s \<or> task_same (tasks s t) (f (tasks s t))" and "task_ok (f (tasks s t))"
    and "priority (f (tasks s t)) = priority (tasks s t)"
  shows "quiet L t s (upd_task t f s)"
  using inv_upd_task [of L s t f] assms by (simp add: quiet_def)

lemma core_range:
  assumes "eevdf_core L s"
  shows "task_ok (tasks s t)" "virtual_time s \<le> usize_max" "clock_ns s \<le> usize_max"
  using assms by (simp_all add: inv_defs)

lemma quiet_stop:
  assumes inv: "eevdf_core L s" and t: "t \<notin> queued L s" and now: "now_ns \<le> usize_max"
  shows "quiet L t s (stop_task L t now_ns s)" and "current (stop_task L t now_ns s) \<noteq> Some t"
proof -
  define s1 where "s1 = upd_task t (account_runtime now_ns False) s"
  define s2 where "s2 = (if \<not> is_rt (tasks s1 t)
    then upd_task t (save_lag L (virtual_time (update_virtual_time s1))) (update_virtual_time s1) else s1)"
  have q1: "quiet L t s s1" unfolding s1_def by (rule quiet_upd [OF inv]) (use t now core_range [OF inv] in simp_all)
  note c1 = quietD(1) [OF q1]
  have q2: "quiet L t s1 s2"
  proof (cases "is_rt (tasks s1 t)")
    case False
    note q = quiet_virtual_time [OF c1, of t]
    have "quiet L t (update_virtual_time s1) s2" unfolding s2_def using False
      by (simp, intro quiet_upd [OF quietD(1) [OF q]]) (use core_range [OF quietD(1) [OF q]] in simp_all)
    then show ?thesis by (rule quiet_trans [OF q])
  qed (simp add: s2_def quiet_refl [OF c1])
  have q: "quiet L t s s2" by (rule quiet_trans [OF q1 q2])
  have eq: "stop_task L t now_ns s =
      (if current s \<noteq> Some t \<and> \<not> is_running (tasks s t) then s else if current s = Some t then s2\<lparr>current := None\<rparr> else s2)"
    by (simp add: stop_task_def s2_def s1_def Let_def)
  have "quiet L t s (s2\<lparr>current := None\<rparr>)" if "current s = Some t"
    using q inv_current [OF quietD(1) [OF q], of None] that by (simp add: quiet_def)
  then show "quiet L t s (stop_task L t now_ns s)" using q quiet_refl [OF inv] by (simp add: eq)
  show "current (stop_task L t now_ns s) \<noteq> Some t" using q by (auto simp: eq quiet_def)
qed

section \<open>Enqueueing\<close>

lemma list_lawsD:
  assumes "lib_laws L"
  shows "ll_iter (rt_list L) (ll_push_front (rt_list L) x q) = x # ll_iter (rt_list L) q"
    "ll_iter (rt_list L) (ll_push_back (rt_list L) x q) = ll_iter (rt_list L) q @ [x]"
    "ll_iter (rt_list L) (fst (ll_pop_front (rt_list L) q)) = tl (ll_iter (rt_list L) q)"
    "snd (ll_pop_front (rt_list L) q) = head_of (ll_iter (rt_list L) q)"
    "ll_iter (rt_list L) (fst (ll_remove (rt_list L) x q)) = remove1 x (ll_iter (rt_list L) q)"
    "snd (ll_remove (rt_list L) x q) \<longleftrightarrow> x \<in> set (ll_iter (rt_list L) q)"
  using lib_lawsD(3) [OF assms] by (auto simp: list_laws_def)

lemma apply_lag_le: "vt \<le> usize_max \<Longrightarrow> apply_lag vt lag \<le> usize_max"
  by (auto simp: apply_lag_def intro: order_trans [OF diff_le_self])

lemma quiet_place:
  assumes inv: "eevdf_core L s" and t: "t \<notin> queued L s"
  shows "quiet L t s (place_task L t reason s)"
proof -
  define s1 where "s1 = update_virtual_time s"
  define s2 where "s2 = (if reason = Wake \<or> reason = Migration then upd_task t (\<lambda>k. k\<lparr>has_saved_lag := False\<rparr>) s1 else s1)"
  have q1: "quiet L t s s1" using quiet_virtual_time [OF inv] by (simp add: s1_def)
  note c1 = quietD(1) [OF q1]
  have q2: "quiet L t s1 s2"
    using quiet_upd [OF c1, of t "\<lambda>k. k\<lparr>has_saved_lag := False\<rparr>"] core_range(1) [OF c1, of t] quiet_refl [OF c1]
    by (simp add: s2_def task_same_def task_ok_def)
  note q = quiet_trans [OF q1 q2]
  note c2 = quietD(1) [OF q]
  let ?f = "\<lambda>k. k\<lparr>vruntime := apply_lag (virtual_time s2) (place_lag L reason (virtual_time s1) (tasks s1 t)),
    virtual_deadline := saturating_add (apply_lag (virtual_time s2) (place_lag L reason (virtual_time s1) (tasks s1 t))) (virtual_slice L k)\<rparr>"
  have "quiet L t s2 (upd_task t ?f s2)"
    by (rule quiet_upd [OF c2])
      (use t quietD(4) [OF q] core_range [OF c2] apply_lag_le in \<open>simp_all add: task_ok_def\<close>)
  then have "quiet L t s (upd_task t ?f s2)" by (rule quiet_trans [OF q])
  moreover have "place_task L t reason s = upd_task t ?f s2" by (simp add: place_task_def s2_def s1_def Let_def)
  ultimately show ?thesis by simp
qed

lemma quiet_yield:
  assumes inv: "eevdf_core L s" and t: "t \<notin> queued L s" and now: "now_ns \<le> usize_max"
  shows "quiet L t s (yield_task L t now_ns s)" and "current (yield_task L t now_ns s) \<noteq> Some t"
proof -
  define s1 where "s1 = update_virtual_time (stop_task L t now_ns s)"
  define s2 where "s2 = (if vruntime (tasks s1 t) \<le> virtual_time s1
    then upd_task t (\<lambda>k. k\<lparr>vruntime := max (virtual_deadline k) (vruntime k)\<rparr>) s1 else s1)"
  note st = quiet_stop [OF inv t now]
  have q1: "quiet L t s s1"
    unfolding s1_def by (rule quiet_trans [OF st(1) quiet_virtual_time [OF quietD(1) [OF st(1)]]])
  note c1 = quietD(1) [OF q1]
  have q2: "quiet L t s1 s2"
    using quiet_upd [OF c1, of t "\<lambda>k. k\<lparr>vruntime := max (virtual_deadline k) (vruntime k)\<rparr>"] core_range(1) [OF c1, of t] quiet_refl [OF c1]
      t quietD(4) [OF q1] by (simp add: s2_def task_ok_def)
  note q = quiet_trans [OF q1 q2]
  note c2 = quietD(1) [OF q]
  have "quiet L t s2 (upd_task t (refresh_deadline L True) s2)"
    by (rule quiet_upd [OF c2]) (use t quietD(4) [OF q] core_range [OF c2] in simp_all)
  moreover have eq: "yield_task L t now_ns s = upd_task t (refresh_deadline L True) s2"
    by (simp add: yield_task_def s2_def s1_def Let_def)
  ultimately show "quiet L t s (yield_task L t now_ns s)" using quiet_trans [OF q] by simp
  show "current (yield_task L t now_ns s) \<noteq> Some t" using st(2) by (simp add: eq s2_def s1_def)
qed

lemma enqueue_rt_spec:
  assumes laws: "lib_laws L" and inv: "eevdf_inv L s" and t: "t \<notin> queued L s" "is_rt (tasks s t)" and now: "now_ns \<le> usize_max"
  shows "eevdf_inv L (enqueue_rt L t reason now_ns s)" and "queued L (enqueue_rt L t reason now_ns s) = insert t (queued L s)"
proof -
  define s1 where "s1 = stop_task L t now_ns s"
  define front where "front = (reason = Preempt \<and>
    (\<not> is_round_robin (tasks s1 t) \<or> is_round_robin (tasks s1 t) \<and> reason = Preempt \<and> rt_remaining (tasks s1 t) > 0))"
  define s2 where "s2 = (if \<not> front \<and> is_round_robin (tasks s1 t) then upd_task t reset_rt_slice s1 else s1)"
  have c: "eevdf_core L s" "cache_ok L s" using inv by (simp_all add: eevdf_inv_def)
  note st = quiet_stop [OF c(1) t(1) now, folded s1_def]
  have q2: "quiet L t s1 s2"
    using quiet_upd [OF quietD(1) [OF st(1)], of t reset_rt_slice] core_range(1) [OF quietD(1) [OF st(1)]] quiet_refl [OF quietD(1) [OF st(1)]]
    by (simp add: s2_def)
  note q = quiet_trans [OF st(1) q2]
  have i: "rt_index (tasks s2 t) = rt_index (tasks s1 t)" using q2 by (simp add: quiet_def rt_index_def)
  define qq where "qq = (if front then ll_push_front (rt_list L) t (rt_queues s2 ! rt_index (tasks s2 t))
    else ll_push_back (rt_list L) t (rt_queues s2 ! rt_index (tasks s2 t)))"
  have eq: "enqueue_rt L t reason now_ns s = s2\<lparr>rt_queues := (rt_queues s2)[rt_index (tasks s2 t) := qq],
      rt_bitmap := rt_bitmap s2 OR push_bit (rt_index (tasks s2 t)) 1\<rparr>"
    unfolding enqueue_rt_def s1_def [symmetric] Let_def front_def [symmetric] qq_def i by (simp add: s2_def)
  have cur: "current s2 \<noteq> Some t" using st(2) by (simp add: s2_def)
  have t2: "t \<notin> queued L s2" "is_rt (tasks s2 t)" using t quietD(4,5) [OF q] by simp_all
  have nt: "t \<notin> set (rtq L s2 (rt_index (tasks s2 t)))"
    using t2(1) rt_index_less [OF t2(2)] by (auto simp: queued_def rts_def)
  have ql: "distinct (ll_iter (rt_list L) qq)" "set (ll_iter (rt_list L) qq) = insert t (set (rtq L s2 (rt_index (tasks s2 t))))"
    using inv_rt(3) [OF quietD(1) [OF q] rt_index_less [OF t2(2)]] nt list_lawsD(1,2) [OF laws]
    by (auto simp: qq_def rtq_def)
  note pu = rt_push [OF quietD(1) [OF q] t2 cur ql eq]
  have "cache_ok L (enqueue_rt L t reason now_ns s)"
    by (rule cache_okI [OF quiet_cache [OF q c(2) t(1)] pu(2)]) (simp_all add: eq)
  then show "eevdf_inv L (enqueue_rt L t reason now_ns s)" using pu(1) by (simp add: eevdf_inv_def)
  show "queued L (enqueue_rt L t reason now_ns s) = insert t (queued L s)"
    using pu(2,3) quietD(2,3) [OF q] by (simp add: queued_def)
qed

lemma enqueue_at_spec:
  assumes laws: "lib_laws L" and inv: "eevdf_inv L s" and t: "t \<notin> queued L s" "reason = Spawn \<Longrightarrow> current s \<noteq> Some t"
    and n: "card (normals L s) < max_tasks" and now: "now_ns \<le> usize_max"
  shows "eevdf_inv L (enqueue_at L t reason now_ns s)" and "queued L (enqueue_at L t reason now_ns s) = insert t (queued L s)"
proof -
  have c: "eevdf_core L s" "cache_ok L s" using inv by (simp_all add: eevdf_inv_def)
  define s0 where "s0 = advance_clock now_ns s"
  have q0: "quiet L t s s0" using quiet_clock [OF c(1) now] by (simp add: s0_def)
  note c0 = quietD(1) [OF q0]
  have i0: "eevdf_inv L s0" using c0 quiet_cache [OF q0 c(2) t(1)] by (simp add: eevdf_inv_def)
  have t0: "t \<notin> queued L s0" using t(1) quietD(4) [OF q0] by simp
  have "eevdf_inv L (enqueue_at L t reason now_ns s) \<and> queued L (enqueue_at L t reason now_ns s) = insert t (queued L s)"
  proof (cases "is_rt (tasks s0 t)")
    case True
    then show ?thesis using enqueue_rt_spec [OF laws i0 t0 True now] quietD(4) [OF q0] by (simp add: enqueue_at_def s0_def)
  next
    case False
    define s1 where "s1 = (if (reason = Wake \<or> reason = Migration) \<and> current s0 = Some t then stop_task L t now_ns s0 else s0)"
    have q1: "quiet L t s0 s1" using quiet_stop(1) [OF c0 t0 now] quiet_refl [OF c0] by (simp add: s1_def)
    note c1 = quietD(1) [OF q1]
    have t1: "t \<notin> queued L s1" using t0 quietD(4) [OF q1] by simp
    define s2 where "s2 = (case reason of Preempt \<Rightarrow> upd_task t (refresh_deadline L False) (stop_task L t now_ns s1)
      | Yield \<Rightarrow> yield_task L t now_ns s1 | _ \<Rightarrow> place_task L t reason s1)"
    note st = quiet_stop [OF c1 t1 now]
    have p: "quiet L t s1 (upd_task t (refresh_deadline L False) (stop_task L t now_ns s1))"
      by (rule quiet_trans [OF st(1)], rule quiet_upd [OF quietD(1) [OF st(1)]])
        (use t1 quietD(4) [OF st(1)] core_range [OF quietD(1) [OF st(1)]] in simp_all)
    have q2: "quiet L t s1 s2"
      using p quiet_yield(1) [OF c1 t1 now] quiet_place [OF c1 t1] by (simp add: s2_def split: enqueue_reason.split)
    have pc: "current (place_task L t r s1) = current s1" for r by (simp add: place_task_def Let_def)
    have "current s2 \<noteq> Some t"
    proof (cases "reason = Preempt \<or> reason = Yield")
      case True
      then show ?thesis using st(2) quiet_yield(2) [OF c1 t1 now] by (auto simp: s2_def)
    next
      case False
      have "current s1 \<noteq> Some t"
        using quiet_stop(2) [OF c0 t0 now] t(2) quietD(9) [OF q0] False by (cases reason) (auto simp: s1_def s0_def)
      then show ?thesis using pc False by (cases reason) (simp_all add: s2_def)
    qed
    note q = quiet_trans [OF quiet_trans [OF q0 q1] q2]
    have n2: "card (normals L s2) < max_tasks" using n quietD(2) [OF q] by simp
    have t2: "t \<notin> queued L s2" "\<not> is_rt (tasks s2 t)" using t0 False quietD(4,5) [OF q2] quietD(4,5) [OF q1] by simp_all
    note ins = insert_normal_spec [OF laws quietD(1) [OF q] t2 \<open>current s2 \<noteq> Some t\<close> n2 refl]
    have "enqueue_at L t reason now_ns s = insert_normal L t s2"
      using False unfolding enqueue_at_def Let_def s0_def [symmetric] s1_def [symmetric] s2_def [symmetric] by simp
    then show ?thesis using ins quietD(2,3) [OF q] by (simp add: eevdf_inv_def queued_def cache_ok_def)
  qed
  then show "eevdf_inv L (enqueue_at L t reason now_ns s)" "queued L (enqueue_at L t reason now_ns s) = insert t (queued L s)" by simp_all
qed

end
