(* ===== verification/Eevdf_Pick.thy ===== *)
theory Eevdf_Pick
  imports Eevdf_Ops
begin

text \<open>
  The choice of the next task and the check for preemption: what the trees, the bit map and the cache compute
  is what the policy prescribes for the set of queued tasks.
\<close>

section \<open>Eligible tasks\<close>

text \<open>
  The fair virtual time, from the tasks themselves: the average of the virtual runtimes of the queued ordinary tasks and
  the current one if it is ordinary, weighted by the weights of their priorities. The virtual time follows it but
  never goes back. A task is eligible when it is not ahead of this time.
\<close>

definition competing :: "('te, 'ti, 'li) sched_lib \<Rightarrow> ('te, 'ti, 'li) eevdf \<Rightarrow> nat set" where
  "competing L s = normals L s \<union> {c. current s = Some c \<and> \<not> is_rt (tasks s c)}"

definition fair_time :: "('te, 'ti, 'li) sched_lib \<Rightarrow> ('te, 'ti, 'li) eevdf \<Rightarrow> nat" where
  "fair_time L s =
     (if competing L s = {} then virtual_time s
      else max (virtual_time s)
        ((\<Sum>t\<in>competing L s. vruntime (tasks s t) * weight (tasks s t)) div (\<Sum>t\<in>competing L s. weight (tasks s t))))"

definition eligible :: "('te, 'ti, 'li) sched_lib \<Rightarrow> ('te, 'ti, 'li) eevdf \<Rightarrow> nat set" where
  "eligible L s = {t \<in> normals L s. vruntime (tasks s t) \<le> fair_time L s}"

definition earliest :: "('a \<Rightarrow> 'k :: linorder) \<Rightarrow> 'a set \<Rightarrow> 'a \<Rightarrow> bool" where
  "earliest key A t \<longleftrightarrow> t \<in> A \<and> (\<forall>x\<in>A. key t \<le> key x)"

definition up_to_date :: "('te, 'ti, 'li) sched_lib \<Rightarrow> ('te, 'ti, 'li) eevdf \<Rightarrow> ('te, 'ti, 'li) eevdf" where
  "up_to_date L s = promote_normal_eligible L (virtual_time (update_virtual_time s)) (update_virtual_time s)"

text \<open>The incremental sums of the code give this average: they are exact and do not overflow.\<close>

lemma weighted_le:
  assumes "\<And>t. t \<in> A \<Longrightarrow> (f t :: nat) \<le> m"
  shows "(\<Sum>t\<in>A. f t * w t) \<le> m * sum w A"
  using assms by (simp add: sum_distrib_left sum_mono)

lemma competing_sums:
  assumes inv: "eevdf_core L s"
  shows "fair_sums s = (\<Sum>t\<in>competing L s. weight (tasks s t), \<Sum>t\<in>competing L s. vruntime (tasks s t) * weight (tasks s t))"
proof -
  note sm = inv_sums [OF inv]
  let ?N = "normals L s" and ?w = "\<lambda>t. weight (tasks s t)" and ?v = "\<lambda>t. vruntime (tasks s t)"
  show ?thesis
  proof (cases "\<exists>c. current s = Some c \<and> \<not> is_rt (tasks s c)")
    case False
    then have "competing L s = ?N" by (auto simp: competing_def)
    then show ?thesis using False sm(2,3) by (auto simp: fair_sums_def split: option.split)
  next
    case True
    then obtain c where c: "current s = Some c" "\<not> is_rt (tasks s c)" by blast
    then have cn: "c \<notin> ?N" using inv by (auto simp: eevdf_core_def queued_def)
    have C: "competing L s = insert c ?N" using c by (auto simp: competing_def)
    have v: "?v t \<le> usize_max" for t using sm(6) [of t] by (simp add: task_ok_def)
    have W: "sum ?w (insert c ?N) \<le> (max_tasks + 1) * 88761"
    proof -
      have "sum ?w (insert c ?N) \<le> card (insert c ?N) * 88761" using sum_bounded_above [of "insert c ?N" ?w 88761] weight_bounds by simp
      also have "\<dots> \<le> (max_tasks + 1) * 88761" using sm(4,5) cn by (intro mult_le_mono1) simp
      finally show ?thesis .
    qed
    have V: "(\<Sum>t\<in>insert c ?N. ?v t * ?w t) \<le> usize_max * ((max_tasks + 1) * 88761)"
      by (rule order_trans [OF weighted_le [of _ ?v usize_max ?w]]) (use v W in \<open>auto intro: mult_le_mono2\<close>)
    have "?w c + sum ?w ?N \<le> u128_max" and V2: "?v c * ?w c + (\<Sum>t\<in>?N. ?v t * ?w t) \<le> u128_max"
      using W V cn sm(5) by simp_all
    moreover have "?v c * ?w c \<le> u128_max" using V2 by linarith
    ultimately show ?thesis
      using c sm(2,3,5) cn C
      by (simp add: fair_sums_def saturating_add_u128_def saturating_mul_u128_def add.commute min_absorb1)
  qed
qed

lemma fair_time_eq:
  assumes inv: "eevdf_core L s"
  shows "virtual_time (update_virtual_time s) = fair_time L s"
proof -
  note sm = inv_sums [OF inv]
  let ?C = "competing L s" and ?w = "\<lambda>t. weight (tasks s t)" and ?v = "\<lambda>t. vruntime (tasks s t)"
  have fin: "finite ?C"
    using sm(5) finite_subset [of "{c. current s = Some c \<and> \<not> is_rt (tasks s c)}" "set_option (current s)"]
    by (auto simp: competing_def)
  have z: "sum ?w ?C = 0 \<longleftrightarrow> ?C = {}" using fin weight_pos by (metis bot_nat_0.not_eq_extremum sum.empty sum_pos)
  have "?v t \<le> usize_max" for t using sm(6) [of t] by (simp add: task_ok_def)
  then have le: "(\<Sum>t\<in>?C. ?v t * ?w t) \<le> usize_max * sum ?w ?C" by (rule weighted_le)
  have "(\<Sum>t\<in>?C. ?v t * ?w t) div sum ?w ?C \<le> usize_max"
  proof (cases "sum ?w ?C = 0")
    case False
    then show ?thesis using div_le_mono [OF le, of "sum ?w ?C"] by simp
  qed simp
  then show ?thesis
    by (simp add: update_virtual_time_def competing_sums [OF inv] fair_time_def z min_absorb1)
qed

lemma eligible_iff:
  "eevdf_core L s \<Longrightarrow> eligible L s = {t \<in> normals L s. vruntime (tasks s t) \<le> virtual_time (update_virtual_time s)}"
  by (simp add: eligible_def fair_time_eq)

lemma up_to_date_spec:
  assumes laws: "lib_laws L" and inv: "eevdf_inv L s"
  shows "eevdf_inv L (up_to_date L s)" and "set (el L (up_to_date L s)) = eligible L s"
    and "normals L (up_to_date L s) = normals L s" and "rts L (up_to_date L s) = rts L s" and "tasks (up_to_date L s) = tasks s"
    and "current (up_to_date L s) = current s" and "virtual_time (up_to_date L s) = virtual_time (update_virtual_time s)"
    and "normal_preemption_cache (up_to_date L s) = normal_preemption_cache s"
    and "rt_bitmap (up_to_date L s) = rt_bitmap s" and "rt_queues (up_to_date L s) = rt_queues s"
proof -
  have c: "eevdf_core L s" "cache_ok L s" using inv by (simp_all add: eevdf_inv_def)
  let ?u = "update_virtual_time s"
  note e = eligible_iff [OF c(1)]
  have cu: "eevdf_core L ?u" by (rule inv_update_virtual_time [OF c(1)])
  note f = promote_frame [OF laws cu order_refl, folded up_to_date_def]
  show n: "normals L (up_to_date L s) = normals L s" and "rts L (up_to_date L s) = rts L s" and t: "tasks (up_to_date L s) = tasks s"
    and "current (up_to_date L s) = current s" and v: "virtual_time (up_to_date L s) = virtual_time ?u"
    and pc: "normal_preemption_cache (up_to_date L s) = normal_preemption_cache s"
    and "rt_bitmap (up_to_date L s) = rt_bitmap s" and "rt_queues (up_to_date L s) = rt_queues s"
    using f by simp_all
  have "cache_ok L (up_to_date L s)" by (rule cache_okI [OF c(2) n]) (simp_all add: t v pc)
  then show "eevdf_inv L (up_to_date L s)" using f(10) by (simp add: eevdf_inv_def)
  have "x \<in> set (el L (up_to_date L s))" if "x \<in> eligible L s" for x
  proof -
    have "x \<notin> set (il L (up_to_date L s))"
      using promote_ineligible [OF laws cu order_refl, of x] that by (auto simp: e up_to_date_def)
    then show ?thesis using that n by (auto simp: e normals_def)
  qed
  moreover have "x \<in> eligible L s" if "x \<in> set (el L (up_to_date L s))" for x
    using inv_trees(7) [OF f(10) that] that n t v by (auto simp: e normals_def)
  ultimately show "set (el L (up_to_date L s)) = eligible L s" by blast
qed

text \<open>The average is at least the least virtual runtime, so some task is eligible when none runs.\<close>

lemma eligible_nonempty:
  assumes inv: "eevdf_core L s" and n: "normals L s \<noteq> {}" and cur: "\<And>c. current s = Some c \<Longrightarrow> is_rt (tasks s c)"
  shows "eligible L s \<noteq> {}"
proof -
  note sm = inv_sums [OF inv]
  let ?N = "normals L s" and ?v = "\<lambda>t. vruntime (tasks s t)" and ?w = "\<lambda>t. weight (tasks s t)"
  obtain m where m: "m \<in> ?N" "\<And>x. x \<in> ?N \<Longrightarrow> ?v m \<le> ?v x"
    using ex_min_if_finite [OF finite_imageI [OF sm(5), of ?v]] n by (metis (no_types, lifting) image_iff imageI image_is_empty linorder_not_less)
  have W: "0 < sum ?w ?N" using sm(5) n by (simp add: sum_pos)
  have "?v m * sum ?w ?N = (\<Sum>t\<in>?N. ?v m * ?w t)" by (simp add: sum_distrib_left)
  also have "\<dots> \<le> (\<Sum>t\<in>?N. ?v t * ?w t)" using m(2) by (intro sum_mono mult_right_mono) auto
  finally have "?v m \<le> (\<Sum>t\<in>?N. ?v t * ?w t) div sum ?w ?N" using W by (simp add: less_eq_div_iff_mult_less_eq)
  moreover have "?v m \<le> usize_max" using sm(6) [of m] by (simp add: task_ok_def)
  moreover have "fair_sums s = (sum ?w ?N, \<Sum>t\<in>?N. ?v t * ?w t)"
    using cur sm(2,3) by (auto simp: fair_sums_def split: option.split)
  ultimately have "?v m \<le> virtual_time (update_virtual_time s)"
    using W by (simp add: update_virtual_time_def le_max_iff_disj)
  then show ?thesis using m(1) by (auto simp: eligible_iff [OF inv])
qed

lemma head_of_earliest:
  assumes "sorted_wrt (\<lambda>a b. key a \<le> key b) xs" and "xs \<noteq> []"
  obtains t where "head_of xs = Some t" and "earliest key (set xs) t"
  using assms by (cases xs) (auto simp: head_of_def earliest_def)

lemma pick_normal_spec:
  assumes laws: "lib_laws L" and inv: "eevdf_inv L s" and p: "pick_normal L s = (s', r)"
  shows "eevdf_inv L s'"
    and "case r of None \<Rightarrow> normals L s = {} \<and> normals L s' = {}
      | Some t \<Rightarrow> normals L s' = normals L s - {t} \<and> t \<in> normals L s \<and>
          (if eligible L s \<noteq> {} then earliest (\<lambda>x. eligible_key (tasks s x)) (eligible L s) t
           else earliest (\<lambda>x. ineligible_key (tasks s x)) (normals L s) t)"
    and "rts L s' = rts L s" and "tasks s' = tasks s"
proof -
  note u = up_to_date_spec [OF laws inv]
  let ?u = "up_to_date L s"
  have cu: "eevdf_core L ?u" using u(1) by (simp add: eevdf_inv_def)
  note tr = inv_trees [OF cu]
  have all: "eevdf_inv L s' \<and> rts L s' = rts L s \<and> tasks s' = tasks s \<and>
    (case r of None \<Rightarrow> normals L s = {} \<and> normals L s' = {}
      | Some t \<Rightarrow> normals L s' = normals L s - {t} \<and> t \<in> normals L s \<and>
          (if eligible L s \<noteq> {} then earliest (\<lambda>x. eligible_key (tasks s x)) (eligible L s) t
           else earliest (\<lambda>x. ineligible_key (tasks s x)) (normals L s) t))"
  proof (cases "el L ?u = []")
    case False
    obtain t where t: "head_of (el L ?u) = Some t" "earliest (\<lambda>x. eligible_key (tasks s x)) (eligible L s) t"
      using head_of_earliest [OF tr(1) False] u(2,5) by metis
    let ?s1 = "?u\<lparr>normal_eligible := rb_remove (eligible_tree L) t (normal_eligible ?u)\<rparr>"
    have te: "t \<in> set (el L ?u)" using t(1) by (cases "el L ?u") (auto simp: head_of_def)
    then have "removed_from_trees L t ?u ?s1" by (simp add: removed_from_trees_def)
    note fin = finish_remove_spec [OF laws cu this refl]
    have "s' = finish_normal_remove t ?s1" "r = Some t"
      using p t(1) unfolding pick_normal_def Let_def up_to_date_def [symmetric] pick_normal_from_eligible_def el_def by auto
    moreover have "eligible L s \<noteq> {}" using te u(2) by auto
    ultimately show ?thesis using fin t(2) te u by (auto simp: eevdf_inv_def cache_ok_def normals_def)
  next
    case e: True
    then have E: "eligible L s = {}" using u(2) by simp
    have il: "set (il L ?u) = normals L s" using e u(3) by (simp add: normals_def)
    show ?thesis
    proof (cases "il L ?u = []")
      case True
      then have "s' = ?u" "r = None"
        using p e unfolding pick_normal_def Let_def up_to_date_def [symmetric] pick_normal_from_eligible_def
          pick_normal_from_ineligible_def el_def il_def by (auto simp: head_of_def)
      then show ?thesis using u il True by simp
    next
      case False
      obtain t where t: "head_of (il L ?u) = Some t" "earliest (\<lambda>x. ineligible_key (tasks s x)) (normals L s) t"
        using head_of_earliest [OF tr(2) False] u(5) il by metis
      let ?s1 = "note_normal_ineligible_remove L (?u\<lparr>normal_ineligible := rb_remove (ineligible_tree L) t (normal_ineligible ?u)\<rparr>)"
      have te: "t \<in> set (il L ?u)" using t(1) by (cases "il L ?u") (auto simp: head_of_def)
      then have "removed_from_trees L t ?u ?s1" by (simp add: removed_from_trees_def)
      note fin = finish_remove_spec [OF laws cu this refl]
      have "s' = finish_normal_remove t ?s1" "r = Some t"
        using p t(1) e unfolding pick_normal_def Let_def up_to_date_def [symmetric] pick_normal_from_eligible_def
          pick_normal_from_ineligible_def el_def il_def by (auto simp: head_of_def)
      then show ?thesis using fin t(2) te u E il by (auto simp: eevdf_inv_def cache_ok_def)
    qed
  qed
  then show "eevdf_inv L s'" "rts L s' = rts L s" "tasks s' = tasks s" by simp_all
  show "case r of None \<Rightarrow> normals L s = {} \<and> normals L s' = {}
      | Some t \<Rightarrow> normals L s' = normals L s - {t} \<and> t \<in> normals L s \<and>
          (if eligible L s \<noteq> {} then earliest (\<lambda>x. eligible_key (tasks s x)) (eligible L s) t
           else earliest (\<lambda>x. ineligible_key (tasks s x)) (normals L s) t)" using all by simp
qed

section \<open>The next task\<close>

lemma trailing_zeros_u128_least:
  assumes "w \<noteq> 0"
  shows "bit w (trailing_zeros_u128 w)" and "bit w i \<Longrightarrow> trailing_zeros_u128 w \<le> i"
proof -
  obtain j where j: "bit w j" using assms by (auto simp: bit_eq_iff)
  then have j128: "j < 128" using bit_imp_le_length [OF j] by simp
  let ?P = "\<lambda>i. \<not> bit w i"
  have "\<exists>x\<in>set [0..<128]. \<not> ?P x" using j j128 by auto
  then have l: "length (takeWhile ?P [0..<128]) < length [0..<128]"
    by (metis length_takeWhile_le le_neq_implies_less takeWhile_eq_all_conv takeWhile_eq_take take_all_iff order_refl)
  have "\<not> ?P ([0..<128] ! length (takeWhile ?P [0..<128]))" by (rule nth_length_takeWhile [OF l])
  then show b: "bit w (trailing_zeros_u128 w)" using l by (simp add: trailing_zeros_u128_def)
  assume i: "bit w i"
  show "trailing_zeros_u128 w \<le> i"
  proof (rule ccontr)
    assume "\<not> ?thesis"
    then have lt: "i < length (takeWhile ?P [0..<128])" by (simp add: trailing_zeros_u128_def)
    then have "takeWhile ?P [0..<128] ! i = i" using l by (simp add: takeWhile_nth)
    then have "i \<in> set (takeWhile ?P [0..<128])" using nth_mem [OF lt] by simp
    then show False using i set_takeWhileD by fastforce
  qed
qed

lemma rt_bitmap_zero: "eevdf_core L s \<Longrightarrow> rt_bitmap s = 0 \<longleftrightarrow> rts L s = {}"
  using inv_rt(2) [of L s] by (auto simp: bit_eq_iff rts_def)

definition prescribed :: "('te, 'ti, 'li) sched_lib \<Rightarrow> ('te, 'ti, 'li) eevdf \<Rightarrow> nat \<Rightarrow> bool" where
  "prescribed L s t \<longleftrightarrow>
     (if rts L s \<noteq> {}
      then t \<in> rts L s \<and> (\<forall>x\<in>rts L s. priority (tasks s x) \<le> priority (tasks s t)) \<and>
           head_of (rtq L s (rt_index (tasks s t))) = Some t
      else if eligible L s \<noteq> {} then earliest (\<lambda>x. eligible_key (tasks s x)) (eligible L s) t
      else earliest (\<lambda>x. ineligible_key (tasks s x)) (normals L s) t)"

lemma pick_rt:
  assumes laws: "lib_laws L" and inv: "eevdf_inv L s" and rt: "rt_bitmap s \<noteq> 0"
    and i: "i = trailing_zeros_u128 (rt_bitmap s)" and q: "ll_pop_front (rt_list L) (rt_queues s ! i) = (q, r)"
    and s': "s' = clear_if_empty L i (s\<lparr>rt_queues := (rt_queues s)[i := q]\<rparr>)"
  shows "\<exists>t. r = Some t \<and> eevdf_inv L s' \<and> queued L s' = queued L s - {t} \<and> t \<in> queued L s \<and> prescribed L s t \<and> tasks s' = tasks s"
proof -
  have c: "eevdf_core L s" "cache_ok L s" using inv by (simp_all add: eevdf_inv_def)
  note r = inv_rt [OF c(1)]
  have i99: "i < 99" "rtq L s i \<noteq> []" using trailing_zeros_u128_least(1) [OF rt] r(2) i by auto
  then obtain t ts where ts: "rtq L s i = t # ts" by (cases "rtq L s i") auto
  have q': "ll_iter (rt_list L) q = remove1 t (rtq L s i)" "r = Some t"
    using list_lawsD(3,4) [OF laws, of "rt_queues s ! i"] q ts by (auto simp: rtq_def head_of_def)
  have t: "t \<in> set (rtq L s i)" using ts by simp
  note tk = rt_take [OF c(1) i99(1) t q'(1) s']
  have ti: "is_rt (tasks s t)" "rt_index (tasks s t) = i" using r(4) [OF i99(1) t] by simp_all
  have "priority (tasks s x) \<le> priority (tasks s t)" if "x \<in> rts L s" for x
  proof -
    have x: "is_rt (tasks s x)" "x \<in> set (rtq L s (rt_index (tasks s x)))" using that rts_iff [OF c(1)] by simp_all
    then have "bit (rt_bitmap s) (rt_index (tasks s x))" using r(2) rt_index_less by fastforce
    then have "rt_index (tasks s t) \<le> rt_index (tasks s x)" using trailing_zeros_u128_least(2) [OF rt] i ti(2) by simp
    then show ?thesis using ti(1) x(1) unfolding rt_index_def is_rt_def by linarith
  qed
  moreover have tr: "t \<in> rts L s" using t i99(1) by (auto simp: rts_def)
  ultimately have "prescribed L s t" using ts ti(2) by (auto simp: prescribed_def head_of_def)
  moreover have "cache_ok L s'" by (rule cache_okI [OF c(2) tk(2)]) (simp_all add: tk)
  moreover have "t \<notin> normals L s" using inv_trees(6) [OF c(1)] ti(1) by blast
  ultimately show ?thesis using tk tr q'(2) by (auto simp: eevdf_inv_def queued_def)
qed

lemma pick_at_spec:
  assumes laws: "lib_laws L" and inv: "eevdf_inv L s" and now: "now_ns \<le> usize_max" and p: "pick_at L now_ns s = (s', r)"
  shows "eevdf_inv L s' \<and>
    (case r of None \<Rightarrow> queued L s = {} | Some t \<Rightarrow> t \<in> queued L s \<and> queued L s' = queued L s - {t} \<and> prescribed L s t) \<and>
    (eligible L s = {} \<longrightarrow> normals L s = {} \<or> (\<exists>c. current s = Some c \<and> \<not> is_rt (tasks s c)))"
    and "tasks s' = tasks s" and "queued L s' \<subseteq> queued L s"
proof -
  have c: "eevdf_core L s" "cache_ok L s" using inv by (simp_all add: eevdf_inv_def)
  define s0 where "s0 = advance_clock now_ns s"
  have "cache_ok L s0" by (rule cache_okI [OF c(2)]) (simp_all add: s0_def)
  then have i0: "eevdf_inv L s0" using inv_clock [OF c(1) now] by (simp add: eevdf_inv_def s0_def)
  have f: "queued L s0 = queued L s" "normals L s0 = normals L s" "rts L s0 = rts L s" "rtq L s0 = rtq L s" "tasks s0 = tasks s"
    "rt_bitmap s0 = rt_bitmap s" "rt_queues s0 = rt_queues s" by (simp_all add: s0_def)
  have "competing L s0 = competing L s" by (simp add: competing_def s0_def)
  then have "fair_time L s0 = fair_time L s" by (simp add: fair_time_def s0_def)
  then have e: "eligible L s0 = eligible L s" by (simp add: eligible_def f)
  have pr: "prescribed L s0 = prescribed L s" by (simp add: prescribed_def e f fun_eq_iff)
  have "eligible L s = {} \<longrightarrow> normals L s = {} \<or> (\<exists>c. current s = Some c \<and> \<not> is_rt (tasks s c))"
    using eligible_nonempty [OF c(1)] by blast
  moreover have all: "tasks s' = tasks s \<and> queued L s' \<subseteq> queued L s \<and> eevdf_inv L s' \<and>
    (case r of None \<Rightarrow> queued L s = {} | Some t \<Rightarrow> t \<in> queued L s \<and> queued L s' = queued L s - {t} \<and> prescribed L s t)"
  proof (cases "rt_bitmap s = 0")
    case False
    obtain q t where q: "ll_pop_front (rt_list L) (rt_queues s0 ! trailing_zeros_u128 (rt_bitmap s0)) = (q, t)" by (rule prod.exhaust)
    have "s' = clear_if_empty L (trailing_zeros_u128 (rt_bitmap s0))
        (s0\<lparr>rt_queues := (rt_queues s0)[trailing_zeros_u128 (rt_bitmap s0) := q]\<rparr>)" "r = t"
      using p q False unfolding pick_at_def Let_def s0_def [symmetric] by (simp_all add: f)
    then show ?thesis using pick_rt [OF laws i0 _ refl q] False f pr by auto
  next
    case True
    then have "pick_normal L s0 = (s', r)" using p unfolding pick_at_def Let_def s0_def [symmetric] by (simp add: f)
    note pn = pick_normal_spec [OF laws i0 this]
    have "rts L s = {}" using rt_bitmap_zero [OF c(1)] True by simp
    then show ?thesis using pn f e by (auto simp: queued_def prescribed_def split: option.splits if_splits)
  qed
  ultimately show "eevdf_inv L s' \<and>
    (case r of None \<Rightarrow> queued L s = {} | Some t \<Rightarrow> t \<in> queued L s \<and> queued L s' = queued L s - {t} \<and> prescribed L s t) \<and>
    (eligible L s = {} \<longrightarrow> normals L s = {} \<or> (\<exists>c. current s = Some c \<and> \<not> is_rt (tasks s c)))" by blast
  show "tasks s' = tasks s" "queued L s' \<subseteq> queued L s" using all by blast+
qed

text \<open>
  C9: picking the next task. Nothing is returned only when no task is queued. Otherwise the task is a real-time task of
  the highest priority, the first in its queue, if there is one; else, of the ordinary tasks that are not ahead of
  the weighted average of the virtual runtimes (or of the virtual time, if this was ahead before), the one with the earliest virtual deadline, the first queued of equals; and only when all
  are ahead, the one with the least virtual runtime. All are ahead only while an ordinary task is current. The task
  leaves the queue, all others stay, and the invariant holds.
\<close>

theorem pick_next_prescribed:
  assumes laws: "lib_laws L" and inv: "eevdf_inv L s" and now: "now_ns \<le> usize_max" and p: "pick_at L now_ns s = (s', r)"
  shows "eevdf_inv L s' \<and>
    (case r of None \<Rightarrow> queued L s = {} | Some t \<Rightarrow> t \<in> queued L s \<and> queued L s' = queued L s - {t} \<and> prescribed L s t) \<and>
    (eligible L s = {} \<longrightarrow> normals L s = {} \<or> (\<exists>c. current s = Some c \<and> \<not> is_rt (tasks s c)))"
  by (rule pick_at_spec [OF assms])

section \<open>Preemption\<close>

lemma find_first:
  fixes key :: "'a \<Rightarrow> 'k :: linorder"
  assumes "sorted_wrt (\<lambda>a b. key a \<le> key b) xs" and "List.find P xs = Some x" and "y \<in> set xs" and "P y"
  shows "key x \<le> key y"
  using assms by (induction xs) (auto split: if_splits)

lemma has_eligible_preemption_spec:
  assumes laws: "lib_laws L" and inv: "eevdf_inv L s" and p: "has_eligible_preemption L d s = (s', b)"
  shows "eevdf_inv L s' \<and> queued L s' = queued L s \<and> tasks s' = tasks s \<and>
    b = (\<exists>t\<in>eligible L s. virtual_deadline (tasks s t) < d)"
proof -
  let ?u = "up_to_date L s"
  note u = up_to_date_spec [OF laws inv]
  have cu: "eevdf_core L ?u" "cache_ok L ?u" using u(1) by (simp_all add: eevdf_inv_def)
  note tr = inv_trees [OF cu(1)]
  have e: "eligible L s = {t \<in> normals L s. vruntime (tasks s t) \<le> virtual_time (update_virtual_time s)}"
    using inv by (intro eligible_iff) (simp add: eevdf_inv_def)
  define B where "B \<longleftrightarrow> (\<exists>t\<in>eligible L s. virtual_deadline (tasks s t) < d)"
  show ?thesis unfolding B_def [symmetric]
  proof (cases "\<exists>c. normal_preemption_cache ?u = Some c \<and> cache_covers c (virtual_time ?u) \<and> preemption_current_deadline c = d")
    case True
    then obtain c where c: "normal_preemption_cache ?u = Some c" "cache_covers c (virtual_time ?u)" "preemption_current_deadline c = d"
      by blast
    have "s' = ?u" "b = has_preemption c"
      using p c unfolding has_eligible_preemption_def Let_def up_to_date_def [symmetric] by simp_all
    moreover have "has_preemption c = B"
    proof (cases "has_preemption c")
      case True
      then show ?thesis using cu(2) c u(3,5,7) by (auto simp: cache_ok_def B_def e)
    next
      case False
      have "\<not> virtual_deadline (tasks s t) < d" if "t \<in> eligible L s" for t
        using cu(2) c False that u(3,5,7) by (fastforce simp: cache_ok_def e cache_covers_def)
      then show ?thesis using False by (auto simp: B_def)
    qed
    ultimately show "eevdf_inv L s' \<and> queued L s' = queued L s \<and> tasks s' = tasks s \<and> b = B"
      using u by (simp add: queued_def)
  next
    case False
    define b1 where "b1 = (case normal_eligible_deadline L ?u of Some x \<Rightarrow> x < d | None \<Rightarrow> False)"
    define th where "th = (if \<not> b1 \<and> (case deadline_lower_bound ?u of None \<Rightarrow> il L ?u \<noteq> [] | Some x \<Rightarrow> x < d)
      then map_option (\<lambda>t. vruntime (tasks ?u t)) (List.find (\<lambda>t. virtual_deadline (tasks ?u t) < d) (il L ?u)) else None)"
    let ?c = "\<lparr>has_preemption = b1, preemption_current_deadline = d, preemption_vruntime = th\<rparr>"
    have none: "(case normal_preemption_cache ?u of
        Some c \<Rightarrow> if cache_covers c (virtual_time ?u) \<and> preemption_current_deadline c = d then Some (has_preemption c) else None
      | None \<Rightarrow> None) = None" using False by (auto split: option.split)
    have r: "s' = ?u\<lparr>normal_preemption_cache := Some ?c\<rparr>" "b = b1"
      using p none unfolding has_eligible_preemption_def Let_def up_to_date_def [symmetric] il_def [symmetric] b1_def [symmetric]
        th_def [symmetric] by auto
    have b1: "b1 = B"
    proof (cases "el L ?u = []")
      case True
      then show ?thesis using u(2) by (simp add: b1_def B_def normal_eligible_deadline_def el_def [symmetric] head_of_def)
    next
      case False
      obtain t where t: "head_of (el L ?u) = Some t" "earliest (\<lambda>x. eligible_key (tasks s x)) (eligible L s) t"
        using head_of_earliest [OF tr(1) False] u(2,5) by metis
      then have "virtual_deadline (tasks s t) \<le> virtual_deadline (tasks s x)" if "x \<in> eligible L s" for x
        using that by (auto simp: earliest_def eligible_key_def less_eq_prod_def)
      then show ?thesis using t u(5)
        by (auto simp: b1_def B_def normal_eligible_deadline_def el_def [symmetric] earliest_def intro: le_less_trans)
    qed
    have "cache_ok L s'"
    proof (cases b1)
      case True
      then show ?thesis using b1 u(3,5,7) by (auto simp: cache_ok_def r(1) B_def e)
    next
      case nb: False
      have "\<exists>v. th = Some v \<and> v \<le> vruntime (tasks s t)" if t: "t \<in> normals L s" "virtual_deadline (tasks s t) < d" for t
      proof -
        have ti: "t \<in> set (il L ?u)" using t b1 nb u(2,3) by (auto simp: B_def normals_def)
        have may: "case deadline_lower_bound ?u of None \<Rightarrow> il L ?u \<noteq> [] | Some x \<Rightarrow> x < d"
          using ti t(2) tr(8) tr(9) [OF _ ti] u(5) by (cases "deadline_lower_bound ?u") (auto intro: le_less_trans)
        obtain x where x: "List.find (\<lambda>t. virtual_deadline (tasks ?u t) < d) (il L ?u) = Some x"
          using ti t(2) u(5) by (cases "List.find (\<lambda>t. virtual_deadline (tasks ?u t) < d) (il L ?u)") (auto simp: find_None_iff)
        have "ineligible_key (tasks ?u x) \<le> ineligible_key (tasks ?u t)" using find_first [OF tr(2) x ti] t(2) u(5) by simp
        then show ?thesis using nb may x u(5) by (auto simp: th_def ineligible_key_def less_eq_prod_def)
      qed
      then show ?thesis using nb u(3,5) by (auto simp: cache_ok_def r(1))
    qed
    moreover have "eevdf_core L s'" using cu(1) by (simp add: r(1) inv_defs)
    ultimately show "eevdf_inv L s' \<and> queued L s' = queued L s \<and> tasks s' = tasks s \<and> b = B"
      using r u b1 by (simp add: eevdf_inv_def queued_def)
  qed
qed

text \<open>
  C18: the check for a preempting task, which looks at the cache, at the first eligible task and at a lower bound for the
  deadlines, answers as a search would: there is an eligible queued task with a deadline before the current one. It keeps
  the invariant and the queues.
\<close>

theorem has_eligible_preemption_exact:
  assumes laws: "lib_laws L" and inv: "eevdf_inv L s" and p: "has_eligible_preemption L d s = (s', b)"
  shows "eevdf_inv L s' \<and> queued L s' = queued L s \<and> tasks s' = tasks s \<and>
    b = (\<exists>t\<in>eligible L s. virtual_deadline (tasks s t) < d)"
  by (rule has_eligible_preemption_spec [OF assms])

end
