(* ===== verification/Eevdf_Step.thy ===== *)
theory Eevdf_Step
  imports Eevdf_Pick
begin

text \<open>
  The scheduler as a transition system: the calls that a run queue makes, under the rules it follows (a task is
  enqueued, started or ticked only while it is not queued; a new, woken or migrated task is enqueued only when it
  is the current one or not running), and the changes that other processors make to tasks that are not queued
  here. A task may be stopped while it is queued, as the run queue does after a yield or a preemption. The
  invariant holds in every reachable state, and no queued task is running.
\<close>

section \<open>The remaining operations\<close>

lemma inv_upd:
  assumes "eevdf_inv L s" and "t \<notin> queued L s \<or> task_same (tasks s t) (f (tasks s t))" and "task_ok (f (tasks s t))"
  shows "eevdf_inv L (upd_task t f s)"
proof -
  have "cache_ok L (upd_task t f s)"
  proof (rule cache_okI)
    show "cache_ok L s" using assms(1) by (simp add: eevdf_inv_def)
    show "task_same (tasks s x) (tasks (upd_task t f s) x)" if "x \<in> normals L s" for x
      using that assms(2) by (auto simp: queued_def)
  qed simp_all
  then show ?thesis using inv_upd_task [of L s t f] assms by (simp add: eevdf_inv_def)
qed

lemma inv_vt: "eevdf_inv L s \<Longrightarrow> eevdf_inv L (update_virtual_time s)"
  by (auto simp: eevdf_inv_def inv_update_virtual_time intro: cache_okI)

lemma inv_adv: "eevdf_inv L s \<Longrightarrow> now_ns \<le> usize_max \<Longrightarrow> eevdf_inv L (advance_clock now_ns s)"
  by (auto simp: eevdf_inv_def inv_clock intro: cache_okI)

lemma inv_cur: "eevdf_inv L s \<Longrightarrow> t \<notin> queued L s \<Longrightarrow> eevdf_inv L (s\<lparr>current := Some t\<rparr>)"
  by (auto simp: eevdf_inv_def intro!: inv_current intro: cache_okI)

lemma inv_ranges:
  assumes "eevdf_inv L s"
  shows "task_ok (tasks s t)" "virtual_time s \<le> usize_max" "clock_ns s \<le> usize_max" "current s = Some c \<Longrightarrow> c \<notin> queued L s"
  using assms core_range [of L s] by (auto simp: eevdf_inv_def eevdf_core_def)

lemma inv_quiet: "eevdf_inv L s \<Longrightarrow> t \<notin> queued L s \<Longrightarrow> quiet L t s s' \<Longrightarrow> eevdf_inv L s'"
  using quiet_cache [of L t s s'] quietD(1) [of L t s s'] by (simp add: eevdf_inv_def)

lemma remove_queued_spec:
  assumes laws: "lib_laws L" and inv: "eevdf_inv L s" and r: "remove_queued L t s = (s', b)"
  shows "eevdf_inv L s'" and "queued L s' = queued L s - {t}" and "b \<longleftrightarrow> t \<in> queued L s" and "tasks s' = tasks s"
    and "current s' = current s" and "normals L s' \<subseteq> normals L s"
proof -
  have c: "eevdf_core L s" "cache_ok L s" using inv by (simp_all add: eevdf_inv_def)
  note tr = inv_trees [OF c(1)]
  have "eevdf_inv L s' \<and> queued L s' = queued L s - {t} \<and> (b \<longleftrightarrow> t \<in> queued L s) \<and> tasks s' = tasks s \<and>
    current s' = current s \<and> normals L s' \<subseteq> normals L s"
  proof (cases "is_rt (tasks s t)")
    case True
    let ?i = "rt_index (tasks s t)"
    have nt: "t \<notin> normals L s" using tr(6) True by blast
    have i: "?i < 99" by (rule rt_index_less [OF True])
    obtain q rem where q: "ll_remove (rt_list L) t (rt_queues s ! ?i) = (q, rem)" by (rule prod.exhaust)
    have ql: "ll_iter (rt_list L) q = remove1 t (rtq L s ?i)" "rem \<longleftrightarrow> t \<in> set (rtq L s ?i)"
      using list_lawsD(5,6) [OF laws, of t "rt_queues s ! ?i"] q by (auto simp: rtq_def)
    have s': "s' = (if rem then clear_if_empty L ?i (s\<lparr>rt_queues := (rt_queues s)[?i := q]\<rparr>) else s\<lparr>rt_queues := (rt_queues s)[?i := q]\<rparr>)"
      "b = rem" using r True q by (auto simp: remove_queued_def Let_def)
    have tq: "t \<in> queued L s \<longleftrightarrow> rem" using nt rts_iff [OF c(1), of t] True ql(2) by (simp add: queued_def)
    show ?thesis
    proof (cases rem)
      case True
      then have tin: "t \<in> set (rtq L s ?i)" and seq: "s' = clear_if_empty L ?i (s\<lparr>rt_queues := (rt_queues s)[?i := q]\<rparr>)"
        using ql(2) s'(1) by simp_all
      note tk = rt_take [OF c(1) i tin ql(1) seq]
      have "cache_ok L s'" by (rule cache_okI [OF c(2) tk(2)]) (simp_all add: tk)
      then show ?thesis using tk nt tq s'(2) by (auto simp: eevdf_inv_def queued_def)
    next
      case False
      have "s' = s\<lparr>rt_queues := (rt_queues s)[?i := q], rt_bitmap := rt_bitmap s\<rparr>" using s'(1) False by simp
      moreover have "ll_iter (rt_list L) q = rtq L s ?i" using ql False by (simp add: remove1_idem)
      moreover have "bit (rt_bitmap s) j \<longleftrightarrow> (if j = ?i then rtq L s ?i \<noteq> [] else bit (rt_bitmap s) j)" for j
        using inv_rt(2) [OF c(1), of j] i by auto
      moreover have "c \<notin> set (rtq L s ?i)" if "current s = Some c" for c
        using c(1) that i by (auto simp: eevdf_core_def queued_def rts_def)
      ultimately have ch: "eevdf_core L s'" "normals L s' = normals L s" "rtq L s' = (rtq L s)(?i := rtq L s ?i)"
        using rt_change [OF c(1) i _ inv_rt(3) [OF c(1) i] inv_rt(4) [OF c(1) i], of q "rt_bitmap s" s'] by blast+
      have "cache_ok L s'" by (rule cache_okI [OF c(2) ch(2)]) (simp_all add: s'(1) False)
      moreover have "queued L s' = queued L s" using ch(2,3) by (simp add: queued_def rts_def)
      ultimately show ?thesis using ch tq s' False by (simp add: eevdf_inv_def)
    qed
  next
    case False
    have nr: "t \<notin> rts L s" using rts_iff [OF c(1), of t] False by simp
    show ?thesis
    proof (cases "t \<in> normals L s")
      case True
      obtain s1 where s1: "removed_from_trees L t s s1" "s' = finish_normal_remove t s1" "b"
        using r False True tr(5) [of t] unfolding remove_queued_def remove_normal_task_def removed_from_trees_def normals_def el_def il_def
        by (auto split: if_splits)
      note fin = finish_remove_spec [OF laws c(1) s1(1,2)]
      show ?thesis using fin s1(3) nr True by (auto simp: eevdf_inv_def cache_ok_def queued_def)
    next
      case nn: False
      then have "s' = s" "\<not> b" using r False unfolding remove_queued_def remove_normal_task_def normals_def el_def il_def by auto
      then show ?thesis using inv nn nr by (auto simp: queued_def)
    qed
  qed
  then show "eevdf_inv L s'" "queued L s' = queued L s - {t}" "b \<longleftrightarrow> t \<in> queued L s" "tasks s' = tasks s" "current s' = current s"
    "normals L s' \<subseteq> normals L s" by simp_all
qed

lemma eevdf_remove_inv:
  assumes "lib_laws L" and "eevdf_inv L s"
  shows "eevdf_inv L (fst (eevdf_remove L t s))"
proof (cases "current s = Some t")
  case True
  then show ?thesis using assms(2) by (simp add: eevdf_remove_def)
next
  case False
  let ?s1 = "upd_task t (save_lag L (virtual_time (update_virtual_time s))) (update_virtual_time s)"
  have "eevdf_inv L ?s1"
    by (rule inv_upd [OF inv_vt [OF assms(2)]]) (use inv_ranges [OF inv_vt [OF assms(2)]] inv_ranges(1) [OF assms(2)] in simp_all)
  then show ?thesis using remove_queued_spec(1) [OF assms(1), of ?s1 t] False
    by (cases "remove_queued L t ?s1") (simp add: eevdf_remove_def Let_def)
qed

lemma detach_normal_task_spec:
  assumes laws: "lib_laws L" and inv: "eevdf_inv L s"
  shows "eevdf_inv L (fst (detach_normal_task L P s))" and "queued L (fst (detach_normal_task L P s)) \<subseteq> queued L s"
    and "is_running (tasks (fst (detach_normal_task L P s)) x) = is_running (tasks s x)"
proof -
  let ?u = "up_to_date L s"
  note u = up_to_date_spec [OF laws inv]
  have cu: "eevdf_core L ?u" using u(1) by (simp add: eevdf_inv_def)
  define r where "r = (case detach_normal_from_eligible L P ?u of
    (s', Some t) \<Rightarrow> (s', Some t) | (s', None) \<Rightarrow> detach_normal_from_ineligible L P s')"
  have d: "detach_normal_task L P s = (case r of
      (s', Some t) \<Rightarrow> (upd_task t (save_lag L (virtual_time (update_virtual_time s))) (finish_normal_remove t s'), Some t)
    | (s', None) \<Rightarrow> (s', None))"
    unfolding detach_normal_task_def Let_def up_to_date_def [symmetric] r_def by (rule refl)
  have "(\<exists>t s1. r = (s1, Some t) \<and> removed_from_trees L t ?u s1) \<or> r = (?u, None)"
    unfolding r_def detach_normal_from_eligible_def detach_normal_from_ineligible_def removed_from_trees_def el_def il_def
    by (auto split: option.split simp: find_Some_iff)
  then have "eevdf_inv L (fst (detach_normal_task L P s)) \<and> queued L (fst (detach_normal_task L P s)) \<subseteq> queued L s \<and>
    is_running (tasks (fst (detach_normal_task L P s)) x) = is_running (tasks s x)"
  proof (elim disjE exE conjE)
    fix t s1
    assume r: "r = (s1, Some t)" and rm: "removed_from_trees L t ?u s1"
    note fin = finish_remove_spec [OF laws cu rm refl]
    have i: "eevdf_inv L (finish_normal_remove t s1)" using fin by (simp add: eevdf_inv_def cache_ok_def)
    have "eevdf_inv L (upd_task t (save_lag L (virtual_time (update_virtual_time s))) (finish_normal_remove t s1))"
      by (rule inv_upd [OF i]) (use inv_ranges(1) [OF i] inv_ranges(2) [OF inv_vt [OF inv]] in simp_all)
    moreover have "queued L (finish_normal_remove t s1) \<subseteq> queued L s" using fin(2,3) u(3,4) by (auto simp: queued_def)
    ultimately show ?thesis unfolding d r prod.case option.case fst_conv
      using fin(6) u(5) by (simp add: upd_task_def save_lag_def)
  qed (simp add: d u queued_def)
  then show "eevdf_inv L (fst (detach_normal_task L P s))" "queued L (fst (detach_normal_task L P s)) \<subseteq> queued L s"
    "is_running (tasks (fst (detach_normal_task L P s)) x) = is_running (tasks s x)" by simp_all
qed

lemma set_rt_policy_at_inv:
  assumes inv: "eevdf_inv L s" and now: "now_ns \<le> usize_max"
  shows "eevdf_inv L (set_rt_policy_at t p now_ns s)"
proof -
  define s1 where "s1 = (if current (advance_clock now_ns s) = Some t
    then upd_task t (account_runtime now_ns True) (advance_clock now_ns s) else advance_clock now_ns s)"
  note i0 = inv_adv [OF inv now]
  have "eevdf_inv L (upd_task t (account_runtime now_ns True) (advance_clock now_ns s))" if "current s = Some t"
    by (rule inv_upd [OF i0]) (use inv_ranges(4) [OF inv that] inv_ranges(1) [OF inv] now in simp_all)
  then have i1: "eevdf_inv L s1" using i0 by (simp add: s1_def)
  show ?thesis unfolding set_rt_policy_at_def Let_def s1_def [symmetric]
    by (rule inv_upd [OF i1]) (use inv_ranges(1) [OF i1] in simp_all)
qed

lemma on_task_start_inv:
  assumes inv: "eevdf_inv L s" and now: "now_ns \<le> usize_max" and t: "t \<notin> queued L s"
  shows "eevdf_inv L (on_task_start L t now_ns s)"
proof -
  define s0 where "s0 = advance_clock now_ns s"
  have i0: "eevdf_inv L s0" using inv_adv [OF inv now] by (simp add: s0_def)
  define s1 where "s1 = (if \<not> is_rt (tasks s0 t) \<and> virtual_deadline (tasks s0 t) = 0
    then upd_task t (\<lambda>k. refresh_deadline L True (k\<lparr>vruntime := virtual_time (update_virtual_time s0)\<rparr>)) (update_virtual_time s0) else s0)"
  have t0: "t \<notin> queued L s0" using t by (simp add: s0_def)
  note iv = inv_vt [OF i0]
  have "eevdf_inv L (upd_task t (\<lambda>k. refresh_deadline L True (k\<lparr>vruntime := virtual_time (update_virtual_time s0)\<rparr>)) (update_virtual_time s0))"
    by (rule inv_upd [OF iv]) (use t0 inv_ranges(1) [OF i0, of t] inv_ranges(2) [OF iv] in \<open>simp_all add: task_ok_def refresh_deadline_def\<close>)
  then have i1: "eevdf_inv L s1" using i0 by (simp add: s1_def)
  have t1: "t \<notin> queued L s1" using t0 by (simp add: s1_def)
  have i2: "eevdf_inv L (s1\<lparr>current := Some t\<rparr>)" by (rule inv_cur [OF i1 t1])
  show ?thesis unfolding on_task_start_def Let_def s0_def [symmetric] s1_def [symmetric]
    by (rule inv_upd [OF i2]) (use t1 inv_ranges(1) [OF i1] now in simp_all)
qed

text \<open>To stop a queued task that is not running only advances the clock.\<close>

lemma on_task_stop_spec:
  assumes inv: "eevdf_inv L s" and now: "now_ns \<le> usize_max" and t: "t \<in> queued L s \<Longrightarrow> \<not> is_running (tasks s t)"
  shows "eevdf_inv L (on_task_stop L t now_ns s)" and "queued L (on_task_stop L t now_ns s) = queued L s"
proof -
  note i0 = inv_adv [OF inv now]
  have c0: "eevdf_core L (advance_clock now_ns s)" using i0 by (simp add: eevdf_inv_def)
  have "eevdf_inv L (on_task_stop L t now_ns s) \<and> queued L (on_task_stop L t now_ns s) = queued L s"
  proof (cases "t \<in> queued L s")
    case True
    then have "current s \<noteq> Some t" using inv_ranges(4) [OF inv] by blast
    then have "on_task_stop L t now_ns s = advance_clock now_ns s"
      using t [OF True] by (simp add: on_task_stop_def stop_task_def)
    then show ?thesis using i0 by simp
  next
    case False
    then have t0: "t \<notin> queued L (advance_clock now_ns s)" by simp
    note q = quiet_stop(1) [OF c0 t0 now]
    show ?thesis unfolding on_task_stop_def using inv_quiet [OF i0 t0 q] quietD(4) [OF q] by simp
  qed
  then show "eevdf_inv L (on_task_stop L t now_ns s)" "queued L (on_task_stop L t now_ns s) = queued L s" by simp_all
qed

lemma tick_at_inv:
  assumes laws: "lib_laws L" and inv: "eevdf_inv L s" and now: "now_ns \<le> usize_max" and t: "t \<notin> queued L s"
  shows "eevdf_inv L (fst (tick_at L t now_ns s))"
proof -
  define s0 where "s0 = advance_clock now_ns s"
  have i0: "eevdf_inv L s0" using inv_adv [OF inv now] by (simp add: s0_def)
  have t0: "t \<notin> queued L s0" using t by (simp add: s0_def)
  define s1 where "s1 = (if \<not> current s0 = Some t then upd_task t (start_running now_ns) (s0\<lparr>current := Some t\<rparr>)
    else upd_task t (account_runtime now_ns True) s0)"
  have i1: "eevdf_inv L s1" unfolding s1_def
    using inv_upd [OF inv_cur [OF i0 t0], of t "start_running now_ns"] inv_upd [OF i0, of t "account_runtime now_ns True"] t0
      inv_ranges(1) [OF i0, of t] now by simp
  have t1: "t \<notin> queued L s1" using t0 by (simp add: s1_def)
  have up: "eevdf_inv L (upd_task t f s1)" if "task_ok (f (tasks s1 t))" for f
    by (rule inv_upd [OF i1]) (use t1 that in simp_all)
  have pre: "eevdf_inv L (fst (has_eligible_preemption L d s1))" for d
    using has_eligible_preemption_spec [OF laws i1, of d] by (cases "has_eligible_preemption L d s1") simp
  show ?thesis unfolding tick_at_def Let_def s0_def [symmetric] s1_def [symmetric]
    using i0 i1 up inv_ranges(1) [OF i1, of t] pre by simp
qed

lemma candidate_preempts_inv:
  assumes inv: "eevdf_inv L s" and now: "now_ns \<le> usize_max"
  shows "eevdf_inv L (fst (candidate_preempts cur candidate now_ns s))"
proof -
  define s0 where "s0 = advance_clock now_ns s"
  have i0: "eevdf_inv L s0" using inv_adv [OF inv now] by (simp add: s0_def)
  define s1 where "s1 = (if current s0 = Some cur then upd_task cur (account_runtime now_ns True) s0 else s0)"
  have "eevdf_inv L (upd_task cur (account_runtime now_ns True) s0)" if "current s0 = Some cur"
    by (rule inv_upd [OF i0]) (use inv_ranges(4) [OF i0 that] inv_ranges(1) [OF i0] now in simp_all)
  then have i1: "eevdf_inv L s1" using i0 by (simp add: s1_def)
  show ?thesis unfolding candidate_preempts_def Let_def s0_def [symmetric] s1_def [symmetric]
    using i1 inv_vt [OF i1] by simp
qed

text \<open>The change of a priority: first the accounting and the removal from the queue, then the new fields.\<close>

lemma set_priority_removed:
  assumes laws: "lib_laws L" and inv: "eevdf_inv L s" and cur: "current s \<noteq> Some t"
    and r: "remove_queued L t (upd_task t (save_lag L (virtual_time (update_virtual_time s))) (update_virtual_time s)) = (s1, b)"
  shows "eevdf_inv L s1" and "t \<notin> queued L s1" and "card (normals L s) < max_tasks \<Longrightarrow> card (normals L s1) < max_tasks"
    and "current s1 \<noteq> Some t"
proof -
  note iv = inv_vt [OF inv]
  have i: "eevdf_inv L (upd_task t (save_lag L (virtual_time (update_virtual_time s))) (update_virtual_time s))"
    by (rule inv_upd [OF iv]) (use inv_ranges(1) [OF inv] inv_ranges(2) [OF iv] in simp_all)
  note sp = remove_queued_spec [OF laws i r]
  show "eevdf_inv L s1" "t \<notin> queued L s1" "current s1 \<noteq> Some t" using sp cur by auto
  have "card (normals L s1) \<le> card (normals L s)"
    using sp(6) inv_sums(5) [of L s] inv by (intro card_mono) (simp_all add: eevdf_inv_def)
  then show "card (normals L s) < max_tasks \<Longrightarrow> card (normals L s1) < max_tasks" by linarith
qed

lemma set_priority_fields:
  assumes inv: "eevdf_inv L s" and t: "t \<notin> queued L s" and p: "valid_priority p"
    and s': "s' = (let s = upd_task t (\<lambda>k. k\<lparr>priority := p\<rparr>) s
      in if is_rt_priority p
         then upd_task t (\<lambda>k. let k = k\<lparr>has_saved_lag := False\<rparr> in if is_round_robin k then reset_rt_slice k else k) s
         else if c then let s = update_virtual_time s
                        in upd_task t (\<lambda>k. refresh_deadline L True (k\<lparr>vruntime := virtual_time s\<rparr>)) s
         else s)"
  shows "eevdf_inv L s'" and "queued L s' = queued L s" and "normals L s' = normals L s" and "current s' = current s"
proof -
  define s1 where "s1 = upd_task t (\<lambda>k. k\<lparr>priority := p\<rparr>) s"
  have i1: "eevdf_inv L s1" unfolding s1_def
    by (rule inv_upd [OF inv]) (use t p inv_ranges(1) [OF inv, of t] in \<open>simp_all add: task_ok_def\<close>)
  note iv = inv_vt [OF i1]
  have t1: "t \<notin> queued L s1" using t by (simp add: s1_def)
  have a: "eevdf_inv L (upd_task t (\<lambda>k. let k = k\<lparr>has_saved_lag := False\<rparr> in if is_round_robin k then reset_rt_slice k else k) s1)"
    by (rule inv_upd [OF i1]) (use t1 inv_ranges(1) [OF i1, of t] in \<open>simp_all add: task_ok_def Let_def reset_rt_slice_def\<close>)
  have b: "eevdf_inv L (upd_task t (\<lambda>k. refresh_deadline L True (k\<lparr>vruntime := virtual_time (update_virtual_time s1)\<rparr>)) (update_virtual_time s1))"
    by (rule inv_upd [OF iv]) (use t1 inv_ranges(1) [OF i1, of t] inv_ranges(2) [OF iv] in \<open>simp_all add: task_ok_def refresh_deadline_def\<close>)
  show "eevdf_inv L s'" unfolding s' Let_def s1_def [symmetric] using i1 a b by (simp add: Let_def)
  show "queued L s' = queued L s" "normals L s' = normals L s" "current s' = current s" by (simp_all add: s' Let_def)
qed

lemma set_priority_inner_inv:
  assumes laws: "lib_laws L" and inv: "eevdf_inv L s" and now: "now_ns \<le> usize_max" and n: "card (normals L s) < max_tasks"
  shows "eevdf_inv L (fst (set_priority_inner L t p now_ns s))"
proof (cases "valid_priority p")
  case False
  then show ?thesis using inv by (simp add: set_priority_inner_def)
next
  case p: True
  define s0 where "s0 = advance_clock now_ns s"
  have i0: "eevdf_inv L s0" using inv_adv [OF inv now] by (simp add: s0_def)
  have n0: "card (normals L s0) < max_tasks" using n by (simp add: s0_def)
  show ?thesis
  proof (cases "current s0 = Some t")
    case True
    define s1 where "s1 = (let s = upd_task t (account_runtime now_ns True) s0 in if \<not> is_rt (tasks s0 t) then update_virtual_time s else s)"
    have t0: "t \<notin> queued L s0" by (rule inv_ranges(4) [OF i0 True])
    have "eevdf_inv L (upd_task t (account_runtime now_ns True) s0)"
      by (rule inv_upd [OF i0]) (use t0 now inv_ranges(1) [OF i0] in simp_all)
    then have i1: "eevdf_inv L s1" by (simp add: s1_def Let_def inv_vt)
    have t1: "t \<notin> queued L s1" using t0 by (simp add: s1_def Let_def)
    note f = set_priority_fields(1) [OF i1 t1 p refl, of True]
    show ?thesis
      using f p True unfolding set_priority_inner_def Let_def s0_def [symmetric] s1_def
      by (simp add: Let_def split del: if_split cong: if_cong)
  next
    case False
    obtain s1 b where r: "remove_queued L t (upd_task t (save_lag L (virtual_time (update_virtual_time s0))) (update_virtual_time s0)) = (s1, b)"
      by (rule prod.exhaust)
    note rm = set_priority_removed [OF laws i0 False r]
    define s2 where "s2 = (let s = upd_task t (\<lambda>k. k\<lparr>priority := p\<rparr>) s1
      in if is_rt_priority p
         then upd_task t (\<lambda>k. let k = k\<lparr>has_saved_lag := False\<rparr> in if is_round_robin k then reset_rt_slice k else k) s
         else if False then let s = update_virtual_time s
                        in upd_task t (\<lambda>k. refresh_deadline L True (k\<lparr>vruntime := virtual_time s\<rparr>)) s
         else s)"
    note f = set_priority_fields [OF rm(1,2) p s2_def]
    have "eevdf_inv L (enqueue_at L t Migration now_ns s2)"
      by (rule enqueue_at_spec(1) [OF laws f(1) _ _ _ now]) (use f rm n0 in simp_all)
    moreover have "fst (set_priority_inner L t p now_ns s) = (if b then enqueue_at L t Migration now_ns s2 else s2)"
      using p False r unfolding set_priority_inner_def Let_def s0_def [symmetric] s2_def by (simp add: Let_def)
    ultimately show ?thesis using f(1) by simp
  qed
qed

section \<open>Running tasks\<close>

text \<open>Which operations change the mark of a running task, and for whom.\<close>

definition running :: "('te, 'ti, 'li) eevdf \<Rightarrow> nat set" where
  "running s = {x. is_running (tasks s x)}"

definition idle_ok :: "('te, 'ti, 'li) sched_lib \<Rightarrow> ('te, 'ti, 'li) eevdf \<Rightarrow> bool" where
  "idle_ok L s \<longleftrightarrow> queued L s \<inter> running s = {}"

lemma running_keep: "(\<And>k. is_running (f k) = is_running k) \<Longrightarrow> running (upd_task t f s) = running s"
  by (auto simp: running_def upd_task_def)

lemma is_running_keep [simp]:
  "is_running (account_runtime now_ns True k) = is_running k" "\<not> is_running (account_runtime now_ns False k)"
  "is_running (save_lag L vt k) = is_running k" "is_running (refresh_deadline L force k) = is_running k"
  "is_running (set_rt_policy p k) = is_running k" "is_running (reset_rt_slice k) = is_running k"
  by (simp_all add: account_runtime_def save_lag_def refresh_deadline_def set_rt_policy_def reset_rt_slice_def Let_def)

lemma running_frame [simp]:
  "running (advance_clock now_ns s) = running s" "running (update_virtual_time s) = running s"
  "running (s\<lparr>current := c\<rparr>) = running s" "running (upd_task t (start_running now_ns) s) = insert t (running s)"
  "running (upd_task t (account_runtime now_ns False) s) = running s - {t}"
  by (auto simp: running_def upd_task_def start_running_def)

lemma running_stop [simp]: "running (stop_task L t now_ns s) = running s - {t}"
  by (auto simp: stop_task_def Let_def running_keep running_def)

lemma running_cong: "tasks s = tasks s' \<Longrightarrow> running s = running s'"
  by (simp add: running_def)

lemma running_enqueue_rt: "running (enqueue_rt L t reason now_ns s) = running s - {t}"
  unfolding enqueue_rt_def Let_def
  by (subst running_cong [where s' = "if is_round_robin (tasks (stop_task L t now_ns s) t) \<and> \<not> (reason = Preempt \<and>
        (\<not> is_round_robin (tasks (stop_task L t now_ns s) t) \<or> is_round_robin (tasks (stop_task L t now_ns s) t) \<and>
          reason = Preempt \<and> rt_remaining (tasks (stop_task L t now_ns s) t) > 0))
      then upd_task t reset_rt_slice (stop_task L t now_ns s) else stop_task L t now_ns s"]) (auto simp: running_keep)

lemma tasks_promote_loop: "tasks (fst (promote_loop L n vt b s)) = tasks s"
  by (induction L n vt b s rule: promote_loop.induct) (auto split: option.split)

lemma running_promote [simp]: "running (promote_normal_eligible L vt s) = running s"
  using tasks_promote_loop [of L "length (rb_iter (ineligible_tree L) (normal_ineligible s))" vt False s]
  by (auto simp: promote_normal_eligible_def running_def note_normal_ineligible_remove_def split: prod.split)

lemma running_fields [simp]:
  "running (s\<lparr>normal_preemption_cache := c\<rparr>) = running s" "running (s\<lparr>normal_task_count := n\<rparr>) = running s"
  "running (s\<lparr>normal_eligible := e\<rparr>) = running s" "running (next_sequence s) = running s"
  "running (account_normal_insert t s) = running s" "running (insert_normal_ineligible L t s) = running s"
  by (simp_all add: running_def next_sequence_def account_normal_insert_def insert_normal_ineligible_def Let_def)

lemma running_insert_normal [simp]: "running (insert_normal L t s) = running s"
  by (simp add: insert_normal_def Let_def running_keep)

lemma running_place [simp]: "running (place_task L t reason s) = running s"
  by (simp add: place_task_def Let_def running_keep)

lemma running_yield [simp]: "running (yield_task L t now_ns s) = running s - {t}"
  by (simp add: yield_task_def Let_def running_keep)

lemma current_advance [simp]: "current (advance_clock now_ns s) = current s"
  by (simp add: advance_clock_def)

lemma running_enqueue:
  assumes "reason = Preempt \<or> reason = Yield \<or> current s = Some t \<and> reason \<noteq> Spawn \<or> t \<notin> running s"
  shows "running (enqueue_at L t reason now_ns s) = running s - {t}"
  using assms by (cases reason) (auto simp: enqueue_at_def Let_def running_enqueue_rt running_keep)

lemma idle_same: "idle_ok L s \<Longrightarrow> queued L s' \<subseteq> queued L s \<Longrightarrow> running s' \<subseteq> running s \<Longrightarrow> idle_ok L s'"
  by (auto simp: idle_ok_def)

lemma idle_enqueue:
  assumes "lib_laws L" and "eevdf_inv L s" and "t \<notin> queued L s" and "reason = Spawn \<Longrightarrow> current s \<noteq> Some t"
    and "reason = Preempt \<or> reason = Yield \<or> current s = Some t \<or> t \<notin> running s"
    and "card (normals L s) < max_tasks" and "now_ns \<le> usize_max" and "idle_ok L s"
  shows "idle_ok L (enqueue_at L t reason now_ns s)"
proof -
  have "running (enqueue_at L t reason now_ns s) = running s - {t}" using assms(4,5) by (intro running_enqueue) blast
  then show ?thesis using enqueue_at_spec(2) [OF assms(1-4,6,7)] assms(8) by (auto simp: idle_ok_def)
qed

lemma idle_pick:
  assumes "lib_laws L" and "eevdf_inv L s" and "now_ns \<le> usize_max" and "idle_ok L s"
  shows "idle_ok L (fst (pick_at L now_ns s))"
proof -
  obtain s' r where p: "pick_at L now_ns s = (s', r)" by (rule prod.exhaust)
  note sp = pick_at_spec [OF assms(1-3) p]
  show ?thesis by (rule idle_same [OF assms(4)]) (use sp(2,3) p in \<open>auto simp: running_def\<close>)
qed

lemma idle_remove:
  assumes laws: "lib_laws L" and inv: "eevdf_inv L s" and "idle_ok L s"
  shows "idle_ok L (fst (eevdf_remove L t s))"
proof (cases "current s = Some t")
  case True
  then show ?thesis using assms(3) by (simp add: eevdf_remove_def)
next
  case False
  let ?s1 = "upd_task t (save_lag L (virtual_time (update_virtual_time s))) (update_virtual_time s)"
  have i: "eevdf_inv L ?s1"
    by (rule inv_upd [OF inv_vt [OF inv]]) (use inv_ranges [OF inv_vt [OF inv]] inv_ranges(1) [OF inv] in simp_all)
  obtain s' b where r: "remove_queued L t ?s1 = (s', b)" by (rule prod.exhaust)
  note sp = remove_queued_spec [OF laws i r]
  have "running s' = running s" using running_cong [OF sp(4)] by (simp add: running_keep)
  then show ?thesis using sp(2) r False assms(3) by (auto simp: eevdf_remove_def Let_def idle_ok_def)
qed

lemma idle_unqueued:
  assumes "idle_ok L s" and "t \<notin> queued L s" and "queued L s' = queued L s" and "running s' \<subseteq> insert t (running s)"
  shows "idle_ok L s'"
  using assms by (auto simp: idle_ok_def)

lemma on_task_start_frame: "queued L (on_task_start L t now_ns s) = queued L s" "running (on_task_start L t now_ns s) = insert t (running s)"
  by (simp_all add: on_task_start_def Let_def running_keep)

lemma tick_at_frame:
  assumes laws: "lib_laws L" and inv: "eevdf_inv L s" and now: "now_ns \<le> usize_max" and t: "t \<notin> queued L s"
  shows "queued L (fst (tick_at L t now_ns s)) = queued L s" and "running (fst (tick_at L t now_ns s)) \<subseteq> insert t (running s)"
proof -
  define s0 where "s0 = advance_clock now_ns s"
  define s1 where "s1 = (if \<not> current s0 = Some t then upd_task t (start_running now_ns) (s0\<lparr>current := Some t\<rparr>)
    else upd_task t (account_runtime now_ns True) s0)"
  have i0: "eevdf_inv L s0" using inv_adv [OF inv now] by (simp add: s0_def)
  have t0: "t \<notin> queued L s0" using t by (simp add: s0_def)
  have i1: "eevdf_inv L s1" unfolding s1_def
    using inv_upd [OF inv_cur [OF i0 t0], of t "start_running now_ns"] inv_upd [OF i0, of t "account_runtime now_ns True"] t0
      inv_ranges(1) [OF i0, of t] now by simp
  have q: "queued L s0 = queued L s" "queued L s1 = queued L s" "running s0 = running s" "running s1 \<subseteq> insert t (running s)"
    by (auto simp: s1_def s0_def running_keep)
  have h: "queued L (fst (has_eligible_preemption L d s1)) = queued L s1 \<and> running (fst (has_eligible_preemption L d s1)) = running s1" for d
    using has_eligible_preemption_spec [OF laws i1, of d] by (cases "has_eligible_preemption L d s1") (simp add: running_def)
  show "queued L (fst (tick_at L t now_ns s)) = queued L s" "running (fst (tick_at L t now_ns s)) \<subseteq> insert t (running s)"
    unfolding tick_at_def Let_def s0_def [symmetric] s1_def [symmetric] using q h by (auto simp: running_keep)
qed

lemma candidate_frame:
  "queued L (fst (candidate_preempts cur candidate now_ns s)) = queued L s" "running (fst (candidate_preempts cur candidate now_ns s)) = running s"
  by (simp_all add: candidate_preempts_def Let_def running_keep)

lemma policy_frame: "queued L (set_rt_policy_at t p now_ns s) = queued L s" "running (set_rt_policy_at t p now_ns s) = running s"
  by (simp_all add: set_rt_policy_at_def Let_def running_keep)

lemma idle_set_priority:
  assumes laws: "lib_laws L" and inv: "eevdf_inv L s" and now: "now_ns \<le> usize_max" and n: "card (normals L s) < max_tasks"
    and idle: "idle_ok L s"
  shows "idle_ok L (fst (set_priority_inner L t p now_ns s))"
proof (cases "valid_priority p \<and> current s \<noteq> Some t")
  case False
  have "queued L (fst (set_priority_inner L t p now_ns s)) = queued L s" "running (fst (set_priority_inner L t p now_ns s)) = running s"
    using False by (auto simp: set_priority_inner_def Let_def running_keep)
  then show ?thesis using idle by (simp add: idle_ok_def)
next
  case True
  define s0 where "s0 = advance_clock now_ns s"
  have i0: "eevdf_inv L s0" using inv_adv [OF inv now] by (simp add: s0_def)
  obtain s1 b where r: "remove_queued L t (upd_task t (save_lag L (virtual_time (update_virtual_time s0))) (update_virtual_time s0)) = (s1, b)"
    by (rule prod.exhaust)
  have c0: "current s0 \<noteq> Some t" using True by (simp add: s0_def)
  note rm = set_priority_removed [OF laws i0 c0 r]
  have i: "eevdf_inv L (upd_task t (save_lag L (virtual_time (update_virtual_time s0))) (update_virtual_time s0))"
    by (rule inv_upd [OF inv_vt [OF i0]]) (use inv_ranges(1) [OF i0] inv_ranges(2) [OF inv_vt [OF i0]] in simp_all)
  note sp = remove_queued_spec [OF laws i r]
  have r1: "running s1 = running s" using running_cong [OF sp(4)] by (simp add: running_keep s0_def)
  have q1: "queued L s1 = queued L s - {t}" "b \<longleftrightarrow> t \<in> queued L s" using sp(2,3) by (simp_all add: s0_def)
  define s2 where "s2 = (let s = upd_task t (\<lambda>k. k\<lparr>priority := p\<rparr>) s1
      in if is_rt_priority p
         then upd_task t (\<lambda>k. let k = k\<lparr>has_saved_lag := False\<rparr> in if is_round_robin k then reset_rt_slice k else k) s
         else if False then let s = update_virtual_time s
                        in upd_task t (\<lambda>k. refresh_deadline L True (k\<lparr>vruntime := virtual_time s\<rparr>)) s
         else s)"
  note f = set_priority_fields [OF rm(1,2) conjunct1 [OF True] s2_def]
  have r2: "running s2 = running s" using r1 by (simp add: s2_def Let_def running_keep)
  have i2: "idle_ok L s2" using idle f(2) q1(1) r2 by (auto simp: idle_ok_def)
  have "idle_ok L (enqueue_at L t Migration now_ns s2)" if b
    by (rule idle_enqueue [OF laws f(1)])
      (use f rm n that q1 idle r2 i2 now in \<open>auto simp: idle_ok_def s0_def\<close>)
  moreover have "fst (set_priority_inner L t p now_ns s) = (if b then enqueue_at L t Migration now_ns s2 else s2)"
    using True c0 r unfolding set_priority_inner_def Let_def s0_def [symmetric] s2_def by (simp add: Let_def)
  ultimately show ?thesis using i2 by simp
qed

section \<open>Runs\<close>

text \<open>
  The calls of a run queue. It enqueues a task only while the task is not queued. A new, woken or migrated task is the
  current one of this processor or does not run: the wake-up of a task that is still being switched out elsewhere is
  deferred until it has stopped, only tasks off all processors are pulled over, and a new task has never run. A
  new task is not the current one. It starts a task that it has picked, or a new task, and ticks for the current
  task, which are not queued. It stops the previous task in each reschedule, also when a yield, a preemption or a
  wake-up of the current task has already queued it again. The number of ordinary tasks is bounded by \<open>2 ^ 40\<close>, far
  beyond what memory can hold.
\<close>

inductive eevdf_step :: "('te, 'ti, 'li) sched_lib \<Rightarrow> ('te, 'ti, 'li) eevdf \<Rightarrow> ('te, 'ti, 'li) eevdf \<Rightarrow> bool" for L where
  Enqueue: "t \<notin> queued L s \<Longrightarrow> (reason = Spawn \<Longrightarrow> current s \<noteq> Some t) \<Longrightarrow>
    reason = Preempt \<or> reason = Yield \<or> current s = Some t \<or> \<not> is_running (tasks s t) \<Longrightarrow>
    card (normals L s) < max_tasks \<Longrightarrow> now_ns \<le> usize_max \<Longrightarrow> eevdf_step L s (enqueue_at L t reason now_ns s)"
| Pick: "now_ns \<le> usize_max \<Longrightarrow> eevdf_step L s (fst (pick_at L now_ns s))"
| Remove: "eevdf_step L s (fst (eevdf_remove L t s))"
| Detach: "eevdf_step L s (fst (detach_normal_task L P s))"
| Start: "t \<notin> queued L s \<Longrightarrow> now_ns \<le> usize_max \<Longrightarrow> eevdf_step L s (on_task_start L t now_ns s)"
| Stop: "now_ns \<le> usize_max \<Longrightarrow> eevdf_step L s (on_task_stop L t now_ns s)"
| Tick: "t \<notin> queued L s \<Longrightarrow> now_ns \<le> usize_max \<Longrightarrow> eevdf_step L s (fst (tick_at L t now_ns s))"
| Candidate: "now_ns \<le> usize_max \<Longrightarrow> eevdf_step L s (fst (candidate_preempts cur candidate now_ns s))"
| Set_Priority: "card (normals L s) < max_tasks \<Longrightarrow> now_ns \<le> usize_max \<Longrightarrow>
    eevdf_step L s (fst (set_priority_inner L t p now_ns s))"
| Set_Policy: "now_ns \<le> usize_max \<Longrightarrow> eevdf_step L s (set_rt_policy_at t pol now_ns s)"
| Elsewhere: "t \<notin> queued L s \<Longrightarrow> task_ok k \<Longrightarrow> eevdf_step L s (upd_task t (\<lambda>_. k) s)"

lemma eevdf_step_inv:
  assumes "eevdf_step L s s'" and laws: "lib_laws L" and inv: "eevdf_inv L s" and idle: "idle_ok L s"
  shows "eevdf_inv L s'"
  using assms(1)
proof cases
  case (Pick now_ns)
  then show ?thesis using pick_at_spec(1) [OF laws inv, of now_ns] by (cases "pick_at L now_ns s") simp
next
  case (Stop now_ns t)
  then show ?thesis using on_task_stop_spec(1) [OF inv, of now_ns t] idle by (auto simp: idle_ok_def running_def)
next
  case (Elsewhere t k)
  then show ?thesis using inv_upd [OF inv, of t "\<lambda>_. k"] by simp
qed (simp_all add: enqueue_at_spec(1) [OF laws inv] eevdf_remove_inv [OF laws inv] detach_normal_task_spec(1) [OF laws inv]
  on_task_start_inv [OF inv] tick_at_inv [OF laws inv] candidate_preempts_inv [OF inv]
  set_priority_inner_inv [OF laws inv] set_rt_policy_at_inv [OF inv])

lemma eevdf_step_idle:
  assumes "eevdf_step L s s'" and laws: "lib_laws L" and inv: "eevdf_inv L s" and idle: "idle_ok L s"
  shows "idle_ok L s'"
  using assms(1)
proof cases
  case (Enqueue t reason now_ns)
  then show ?thesis using idle_enqueue [OF laws inv, of t reason now_ns] idle by (simp add: running_def)
next
  case (Detach P)
  then show ?thesis
    using detach_normal_task_spec(2,3) [OF laws inv, of P] by (intro idle_same [OF idle]) (auto simp: running_def)
next
  case (Start t now_ns)
  then show ?thesis using idle_unqueued [OF idle, of t] on_task_start_frame [of L t now_ns s] by simp
next
  case (Stop now_ns t)
  then have "queued L s' = queued L s"
    using on_task_stop_spec(2) [OF inv, of now_ns t] idle by (auto simp: idle_ok_def running_def)
  then show ?thesis using Stop by (intro idle_same [OF idle]) (auto simp: on_task_stop_def)
next
  case (Tick t now_ns)
  then show ?thesis using idle_unqueued [OF idle, of t s'] tick_at_frame [OF laws inv, of now_ns t] by simp
next
  case (Elsewhere t k)
  then show ?thesis by (intro idle_unqueued [OF idle, of t]) (auto simp: running_def upd_task_def)
qed (simp_all add: idle_pick [OF laws inv _ idle] idle_remove [OF laws inv idle] idle_set_priority [OF laws inv _ _ idle]
  idle_same [OF idle] candidate_frame policy_frame)

lemma eevdf_new_inv:
  assumes laws: "lib_laws L" and n: "eevdf_new L ts = Ok s" and ok: "\<And>t. task_ok (ts t)"
  shows "eevdf_inv L s" and "queued L s = {}"
proof -
  have s: "s = \<lparr>rt_queues = replicate 99 (ll_new (rt_list L)), rt_bitmap = 0, normal_eligible = rb_new (eligible_tree L),
        normal_ineligible = rb_new (ineligible_tree L), deadline_lower_bound = None, normal_task_count = 0,
        normal_total_weight = 0, normal_weighted_vruntime = 0, normal_preemption_cache = None, current = None,
        virtual_time = 0, sequence_no = 0, clock_ns = 0, tasks = ts\<rparr>"
    using n by (simp add: eevdf_new_def split: if_splits)
  have v: "el L s = []" "il L s = []" using lib_lawsD(1,2) [OF laws] by (simp_all add: s el_def il_def tree_laws_def)
  have q: "rtq L s i = []" if "i < 99" for i using lib_lawsD(3) [OF laws] that by (simp add: s rtq_def list_laws_def)
  have nm: "normals L s = {}" using v by (simp add: normals_def)
  show "queued L s = {}" using nm q by (auto simp: queued_def rts_def)
  have "trees_ok L s" "sums_ok L s" "cache_ok L s" using v nm by (simp_all add: trees_ok_def sums_ok_def cache_ok_def s)
  moreover have "rt_ok L s" using q by (auto simp: rt_ok_def s)
  moreover have "range_ok s" using ok by (simp add: range_ok_def s)
  ultimately show "eevdf_inv L s" by (simp add: eevdf_inv_def eevdf_core_def s)
qed

text \<open>
  C10: take a new scheduler and any sequence of calls that a run queue makes under its rules: it enqueues a task only while
  the task is not queued and, if it is new, woken or migrated, only while it is the current one or does not run
  (a new one is not the current one); it starts or ticks for a task only while the task is not queued; the number of
  ordinary tasks stays below \<open>2 ^ 40\<close>; and the clock fits in 64 bits. All other calls come in any order and with
  any arguments, a stop of a queued task included, as after each yield and preemption; other processors may change
  tasks that are not queued. Then every state that is reached is well-formed and every value has its machine type: the
  fields of all tasks, the clock, the virtual time and the sequence number fit in 64 bits, the lags are in the range of
  signed 64-bit numbers, and the priorities are valid. No task is queued twice, the current task is not queued, no
  queued task is marked as running, an ordinary task is never in a real-time queue, the trees are ordered by their keys,
  the count and the 128-bit aggregates are exactly those of the queued tasks, the bit map marks the real-time queues
  with tasks, and the cached answer to the preemption check is true.
\<close>

theorem eevdf_reachable_well_typed:
  assumes "lib_laws L" and "\<forall>t. task_ok (ts t)" and "eevdf_new L ts = Ok s0" and "(eevdf_step L)\<^sup>*\<^sup>* s0 s"
  shows "eevdf_inv L s \<and> (\<forall>t\<in>queued L s. \<not> is_running (tasks s t))"
proof -
  have "eevdf_inv L s \<and> idle_ok L s" using assms(4)
  proof (induction rule: rtranclp_induct)
    case base
    then show ?case using eevdf_new_inv [OF assms(1,3)] assms(2) by (simp add: idle_ok_def)
  next
    case (step s s')
    then show ?case using eevdf_step_inv [OF _ assms(1)] eevdf_step_idle [OF _ assms(1)] by blast
  qed
  then show ?thesis by (auto simp: idle_ok_def running_def)
qed

end
