(* ===== verification/Eevdf_Example.thy ===== *)
theory Eevdf_Example
  imports Eevdf_Step
begin

text \<open>
  Containers that keep the laws, a scheduler over them with three tasks, and the theorems about the scheduler at this
  state.
\<close>

section \<open>A scheduler over lists\<close>

text \<open>Containers as sorted lists and lists, with a base slice of a thousand nanoseconds.\<close>

definition list_tree :: "('k :: linorder, nat list) rbtree" where
  "list_tree = \<lparr>rb_new = [], rb_insert = insort_key, rb_remove = remove1, rb_iter = \<lambda>xs. xs\<rparr>"

definition list_queue :: "nat list linked_list" where
  "list_queue = \<lparr>ll_new = [], ll_push_front = Cons, ll_push_back = \<lambda>x xs. xs @ [x],
     ll_pop_front = \<lambda>xs. (tl xs, head_of xs), ll_remove = \<lambda>x xs. (remove1 x xs, x \<in> set xs), ll_iter = \<lambda>xs. xs\<rparr>"

definition example_lib :: "(nat list, nat list, nat list) sched_lib" where
  "example_lib = \<lparr>eligible_tree = list_tree, ineligible_tree = list_tree, rt_list = list_queue, base_slice = 1000\<rparr>"

lemma insort_key_sorted: "sorted_wrt (\<lambda>a b. key a \<le> key b) xs \<Longrightarrow> sorted_wrt (\<lambda>a b. key a \<le> key b) (insort_key key x xs)"
  using sorted_insort_key [of key x xs] by (simp only: sorted_map)

lemma list_tree_laws: "tree_laws list_tree"
  by (simp add: tree_laws_def list_tree_def insort_key_sorted)

lemma example_lib_laws: "lib_laws example_lib"
  by (simp add: lib_laws_def example_lib_def list_tree_laws list_laws_def list_queue_def)

text \<open>
  Three ordinary tasks: task 0 is at nice 0, task 1 at nice -20 and task 2 at nice 19. The average virtual time is 60, so
  tasks 0 and 1 are eligible; task 0 is the furthest behind, and task 1 has the earlier deadline.
\<close>

definition example_tasks :: "nat \<Rightarrow> eevdf_task" where
  "example_tasks t =
     (if t = 0 then task_new\<lparr>vruntime := 50, virtual_deadline := 1050, queue_id := 1\<rparr>
      else if t = 1 then task_new\<lparr>priority := - 120, vruntime := 60, virtual_deadline := 71, queue_id := 2\<rparr>
      else if t = 2 then task_new\<lparr>priority := - 81, vruntime := 5000, virtual_deadline := 73266, queue_id := 3\<rparr>
      else task_new)"

definition example_sched :: "(nat list, nat list, nat list) eevdf" where
  "example_sched = \<lparr>rt_queues = replicate 99 [], rt_bitmap = 0, normal_eligible = [1, 0], normal_ineligible = [2],
     deadline_lower_bound = Some 73266, normal_task_count = 3, normal_total_weight = 89800, normal_weighted_vruntime = 5451860,
     normal_preemption_cache = None, current = None, virtual_time = 60, sequence_no = 3, clock_ns = 900, tasks = example_tasks\<rparr>"

lemma example_lists:
  "el example_lib example_sched = [1, 0]" "il example_lib example_sched = [2]" "normals example_lib example_sched = {0, 1, 2}"
  "i < 99 \<Longrightarrow> rtq example_lib example_sched i = []" "rts example_lib example_sched = {}"
  by (auto simp: el_def il_def normals_def rtq_def rts_def example_lib_def example_sched_def list_tree_def list_queue_def)

lemma example_tasks_ok: "task_ok (example_tasks t)"
  by (simp add: example_tasks_def task_ok_def task_new_def valid_priority_def is_rt_priority_def)

lemma example_weights: "weight (example_tasks 0) = 1024" "weight (example_tasks (Suc 0)) = 88761" "weight (example_tasks 2) = 15"
  by (simp_all add: weight_def nice_def example_tasks_def task_new_def NICE_TO_WEIGHT_def)

lemma example_inv: "eevdf_inv example_lib example_sched"
proof -
  have "trees_ok example_lib example_sched"
    unfolding trees_ok_def example_lists
    by (simp add: example_sched_def example_tasks_def task_new_def eligible_key_def ineligible_key_def is_rt_def)
  moreover have "sums_ok example_lib example_sched"
    unfolding sums_ok_def example_lists
    by (simp add: example_sched_def example_weights) (simp add: example_tasks_def)
  moreover have "rt_ok example_lib example_sched" using example_lists(4) by (auto simp: rt_ok_def) (simp_all add: example_sched_def)
  moreover have "range_ok example_sched" by (simp add: range_ok_def example_sched_def example_tasks_ok)
  ultimately show ?thesis by (simp add: eevdf_inv_def eevdf_core_def cache_ok_def example_sched_def)
qed

lemmas example_eval = example_sched_def example_lib_def list_tree_def advance_clock_def update_virtual_time_def fair_sums_def
  promote_normal_eligible_def head_of_def

lemma example_pick: "snd (pick_at example_lib 1000 example_sched) = Some 1"
  by (simp add: pick_at_def pick_normal_def pick_normal_from_eligible_def example_eval)
    (simp add: example_tasks_def)

theorem pick_next_prescribed_witness:
  "snd (pick_at example_lib 1000 example_sched) = Some 1 \<and> prescribed example_lib example_sched 1 \<and>
   queued example_lib (fst (pick_at example_lib 1000 example_sched)) = {0, 2}"
proof -
  obtain s' r where p: "pick_at example_lib 1000 example_sched = (s', r)" by (rule prod.exhaust)
  have "queued example_lib example_sched - {1} = {0, 2}" by (auto simp: queued_def example_lists)
  then show ?thesis using pick_next_prescribed [OF example_lib_laws example_inv _ p] example_pick p by simp
qed

lemma example_preemption:
  "snd (has_eligible_preemption example_lib 100 example_sched)" "\<not> snd (has_eligible_preemption example_lib 70 example_sched)"
  by (simp_all add: has_eligible_preemption_def Let_def normal_eligible_deadline_def example_eval)
    (simp_all add: example_tasks_def normal_eligible_deadline_def)

theorem has_eligible_preemption_exact_witness:
  "snd (has_eligible_preemption example_lib 100 example_sched) \<and>
   (\<exists>t. t \<in> eligible example_lib example_sched \<and> virtual_deadline (tasks example_sched t) < 100) \<and>
   eevdf_inv example_lib (fst (has_eligible_preemption example_lib 100 example_sched))"
proof -
  obtain s' b where p: "has_eligible_preemption example_lib 100 example_sched = (s', b)" by (rule prod.exhaust)
  show ?thesis using has_eligible_preemption_exact [OF example_lib_laws example_inv p] example_preemption(1) p by auto
qed

section \<open>A run\<close>

definition example_new :: "(nat list, nat list, nat list) eevdf" where
  "example_new = (case eevdf_new example_lib example_tasks of Ok s \<Rightarrow> s)"

lemma example_new_Ok: "eevdf_new example_lib example_tasks = Ok example_new"
  by (simp add: example_new_def eevdf_new_def example_lib_def)

text \<open>Task 0 is spawned, picked and started, it yields, and is stopped while it is queued.\<close>

definition example_started :: "(nat list, nat list, nat list) eevdf" where
  "example_started = on_task_start example_lib 0 30 (fst (pick_at example_lib 20 (enqueue_at example_lib 0 Spawn 10 example_new)))"

definition example_run :: "(nat list, nat list, nat list) eevdf" where
  "example_run = on_task_stop example_lib 0 50 (enqueue_at example_lib 0 Yield 40 example_started)"

lemma example_started_steps:
  "(eevdf_step example_lib)\<^sup>*\<^sup>* example_new example_started" "eevdf_inv example_lib example_started"
  "queued example_lib example_started = {}"
proof -
  let ?L = example_lib
  note n = eevdf_new_inv [OF example_lib_laws example_new_Ok example_tasks_ok]
  have cur: "current example_new \<noteq> Some 0" "\<not> is_running (tasks example_new 0)" and nn: "card (normals ?L example_new) < max_tasks"
    using n(2) by (simp_all add: queued_def)
      (simp_all add: example_new_def eevdf_new_def example_lib_def example_tasks_def task_new_def)
  let ?s1 = "enqueue_at ?L 0 Spawn 10 example_new"
  have 1: "eevdf_step ?L example_new ?s1" by (rule Enqueue) (use n(2) cur nn in simp_all)
  note e = enqueue_at_spec [OF example_lib_laws n(1), of 0 Spawn 10]
  have i1: "eevdf_inv ?L ?s1" "queued ?L ?s1 = {0}" using e n(2) cur nn by simp_all
  obtain s2 r where p: "pick_at ?L 20 ?s1 = (s2, r)" by (rule prod.exhaust)
  note sp = pick_at_spec(1) [OF example_lib_laws i1(1) _ p]
  have i2: "eevdf_inv ?L s2" "queued ?L s2 = {}" using sp i1(2) by (auto split: option.splits)
  have 2: "eevdf_step ?L ?s1 s2" using Pick [of 20 ?L ?s1] p by simp
  have 3: "eevdf_step ?L s2 example_started" unfolding example_started_def p fst_conv by (rule Start) (simp_all add: i2(2))
  show "(eevdf_step ?L)\<^sup>*\<^sup>* example_new example_started"
    using 1 2 3 by (meson converse_rtranclp_into_rtranclp rtranclp.rtrancl_refl)
  show "eevdf_inv ?L example_started" unfolding example_started_def p fst_conv by (rule on_task_start_inv) (simp_all add: i2)
  show "queued ?L example_started = {}" unfolding example_started_def p fst_conv by (simp add: on_task_start_frame i2(2))
qed

lemma example_run_steps: "(eevdf_step example_lib)\<^sup>*\<^sup>* example_new example_run" "queued example_lib example_run = {0}"
proof -
  let ?L = example_lib and ?s1 = "enqueue_at example_lib 0 Yield 40 example_started"
  note st = example_started_steps
  have n: "card (normals ?L example_started) < max_tasks" using st(3) by (simp add: queued_def)
  have 1: "eevdf_step ?L example_started ?s1" by (rule Enqueue) (use st(3) n in simp_all)
  have 2: "eevdf_step ?L ?s1 example_run" unfolding example_run_def by (rule Stop) simp
  show "(eevdf_step ?L)\<^sup>*\<^sup>* example_new example_run" using st(1) 1 2 by (meson rtranclp.rtrancl_into_rtrancl)
  note e = enqueue_at_spec [OF example_lib_laws st(2), of 0 Yield 40]
  have i: "eevdf_inv ?L ?s1" "queued ?L ?s1 = {0}" using e st(3) n by simp_all
  have "\<not> is_running (tasks ?s1 0)" using running_enqueue [of Yield example_started 0 ?L 40] by (auto simp: running_def)
  then show "queued ?L example_run = {0}" unfolding example_run_def using on_task_stop_spec(2) [OF i(1), of 50 0] i(2) by simp
qed

theorem eevdf_reachable_well_typed_witness:
  "(eevdf_step example_lib)\<^sup>*\<^sup>* example_new example_run \<and> eevdf_inv example_lib example_run \<and>
   queued example_lib example_run = {0} \<and> \<not> is_running (tasks example_run 0)"
  using eevdf_reachable_well_typed [OF example_lib_laws _ example_new_Ok example_run_steps(1)] example_run_steps example_tasks_ok by simp

end
