(* ===== verification/Spec2Isabelle.thy ===== *)
theory Spec2Isabelle
  imports Prelude Bytes Fd_Table Bpf_Insn Bpf_Ring_Buffer Bpf_Map Bpf_Verifier Bpf_Verifier_Safety Bpf_Interpreter Bpf_Soundness
    Lock_Target Record_Lock Wait_Queue Record_Lock_Sync Flock
    Btree_Map Memory_Addr Page_Iter Memory_Set Memory_Set_Refine Memory_Set_Protect Memory_Set_Free Memory_Set_Drain
    Eevdf Eevdf_Inv Eevdf_Ops Eevdf_Pick Eevdf_Step Eevdf_Example
begin

text \<open>
  A verification library for the core of the PulseOS kernel, which is written in Rust: the eBPF subsystem, the
  descriptor table of a process, the two kinds of file locks with their wait queues, the set of memory areas of an
  address space, and the scheduling policy. System calls reach these parts through thin handlers, and each part
  keeps its own state; the parts meet where the theories below import each other. File names are relative to
  \<^verbatim>\<open>src/\<close>.

  \<^bold>\<open>Conventions.\<close> \<open>Prelude\<close> has the error numbers, the type \<open>outcome\<close> with the values \<open>Ok\<close>, \<open>Err\<close> and \<open>Panic\<close>
  (an index out of range, a failed assertion, an \<open>unwrap\<close> of nothing), and the machine arithmetic and bit scans that
  the components share. \<open>Bytes\<close> has the little-endian encodings. A struct is a record, an enum a datatype, a function one
  definition with the name of the source. State is passed explicitly. An \<open>Arc\<close> of an immutable value is the value; where
  sharing matters, as for wait queues, tasks and scheduler tasks, objects are numbers in a store. An integer whose
  overflow matters is a word; elsewhere it is a number with the saturation or the check of the code written out.
  Code outside the repository (the intrusive containers, the resolver of descriptors, clocks, the backend of a memory
  area) is a parameter, and what is needed of it is a named hypothesis.

  \<^bold>\<open>eBPF\<close> (\<^verbatim>\<open>pulse_core/src/bpf\<close>).
  \<^item> \<open>Bpf_Insn\<close> is the instruction encoding of \<^verbatim>\<open>insn.rs\<close>.
  \<^item> \<open>Bpf_Ring_Buffer\<close> is \<^verbatim>\<open>ring_buffer.rs\<close>: records come out in the order and with the bytes they went in, also
    across the end of the buffer; the locale \<open>bounded_queue\<close> is its contract.
  \<^item> \<open>Bpf_Map\<close> is \<^verbatim>\<open>map.rs\<close>: an update is seen by the lookups and fails exactly with the errors that the
    presence of the key, the flags and the size of the map call for, the last write wins, the iteration by keys visits
    every key and ends with \<open>ENOENT\<close>, and the kernel-wide memory budget is exact in every reachable registry. The locale \<open>element_store\<close> is
    the contract of the element operations.
  \<^item> \<open>Bpf_Verifier\<close> is \<^verbatim>\<open>verifier.rs\<close>. \<open>Bpf_Verifier_Safety\<close> shows what its first pass establishes and
    when the verifier cannot panic; a program that makes it panic is given. The answers of the resolver may
    change while the verifier runs, as the descriptor table of the process may.
  \<^item> \<open>Bpf_Interpreter\<close> is \<^verbatim>\<open>interpreter.rs\<close> and the counters of \<^verbatim>\<open>program.rs\<close>. \<open>Bpf_Soundness\<close> joins both: a
    program that is accepted while its descriptors keep denoting the same maps neither panics nor makes an invalid
    access, and it stops within as many steps as it has instructions, which is below the step limit of the virtual
    machine. Without that condition, \<open>same_maps\<close>, a map reference that is examined twice may be verified against
    another map than the one it is relocated to.

  \<^bold>\<open>Descriptors\<close> (\<^verbatim>\<open>pulse_core/src/fd_table/table.rs\<close>). \<open>Fd_Table\<close> has the chunked table with its bit maps and its count.
  The lowest free descriptor is allocated, the bit maps and the count are exact in every table that the operations reach,
  and the range operations and \<open>exec\<close> remove or mark what they should; for a range that ends behind the allocated
  chunks the theorems say which descriptors are missed. The allocator behind the snapshot of objects is a parameter. The locale \<open>descriptor_map\<close> is the contract of the table as a map.

  \<^bold>\<open>File locks\<close> (\<^verbatim>\<open>pulse_core/src/record_lock.rs\<close>, \<^verbatim>\<open>pulse_core/src/flock.rs\<close>, \<^verbatim>\<open>modules/axtask/src/wait_queue.rs\<close>).
  \<^item> \<open>Lock_Target\<close> is the key of the lock tables, and \<open>Wait_Queue\<close> is the queue that a blocked caller waits in: what a
    notification of one or all does to the tasks and wakers, and that notifying all is notifying one by one.
  \<^item> \<open>Record_Lock\<close> has the entries of one file and the operations on the sharded table. They refine the map from an
    owner and a byte to the lock held there, and the stored entries are the canonical ones.
  \<^item> \<open>Record_Lock_Sync\<close> has the threads, with one step for each critical section; the release of an owner visits one shard
    in a step, and the notifications that follow come one by one. In every reachable state no two owners hold
    conflicting locks, and a waiter that sleeps while its lock is free is woken by the pending steps of the other threads
    alone, which are enabled and end.
  \<^item> \<open>Flock\<close> has the whole-file locks in the same way, with separate steps for the spin locks of the table and of the
    queue, for the tasks of a notification, and for signals to a sleeper. Exclusion holds; a deadlock of two processors and a lost wake-up are reachable.

  \<^bold>\<open>Memory areas\<close> (\<^verbatim>\<open>crates/memory_addr/src\<close>, \<^verbatim>\<open>crates/memory_set/src\<close>, \<^verbatim>\<open>modules/axmm/src/aspace.rs\<close>).
  \<^item> \<open>Memory_Addr\<close> has addresses and ranges, \<open>Page_Iter\<close> the page iterators, and \<open>Btree_Map\<close> the part of the ordered
    map of the standard library that the areas need.
  \<^item> \<open>Memory_Set\<close> has the areas and every operation on the set. \<open>Memory_Set_Refine\<close> and \<open>Memory_Set_Protect\<close> show that
    mapping, unmapping and protecting change the map from addresses to flags and backends as they should for any
    behaviour of the backend, failures included. \<open>Memory_Set_Free\<close> says which address the search for a free range
    finds, when this may lie past the limit and when it may be in use, and \<open>Memory_Set_Drain\<close> is about the teardown of an address space.

  \<^bold>\<open>Scheduler\<close> (\<^verbatim>\<open>crates/eevdf-scheduler/src/eevdf.rs\<close>).
  \<^item> \<open>Eevdf\<close> has the tasks, the two trees of ordinary tasks, the real-time queues and every operation.
  \<^item> \<open>Eevdf_Inv\<close> has the invariant, and \<open>Eevdf_Ops\<close> shows that the steps on the queues keep it. \<open>Eevdf_Pick\<close> shows that the
    task picked and the answer to the preemption check are those that the policy prescribes for the set of
    queued tasks; the fair time it refers to is the weighted average over the tasks, which the incremental sums of
    the code are shown to give. \<open>Eevdf_Step\<close> has the calls of a run queue as a step relation, with the rules that
    the run queue follows as its guards, and the invariant in every reachable state; no queued task is running. \<open>Eevdf_Example\<close> instantiates the containers and evaluates an example.

  \<^bold>\<open>Loops and bounds.\<close> Recursions that are not structural have termination proofs. A counter stands for fuel in two
  places. The promotion loop of the scheduler gets the number of ineligible tasks, each turn removes one, and no
  task that should move is left. A loop over a page iterator returns for all fuel above the number of pages. The
  sums of the scheduler are exact for at most \<open>2 ^ 40\<close> queued tasks, so that the 128-bit values do not saturate. The
  step relations of the locks bound neither the number of threads nor that of files.

  \<^bold>\<open>Not modelled.\<close> The other parts need hardware, user memory or devices, or are vendored: page tables and the memory
  backends, run queues, context switches and timers (with the timed and multi-queue waits), tasks and signals, file
  systems and descriptor objects, sockets and the network stack, allocators, drivers, interrupts, boot code, and the
  dispatch of system calls. Of the modelled files, the diagnostic log of the verifier and the structures that report on
  maps and programs to user space are left out. Memory ordering of atomic operations is not represented: a
  critical section is one step.
\<close>

end
